(* ===== verification/Prelude.thy ===== *)
theory Prelude
  imports Main "HOL-Library.Word"
begin

text \<open>
  Shared vocabulary of the development.  A C++ exception is a value of type \<open>exn\<close>, whose
  constructors are the exception classes the sources throw; a fallible function returns
  \<open>exn + 'a\<close> (\<open>Inl\<close>: the exception that leaves the function).  An operation that may
  change its object before it throws returns the pair of that outcome and the new object.
  Exhausted memory (\<open>std::bad_alloc\<close>) and exceptions thrown by user callbacks are not
  modelled; element copies and moves are pure.  The theory also holds the loop and list
  lemmas that several components use, and the collections of facts their proofs share.
\<close>

section \<open>Exceptions\<close>

datatype exn =
    LengthError string
  | LogicError string
  | OutOfRange string
  | InvalidArgument string
  | OverflowError string
  | RuntimeError string
  | Fault string \<comment> \<open>\<open>CustomException::Fault\<close>, with the function name it records\<close>

type_synonym 'a res = "exn + 'a"

fun res_bind :: "'e + 'a \<Rightarrow> ('a \<Rightarrow> 'e + 'b) \<Rightarrow> 'e + 'b" where
  "res_bind (Inl e) f = Inl e"
| "res_bind (Inr a) f = f a"

lemma res_bind_eq_Inr [simp]: "res_bind r f = Inr b \<longleftrightarrow> (\<exists>a. r = Inr a \<and> f a = Inr b)"
  by (cases r) auto

lemma res_bind_eq_Inl: "res_bind r f = Inl e \<longleftrightarrow> r = Inl e \<or> (\<exists>a. r = Inr a \<and> f a = Inl e)"
  by (cases r) auto

lemma res_bind_cong [fundef_cong]:
  "r = r' \<Longrightarrow> (\<And>a. r' = Inr a \<Longrightarrow> f a = g a) \<Longrightarrow> res_bind r f = res_bind r' g"
  by (cases r') auto

section \<open>Proof collections\<close>

named_theorems vec_simps \<open>what each vector operation does to size, capacity and elements\<close>
named_theorems inv_intros \<open>operations that keep a component's invariant\<close>

section \<open>Lists\<close>

lemma list_update_Suc_nth_shift:
  "i < length xs \<Longrightarrow> take (Suc i) (xs[i := x]) = take i xs @ [x]"
  by (simp add: take_Suc_conv_app_nth)

lemma distinct_mid_notin: "distinct (xs @ x # ys) \<Longrightarrow> x \<notin> set xs \<and> x \<notin> set ys"
  by auto

lemma find_Some_in: "List.find P xs = Some x \<Longrightarrow> x \<in> set xs \<and> P x"
  by (induction xs) (auto split: if_splits)

lemma find_None_iff_all: "List.find P xs = None \<longleftrightarrow> (\<forall>x\<in>set xs. \<not> P x)"
  by (induction xs) auto

section \<open>Decimal numbers\<close>

text \<open>What \<open>std::to_string\<close> prints.\<close>

fun nat_text :: "nat \<Rightarrow> string" where
  "nat_text n = (if n < 10 then [char_of (48 + n)] else nat_text (n div 10) @ [char_of (48 + n mod 10)])"

declare nat_text.simps [simp del]

definition int_text :: "int \<Rightarrow> string" where
  "int_text i = (if i < 0 then CHR ''-'' # nat_text (nat (- i)) else nat_text (nat i))"

definition digit_char :: "char \<Rightarrow> bool" where
  "digit_char c \<longleftrightarrow> 48 \<le> (of_char c :: nat) \<and> (of_char c :: nat) \<le> 57"

lemma of_char_digit: "n < 10 \<Longrightarrow> of_char (char_of (48 + n :: nat)) = (48 + n :: nat)"
  by simp

lemma nat_text_digits: "\<forall>c \<in> set (nat_text n). digit_char c"
proof (induction n rule: nat_text.induct)
  case (1 n)
  then show ?case by (subst nat_text.simps) (auto simp: digit_char_def)
qed

lemma nat_text_nonempty: "nat_text n \<noteq> []"
  by (subst nat_text.simps) simp

lemma foldl_digits: "foldl (\<lambda>n c. 10 * n + (of_char c - 48)) 0 (nat_text n) = (n :: nat)"
proof (induction n rule: nat_text.induct)
  case (1 n)
  show ?case
  proof (cases "n < 10")
    case True
    then show ?thesis by (subst nat_text.simps) simp
  next
    case False
    with 1 show ?thesis by (subst nat_text.simps) (simp add: foldl_append)
  qed
qed

section \<open>64-bit words\<close>

lemma word_unat_bound: "unat (w :: 64 word) < 2 ^ 64"
  using unsigned_less [of w] by simp

end
