(* ===== verification/Vectors.thy ===== *)
theory Vectors
  imports Prelude
begin

text \<open>
  The contiguous dynamic array of \<open>Wan/Container/Vector.hpp\<close>.  The three pointers of the
  class are read as the list of constructed elements (\<open>vec_data\<close>, from
  \<open>MemberDataPointer\<close> to \<open>MemberSizePointer\<close>) and the number of allocated slots
  (\<open>vec_cap\<close>, 0 for a null data pointer).  What depends on the element type and its
  allocator is the record \<open>traits\<close>: \<open>MaxSize()\<close>, and whether elements may be
  relocated (copy constructible, or with a move that does not throw).  A reference argument
  that may point into the vector itself is a \<open>vref\<close>, as \<open>ContainsAddress\<close>
  distinguishes the two cases.
\<close>

record 'a vector =
  vec_data :: "'a list"
  vec_cap :: nat

record traits =
  max_size :: nat
  relocatable :: bool

datatype 'a vref = Outside 'a | Inside nat

definition vec_empty :: "'a vector" where
  "vec_empty = \<lparr>vec_data = [], vec_cap = 0\<rparr>"

definition vec_size :: "'a vector \<Rightarrow> nat" where
  "vec_size v = length (vec_data v)"

definition vec_null :: "'a vector \<Rightarrow> bool" where
  "vec_null v \<longleftrightarrow> vec_size v = 0"

text \<open>The class invariant: constructed elements fit the allocation, which fits the allocator.\<close>

definition vec_ok :: "traits \<Rightarrow> 'a vector \<Rightarrow> bool" where
  "vec_ok tr v \<longleftrightarrow> vec_size v \<le> vec_cap v \<and> vec_cap v \<le> max_size tr"

fun contains_address :: "'a vector \<Rightarrow> 'a vref \<Rightarrow> bool" where
  "contains_address v (Outside x) = False"
| "contains_address v (Inside i) = (i < vec_size v)"

fun deref :: "'a vector \<Rightarrow> 'a vref \<Rightarrow> 'a" where
  "deref v (Outside x) = x"
| "deref v (Inside i) = vec_data v ! i"

section \<open>Allocation\<close>

definition growth_capacity :: "traits \<Rightarrow> 'a vector \<Rightarrow> nat \<Rightarrow> nat res" where
  "growth_capacity tr v req =
     (if max_size tr < req then Inl (LengthError ''Vector capacity exceeds max_size'')
      else
        (let new = (if vec_cap v = 0 then min 10 (max_size tr)
                    else if max_size tr div 2 < vec_cap v then max_size tr
                    else vec_cap v * 2)
         in Inr (if new < req then req else new)))"

definition ensure_relocation_is_safe :: "traits \<Rightarrow> 'a vector \<Rightarrow> unit res" where
  "ensure_relocation_is_safe tr v =
     (if \<not> relocatable tr \<and> \<not> vec_null v
      then Inl (LogicError ''Vector growth requires copy construction or a non-throwing move'')
      else Inr ())"

definition reallocate_with_tail :: "traits \<Rightarrow> nat \<Rightarrow> 'a list \<Rightarrow> 'a vector \<Rightarrow> 'a vector res" where
  "reallocate_with_tail tr newsize tail v =
     res_bind (ensure_relocation_is_safe tr v) (\<lambda>_.
     res_bind (growth_capacity tr v newsize) (\<lambda>newcap.
       Inr \<lparr>vec_data = vec_data v @ tail, vec_cap = newcap\<rparr>))"

definition reallocate_with_prepend :: "traits \<Rightarrow> 'a \<Rightarrow> 'a vector \<Rightarrow> 'a vector res" where
  "reallocate_with_prepend tr x v =
     (if vec_size v = max_size tr then Inl (LengthError ''Vector size exceeds max_size'')
      else
        res_bind (ensure_relocation_is_safe tr v) (\<lambda>_.
        res_bind (growth_capacity tr v (vec_size v + 1)) (\<lambda>newcap.
          Inr \<lparr>vec_data = x # vec_data v, vec_cap = newcap\<rparr>)))"

definition ensure_capacity :: "traits \<Rightarrow> nat \<Rightarrow> 'a vector \<Rightarrow> 'a vector res" where
  "ensure_capacity tr req v =
     (if req \<le> vec_cap v then Inr v
      else
        res_bind (ensure_relocation_is_safe tr v) (\<lambda>_.
        res_bind (growth_capacity tr v req) (\<lambda>newcap.
          Inr (v\<lparr>vec_cap := newcap\<rparr>))))"

definition append_constructed :: "traits \<Rightarrow> 'a \<Rightarrow> 'a vector \<Rightarrow> 'a vector res" where
  "append_constructed tr x v =
     (if vec_size v = max_size tr then Inl (LengthError ''Vector size exceeds max_size'')
      else if vec_size v = vec_cap v then reallocate_with_tail tr (vec_size v + 1) [x] v
      else Inr (v\<lparr>vec_data := vec_data v @ [x]\<rparr>))"

section \<open>Element access\<close>

text \<open>\<open>Front()\<close> and \<open>Back()\<close> do not check; on an empty vector they are undefined behaviour.\<close>

definition vec_front :: "'a vector \<Rightarrow> 'a" where
  "vec_front v = hd (vec_data v)"

definition vec_back :: "'a vector \<Rightarrow> 'a" where
  "vec_back v = last (vec_data v)"

definition vec_head :: "'a vector \<Rightarrow> 'a res" where
  "vec_head v = (if vec_null v then Inl (OutOfRange ''Vector::Head called on an empty vector'')
                 else Inr (hd (vec_data v)))"

definition vec_tail :: "'a vector \<Rightarrow> 'a res" where
  "vec_tail v = (if vec_null v then Inl (OutOfRange ''Vector::Tail called on an empty vector'')
                 else Inr (last (vec_data v)))"

definition vec_find :: "'a vector \<Rightarrow> nat \<Rightarrow> 'a res" where
  "vec_find v i = (if vec_size v \<le> i then Inl (Fault ''vector::find'')
                   else Inr (vec_data v ! i))"

definition vec_at :: "'a vector \<Rightarrow> nat \<Rightarrow> 'a res" where
  "vec_at v i = (if vec_size v \<le> i then Inl (Fault ''vector::operator[]'')
                 else Inr (vec_data v ! i))"

text \<open>Assignment through the reference that \<open>operator[]\<close> returns.\<close>

definition vec_put :: "'a vector \<Rightarrow> nat \<Rightarrow> 'a \<Rightarrow> 'a vector res" where
  "vec_put v i x = res_bind (vec_at v i) (\<lambda>_. Inr (v\<lparr>vec_data := (vec_data v)[i := x]\<rparr>))"

section \<open>Construction and resizing\<close>

definition vec_size_adjust :: "traits \<Rightarrow> nat \<Rightarrow> 'a vref \<Rightarrow> 'a vector \<Rightarrow> 'a vector res" where
  "vec_size_adjust tr n pad v =
     (if max_size tr < n then Inl (LengthError ''Vector size exceeds max_size'')
      else if n < vec_size v then Inr (v\<lparr>vec_data := take n (vec_data v)\<rparr>)
      else if n = vec_size v then Inr v
      else
        (let fill = deref v pad; tail = replicate (n - vec_size v) fill
         in if vec_cap v < n then reallocate_with_tail tr n tail v
            else Inr (v\<lparr>vec_data := vec_data v @ tail\<rparr>)))"

definition vec_resize :: "traits \<Rightarrow> nat \<Rightarrow> 'a vector \<Rightarrow> 'a vector res" where
  "vec_resize tr n v = ensure_capacity tr n v"

fun append_all :: "traits \<Rightarrow> 'a list \<Rightarrow> 'a vector \<Rightarrow> 'a vector res" where
  "append_all tr [] v = Inr v"
| "append_all tr (x # xs) v = res_bind (append_constructed tr x v) (append_all tr xs)"

definition vec_copy :: "traits \<Rightarrow> 'a vector \<Rightarrow> 'a vector res" where
  "vec_copy tr src =
     res_bind (vec_resize tr (vec_cap src) vec_empty) (append_all tr (vec_data src))"

definition vec_fill :: "traits \<Rightarrow> nat \<Rightarrow> 'a \<Rightarrow> 'a vector res" where
  "vec_fill tr n x = vec_size_adjust tr n (Outside x) vec_empty"

definition vec_of_list :: "traits \<Rightarrow> 'a list \<Rightarrow> 'a vector res" where
  "vec_of_list tr xs =
     res_bind (ensure_capacity tr (length xs) vec_empty) (\<lambda>v. Inr (v\<lparr>vec_data := xs\<rparr>))"

text \<open>The moved-to and the moved-from vector.\<close>

definition vec_move :: "'a vector \<Rightarrow> 'a vector \<times> 'a vector" where
  "vec_move src = (src, vec_empty)"

section \<open>Insertion and removal\<close>

definition vec_push_back :: "traits \<Rightarrow> 'a vref \<Rightarrow> 'a vector \<Rightarrow> 'a vector res" where
  "vec_push_back tr r v =
     (if contains_address v r then (let staged = deref v r in append_constructed tr staged v)
      else append_constructed tr (deref v r) v)"

definition vec_pop_back :: "'a vector \<Rightarrow> 'a vector" where
  "vec_pop_back v = (if vec_null v then v else v\<lparr>vec_data := butlast (vec_data v)\<rparr>)"

text \<open>The assignment loop of \<open>PushFront\<close>: slots \<open>I\<close> down to 1 take their left neighbour.\<close>

fun shift_right :: "nat \<Rightarrow> 'a list \<Rightarrow> 'a list" where
  "shift_right 0 xs = xs"
| "shift_right (Suc i) xs = shift_right i (xs[Suc i := xs ! i])"

definition vec_push_front_value :: "traits \<Rightarrow> 'a \<Rightarrow> 'a vector \<Rightarrow> 'a vector res" where
  "vec_push_front_value tr x v =
     (let n = vec_size v; xs = vec_data v in
      if n = max_size tr then Inl (LengthError ''Vector size exceeds max_size'')
      else if n = vec_cap v then reallocate_with_prepend tr x v
      else if n = 0 then Inr (v\<lparr>vec_data := [x]\<rparr>)
      else Inr (v\<lparr>vec_data := (shift_right (n - 1) (xs @ [xs ! (n - 1)]))[0 := x]\<rparr>))"

definition vec_push_front :: "traits \<Rightarrow> 'a vref \<Rightarrow> 'a vector \<Rightarrow> 'a vector res" where
  "vec_push_front tr r v =
     (if contains_address v r then (let staged = deref v r in vec_push_front_value tr staged v)
      else vec_push_front_value tr (deref v r) v)"

text \<open>The assignment loop of \<open>PopFront\<close> and \<open>Erase\<close>: slots from \<open>i\<close> on move one to the left.\<close>

function shift_left :: "nat \<Rightarrow> nat \<Rightarrow> 'a list \<Rightarrow> 'a list" where
  "shift_left i n xs = (if i < n then shift_left (Suc i) n (xs[i - 1 := xs ! i]) else xs)"
  by pat_completeness auto
termination by (relation "measure (\<lambda>(i, n, xs). n - i)") auto

declare shift_left.simps [simp del]

definition vec_pop_front :: "'a vector \<Rightarrow> 'a vector" where
  "vec_pop_front v =
     (let n = vec_size v in
      if 0 < n then v\<lparr>vec_data := butlast (shift_left 1 n (vec_data v))\<rparr> else v)"

text \<open>
  A position is an offset from the data pointer, \<open>None\<close> the null iterator; the result is the
  offset of the returned iterator and the vector.
\<close>

definition vec_erase :: "int option \<Rightarrow> 'a vector \<Rightarrow> nat \<times> 'a vector" where
  "vec_erase pos v =
     (let n = vec_size v in
      case pos of
        None \<Rightarrow> (n, v)
      | Some p \<Rightarrow>
          (if vec_cap v = 0 \<or> p = int n \<or> p < 0 \<or> \<not> p < int n then (n, v)
           else (nat p, v\<lparr>vec_data := butlast (shift_left (nat p + 1) n (vec_data v))\<rparr>)))"

text \<open>The operand of \<open>operator+=\<close> is the vector itself or another one.\<close>

datatype 'a vsrc = Self | Other "'a vector"

definition vec_append_other :: "traits \<Rightarrow> 'a vector \<Rightarrow> 'a vector \<Rightarrow> 'a vector res" where
  "vec_append_other tr src v =
     (if vec_null src then Inr v
      else if max_size tr - vec_size v < vec_size src
      then Inl (LengthError ''Vector size exceeds max_size'')
      else
        (let newsize = vec_size v + vec_size src
         in if vec_cap v < newsize then reallocate_with_tail tr newsize (vec_data src) v
            else res_bind (ensure_capacity tr newsize v)
                   (\<lambda>v'. Inr (v'\<lparr>vec_data := vec_data v' @ vec_data src\<rparr>))))"

fun vec_plus_assign :: "traits \<Rightarrow> 'a vsrc \<Rightarrow> 'a vector \<Rightarrow> 'a vector res" where
  "vec_plus_assign tr (Other src) v = vec_append_other tr src v"
| "vec_plus_assign tr Self v =
     (if vec_null v then Inr v
      else res_bind (vec_copy tr v) (\<lambda>c. vec_append_other tr c v))"

definition vec_assign :: "traits \<Rightarrow> 'a vsrc \<Rightarrow> 'a vector \<Rightarrow> 'a vector res" where
  "vec_assign tr src v = (case src of Self \<Rightarrow> Inr v | Other w \<Rightarrow> vec_copy tr w)"

section \<open>Capacity lemmas\<close>

lemma growth_capacity_Inr:
  "growth_capacity tr v req = Inr c \<Longrightarrow> req \<le> c \<and> (vec_cap v \<le> max_size tr \<longrightarrow> c \<le> max_size tr)"
  by (auto simp: growth_capacity_def Let_def split: if_splits)

lemma growth_capacity_total: "req \<le> max_size tr \<Longrightarrow> \<exists>c. growth_capacity tr v req = Inr c"
  by (simp add: growth_capacity_def Let_def)

lemma growth_capacity_geometric:
  assumes "growth_capacity tr v req = Inr c"
  shows "min (2 * vec_cap v) (max_size tr) \<le> c"
  using assms by (auto simp: growth_capacity_def Let_def split: if_splits)

text \<open>An element type that may be relocated never meets the \<open>logic_error\<close>.\<close>

lemma ensure_relocation_ok [simp]: "relocatable tr \<Longrightarrow> ensure_relocation_is_safe tr v = Inr ()"
  by (simp add: ensure_relocation_is_safe_def)

lemma reallocate_with_tail_Inr:
  assumes "reallocate_with_tail tr n tail v = Inr w" and "vec_ok tr v"
    and "n = vec_size v + length tail"
  shows "vec_data w = vec_data v @ tail" and "vec_ok tr w"
  using assms
  by (auto simp: reallocate_with_tail_def vec_ok_def vec_size_def dest!: growth_capacity_Inr)

lemma reallocate_with_tail_total:
  assumes "relocatable tr" and "n \<le> max_size tr"
  shows "\<exists>w. reallocate_with_tail tr n tail v = Inr w"
  using growth_capacity_total [OF assms(2), of v] assms(1)
  by (auto simp: reallocate_with_tail_def)

lemma ensure_capacity_Inr:
  assumes "ensure_capacity tr n v = Inr w" and "vec_ok tr v"
  shows "vec_data w = vec_data v" and "vec_ok tr w" and "n \<le> vec_cap w" and "vec_cap v \<le> vec_cap w"
  using assms growth_capacity_Inr [of tr v n]
  by (auto simp: ensure_capacity_def vec_ok_def vec_size_def split: if_splits)

lemma ensure_capacity_total:
  assumes "relocatable tr" and "n \<le> max_size tr"
  shows "\<exists>w. ensure_capacity tr n v = Inr w"
  using growth_capacity_total [OF assms(2), of v] assms(1)
  by (auto simp: ensure_capacity_def)

section \<open>What the operations do to the elements\<close>

lemma append_constructed_Inr [vec_simps]:
  assumes "append_constructed tr x v = Inr w" and "vec_ok tr v"
  shows "vec_data w = vec_data v @ [x] \<and> vec_ok tr w"
proof (cases "vec_size v = vec_cap v")
  case True
  with assms have "reallocate_with_tail tr (vec_size v + 1) [x] v = Inr w"
    by (auto simp: append_constructed_def split: if_splits)
  then show ?thesis using reallocate_with_tail_Inr [OF _ assms(2), of "vec_size v + 1" "[x]" w]
    by simp
next
  case False
  with assms show ?thesis
    by (auto simp: append_constructed_def vec_ok_def vec_size_def split: if_splits)
qed

lemma append_constructed_total:
  assumes "relocatable tr" and "vec_ok tr v" and "vec_size v < max_size tr"
  shows "\<exists>w. append_constructed tr x v = Inr w"
  using assms reallocate_with_tail_total [OF assms(1), of "vec_size v + 1" "[x]" v]
  by (auto simp: append_constructed_def)

lemma append_all_Inr:
  "append_all tr xs v = Inr w \<Longrightarrow> vec_ok tr v \<Longrightarrow> vec_data w = vec_data v @ xs \<and> vec_ok tr w"
proof (induction xs arbitrary: v)
  case (Cons x xs)
  then obtain u where u: "append_constructed tr x v = Inr u" and w: "append_all tr xs u = Inr w"
    by auto
  from append_constructed_Inr [OF u Cons.prems(2)] Cons.IH [OF w] show ?case by simp
qed simp

lemma append_all_total:
  "relocatable tr \<Longrightarrow> vec_ok tr v \<Longrightarrow> vec_size v + length xs \<le> max_size tr
    \<Longrightarrow> \<exists>w. append_all tr xs v = Inr w"
proof (induction xs arbitrary: v)
  case (Cons x xs)
  then obtain u where u: "append_constructed tr x v = Inr u"
    using append_constructed_total [of tr v x] by auto
  from append_constructed_Inr [OF u Cons.prems(2)] Cons.prems Cons.IH [of u] u
  show ?case by (simp add: vec_size_def)
qed simp

lemma vec_ok_empty [simp, inv_intros]: "vec_ok tr vec_empty"
  by (simp add: vec_ok_def vec_empty_def vec_size_def)

lemma vec_push_back_eq: "vec_push_back tr r v = append_constructed tr (deref v r) v"
  by (simp add: vec_push_back_def Let_def)

lemma shift_right_shape:
  "i < length xs \<Longrightarrow> length (shift_right i xs) = length xs
    \<and> (\<forall>j < length xs. shift_right i xs ! j = (if 0 < j \<and> j \<le> i then xs ! (j - 1) else xs ! j))"
  by (induction i arbitrary: xs) (auto simp: nth_list_update le_Suc_eq)

lemma shift_right_cons:
  assumes "xs \<noteq> []"
  shows "(shift_right (length xs - 1) (xs @ [last xs]))[0 := x] = x # xs"
proof (rule nth_equalityI)
  have len: "length xs - 1 < length (xs @ [last xs])" by simp
  note sh = shift_right_shape [OF len]
  then show "length ((shift_right (length xs - 1) (xs @ [last xs]))[0 := x]) = length (x # xs)"
    by simp
  fix i assume "i < length ((shift_right (length xs - 1) (xs @ [last xs]))[0 := x])"
  with sh have i: "i < Suc (length xs)" by simp
  show "(shift_right (length xs - 1) (xs @ [last xs]))[0 := x] ! i = (x # xs) ! i"
  proof (cases "i = length xs")
    case True
    with sh assms show ?thesis by (cases i) (auto simp: nth_append last_conv_nth)
  next
    case False
    with sh i assms show ?thesis by (cases i) (auto simp: nth_append)
  qed
qed

lemma shift_left_nth:
  "0 < i \<Longrightarrow> n \<le> length xs \<Longrightarrow> length (shift_left i n xs) = length xs
    \<and> (\<forall>j < length xs. shift_left i n xs ! j = (if i \<le> Suc j \<and> Suc j < n then xs ! Suc j else xs ! j))"
proof (induction i n xs rule: shift_left.induct)
  case (1 i n xs)
  show ?case
  proof (cases "i < n")
    case True
    with 1 show ?thesis
      by (subst (1 2) shift_left.simps) (auto simp: nth_list_update)
  next
    case False
    then show ?thesis by (subst (1 2) shift_left.simps) auto
  qed
qed

lemma shift_left_butlast:
  assumes "p < length xs"
  shows "butlast (shift_left (p + 1) (length xs) xs) = take p xs @ drop (p + 1) xs"
  using shift_left_nth [of "p + 1" "length xs" xs] assms
  by (auto intro!: nth_equalityI simp: nth_butlast nth_append)

lemma vec_push_front_value_Inr:
  assumes "vec_push_front_value tr x v = Inr w" and ok: "vec_ok tr v"
  shows "vec_data w = x # vec_data v \<and> vec_ok tr w"
proof (cases "vec_size v = vec_cap v")
  case True
  with assms show ?thesis
    by (auto simp: vec_push_front_value_def reallocate_with_prepend_def Let_def vec_ok_def
        vec_size_def split: if_splits dest!: growth_capacity_Inr)
next
  case False
  then have "vec_size v < vec_cap v" using ok by (simp add: vec_ok_def)
  then show ?thesis using assms False shift_right_cons [of "vec_data v" x]
    by (auto simp: vec_push_front_value_def Let_def vec_ok_def vec_size_def last_conv_nth
        split: if_splits)
qed

lemma vec_push_front_value_total:
  assumes "relocatable tr" and "vec_ok tr v" and "vec_size v < max_size tr"
  shows "\<exists>w. vec_push_front_value tr x v = Inr w"
  using assms growth_capacity_total [of "vec_size v + 1" tr v]
  by (auto simp: vec_push_front_value_def reallocate_with_prepend_def Let_def)

lemma vec_push_front_eq: "vec_push_front tr r v = vec_push_front_value tr (deref v r) v"
  by (simp add: vec_push_front_def Let_def)

lemma vec_pop_front_data [vec_simps]: "vec_data (vec_pop_front v) = tl (vec_data v)"
  using shift_left_butlast [of 0 "vec_data v"]
  by (cases "vec_data v") (auto simp: vec_pop_front_def Let_def vec_size_def)

lemma vec_pop_front_cap [vec_simps]: "vec_cap (vec_pop_front v) = vec_cap v"
  by (simp add: vec_pop_front_def Let_def)

lemma vec_pop_back_data [vec_simps]: "vec_data (vec_pop_back v) = butlast (vec_data v)"
  by (simp add: vec_pop_back_def vec_null_def vec_size_def)

lemma vec_pop_back_cap [vec_simps]: "vec_cap (vec_pop_back v) = vec_cap v"
  by (simp add: vec_pop_back_def)

lemma vec_ok_pops [inv_intros]:
  "vec_ok tr v \<Longrightarrow> vec_ok tr (vec_pop_front v)" "vec_ok tr v \<Longrightarrow> vec_ok tr (vec_pop_back v)"
  by (auto simp: vec_ok_def vec_size_def vec_simps)

lemma vec_append_other_Inr:
  assumes "vec_append_other tr src v = Inr w" and ok: "vec_ok tr v"
  shows "vec_data w = vec_data v @ vec_data src \<and> vec_ok tr w"
proof (cases "vec_null src")
  case True
  with assms show ?thesis by (simp add: vec_append_other_def vec_null_def vec_size_def)
next
  case False
  let ?n = "vec_size v + vec_size src"
  show ?thesis
  proof (cases "vec_cap v < ?n")
    case True
    with False assms have "reallocate_with_tail tr ?n (vec_data src) v = Inr w"
      by (auto simp: vec_append_other_def Let_def split: if_splits)
    from reallocate_with_tail_Inr [OF this ok] show ?thesis by (simp add: vec_size_def)
  next
    case fits: False
    with False assms show ?thesis
      by (auto simp: vec_append_other_def Let_def ensure_capacity_def vec_ok_def vec_size_def
          split: if_splits)
  qed
qed

lemma vec_append_other_total:
  assumes "relocatable tr" and "vec_ok tr v" and "vec_size v + vec_size src \<le> max_size tr"
  shows "\<exists>w. vec_append_other tr src v = Inr w"
  using assms reallocate_with_tail_total [OF assms(1,3), of "vec_data src" v]
  by (auto simp: vec_append_other_def Let_def ensure_capacity_def)

lemma vec_copy_Inr:
  assumes "vec_copy tr v = Inr w"
  shows "vec_data w = vec_data v \<and> vec_ok tr w"
proof -
  from assms obtain u where u: "ensure_capacity tr (vec_cap v) vec_empty = Inr u"
    and w: "append_all tr (vec_data v) u = Inr w"
    by (auto simp: vec_copy_def vec_resize_def)
  from ensure_capacity_Inr [OF u vec_ok_empty] append_all_Inr [OF w] show ?thesis
    by (simp add: vec_empty_def)
qed

lemma vec_copy_total:
  assumes rel: "relocatable tr" and ok: "vec_ok tr v"
  shows "\<exists>w. vec_copy tr v = Inr w"
proof -
  from ok have "vec_cap v \<le> max_size tr" by (simp add: vec_ok_def)
  from ensure_capacity_total [OF rel this, of "vec_empty"]
  obtain u where u: "ensure_capacity tr (vec_cap v) (vec_empty :: 'a vector) = Inr u" by auto
  from ensure_capacity_Inr [OF u vec_ok_empty] have "vec_data u = []" "vec_ok tr u"
    by (simp_all add: vec_empty_def)
  then have "\<exists>w. append_all tr (vec_data v) u = Inr w"
    using append_all_total [OF rel, of u] ok by (simp add: vec_ok_def vec_size_def)
  with u show ?thesis by (simp add: vec_copy_def vec_resize_def)
qed

section \<open>The contract of the back of a sequence\<close>

text \<open>
  What the stack adapter asks of its container template argument: appending, removing and
  reading the last element, up to a bound on the number of elements.
\<close>

locale back_sequence =
  fixes elems :: "'s \<Rightarrow> 'a list"
    and good :: "'s \<Rightarrow> bool"
    and bound :: nat
    and push :: "'a \<Rightarrow> 's \<Rightarrow> 's res"
    and pop :: "'s \<Rightarrow> 's"
    and peek :: "'s \<Rightarrow> 'a res"
  assumes push_total: "good s \<Longrightarrow> length (elems s) < bound \<Longrightarrow> \<exists>s'. push x s = Inr s'"
    and push_elems: "good s \<Longrightarrow> push x s = Inr s' \<Longrightarrow> elems s' = elems s @ [x] \<and> good s'"
    and pop_elems: "good s \<Longrightarrow> elems (pop s) = butlast (elems s) \<and> good (pop s)"
    and peek_last: "good s \<Longrightarrow> elems s \<noteq> [] \<Longrightarrow> peek s = Inr (last (elems s))"
begin

lemma peek_after_push: "good s \<Longrightarrow> push x s = Inr s' \<Longrightarrow> peek s' = Inr x"
  using push_elems [of s x s'] peek_last [of s'] by simp

lemma pop_after_push: "good s \<Longrightarrow> push x s = Inr s' \<Longrightarrow> elems (pop s') = elems s"
  using push_elems [of s x s'] pop_elems [of s'] by simp

lemma pop_iterate:
  "good s \<Longrightarrow> good ((pop ^^ n) s) \<and> elems ((pop ^^ n) s) = take (length (elems s) - n) (elems s)"
  by (induction n) (auto simp: pop_elems butlast_take)

end

interpretation vec_back: back_sequence vec_data "vec_ok tr" "if relocatable tr then max_size tr else 0"
    "\<lambda>x. vec_push_back tr (Outside x)" vec_pop_back vec_tail for tr
proof unfold_locales
  fix s :: "'a vector" and x s'
  assume ok: "vec_ok tr s"
  show "length (vec_data s) < (if relocatable tr then max_size tr else 0)
      \<Longrightarrow> \<exists>s'. vec_push_back tr (Outside x) s = Inr s'"
    using append_constructed_total [OF _ ok, of x]
    by (auto simp: vec_push_back_eq vec_size_def split: if_splits)
  show "vec_push_back tr (Outside x) s = Inr s'
      \<Longrightarrow> vec_data s' = vec_data s @ [x] \<and> vec_ok tr s'"
    using append_constructed_Inr [OF _ ok] by (simp add: vec_push_back_eq)
  show "vec_data (vec_pop_back s) = butlast (vec_data s) \<and> vec_ok tr (vec_pop_back s)"
    using ok by (simp add: vec_simps inv_intros)
  show "vec_data s \<noteq> [] \<Longrightarrow> vec_tail s = Inr (last (vec_data s))"
    by (simp add: vec_tail_def vec_null_def vec_size_def)
qed

section \<open>Properties\<close>

text \<open>
  \<open>PushBack\<close> of a reference, also of one into the vector itself, appends the value the
  reference had before the call; it succeeds whenever there is room for one more element, and
  when it reallocates it at least doubles the capacity (up to \<open>MaxSize()\<close>).
\<close>

theorem vec_push_back_correct:
  assumes "relocatable tr" and "vec_ok tr v" and "vec_size v < max_size tr"
  shows "\<exists>w. vec_push_back tr r v = Inr w \<and> vec_data w = vec_data v @ [deref v r] \<and> vec_ok tr w
    \<and> (vec_size v = vec_cap v \<longrightarrow> min (2 * vec_cap v) (max_size tr) \<le> vec_cap w)"
proof -
  from append_constructed_total [OF assms] obtain w
    where w: "append_constructed tr (deref v r) v = Inr w" by blast
  have "vec_size v = vec_cap v \<longrightarrow> min (2 * vec_cap v) (max_size tr) \<le> vec_cap w"
    using w assms growth_capacity_geometric [of tr v]
    by (auto simp: append_constructed_def reallocate_with_tail_def)
  with w append_constructed_Inr [OF w assms(2)] show ?thesis by (simp add: vec_push_back_eq)
qed

theorem vec_push_back_correct_witness:
  "\<exists>w. vec_push_back \<lparr>max_size = 100, relocatable = True\<rparr> (Inside 1)
         \<lparr>vec_data = [5, 6 :: int], vec_cap = 2\<rparr> = Inr w \<and> vec_data w = [5, 6, 6]"
  using vec_push_back_correct [of "\<lparr>max_size = 100, relocatable = True\<rparr>"
      "\<lparr>vec_data = [5, 6 :: int], vec_cap = 2\<rparr>" "Inside 1"]
  by (auto simp: vec_ok_def vec_size_def)

text \<open>
  \<open>PushFront\<close>, through the shifting loop or through a reallocation, prepends the value the
  reference had before the call and keeps the order of the other elements.
\<close>

theorem vec_push_front_correct:
  assumes "relocatable tr" and "vec_ok tr v" and "vec_size v < max_size tr"
  shows "\<exists>w. vec_push_front tr r v = Inr w \<and> vec_data w = deref v r # vec_data v \<and> vec_ok tr w"
  using vec_push_front_value_total [OF assms, of "deref v r"]
    vec_push_front_value_Inr [OF _ assms(2), of "deref v r"]
  by (auto simp: vec_push_front_eq)

theorem vec_push_front_correct_witness:
  "\<exists>w. vec_push_front \<lparr>max_size = 100, relocatable = True\<rparr> (Inside 2)
         \<lparr>vec_data = [5, 6, 7 :: int], vec_cap = 10\<rparr> = Inr w \<and> vec_data w = [7, 5, 6, 7]"
  using vec_push_front_correct [of "\<lparr>max_size = 100, relocatable = True\<rparr>"
      "\<lparr>vec_data = [5, 6, 7 :: int], vec_cap = 10\<rparr>" "Inside 2"]
  by (auto simp: vec_ok_def vec_size_def)

text \<open>
  \<open>Erase\<close> removes exactly the element at a position inside the vector and returns the same
  offset, where the next element now is; any other position (null, the end, before the first
  element or past the end) leaves the vector as it is and returns the end.
\<close>

theorem vec_erase_correct:
  assumes "vec_ok tr v"
  shows "vec_erase pos v =
    (case pos of
       Some p \<Rightarrow>
         if 0 \<le> p \<and> p < int (vec_size v)
         then (nat p, v\<lparr>vec_data := take (nat p) (vec_data v) @ drop (nat p + 1) (vec_data v)\<rparr>)
         else (vec_size v, v)
     | None \<Rightarrow> (vec_size v, v))"
proof (cases pos)
  case (Some p)
  show ?thesis
  proof (cases "0 \<le> p \<and> p < int (vec_size v)")
    case True
    then have "vec_cap v \<noteq> 0" using assms by (auto simp: vec_ok_def)
    moreover have "nat p < length (vec_data v)" using True by (auto simp: vec_size_def)
    ultimately show ?thesis
      using True Some shift_left_butlast [of "nat p" "vec_data v"]
      by (auto simp: vec_erase_def Let_def vec_size_def)
  qed (auto simp: Some vec_erase_def Let_def)
qed (simp add: vec_erase_def Let_def)

theorem vec_erase_correct_witness:
  "vec_erase (Some 1) \<lparr>vec_data = [5, 6, 7 :: int], vec_cap = 4\<rparr>
     = (1, \<lparr>vec_data = [5, 7], vec_cap = 4\<rparr>)"
  using vec_erase_correct [of "\<lparr>max_size = 9, relocatable = True\<rparr>"
      "\<lparr>vec_data = [5, 6, 7 :: int], vec_cap = 4\<rparr>" "Some 1"]
  by (simp add: vec_ok_def vec_size_def numeral_2_eq_2)

text \<open>
  \<open>SizeAdjust\<close> to a size the allocator allows keeps the common prefix and fills the new
  slots with the padding value, which may be one of the vector's own elements; beyond
  \<open>MaxSize()\<close> it throws \<open>length_error\<close>.
\<close>

theorem vec_size_adjust_correct:
  assumes "relocatable tr" and "vec_ok tr v"
  shows "if n \<le> max_size tr
    then \<exists>w. vec_size_adjust tr n pad v = Inr w \<and> vec_ok tr w
      \<and> vec_data w = take n (vec_data v) @ replicate (n - vec_size v) (deref v pad)
    else vec_size_adjust tr n pad v = Inl (LengthError ''Vector size exceeds max_size'')"
proof (cases "n \<le> max_size tr \<and> vec_cap v < n")
  case True
  let ?tail = "replicate (n - vec_size v) (deref v pad)"
  from True assms obtain w where w: "reallocate_with_tail tr n ?tail v = Inr w"
    using reallocate_with_tail_total by blast
  from True assms have lt: "vec_size v < n" by (simp add: vec_ok_def)
  from reallocate_with_tail_Inr [OF w assms(2)] lt True w show ?thesis
    by (simp add: vec_size_adjust_def Let_def vec_size_def)
next
  case False
  with assms show ?thesis
    by (auto simp: vec_size_adjust_def Let_def vec_ok_def vec_size_def)
qed

theorem vec_size_adjust_correct_witness:
  "\<exists>w. vec_size_adjust \<lparr>max_size = 100, relocatable = True\<rparr> 5 (Inside 0)
         \<lparr>vec_data = [5, 6, 7 :: int], vec_cap = 3\<rparr> = Inr w \<and> vec_data w = [5, 6, 7, 5, 5]"
  using vec_size_adjust_correct [of "\<lparr>max_size = 100, relocatable = True\<rparr>"
      "\<lparr>vec_data = [5, 6, 7 :: int], vec_cap = 3\<rparr>" 5 "Inside 0"]
  by (auto simp: vec_ok_def vec_size_def numeral_2_eq_2)

text \<open>
  \<open>operator+=\<close> appends all elements of the operand, and of the vector itself when it is its
  own operand; it fails only when the sum of the sizes exceeds \<open>MaxSize()\<close>.
\<close>

theorem vec_plus_assign_correct:
  assumes "relocatable tr" and "vec_ok tr v"
    and "vec_size v + length (case src of Self \<Rightarrow> vec_data v | Other w \<Rightarrow> vec_data w) \<le> max_size tr"
  shows "\<exists>w. vec_plus_assign tr src v = Inr w \<and> vec_ok tr w
    \<and> vec_data w = vec_data v @ (case src of Self \<Rightarrow> vec_data v | Other u \<Rightarrow> vec_data u)"
proof (cases src)
  case (Other u)
  with assms have "vec_size v + vec_size u \<le> max_size tr" by (simp add: vec_size_def)
  from vec_append_other_total [OF assms(1,2) this] vec_append_other_Inr [OF _ assms(2)]
  show ?thesis by (auto simp: Other)
next
  case Self
  from vec_copy_total [OF assms(1,2)] obtain c where c: "vec_copy tr v = Inr c" by blast
  note cd = vec_copy_Inr [OF c]
  with assms Self have "vec_size v + vec_size c \<le> max_size tr" by (simp add: vec_size_def)
  from vec_append_other_total [OF assms(1,2) this]
  obtain w where w: "vec_append_other tr c v = Inr w" by blast
  from vec_append_other_Inr [OF w assms(2)] w c cd assms show ?thesis
    by (cases "vec_null v") (auto simp: Self vec_null_def vec_size_def)
qed

theorem vec_plus_assign_correct_witness:
  "\<exists>w. vec_plus_assign \<lparr>max_size = 100, relocatable = True\<rparr> Self
         \<lparr>vec_data = [5, 6 :: int], vec_cap = 2\<rparr> = Inr w \<and> vec_data w = [5, 6, 5, 6]"
  using vec_plus_assign_correct [of "\<lparr>max_size = 100, relocatable = True\<rparr>"
      "\<lparr>vec_data = [5, 6 :: int], vec_cap = 2\<rparr>" Self]
  by (auto simp: vec_ok_def vec_size_def)

end
