(* ===== verification/Stacks.thy ===== *)
theory Stacks
  imports Vectors
begin

text \<open>
  The stack adapter of \<open>Wan/Container/Stack.hpp\<close> over its default container, the vector.  Its
  only member is the vector, so a stack is that vector.
\<close>

type_synonym 'a stack = "'a vector"

definition stack_empty :: "'a stack" where
  "stack_empty = vec_empty"

definition stack_push :: "traits \<Rightarrow> 'a vref \<Rightarrow> 'a stack \<Rightarrow> 'a stack res" where
  "stack_push tr r s = vec_push_back tr r s"

definition stack_pop :: "'a stack \<Rightarrow> 'a stack" where
  "stack_pop s = vec_pop_back s"

definition stack_size :: "'a stack \<Rightarrow> nat" where
  "stack_size s = vec_size s"

definition stack_is_empty :: "'a stack \<Rightarrow> bool" where
  "stack_is_empty s = vec_null s"

definition stack_top :: "'a stack \<Rightarrow> 'a res" where
  "stack_top s =
     (if stack_is_empty s then Inl (OutOfRange ''Stack::Top called on an empty stack'')
      else Inr (vec_back s))"

fun stack_push_all :: "traits \<Rightarrow> 'a list \<Rightarrow> 'a stack \<Rightarrow> 'a stack res" where
  "stack_push_all tr [] s = Inr s"
| "stack_push_all tr (x # xs) s = res_bind (vec_push_back tr (Outside x) s) (stack_push_all tr xs)"

definition stack_of_list :: "traits \<Rightarrow> 'a list \<Rightarrow> 'a stack res" where
  "stack_of_list tr xs = stack_push_all tr xs stack_empty"

definition stack_assign :: "traits \<Rightarrow> 'a vsrc \<Rightarrow> 'a stack \<Rightarrow> 'a stack res" where
  "stack_assign tr src s = vec_assign tr src s"

lemma stack_push_all_Inr:
  "vec_ok tr s \<Longrightarrow> stack_push_all tr xs s = Inr s'
    \<Longrightarrow> vec_data s' = vec_data s @ xs \<and> vec_ok tr s'"
proof (induction xs arbitrary: s)
  case (Cons x xs)
  then obtain u where u: "vec_push_back tr (Outside x) s = Inr u"
    and w: "stack_push_all tr xs u = Inr s'"
    by auto
  from vec_back.push_elems [OF Cons.prems(1) u] Cons.IH [OF _ w] show ?case by simp
qed simp

lemma stack_push_all_total:
  "relocatable tr \<Longrightarrow> vec_ok tr s \<Longrightarrow> vec_size s + length xs \<le> max_size tr
    \<Longrightarrow> \<exists>s'. stack_push_all tr xs s = Inr s'"
proof (induction xs arbitrary: s)
  case (Cons x xs)
  then obtain u where u: "vec_push_back tr (Outside x) s = Inr u"
    using vec_back.push_total [of tr s x] by (auto simp: vec_size_def)
  from vec_back.push_elems [OF Cons.prems(2) u] Cons.IH [of u] Cons.prems u
  show ?case by (simp add: vec_size_def)
qed simp

lemma stack_top_eq: "stack_top s = (if vec_data s = []
    then Inl (OutOfRange ''Stack::Top called on an empty stack'') else Inr (last (vec_data s)))"
  by (simp add: stack_top_def stack_is_empty_def vec_back_def vec_null_def vec_size_def)

text \<open>
  Last in, first out.  A stack built from a list (which succeeds up to \<open>MaxSize()\<close> elements)
  shows, after \<open>k\<close> removals, the \<open>k\<close>-th element from the end of the list, and after removing
  them all \<open>Top()\<close> throws \<open>out_of_range\<close> while \<open>Pop()\<close> changes nothing.
\<close>

theorem stack_lifo:
  assumes "relocatable tr" and "length xs \<le> max_size tr"
  shows "\<exists>s. stack_of_list tr xs = Inr s \<and>
    (\<forall>k. stack_size ((stack_pop ^^ k) s) = length xs - k \<and>
      stack_top ((stack_pop ^^ k) s) =
        (if k < length xs then Inr (rev xs ! k)
         else Inl (OutOfRange ''Stack::Top called on an empty stack'')))"
proof -
  have e: "vec_ok tr stack_empty" "vec_data (stack_empty :: 'a stack) = []"
    by (simp_all add: stack_empty_def) (simp add: vec_empty_def)
  have "vec_size (stack_empty :: 'a stack) + length xs \<le> max_size tr"
    using assms(2) e(2) by (simp add: vec_size_def)
  from stack_push_all_total [OF assms(1) e(1) this]
  obtain s where s: "stack_push_all tr xs stack_empty = Inr s" by blast
  from stack_push_all_Inr [OF e(1) s] e(2) have d: "vec_data s = xs" and ok: "vec_ok tr s"
    by simp_all
  have pop: "stack_pop = vec_pop_back" by (rule ext) (simp add: stack_pop_def)
  have data: "vec_data ((stack_pop ^^ k) s) = take (length xs - k) xs" for k
    using vec_back.pop_iterate [OF ok, of k] d by (simp add: pop)
  have "last (take (length xs - k) xs) = rev xs ! k" if "k < length xs" for k
    using that by (subst last_conv_nth) (auto simp: rev_nth)
  with s show ?thesis
    by (auto simp: stack_of_list_def stack_size_def vec_size_def stack_top_eq data)
qed

theorem stack_lifo_witness:
  "\<exists>s. stack_of_list \<lparr>max_size = 100, relocatable = True\<rparr> [1, 2, 3 :: int] = Inr s
     \<and> stack_top ((stack_pop ^^ 1) s) = Inr 2"
proof -
  let ?tr = "\<lparr>max_size = 100, relocatable = True\<rparr>"
  from stack_lifo [of ?tr "[1, 2, 3 :: int]"] obtain s
    where "stack_of_list ?tr [1, 2, 3 :: int] = Inr s"
      and "\<forall>k. stack_top ((stack_pop ^^ k) s) = (if k < 3 then Inr ([3, 2, 1] ! k)
        else Inl (OutOfRange ''Stack::Top called on an empty stack''))"
    by auto
  then show ?thesis by (auto dest: spec [of _ 1])
qed

end
