(* ===== verification/Comparators.thy ===== *)
theory Comparators
  imports Prelude
begin

text \<open>
  The comparison functors of \<open>Wan/Container/Imitate.hpp\<close> and the contract that every ordered
  container puts on its comparator: a strict weak order, whose equivalence classes are the
  keys the container does not tell apart.
\<close>

definition less_cmp :: "'a::linorder \<Rightarrow> 'a \<Rightarrow> bool" where
  "less_cmp a b = (a < b)"

definition greater_cmp :: "'a::linorder \<Rightarrow> 'a \<Rightarrow> bool" where
  "greater_cmp a b = (b < a)"

text \<open>The test \<open>!Policy(a, b) && !Policy(b, a)\<close> the containers make.\<close>

definition same_key :: "('a \<Rightarrow> 'a \<Rightarrow> bool) \<Rightarrow> 'a \<Rightarrow> 'a \<Rightarrow> bool" where
  "same_key lt a b \<longleftrightarrow> \<not> lt a b \<and> \<not> lt b a"

locale strict_weak_order =
  fixes lt :: "'a \<Rightarrow> 'a \<Rightarrow> bool"
  assumes irrefl [simp]: "\<not> lt a a"
    and trans: "lt a b \<Longrightarrow> lt b c \<Longrightarrow> lt a c"
    and neg_trans: "\<not> lt a b \<Longrightarrow> \<not> lt b c \<Longrightarrow> \<not> lt a c"
begin

lemma asym: "lt a b \<Longrightarrow> \<not> lt b a"
  using trans [of a b a] by auto

lemma same_refl [simp]: "same_key lt a a"
  by (simp add: same_key_def)

lemma same_sym: "same_key lt a b \<Longrightarrow> same_key lt b a"
  by (auto simp: same_key_def)

lemma same_trans: "same_key lt a b \<Longrightarrow> same_key lt b c \<Longrightarrow> same_key lt a c"
  using neg_trans by (auto simp: same_key_def)

lemma lt_same_left: "same_key lt a b \<Longrightarrow> lt a c \<longleftrightarrow> lt b c"
  using neg_trans [of a b c] neg_trans [of b a c] by (auto simp: same_key_def)

lemma lt_same_right: "same_key lt a b \<Longrightarrow> lt c a \<longleftrightarrow> lt c b"
  using neg_trans [of c a b] neg_trans [of c b a] by (auto simp: same_key_def)

lemma le_lt_trans: "\<not> lt b a \<Longrightarrow> lt b c \<Longrightarrow> lt a c"
  using neg_trans [of b a c] by auto

lemma lt_le_trans: "lt a b \<Longrightarrow> \<not> lt c b \<Longrightarrow> lt a c"
  using neg_trans [of a c b] by auto

lemma trichotomy: "lt a b \<or> same_key lt a b \<or> lt b a"
  by (auto simp: same_key_def)

end

interpretation less_order: strict_weak_order "less_cmp :: 'a::linorder \<Rightarrow> 'a \<Rightarrow> bool"
  by unfold_locales (auto simp: less_cmp_def)

interpretation greater_order: strict_weak_order "greater_cmp :: 'a::linorder \<Rightarrow> 'a \<Rightarrow> bool"
  by unfold_locales (auto simp: greater_cmp_def)

lemma same_key_less_cmp [simp]: "same_key less_cmp a b \<longleftrightarrow> a = (b :: 'a::linorder)"
  by (auto simp: same_key_def less_cmp_def)

lemma same_key_greater_cmp [simp]: "same_key greater_cmp a b \<longleftrightarrow> a = (b :: 'a::linorder)"
  by (auto simp: same_key_def greater_cmp_def)

end
