(* ===== verification/PriorityQueues.thy ===== *)
theory PriorityQueues
  imports Vectors Comparators "HOL-Library.Multiset"
begin

text \<open>
  \<open>PriorityQueue\<close> of \<open>Wan/Container/Queue.hpp\<close>: a binary heap in a vector, ordered by a
  comparator \<open>lt\<close> with the largest element at index 0.  The code computes indices in \<open>int\<close>
  and converts sizes with \<open>static_cast<int>\<close>, which \<open>to_int32\<close> writes out; a negative or
  too large index makes \<open>Vector::operator[]\<close> throw.  Going down, the index of a child is computed by a
  multiplication of ints, whose overflow is undefined: the outcome \<open>None\<close>.  \<open>Pop\<close> is correct up to
  \<open>2 ^ 30\<close> elements, where no product overflows.
\<close>

type_synonym 'a pqueue = "'a vector"

definition to_int32 :: "nat \<Rightarrow> int" where
  "to_int32 n = sint (word_of_nat n :: 32 word)"

definition at_int :: "'a list \<Rightarrow> int \<Rightarrow> 'a res" where
  "at_int xs i = (if 0 \<le> i \<and> i < int (length xs) then Inr (xs ! nat i)
                  else Inl (Fault ''vector::operator[]''))"

definition swap_at :: "'a list \<Rightarrow> int \<Rightarrow> int \<Rightarrow> 'a list" where
  "swap_at xs i j = xs[nat i := xs ! nat j, nat j := xs ! nat i]"

lemma length_swap_at [simp]: "length (swap_at xs i j) = length xs"
  by (simp add: swap_at_def)

lemma at_int_Inr: "at_int xs i = Inr x \<longleftrightarrow> 0 \<le> i \<and> i < int (length xs) \<and> x = xs ! nat i"
  by (auto simp: at_int_def)

function adjust_upwards :: "('a \<Rightarrow> 'a \<Rightarrow> bool) \<Rightarrow> int \<Rightarrow> 'a list \<Rightarrow> 'a list res" where
  "adjust_upwards lt child xs =
     (if child > 0 then
        (let parent = (child - 1) div 2 in
         case at_int xs parent of Inl e \<Rightarrow> Inl e | Inr p \<Rightarrow>
         case at_int xs child of Inl e \<Rightarrow> Inl e | Inr c \<Rightarrow>
           if lt p c then adjust_upwards lt parent (swap_at xs parent child) else Inr xs)
      else Inr xs)"
  by pat_completeness auto
termination by (relation "measure (\<lambda>(lt, child, xs). nat child)") auto

function adjust_downwards :: "('a \<Rightarrow> 'a \<Rightarrow> bool) \<Rightarrow> int \<Rightarrow> 'a list \<Rightarrow> 'a list res option" where
  "adjust_downwards lt parent xs =
     (let left = parent * 2 + 1; right = left + 1; size = to_int32 (length xs) in
      if 2 ^ 31 \<le> left then None
      else if left < size then
        (case (if right < size
               then (case at_int xs left of Inl e \<Rightarrow> Inl e | Inr l \<Rightarrow>
                     case at_int xs right of Inl e \<Rightarrow> Inl e | Inr r \<Rightarrow>
                       Inr (if lt l r then right else left))
               else Inr left) of
           Inl e \<Rightarrow> Some (Inl e)
         | Inr child \<Rightarrow>
             (case at_int xs parent of Inl e \<Rightarrow> Some (Inl e) | Inr p \<Rightarrow>
              case at_int xs child of Inl e \<Rightarrow> Some (Inl e) | Inr c \<Rightarrow>
                if lt p c then adjust_downwards lt child (swap_at xs parent child) else Some (Inr xs)))
      else Some (Inr xs))"
  by pat_completeness auto
termination
  by (relation "measure (\<lambda>(lt, parent, xs). nat (int (length xs) - parent))")
    (auto simp: at_int_Inr split: if_splits sum.splits)

declare adjust_upwards.simps [simp del] adjust_downwards.simps [simp del]

definition pq_size :: "'a pqueue \<Rightarrow> nat" where
  "pq_size q = vec_size q"

definition pq_empty :: "'a pqueue \<Rightarrow> bool" where
  "pq_empty q = vec_null q"

definition pq_push :: "traits \<Rightarrow> ('a \<Rightarrow> 'a \<Rightarrow> bool) \<Rightarrow> 'a vref \<Rightarrow> 'a pqueue \<Rightarrow> 'a pqueue res" where
  "pq_push tr lt r q =
     res_bind (vec_push_back tr r q) (\<lambda>q'.
     res_bind (adjust_upwards lt (to_int32 (vec_size q' - 1)) (vec_data q')) (\<lambda>xs.
       Inr (q'\<lparr>vec_data := xs\<rparr>)))"

definition pq_top :: "'a pqueue \<Rightarrow> 'a res" where
  "pq_top q =
     (if pq_empty q then Inl (OutOfRange ''PriorityQueue::Top called on an empty queue'')
      else Inr (vec_front q))"

definition pq_pop :: "('a \<Rightarrow> 'a \<Rightarrow> bool) \<Rightarrow> 'a pqueue \<Rightarrow> 'a pqueue res option" where
  "pq_pop lt q =
     (if pq_empty q then Some (Inr q)
      else
        (let q' = vec_pop_back (q\<lparr>vec_data := swap_at (vec_data q) 0 (int (vec_size q) - 1)\<rparr>)
         in map_option (\<lambda>r. res_bind r (\<lambda>xs. Inr (q'\<lparr>vec_data := xs\<rparr>))) (adjust_downwards lt 0 (vec_data q'))))"

fun pq_push_all :: "traits \<Rightarrow> ('a \<Rightarrow> 'a \<Rightarrow> bool) \<Rightarrow> 'a list \<Rightarrow> 'a pqueue \<Rightarrow> 'a pqueue res" where
  "pq_push_all tr lt [] q = Inr q"
| "pq_push_all tr lt (x # xs) q = res_bind (pq_push tr lt (Outside x) q) (pq_push_all tr lt xs)"

definition pq_of_list :: "traits \<Rightarrow> ('a \<Rightarrow> 'a \<Rightarrow> bool) \<Rightarrow> 'a list \<Rightarrow> 'a pqueue res" where
  "pq_of_list tr lt xs = pq_push_all tr lt xs vec_empty"

section \<open>Heap order\<close>

definition heap_at :: "('a \<Rightarrow> 'a \<Rightarrow> bool) \<Rightarrow> 'a list \<Rightarrow> nat \<Rightarrow> bool" where
  "heap_at lt xs i \<longleftrightarrow> (0 < i \<and> i < length xs \<longrightarrow> \<not> lt (xs ! ((i - 1) div 2)) (xs ! i))"

definition is_heap :: "('a \<Rightarrow> 'a \<Rightarrow> bool) \<Rightarrow> 'a list \<Rightarrow> bool" where
  "is_heap lt xs \<longleftrightarrow> (\<forall>i < length xs. heap_at lt xs i)"

text \<open>Order everywhere but at one node and its parent, with the node's children below the parent.\<close>

definition heap_but_up :: "('a \<Rightarrow> 'a \<Rightarrow> bool) \<Rightarrow> nat \<Rightarrow> 'a list \<Rightarrow> bool" where
  "heap_but_up lt c xs \<longleftrightarrow> (\<forall>i. i \<noteq> c \<longrightarrow> heap_at lt xs i) \<and>
     (\<forall>j. 0 < c \<and> j < length xs \<and> 0 < j \<and> (j - 1) div 2 = c \<longrightarrow> \<not> lt (xs ! ((c - 1) div 2)) (xs ! j))"

text \<open>Order everywhere but between one node and its children, which are below the node's parent.\<close>

definition heap_but_down :: "('a \<Rightarrow> 'a \<Rightarrow> bool) \<Rightarrow> nat \<Rightarrow> 'a list \<Rightarrow> bool" where
  "heap_but_down lt p xs \<longleftrightarrow> (\<forall>i. 0 < i \<and> (i - 1) div 2 \<noteq> p \<longrightarrow> heap_at lt xs i) \<and>
     (\<forall>j. 0 < p \<and> j < length xs \<and> 0 < j \<and> (j - 1) div 2 = p \<longrightarrow> \<not> lt (xs ! ((p - 1) div 2)) (xs ! j))"

abbreviation swap_nat :: "'a list \<Rightarrow> nat \<Rightarrow> nat \<Rightarrow> 'a list" where
  "swap_nat xs p c \<equiv> xs[p := xs ! c, c := xs ! p]"

lemma swap_at_int [simp]: "swap_at xs (int p) (int c) = swap_nat xs p c"
  by (simp add: swap_at_def)

lemma nth_swap_nat:
  "p < length xs \<Longrightarrow> c < length xs \<Longrightarrow>
    swap_nat xs p c ! i = (if i = c then xs ! p else if i = p then xs ! c else xs ! i)"
  by (cases "i < length xs") (auto simp: nth_list_update)

lemma mset_swap_nat: "p < length xs \<Longrightarrow> c < length xs \<Longrightarrow> mset (swap_nat xs p c) = mset xs"
  using mset_swap [of c xs p] by simp

lemma parent_lt: "0 < (c::nat) \<Longrightarrow> (c - 1) div 2 < c"
  by linarith

lemma parent_of_child: "(i - 1) div 2 = p \<and> 0 < i \<longleftrightarrow> i = 2 * p + 1 \<or> i = 2 * p + 2" for i p :: nat
  by (cases i) auto

lemma adjust_upwards_nat:
  assumes "c < length xs"
  shows "adjust_upwards lt (int c) xs =
    (if c = 0 then Inr xs
     else if lt (xs ! ((c - 1) div 2)) (xs ! c)
     then adjust_upwards lt (int ((c - 1) div 2)) (swap_nat xs ((c - 1) div 2) c)
     else Inr xs)"
proof (cases "c = 0")
  case False
  have p: "(int c - 1) div 2 = int ((c - 1) div 2)"
    using False by (simp add: zdiv_int of_nat_diff)
  have "(c - 1) div 2 < length xs" using assms parent_lt [of c] False by linarith
  then show ?thesis using assms False
    by (subst adjust_upwards.simps) (simp add: p at_int_def Let_def del: of_nat_div)
qed (subst adjust_upwards.simps, simp)

lemma to_int32_small: "n < 2 ^ 31 \<Longrightarrow> to_int32 n = int n"
  by (simp add: to_int32_def signed_take_bit_int_eq_self_iff signed_of_nat signed_take_bit_int_eq_self)

lemma adjust_downwards_nat:
  assumes "p < length xs" and "length xs \<le> 2 ^ 30"
  shows "adjust_downwards lt (int p) xs =
    (if 2 * p + 1 < length xs then
       (let c = (if 2 * p + 2 < length xs \<and> lt (xs ! (2 * p + 1)) (xs ! (2 * p + 2))
                 then 2 * p + 2 else 2 * p + 1)
        in if lt (xs ! p) (xs ! c) then adjust_downwards lt (int c) (swap_nat xs p c) else Some (Inr xs))
     else Some (Inr xs))"
proof -
  have s: "to_int32 (length xs) = int (length xs)" using assms(2) by (intro to_int32_small) simp
  have o: "\<not> 2 ^ 31 \<le> int (2 * p + 1)" using assms by simp
  have i: "int p * 2 + 1 = int (2 * p + 1)" "int p * 2 + 1 + 1 = int (2 * p + 2)" by simp_all
  show ?thesis
    by (subst adjust_downwards.simps, unfold Let_def i s if_not_P [OF o])
      (use assms(1) in \<open>simp add: at_int_def Let_def swap_at_def nat_add_distrib nat_mult_distrib\<close>)
qed

context strict_weak_order
begin

lemma heap_up_step:
  assumes h: "heap_but_up lt c xs" and c: "0 < c" "c < length xs" and p: "p = (c - 1) div 2"
    and less: "lt (xs ! p) (xs ! c)"
  shows "heap_but_up lt p (swap_nat xs p c)"
proof -
  have pc: "p < c" using p parent_lt [OF c(1)] by simp
  then have pl: "p < length xs" using c by simp
  note nth = nth_swap_nat [OF pl c(2)]
  have ord: "\<not> lt (xs ! ((i - 1) div 2)) (xs ! i)" if "i \<noteq> c" "0 < i" "i < length xs" for i
    using h that by (simp add: heap_but_up_def heap_at_def)
  have kids: "\<not> lt (xs ! p) (xs ! j)" if "j < length xs" "0 < j" "(j - 1) div 2 = c" for j
    using h that c p by (simp add: heap_but_up_def)
  have "heap_at lt (swap_nat xs p c) i" if i: "i \<noteq> p" for i
  proof (cases "0 < i \<and> i < length xs")
    case True
    let ?q = "(i - 1) div 2"
    have "?q < i" using True parent_lt by simp
    show ?thesis
    proof (cases "i = c")
      case True
      then show ?thesis using asym [OF less] c p pc by (simp add: heap_at_def nth)
    next
      case ic: False
      consider "?q = c" | "?q = p" | "?q \<noteq> c" "?q \<noteq> p" by blast
      then show ?thesis
      proof cases
        case 1 then show ?thesis using kids True i ic by (simp add: heap_at_def nth)
      next
        case 2 then show ?thesis using ord [OF ic] True i ic pc trans [OF less]
          by (auto simp: heap_at_def nth)
      next
        case 3 then show ?thesis using ord [OF ic] True i ic by (simp add: heap_at_def nth)
      qed
    qed
  qed (auto simp: heap_at_def)
  moreover have "\<not> lt (swap_nat xs p c ! ((p - 1) div 2)) (swap_nat xs p c ! j)"
    if j: "0 < p" "j < length xs" "0 < j" "(j - 1) div 2 = p" for j
  proof -
    have pp: "(p - 1) div 2 < p" using parent_lt j by simp
    have up: "\<not> lt (xs ! ((p - 1) div 2)) (xs ! p)" using ord [of p] j pc pl by simp
    have jp: "p < j" using parent_lt [OF j(3)] j(4) by simp
    show ?thesis
    proof (cases "j = c")
      case True
      then show ?thesis using up pp pc by (simp add: nth)
    next
      case False
      then have "\<not> lt (xs ! p) (xs ! j)" using ord j by metis
      then show ?thesis using up pp pc jp False neg_trans [OF up] by (simp add: nth)
    qed
  qed
  ultimately show ?thesis by (simp add: heap_but_up_def)
qed

lemma adjust_upwards_heap:
  "heap_but_up lt c xs \<Longrightarrow> c < length xs \<Longrightarrow>
    \<exists>ys. adjust_upwards lt (int c) xs = Inr ys \<and> is_heap lt ys \<and> mset ys = mset xs"
proof (induction c arbitrary: xs rule: less_induct)
  case (less c)
  let ?p = "(c - 1) div 2"
  show ?case
  proof (cases "0 < c \<and> lt (xs ! ?p) (xs ! c)")
    case True
    then have pc: "?p < c" using parent_lt by simp
    from True less.prems have "heap_but_up lt ?p (swap_nat xs ?p c)"
      using heap_up_step by blast
    moreover have "?p < length (swap_nat xs ?p c)" using pc less.prems(2) by simp
    ultimately obtain ys
      where "adjust_upwards lt (int ?p) (swap_nat xs ?p c) = Inr ys" "is_heap lt ys"
        "mset ys = mset (swap_nat xs ?p c)"
      using less.IH [OF pc] by blast
    moreover have "mset (swap_nat xs ?p c) = mset xs"
      by (rule mset_swap_nat) (use less.prems(2) pc in linarith)+
    ultimately show ?thesis using True by (subst adjust_upwards_nat [OF less.prems(2)]) simp
  next
    case False
    then have "heap_at lt xs c" by (auto simp: heap_at_def)
    with less.prems(1) have "is_heap lt xs" unfolding is_heap_def heap_but_up_def by metis
    then show ?thesis using False by (subst adjust_upwards_nat [OF less.prems(2)]) auto
  qed
qed

lemma heap_down_step:
  assumes h: "heap_but_down lt p xs" and c: "c < length xs" "0 < c" "(c - 1) div 2 = p"
    and big: "\<And>i. i < length xs \<Longrightarrow> 0 < i \<Longrightarrow> (i - 1) div 2 = p \<Longrightarrow> \<not> lt (xs ! c) (xs ! i)"
    and less: "lt (xs ! p) (xs ! c)"
  shows "heap_but_down lt c (swap_nat xs p c)"
proof -
  have pc: "p < c" using parent_lt [OF c(2)] c(3) by simp
  then have pl: "p < length xs" using c by simp
  note nth = nth_swap_nat [OF pl c(1)]
  have ord: "\<not> lt (xs ! ((i - 1) div 2)) (xs ! i)"
    if "(i - 1) div 2 \<noteq> p" "0 < i" "i < length xs" for i
    using h that by (simp add: heap_but_down_def heap_at_def)
  have "heap_at lt (swap_nat xs p c) i" if i: "0 < i" "(i - 1) div 2 \<noteq> c" for i
  proof (cases "i < length xs")
    case True
    let ?q = "(i - 1) div 2"
    have qi: "?q < i" using i parent_lt by simp
    consider "i = c" | "i \<noteq> c" "?q = p" | "i = p" | "i \<noteq> c" "i \<noteq> p" "?q \<noteq> p" by blast
    then show ?thesis
    proof cases
      case 1 then show ?thesis using asym [OF less] c pc by (simp add: heap_at_def nth)
    next
      case 2 then show ?thesis using big True i qi pc by (simp add: heap_at_def nth)
    next
      case 3
      then have "\<not> lt (xs ! ((p - 1) div 2)) (xs ! c)"
        using h i c by (simp add: heap_but_down_def)
      then show ?thesis using 3 qi pc by (simp add: heap_at_def nth)
    next
      case 4 then show ?thesis using ord [of i] i True by (simp add: heap_at_def nth)
    qed
  qed (simp add: heap_at_def)
  moreover have "\<not> lt (swap_nat xs p c ! ((c - 1) div 2)) (swap_nat xs p c ! j)"
    if j: "j < length xs" "0 < j" "(j - 1) div 2 = c" for j
  proof -
    have "c < j" using parent_lt [OF j(2)] j(3) by simp
    then show ?thesis using ord [of j] j c pc by (simp add: nth)
  qed
  ultimately show ?thesis unfolding heap_but_down_def length_list_update by blast
qed

lemma adjust_downwards_heap:
  "heap_but_down lt p xs \<Longrightarrow> p < length xs \<Longrightarrow> length xs \<le> 2 ^ 30 \<Longrightarrow>
    \<exists>ys. adjust_downwards lt (int p) xs = Some (Inr ys) \<and> length ys = length xs
      \<and> (\<forall>i. heap_at lt ys i) \<and> mset ys = mset xs"
proof (induction "length xs - p" arbitrary: p xs rule: less_induct)
  case less
  define c where "c = (if 2 * p + 2 < length xs \<and> lt (xs ! (2 * p + 1)) (xs ! (2 * p + 2))
                       then 2 * p + 2 else 2 * p + 1)"
  have unf: "adjust_downwards lt (int p) xs = (if 2 * p + 1 < length xs \<and> lt (xs ! p) (xs ! c)
      then adjust_downwards lt (int c) (swap_nat xs p c) else Some (Inr xs))"
    using adjust_downwards_nat [OF less.prems(2,3), of lt] by (simp add: c_def Let_def)
  have big: "\<not> lt (xs ! c) (xs ! i)" if "i < length xs" "0 < i" "(i - 1) div 2 = p" for i
    using that parent_of_child [of i p] asym by (auto simp: c_def)
  show ?case
  proof (cases "2 * p + 1 < length xs \<and> lt (xs ! p) (xs ! c)")
    case True
    then have c: "c < length xs" "0 < c" "(c - 1) div 2 = p" "p < c" by (auto simp: c_def)
    have "heap_but_down lt c (swap_nat xs p c)"
      using heap_down_step [OF less.prems(1) c(1-3) big] True by blast
    moreover have "length (swap_nat xs p c) - c < length xs - p"
      using c by (simp add: diff_less_mono2)
    ultimately obtain ys where "adjust_downwards lt (int c) (swap_nat xs p c) = Some (Inr ys)"
      "length ys = length xs" "\<forall>i. heap_at lt ys i" "mset ys = mset (swap_nat xs p c)"
      using less.hyps [of "swap_nat xs p c" c] c less.prems by auto
    then show ?thesis using True unf mset_swap_nat [OF less.prems(2) c(1)] by simp
  next
    case False
    have "heap_at lt xs i" for i
    proof (cases "0 < i \<and> i < length xs \<and> (i - 1) div 2 = p")
      case True
      then have "2 * p + 1 < length xs" using parent_of_child [of i p] by auto
      with False have "\<not> lt (xs ! p) (xs ! c)" by blast
      with big [of i] True neg_trans show ?thesis unfolding heap_at_def by blast
    next
      case False
      then show ?thesis using less.prems(1) by (auto simp: heap_but_down_def heap_at_def)
    qed
    then show ?thesis using False unf by auto
  qed
qed

lemma heap_top_max: "is_heap lt xs \<Longrightarrow> i < length xs \<Longrightarrow> \<not> lt (xs ! 0) (xs ! i)"
proof (induction i rule: less_induct)
  case (less i)
  show ?case
  proof (cases "i = 0")
    case False
    then have "(i - 1) div 2 < i" using parent_lt by simp
    with less False have "\<not> lt (xs ! 0) (xs ! ((i - 1) div 2))" by simp
    moreover have "\<not> lt (xs ! ((i - 1) div 2)) (xs ! i)"
      using less.prems False by (simp add: is_heap_def heap_at_def)
    ultimately show ?thesis using neg_trans by blast
  qed simp
qed

lemma is_heap_snoc: "is_heap lt xs \<Longrightarrow> heap_but_up lt (length xs) (xs @ [x])"
  unfolding heap_but_up_def
proof (intro conjI allI impI)
  fix i assume h: "is_heap lt xs" and i: "i \<noteq> length xs"
  show "heap_at lt (xs @ [x]) i"
  proof (cases "0 < i \<and> i < length xs")
    case True
    then have "(i - 1) div 2 < length xs" by linarith
    with True h show ?thesis by (simp add: is_heap_def heap_at_def nth_append)
  qed (use i in \<open>auto simp: heap_at_def\<close>)
next
  fix j assume "0 < length xs \<and> j < length (xs @ [x]) \<and> 0 < j \<and> (j - 1) div 2 = length xs"
  then have False by (simp only: length_append list.size) linarith
  then show "\<not> lt ((xs @ [x]) ! ((length xs - 1) div 2)) ((xs @ [x]) ! j)" ..
qed

lemma heap_root_replaced:
  assumes "is_heap lt xs" and "xs \<noteq> []"
  shows "heap_but_down lt 0 (butlast (swap_nat xs 0 (length xs - 1)))"
  unfolding heap_but_down_def
proof (intro conjI allI impI)
  let ?ys = "butlast (swap_nat xs 0 (length xs - 1))"
  have nth: "?ys ! k = xs ! k" if "0 < k" "k < length ?ys" for k
    using that by (simp add: nth_butlast nth_list_update)
  fix i :: nat assume i: "0 < i \<and> (i - 1) div 2 \<noteq> 0"
  show "heap_at lt ?ys i"
  proof (cases "i < length ?ys")
    case True
    with i have q: "0 < (i - 1) div 2" "(i - 1) div 2 < length ?ys" by linarith+
    have "i < length xs" using True by simp
    then have "\<not> lt (xs ! ((i - 1) div 2)) (xs ! i)"
      using assms(1) i by (simp add: is_heap_def heap_at_def)
    then have "\<not> lt (?ys ! ((i - 1) div 2)) (?ys ! i)"
      using nth [OF q] nth [of i] True i by metis
    then show ?thesis unfolding heap_at_def by blast
  qed (simp add: heap_at_def)
qed auto

lemma pq_push_Inr:
  assumes "vec_ok tr q" and "is_heap lt (vec_data q)" and "vec_size q < 2 ^ 31 - 1"
    and "relocatable tr" and "vec_size q < max_size tr"
  shows "\<exists>q'. pq_push tr lt r q = Inr q' \<and> vec_ok tr q' \<and> is_heap lt (vec_data q')
    \<and> mset (vec_data q') = add_mset (deref q r) (mset (vec_data q))"
proof -
  from append_constructed_total [OF assms(4,1,5)]
  obtain u where u: "append_constructed tr (deref q r) q = Inr u" by blast
  from append_constructed_Inr [OF u assms(1)]
  have d: "vec_data u = vec_data q @ [deref q r]" and ok: "vec_ok tr u" by auto
  have i: "to_int32 (length (vec_data q)) = int (length (vec_data q))"
    using assms(3) by (intro to_int32_small) (simp add: vec_size_def)
  from adjust_upwards_heap [OF is_heap_snoc [OF assms(2)], of "deref q r"]
  obtain ys where ys: "adjust_upwards lt (int (vec_size q)) (vec_data u) = Inr ys" "is_heap lt ys"
    "mset ys = mset (vec_data u)"
    by (auto simp: d vec_size_def)
  then have "length ys = length (vec_data u)" by (metis size_mset)
  with ys ok u show ?thesis
    by (simp add: pq_push_def vec_push_back_eq i d vec_ok_def vec_size_def)
qed

lemma pq_pop_Inr:
  assumes "vec_ok tr q" and "is_heap lt (vec_data q)" and "vec_size q \<le> 2 ^ 30"
    and ne: "vec_data q \<noteq> []"
  shows "\<exists>q'. pq_pop lt q = Some (Inr q') \<and> vec_ok tr q' \<and> is_heap lt (vec_data q')
    \<and> mset (vec_data q) = add_mset (hd (vec_data q)) (mset (vec_data q'))"
proof -
  let ?xs = "vec_data q" and ?n = "vec_size q"
  let ?ys = "butlast (swap_nat ?xs 0 (length ?xs - 1))"
  have n: "int ?n - 1 = int (length ?xs - 1)" using ne by (cases ?xs) (auto simp: vec_size_def)
  have m: "mset (swap_nat ?xs 0 (length ?xs - 1)) = mset ?xs"
    using ne by (intro mset_swap_nat) auto
  have "last (swap_nat ?xs 0 (length ?xs - 1)) = ?xs ! 0"
    using ne by (simp add: last_conv_nth nth_list_update)
  then have split: "mset ?xs = add_mset (hd ?xs) (mset ?ys)"
    using m ne append_butlast_last_id [of "swap_nat ?xs 0 (length ?xs - 1)"]
    by (metis hd_conv_nth list_update_nonempty mset.simps mset_append union_mset_add_mset_right add_0_right)
  have "\<exists>zs. adjust_downwards lt 0 ?ys = Some (Inr zs) \<and> length zs = length ?ys
      \<and> is_heap lt zs \<and> mset zs = mset ?ys"
  proof (cases "?ys = []")
    case True
    then show ?thesis
      by (simp add: adjust_downwards.simps [of lt 0] to_int32_def is_heap_def)
  next
    case False
    then have "0 < length ?ys" by blast
    moreover have "length ?ys \<le> 2 ^ 30" using assms(3) by (simp add: vec_size_def)
    ultimately obtain zs where "adjust_downwards lt (int 0) ?ys = Some (Inr zs)" "length zs = length ?ys"
      "is_heap lt zs" "mset zs = mset ?ys"
      using adjust_downwards_heap [OF heap_root_replaced [OF assms(2) ne]]
      unfolding is_heap_def by blast
    then show ?thesis by (intro exI [of _ zs] conjI) (simp_all del: length_butlast)
  qed
  then obtain zs where zs: "adjust_downwards lt 0 ?ys = Some (Inr zs)" "length zs = length ?ys"
    "is_heap lt zs" "mset zs = mset ?ys" by blast
  have "swap_at ?xs 0 (int ?n - 1) = swap_nat ?xs 0 (length ?xs - 1)"
    unfolding n using swap_at_int [of ?xs 0] by simp
  then have "pq_pop lt q = Some (Inr (q\<lparr>vec_data := zs\<rparr>))"
    using zs(1) ne by (simp add: pq_pop_def pq_empty_def vec_null_def vec_pop_back_def vec_size_def)
  moreover have "length zs \<le> length ?xs" using zs(2) by simp
  ultimately show ?thesis using zs split assms(1) by (auto simp: vec_ok_def vec_size_def)
qed

end

section \<open>Properties\<close>

text \<open>
  Under a strict weak order \<open>Push\<close> keeps the heap order of \<open>PriorityQueue\<close> and adds
  exactly the pushed element; it never reads outside the vector.
\<close>

theorem pq_push_correct:
  assumes "strict_weak_order lt" and "relocatable tr" and "vec_ok tr q" and "is_heap lt (vec_data q)"
    and "vec_size q < max_size tr" and "vec_size q < 2 ^ 31 - 1"
  shows "\<exists>q'. pq_push tr lt r q = Inr q' \<and> vec_ok tr q' \<and> is_heap lt (vec_data q')
    \<and> mset (vec_data q') = add_mset (deref q r) (mset (vec_data q))"
  using strict_weak_order.pq_push_Inr [OF assms(1,3,4,6,2,5)] .

theorem pq_push_correct_witness:
  "\<exists>q'. pq_push \<lparr>max_size = 100, relocatable = True\<rparr> less_cmp (Outside 9)
          \<lparr>vec_data = [7, 5, 6 :: int], vec_cap = 3\<rparr> = Inr q'
        \<and> mset (vec_data q') = {#5, 6, 7, 9#}"
proof -
  let ?tr = "\<lparr>max_size = 100, relocatable = True\<rparr>"
  let ?q = "\<lparr>vec_data = [7, 5, 6 :: int], vec_cap = 3\<rparr>"
  have "is_heap less_cmp (vec_data ?q)"
    by (simp add: is_heap_def heap_at_def less_cmp_def numeral_3_eq_3 All_less_Suc)
  then obtain q' where "pq_push ?tr less_cmp (Outside 9) ?q = Inr q'"
    "mset (vec_data q') = {#9, 7, 5, 6#}"
    using pq_push_correct [OF less_order.strict_weak_order_axioms, of ?tr ?q "Outside 9"]
    by (auto simp: vec_ok_def vec_size_def)
  then show ?thesis by (auto simp: add_mset_commute)
qed

text \<open>
  C27: in a queue of at most \<open>2 ^ 30\<close> elements, the element \<open>Top()\<close> shows is one that no stored element precedes in the comparator's
  order, and \<open>Pop()\<close> removes exactly that element and keeps the heap order; on an empty queue
  \<open>Top()\<close> throws \<open>out_of_range\<close> and \<open>Pop()\<close> changes nothing.
\<close>

theorem pq_pop_correct:
  assumes "strict_weak_order lt" and "vec_ok tr q" and "is_heap lt (vec_data q)"
    and "vec_size q \<le> 2 ^ 30"
  shows "if pq_empty q
    then pq_top q = Inl (OutOfRange ''PriorityQueue::Top called on an empty queue'')
      \<and> pq_pop lt q = Some (Inr q)
    else \<exists>x q'. pq_top q = Inr x \<and> (\<forall>y \<in> set (vec_data q). \<not> lt x y)
      \<and> pq_pop lt q = Some (Inr q') \<and> vec_ok tr q' \<and> is_heap lt (vec_data q')
      \<and> mset (vec_data q) = add_mset x (mset (vec_data q'))"
proof (cases "vec_data q = []")
  case True
  then show ?thesis by (simp add: pq_empty_def vec_null_def vec_size_def pq_top_def pq_pop_def)
next
  case False
  have "\<forall>y \<in> set (vec_data q). \<not> lt (hd (vec_data q)) y"
    using strict_weak_order.heap_top_max [OF assms(1,3)] False
    by (auto simp: in_set_conv_nth hd_conv_nth)
  then show ?thesis
    using strict_weak_order.pq_pop_Inr [OF assms False] False
    by (auto simp: pq_empty_def pq_top_def vec_front_def vec_null_def vec_size_def)
qed

theorem pq_pop_correct_witness:
  "\<exists>x q'. pq_top \<lparr>vec_data = [7, 5, 6 :: int], vec_cap = 3\<rparr> = Inr x
     \<and> pq_pop less_cmp \<lparr>vec_data = [7, 5, 6 :: int], vec_cap = 3\<rparr> = Some (Inr q')
     \<and> {#5, 6, 7#} = add_mset x (mset (vec_data q'))"
proof -
  let ?tr = "\<lparr>max_size = 100, relocatable = True\<rparr>"
  let ?q = "\<lparr>vec_data = [7, 5, 6 :: int], vec_cap = 3\<rparr>"
  have "is_heap less_cmp (vec_data ?q)"
    by (simp add: is_heap_def heap_at_def less_cmp_def numeral_3_eq_3 All_less_Suc)
  then obtain x q' where "pq_top ?q = Inr x" "pq_pop less_cmp ?q = Some (Inr q')"
    "mset (vec_data ?q) = add_mset x (mset (vec_data q'))"
    using pq_pop_correct [OF less_order.strict_weak_order_axioms, of ?tr ?q]
    by (auto simp: vec_ok_def vec_size_def pq_empty_def vec_null_def)
  then show ?thesis by (auto simp: add_mset_commute)
qed

end
