(* ===== verification/BitSets.thy ===== *)
theory BitSets
  imports Vectors
begin

text \<open>
  \<open>BitSet\<close> of \<open>Wan/Container/Base.hpp\<close>: bits packed in a vector of 32-bit words
  (\<open>VectorBitSet\<close>), a 64-bit count of the set bits (\<open>MemberSize\<close>) and the number of
  addressable bits (\<open>MemberCapacity\<close>).  The abstract value is the set of indices whose bit
  is 1; every operation refines the operation on that set, and the count never wraps.
\<close>

unbundle bit_operations_syntax

record bitset =
  bs_words :: "32 word vector"
  bs_size :: "64 word"
  bs_cap :: "64 word"

definition bs_empty :: bitset where
  "bs_empty = \<lparr>bs_words = vec_empty, bs_size = 0, bs_cap = 0\<rparr>"

definition bs_new :: "traits \<Rightarrow> 64 word \<Rightarrow> bitset res" where
  "bs_new tr n =
     res_bind (vec_size_adjust tr (unat (n div 32 + 1)) (Outside 0) vec_empty) (\<lambda>ws.
       Inr \<lparr>bs_words = ws, bs_size = 0, bs_cap = n\<rparr>)"

text \<open>The clearing loop of \<open>Resize\<close>, from index \<open>i\<close> on.\<close>

function bs_clear_from :: "nat \<Rightarrow> 32 word vector \<Rightarrow> 32 word vector res" where
  "bs_clear_from i ws =
     (if i < vec_size ws then res_bind (vec_put ws i 0) (bs_clear_from (Suc i)) else Inr ws)"
  by pat_completeness auto
termination
  by (relation "measure (\<lambda>(i, ws). vec_size ws - i)") (auto simp: vec_put_def vec_size_def)

declare bs_clear_from.simps [simp del]

definition bs_resize :: "traits \<Rightarrow> 64 word \<Rightarrow> bitset \<Rightarrow> bitset res" where
  "bs_resize tr n b =
     res_bind (vec_size_adjust tr (unat (n div 32 + 1)) (Outside 0) (bs_words b)) (\<lambda>ws.
     res_bind (bs_clear_from 0 ws) (\<lambda>ws'.
       Inr \<lparr>bs_words = ws', bs_size = 0, bs_cap = n\<rparr>))"

definition bs_assign :: "traits \<Rightarrow> bitset \<Rightarrow> bitset \<Rightarrow> bitset res" where
  "bs_assign tr src b =
     res_bind (vec_assign tr (Other (bs_words src)) (bs_words b)) (\<lambda>ws.
       Inr \<lparr>bs_words = ws, bs_size = bs_size src, bs_cap = bs_cap src\<rparr>)"

definition bs_mask :: "64 word \<Rightarrow> 32 word" where
  "bs_mask i = push_bit (unat (i mod 32)) 1"

definition bs_set :: "64 word \<Rightarrow> bitset \<Rightarrow> bitset res" where
  "bs_set i b =
     (if bs_cap b \<le> i then Inl (OutOfRange ''BitSet index out of range'')
      else
        res_bind (vec_at (bs_words b) (unat (i div 32))) (\<lambda>w.
          if w AND bs_mask i = 0
          then res_bind (vec_put (bs_words b) (unat (i div 32)) (w OR bs_mask i)) (\<lambda>ws.
                 Inr (b\<lparr>bs_words := ws, bs_size := bs_size b + 1\<rparr>))
          else Inr b))"

definition bs_reset :: "64 word \<Rightarrow> bitset \<Rightarrow> bitset res" where
  "bs_reset i b =
     (if bs_cap b \<le> i then Inl (OutOfRange ''BitSet index out of range'')
      else
        res_bind (vec_at (bs_words b) (unat (i div 32))) (\<lambda>w.
          if w AND bs_mask i \<noteq> 0
          then res_bind (vec_put (bs_words b) (unat (i div 32)) (w AND NOT (bs_mask i))) (\<lambda>ws.
                 Inr (b\<lparr>bs_words := ws, bs_size := bs_size b - 1\<rparr>))
          else Inr b))"

definition bs_test :: "64 word \<Rightarrow> bitset \<Rightarrow> bool res" where
  "bs_test i b =
     (if bs_cap b \<le> i then Inr False
      else res_bind (vec_at (bs_words b) (unat (i div 32))) (\<lambda>w. Inr (w AND bs_mask i \<noteq> 0)))"

section \<open>The set a bit set stands for\<close>

definition bs_bits :: "bitset \<Rightarrow> nat set" where
  "bs_bits b = {i. i < unat (bs_cap b) \<and> bit (vec_data (bs_words b) ! (i div 32)) (i mod 32)}"

definition bs_ok :: "bitset \<Rightarrow> bool" where
  "bs_ok b \<longleftrightarrow> (bs_cap b \<noteq> 0 \<longrightarrow> unat (bs_cap b) div 32 < vec_size (bs_words b))
     \<and> unat (bs_size b) = card (bs_bits b)"

lemma finite_bs_bits [simp]: "finite (bs_bits b)"
  by (simp add: bs_bits_def)

lemma card_bs_bits_le: "card (bs_bits b) \<le> unat (bs_cap b)"
proof -
  have "bs_bits b \<subseteq> {..<unat (bs_cap b)}" by (auto simp: bs_bits_def)
  then show ?thesis using card_mono [of "{..<unat (bs_cap b)}"] by auto
qed

lemma card_bs_bits_less:
  assumes "i < unat (bs_cap b)" and "i \<notin> bs_bits b"
  shows "card (bs_bits b) < unat (bs_cap b)"
proof -
  have "bs_bits b \<subset> {..<unat (bs_cap b)}" using assms by (auto simp: bs_bits_def)
  then show ?thesis using psubset_card_mono [of "{..<unat (bs_cap b)}"] by auto
qed

lemma word_index: "unat (i div 32 :: 64 word) = unat i div 32"
  by (simp add: unat_div)

lemma bit_mask: "bit (bs_mask i) k \<longleftrightarrow> k = unat i mod 32"
proof -
  have "unat i mod 32 < 32" by simp
  then show ?thesis by (auto simp: bs_mask_def bit_exp_iff unat_mod)
qed

lemma and_mask_zero: "w AND bs_mask i = 0 \<longleftrightarrow> \<not> bit w (unat i mod 32)"
proof -
  have "unat i mod 32 < 32" by simp
  then show ?thesis unfolding bit_eq_iff [of "w AND bs_mask i"] bit_and_iff bit_mask
    by (auto dest: spec [of _ "unat i mod 32"])
qed

lemma index_in_words:
  assumes "bs_ok b" and "i < bs_cap b"
  shows "unat i div 32 < vec_size (bs_words b)"
proof -
  from assms(2) have "unat i < unat (bs_cap b)" by (simp add: word_less_nat_alt)
  then have "unat i div 32 \<le> unat (bs_cap b) div 32" by (simp add: div_le_mono)
  moreover have "bs_cap b \<noteq> 0" using assms(2) by auto
  ultimately show ?thesis using assms(1) by (auto simp: bs_ok_def)
qed

lemma bit_of_index:
  assumes "i < bs_cap b"
  shows "bit (vec_data (bs_words b) ! (unat i div 32)) (unat i mod 32) \<longleftrightarrow> unat i \<in> bs_bits b"
  using assms by (simp add: bs_bits_def word_less_nat_alt)

lemma same_index: "j div 32 = (n::nat) div 32 \<Longrightarrow> j mod 32 = n mod 32 \<longleftrightarrow> j = n"
  by (metis div_mod_decomp)

text \<open>What writing one word does to the set.\<close>

lemma bs_bits_update:
  assumes "unat i div 32 < vec_size (bs_words b)" and "i < bs_cap b"
    and "\<And>k. k < 32 \<Longrightarrow> bit w k \<longleftrightarrow>
      (if k = unat i mod 32 then v else bit (vec_data (bs_words b) ! (unat i div 32)) k)"
  shows "bs_bits (b\<lparr>bs_words := bs_words b\<lparr>vec_data := (vec_data (bs_words b))[unat i div 32 := w]\<rparr>,
      bs_size := s\<rparr>) = (if v then insert (unat i) (bs_bits b) else bs_bits b - {unat i})"
proof -
  have i: "unat i < unat (bs_cap b)" using assms(2) by (simp add: word_less_nat_alt)
  have "bit ((vec_data (bs_words b))[unat i div 32 := w] ! (j div 32)) (j mod 32)
      \<longleftrightarrow> (if j = unat i then v else bit (vec_data (bs_words b) ! (j div 32)) (j mod 32))" for j
    using assms(1) assms(3) [of "j mod 32"] same_index [of j "unat i"]
    by (cases "j div 32 = unat i div 32") (auto simp: nth_list_update vec_size_def)
  then show ?thesis using i by (auto simp: bs_bits_def)
qed


section \<open>Refinement of the set operations\<close>

lemma bs_set_Inr:
  assumes "bs_ok b" and "i < bs_cap b"
  shows "\<exists>b'. bs_set i b = Inr b' \<and> bs_ok b' \<and> bs_cap b' = bs_cap b
    \<and> bs_bits b' = insert (unat i) (bs_bits b)"
proof (cases "unat i \<in> bs_bits b")
  case True
  with assms bit_of_index [OF assms(2)] index_in_words [OF assms] show ?thesis
    by (auto simp: bs_set_def vec_at_def word_index and_mask_zero)
next
  case False
  let ?w = "vec_data (bs_words b) ! (unat i div 32)"
  let ?b = "b\<lparr>bs_words := bs_words b\<lparr>vec_data := (vec_data (bs_words b))[unat i div 32 := ?w OR bs_mask i]\<rparr>,
      bs_size := bs_size b + 1\<rparr>"
  have idx: "unat i div 32 < vec_size (bs_words b)" by (rule index_in_words [OF assms])
  have bits: "bs_bits ?b = insert (unat i) (bs_bits b)"
    using bs_bits_update [OF idx assms(2), of "?w OR bs_mask i" True]
    by (simp add: bit_or_iff bit_mask)
  have "card (bs_bits b) < unat (bs_cap b)"
    using False assms(2) by (intro card_bs_bits_less [of "unat i"]) (simp_all add: word_less_nat_alt)
  then have "unat (bs_size b + 1) = unat (bs_size b) + 1"
    using assms(1) word_unat_bound [of "bs_cap b"] unat_add_lem [of "bs_size b" 1]
    by (simp add: bs_ok_def)
  with bits False assms(1) have "bs_ok ?b" by (simp add: bs_ok_def vec_size_def)
  moreover have "bs_set i b = Inr ?b"
    using assms(2) idx False bit_of_index [OF assms(2)]
    by (simp add: bs_set_def vec_at_def vec_put_def word_index and_mask_zero)
  ultimately show ?thesis using bits by simp
qed

lemma bs_reset_Inr:
  assumes "bs_ok b" and "i < bs_cap b"
  shows "\<exists>b'. bs_reset i b = Inr b' \<and> bs_ok b' \<and> bs_cap b' = bs_cap b
    \<and> bs_bits b' = bs_bits b - {unat i}"
proof (cases "unat i \<in> bs_bits b")
  case False
  with assms bit_of_index [OF assms(2)] index_in_words [OF assms] show ?thesis
    by (auto simp: bs_reset_def vec_at_def word_index and_mask_zero)
next
  case True
  let ?w = "vec_data (bs_words b) ! (unat i div 32)"
  let ?b = "b\<lparr>bs_words := bs_words b\<lparr>vec_data := (vec_data (bs_words b))[unat i div 32 := ?w AND NOT (bs_mask i)]\<rparr>,
      bs_size := bs_size b - 1\<rparr>"
  have idx: "unat i div 32 < vec_size (bs_words b)" by (rule index_in_words [OF assms])
  have bits: "bs_bits ?b = bs_bits b - {unat i}"
    using bs_bits_update [OF idx assms(2), of "?w AND NOT (bs_mask i)" False]
    by (simp add: bit_and_iff bit_not_iff bit_mask)
  have "0 < card (bs_bits b)" using True by (auto simp: card_gt_0_iff)
  then have "unat (bs_size b - 1) = unat (bs_size b) - 1"
    using assms(1) by (intro unat_minus_one) (auto simp: bs_ok_def unat_eq_zero)
  with bits True assms(1) have "bs_ok ?b" by (simp add: bs_ok_def vec_size_def)
  moreover have "bs_reset i b = Inr ?b"
    using assms(2) idx True bit_of_index [OF assms(2)]
    by (simp add: bs_reset_def vec_at_def vec_put_def word_index and_mask_zero)
  ultimately show ?thesis using bits by simp
qed

lemma bs_test_Inr:
  assumes "bs_ok b"
  shows "bs_test i b = Inr (unat i \<in> bs_bits b)"
proof (cases "i < bs_cap b")
  case True
  with bit_of_index [OF True] index_in_words [OF assms True] show ?thesis
    by (simp add: bs_test_def vec_at_def word_index and_mask_zero not_le [symmetric])
next
  case False
  then show ?thesis by (simp add: bs_test_def bs_bits_def word_less_nat_alt not_less linorder_not_less [symmetric, of _ i])
qed

lemma bs_clear_from_Inr:
  "\<exists>ws'. bs_clear_from i ws = Inr ws' \<and> vec_size ws' = vec_size ws
    \<and> (\<forall>k < vec_size ws. vec_data ws' ! k = (if k < i then vec_data ws ! k else 0))"
proof (induction "vec_size ws - i" arbitrary: i ws rule: less_induct)
  case less
  show ?case
  proof (cases "i < vec_size ws")
    case True
    let ?v = "ws\<lparr>vec_data := (vec_data ws)[i := 0]\<rparr>"
    have "vec_size ?v - Suc i < vec_size ws - i" using True by (simp add: vec_size_def)
    from less [OF this] obtain ws' where "bs_clear_from (Suc i) ?v = Inr ws'"
      "vec_size ws' = vec_size ws"
      "\<forall>k < vec_size ws. vec_data ws' ! k = (if k < Suc i then (vec_data ws)[i := 0] ! k else 0)"
      by (auto simp: vec_size_def)
    with True show ?thesis
      by (subst bs_clear_from.simps)
        (auto simp: vec_put_def vec_at_def nth_list_update vec_size_def)
  qed (auto simp: bs_clear_from.simps [of i ws])
qed

lemma vec_size_adjust_length:
  "vec_size_adjust tr n r v = Inr v' \<Longrightarrow> vec_size v' = n"
  by (auto simp: vec_size_adjust_def reallocate_with_tail_def Let_def vec_size_def split: if_splits)

lemma unat_words_needed: "unat (n div 32 + 1 :: 64 word) = unat n div 32 + 1"
proof -
  have "unat n div 32 + 1 < 2 ^ 64" using word_unat_bound [of n] by simp
  then show ?thesis using unat_add_lem [of "n div 32" 1] by (simp add: word_index)
qed

lemma bs_resize_Inr:
  assumes "bs_resize tr n b = Inr b'"
  shows "bs_ok b' \<and> bs_cap b' = n \<and> bs_bits b' = {} \<and> vec_size (bs_words b') = unat n div 32 + 1"
proof -
  from assms obtain ws ws' where w: "vec_size_adjust tr (unat (n div 32 + 1)) (Outside 0) (bs_words b) = Inr ws"
    "bs_clear_from 0 ws = Inr ws'" and b': "b' = \<lparr>bs_words = ws', bs_size = 0, bs_cap = n\<rparr>"
    by (auto simp: bs_resize_def)
  from vec_size_adjust_length [OF w(1)] have n: "vec_size ws = unat n div 32 + 1"
    by (simp only: unat_words_needed)
  from bs_clear_from_Inr [of 0 ws] w(2) have sz: "vec_size ws' = vec_size ws"
    and zero: "\<forall>k < vec_size ws. vec_data ws' ! k = 0" by auto
  have "i div 32 < unat n div 32 + 1" if "i < unat n" for i
    using that by (simp add: div_le_mono less_Suc_eq_le)
  with zero n have "bs_bits b' = {}" by (auto simp: bs_bits_def b')
  then show ?thesis using sz n by (simp add: bs_ok_def b')
qed

lemma bs_resize_total:
  assumes "relocatable tr" and "unat n div 32 + 1 \<le> max_size tr"
  shows "\<exists>b'. bs_resize tr n b = Inr b'"
proof -
  let ?m = "unat (n div 32 + 1)"
  have "?m \<le> max_size tr" using assms(2) by (simp only: unat_words_needed)
  with reallocate_with_tail_total [OF assms(1) this, of _ "bs_words b"]
  have "\<exists>ws. vec_size_adjust tr ?m (Outside 0) (bs_words b) = Inr ws"
    by (simp add: vec_size_adjust_def Let_def)
  then obtain ws where "vec_size_adjust tr ?m (Outside 0) (bs_words b) = Inr ws" ..
  then show ?thesis using bs_clear_from_Inr [of 0 ws] by (auto simp: bs_resize_def)
qed

lemma bs_ok_empty [simp, inv_intros]: "bs_ok bs_empty"
  by (simp add: bs_ok_def bs_empty_def bs_bits_def)

section \<open>Properties\<close>

text \<open>
  C25: a bit set behaves as the set of its indices.  \<open>Set\<close> inserts and \<open>Reset\<close> removes an index
  below the capacity, both keep the invariant that \<open>Size()\<close> is the exact number of set bits
  (so it never wraps), an index beyond the capacity throws \<open>out_of_range\<close>, and \<open>Test\<close>
  answers membership for every index.
\<close>

theorem bitset_refines_set:
  assumes "bs_ok b"
  shows "unat (bs_size b) = card (bs_bits b) \<and> bs_test i b = Inr (unat i \<in> bs_bits b)
    \<and> (if i < bs_cap b
       then (\<exists>b'. bs_set i b = Inr b' \<and> bs_ok b' \<and> bs_cap b' = bs_cap b
               \<and> bs_bits b' = insert (unat i) (bs_bits b))
          \<and> (\<exists>b'. bs_reset i b = Inr b' \<and> bs_ok b' \<and> bs_cap b' = bs_cap b
               \<and> bs_bits b' = bs_bits b - {unat i})
       else bs_set i b = Inl (OutOfRange ''BitSet index out of range'')
          \<and> bs_reset i b = Inl (OutOfRange ''BitSet index out of range''))"
proof -
  have "unat (bs_size b) = card (bs_bits b)" using assms by (simp add: bs_ok_def)
  moreover have "bs_set i b = Inl (OutOfRange ''BitSet index out of range'')"
    "bs_reset i b = Inl (OutOfRange ''BitSet index out of range'')" if "\<not> i < bs_cap b"
    using that by (simp_all add: bs_set_def bs_reset_def not_less)
  ultimately show ?thesis
    using bs_test_Inr [OF assms] bs_set_Inr [OF assms] bs_reset_Inr [OF assms] by simp
qed

theorem bitset_refines_set_witness:
  "\<exists>b. bs_set 33 \<lparr>bs_words = \<lparr>vec_data = [0, 0], vec_cap = 10\<rparr>, bs_size = 0, bs_cap = 40\<rparr> = Inr b
     \<and> bs_size b = 1 \<and> bs_bits b = {33}"
proof -
  let ?b = "\<lparr>bs_words = \<lparr>vec_data = [0, 0], vec_cap = 10\<rparr>, bs_size = 0, bs_cap = 40\<rparr>"
  have none: "bs_bits ?b = {}"
  proof -
    have "\<not> bit ([0, 0 :: 32 word] ! (i div 32)) k" if "i < 40" for i k :: nat
    proof -
      have "i div 32 = 0 \<or> i div 32 = 1" using that by linarith
      then show ?thesis by auto
    qed
    then show ?thesis by (auto simp: bs_bits_def)
  qed
  then have ok: "bs_ok ?b" by (simp add: bs_ok_def vec_size_def)
  obtain b where b: "bs_set 33 ?b = Inr b" "bs_ok b" "bs_bits b = {33}"
    using bitset_refines_set [OF ok, of 33] none by auto
  then have "unat (bs_size b) = 1" by (simp add: bs_ok_def)
  then have "bs_size b = 1" by (metis unat_1 word_unat_eq_iff)
  with b show ?thesis by auto
qed

text \<open>
  \<open>Resize\<close> gives a bit set of exactly the new capacity with every bit clear and a word
  reserved for each index, whatever the old contents were.
\<close>

theorem bs_resize_correct:
  assumes "relocatable tr" and "unat n div 32 + 1 \<le> max_size tr"
  shows "\<exists>b'. bs_resize tr n b = Inr b' \<and> bs_ok b' \<and> bs_cap b' = n \<and> bs_bits b' = {}
    \<and> vec_size (bs_words b') = unat n div 32 + 1"
  using bs_resize_total [OF assms] bs_resize_Inr by blast

theorem bs_resize_correct_witness:
  "\<exists>b'. bs_resize \<lparr>max_size = 100, relocatable = True\<rparr> 40
      \<lparr>bs_words = \<lparr>vec_data = [7], vec_cap = 10\<rparr>, bs_size = 3, bs_cap = 31\<rparr> = Inr b' \<and> bs_bits b' = {}"
  using bs_resize_correct [of "\<lparr>max_size = 100, relocatable = True\<rparr>" 40
      "\<lparr>bs_words = \<lparr>vec_data = [7], vec_cap = 10\<rparr>, bs_size = 3, bs_cap = 31\<rparr>"] by auto

end
