(* ===== verification/Hashing.thy ===== *)
theory Hashing
  imports Prelude
begin

text \<open>
  The hash functors of \<open>Wan/Container/Hash.hpp\<close>.  \<open>HashImitationFunctions\<close> converts an
  integer to 64 bits or runs FNV-1a over a string; each algorithm of \<open>HashFunction\<close>
  multiplies that value by an odd constant, on 64-bit unsigned integers that wrap.
\<close>

unbundle bit_operations_syntax

definition hash_unsigned :: "'a::len word \<Rightarrow> 64 word" where
  "hash_unsigned w = ucast w"

definition hash_signed :: "'a::len word \<Rightarrow> 64 word" where
  "hash_signed w = scast w"

text \<open>The offset basis and the prime of FNV-1a.\<close>

definition fnv_step :: "64 word \<Rightarrow> char \<Rightarrow> 64 word" where
  "fnv_step h c = (h XOR of_char c) * 1099511628211"

definition hash_string :: "string \<Rightarrow> 64 word" where
  "hash_string s = foldl fnv_step 14695981039346656037 s"

definition hash_sdmm :: "('a \<Rightarrow> 64 word) \<Rightarrow> 'a \<Rightarrow> 64 word" where
  "hash_sdmm h x = 65599 * h x"

definition hash_bkdr :: "('a \<Rightarrow> 64 word) \<Rightarrow> 'a \<Rightarrow> 64 word" where
  "hash_bkdr h x = 131 * h x"

definition hash_djb :: "('a \<Rightarrow> 64 word) \<Rightarrow> 'a \<Rightarrow> 64 word" where
  "hash_djb h x = 33 * h x"

definition hash_ap :: "('a \<Rightarrow> 64 word) \<Rightarrow> 'a \<Rightarrow> 64 word" where
  "hash_ap h x = h x * 1031"

definition hash_pjw :: "('a \<Rightarrow> 64 word) \<Rightarrow> 'a \<Rightarrow> 64 word" where
  "hash_pjw h x = push_bit 2 (h x) + h x"

section \<open>Odd multipliers\<close>

lemma mult_inverse_inj:
  fixes c d a b :: "64 word"
  assumes "d * c = 1" and "c * a = c * b"
  shows "a = b"
proof -
  have "a = d * (c * a)" using assms(1) by (simp flip: mult.assoc)
  also have "\<dots> = d * (c * b)" by (simp add: assms(2))
  also have "\<dots> = b" using assms(1) by (simp flip: mult.assoc)
  finally show ?thesis .
qed

lemma mult_eq_iff_inverse:
  fixes c d a b :: "64 word"
  assumes "d * c = 1"
  shows "c * a = c * b \<longleftrightarrow> a = b"
  using mult_inverse_inj [OF assms] by auto

lemma hash_sdmm_eq: "hash_sdmm h x = hash_sdmm h y \<longleftrightarrow> h x = h y"
  unfolding hash_sdmm_def by (rule mult_eq_iff_inverse [of 16079000890114764735]) simp

lemma hash_bkdr_eq: "hash_bkdr h x = hash_bkdr h y \<longleftrightarrow> h x = h y"
  unfolding hash_bkdr_def by (rule mult_eq_iff_inverse [of 281629680514649643]) simp

lemma hash_djb_eq: "hash_djb h x = hash_djb h y \<longleftrightarrow> h x = h y"
  unfolding hash_djb_def by (rule mult_eq_iff_inverse [of 1117984489315730401]) simp

lemma hash_ap_eq: "hash_ap h x = hash_ap h y \<longleftrightarrow> h x = h y"
  unfolding hash_ap_def mult.commute [of _ 1031] by (rule mult_eq_iff_inverse [of 13544311604071901623]) simp

lemma hash_pjw_times: "hash_pjw h x = 5 * h x"
  by (simp add: hash_pjw_def push_bit_eq_mult)

lemma hash_pjw_eq: "hash_pjw h x = hash_pjw h y \<longleftrightarrow> h x = h y"
  unfolding hash_pjw_times by (rule mult_eq_iff_inverse [of 14757395258967641293]) simp

lemma fnv_step_eq_iff: "fnv_step h c = fnv_step g d \<longleftrightarrow> h XOR of_char c = g XOR of_char d"
  unfolding fnv_step_def mult.commute [of _ 1099511628211]
  by (rule mult_eq_iff_inverse [of 14886173955864302971]) simp

lemma xor_cancel_right: "(a :: 64 word) XOR c = b XOR c \<longleftrightarrow> a = b"
  unfolding bit_eq_iff bit_xor_iff by blast

lemma fnv_step_inj_state: "fnv_step h c = fnv_step g c \<longleftrightarrow> h = g"
  by (simp add: fnv_step_eq_iff xor_cancel_right)

lemma of_char_word_inj: "(of_char c :: 64 word) = of_char d \<longleftrightarrow> c = d"
proof -
  have u: "unat (of_char e :: 64 word) = of_char e" for e :: char
  proof -
    have "(of_char e :: nat) < 2 ^ 64"
      using nat_of_char_less_256 [of e] by (rule less_trans) simp
    then have "unat (word_of_nat (of_char e) :: 64 word) = of_char e"
      by (simp add: unat_of_nat)
    then show ?thesis by (simp only: of_nat_of_char)
  qed
  show ?thesis
  proof
    assume "(of_char c :: 64 word) = of_char d"
    then have "unat (of_char c :: 64 word) = unat (of_char d :: 64 word)" by simp
    then show "c = d" by (simp only: u of_char_eq_iff)
  qed simp
qed

lemma fnv_step_inj_char: "fnv_step h c = fnv_step h d \<longleftrightarrow> c = d"
  using xor_cancel_right [of "of_char c" h "of_char d"]
  by (simp add: fnv_step_eq_iff of_char_word_inj xor.commute)

lemma foldl_fnv_inj: "foldl fnv_step h s = foldl fnv_step g s \<longleftrightarrow> h = g"
  by (induction s arbitrary: h g) (simp_all add: fnv_step_inj_state)

section \<open>Properties\<close>

text \<open>
  FNV-1a never maps two strings that differ in exactly one character to the same value,
  and every algorithm of \<open>HashFunction\<close> is injective on the 64-bit base hash: it adds no
  collision to those of the base hash.
\<close>

theorem hash_no_new_collisions:
  "(hash_string (p @ c # s) = hash_string (p @ d # s) \<longleftrightarrow> c = d)
   \<and> (hash_sdmm h x = hash_sdmm h y \<longleftrightarrow> h x = h y)
   \<and> (hash_bkdr h x = hash_bkdr h y \<longleftrightarrow> h x = h y)
   \<and> (hash_djb h x = hash_djb h y \<longleftrightarrow> h x = h y)
   \<and> (hash_ap h x = hash_ap h y \<longleftrightarrow> h x = h y)
   \<and> (hash_pjw h x = hash_pjw h y \<longleftrightarrow> h x = h y)"
  by (simp add: hash_string_def foldl_fnv_inj fnv_step_inj_char hash_sdmm_eq hash_bkdr_eq
      hash_djb_eq hash_ap_eq hash_pjw_eq)

end
