(* ===== verification/Blooms.thy ===== *)
theory Blooms
  imports BitSets Hashing
begin

text \<open>
  The Bloom filter of \<open>Wan/Container/Bloom.hpp\<close>: three hash locations per element in a
  \<open>BitSet\<close>.  The hash functor is a template parameter, here a record of its three functions;
  \<open>hash_function\<close> is the default one.  What the filter needs of its bit store is the locale
  \<open>bit_store\<close>, interpreted by \<open>BitSet\<close>.
\<close>

section \<open>The bit store the filter relies on\<close>

locale bit_store =
  fixes valid :: "'b \<Rightarrow> bool"
    and room :: "'b \<Rightarrow> 64 word"
    and mark :: "64 word \<Rightarrow> 'b \<Rightarrow> 'b res"
    and marked :: "64 word \<Rightarrow> 'b \<Rightarrow> bool res"
  assumes mark_total: "valid b \<Longrightarrow> i < room b \<Longrightarrow> \<exists>b'. mark i b = Inr b'"
    and mark_keeps: "valid b \<Longrightarrow> i < room b \<Longrightarrow> mark i b = Inr b' \<Longrightarrow> valid b' \<and> room b' = room b"
    and marked_total: "valid b \<Longrightarrow> \<exists>t. marked i b = Inr t"
    and marked_mark: "valid b \<Longrightarrow> i < room b \<Longrightarrow> mark i b = Inr b'
      \<Longrightarrow> marked j b' = Inr True \<longleftrightarrow> j = i \<or> marked j b = Inr True"
begin

lemma mark_three:
  assumes "valid b" and "i < room b" and "j < room b" and "k < room b"
  shows "\<exists>b'. res_bind (mark i b) (\<lambda>b. res_bind (mark j b) (mark k)) = Inr b'
    \<and> valid b' \<and> room b' = room b
    \<and> (\<forall>l. marked l b' = Inr True \<longleftrightarrow> l \<in> {i, j, k} \<or> marked l b = Inr True)"
proof -
  obtain b1 where 1: "mark i b = Inr b1" "valid b1" "room b1 = room b"
    using mark_total mark_keeps assms by metis
  obtain b2 where 2: "mark j b1 = Inr b2" "valid b2" "room b2 = room b"
    using mark_total mark_keeps assms 1 by metis
  obtain b3 where 3: "mark k b2 = Inr b3" "valid b3" "room b3 = room b"
    using mark_total mark_keeps assms 2 by metis
  have "marked l b3 = Inr True \<longleftrightarrow> l \<in> {i, j, k} \<or> marked l b = Inr True" for l
    using marked_mark [OF assms(1,2) 1(1), of l] marked_mark [OF 1(2) _ 2(1), of l]
      marked_mark [OF 2(2) _ 3(1), of l] assms 1 2 by auto
  with 1 2 3 show ?thesis by auto
qed

end

interpretation bit_set_store: bit_store bs_ok bs_cap bs_set bs_test
proof
  fix b b' :: bitset and i j :: "64 word"
  assume ok: "bs_ok b"
  show "\<exists>t. bs_test i b = Inr t" using bs_test_Inr [OF ok] by blast
  assume i: "i < bs_cap b"
  show "\<exists>b'. bs_set i b = Inr b'" using bs_set_Inr [OF ok i] by blast
  assume "bs_set i b = Inr b'"
  with bs_set_Inr [OF ok i] have b': "bs_ok b'" "bs_cap b' = bs_cap b"
    "bs_bits b' = insert (unat i) (bs_bits b)" by auto
  then show "bs_ok b' \<and> bs_cap b' = bs_cap b" by simp
  show "bs_test j b' = Inr True \<longleftrightarrow> j = i \<or> bs_test j b = Inr True"
    using bs_test_Inr [OF ok, of j] bs_test_Inr [OF b'(1), of j] b'(3) by (auto simp: word_unat_eq_iff)
qed

section \<open>The filter\<close>

record 'a hash_functor =
  fun_sdmm :: "'a \<Rightarrow> 64 word"
  fun_djb :: "'a \<Rightarrow> 64 word"
  fun_pjw :: "'a \<Rightarrow> 64 word"

definition hash_function :: "('a \<Rightarrow> 64 word) \<Rightarrow> 'a hash_functor" where
  "hash_function h = \<lparr>fun_sdmm = hash_sdmm h, fun_djb = hash_djb h, fun_pjw = hash_pjw h\<rparr>"

record bloom =
  bf_bits :: bitset
  bf_cap :: "64 word"

definition bloom_default :: "traits \<Rightarrow> bloom res" where
  "bloom_default tr = res_bind (bs_resize tr 1000 bs_empty) (\<lambda>b. Inr \<lparr>bf_bits = b, bf_cap = 1000\<rparr>)"

definition bloom_new :: "traits \<Rightarrow> 64 word \<Rightarrow> bloom res" where
  "bloom_new tr n =
     (if n = 0 then Inl (InvalidArgument ''BloomFilter capacity must be greater than zero'')
      else res_bind (bs_resize tr n bs_empty) (\<lambda>b. Inr \<lparr>bf_bits = b, bf_cap = n\<rparr>))"

definition bloom_size :: "bloom \<Rightarrow> 64 word" where
  "bloom_size f = bs_size (bf_bits f)"

definition bloom_capacity :: "bloom \<Rightarrow> 64 word" where
  "bloom_capacity f = bf_cap f"

text \<open>The short-circuit conjunction of \<open>Test\<close> reads the later bits only if the earlier are set.\<close>

definition bloom_test :: "'a hash_functor \<Rightarrow> 'a \<Rightarrow> bloom \<Rightarrow> bool res" where
  "bloom_test hs x f =
     (let primary = fun_sdmm hs x mod bf_cap f;
          secondary = fun_djb hs x mod bf_cap f;
          tertiary = fun_pjw hs x mod bf_cap f
      in res_bind (bs_test primary (bf_bits f)) (\<lambda>p. if \<not> p then Inr False else
         res_bind (bs_test secondary (bf_bits f)) (\<lambda>s. if \<not> s then Inr False else
           bs_test tertiary (bf_bits f))))"

definition bloom_set :: "'a hash_functor \<Rightarrow> 'a \<Rightarrow> bloom \<Rightarrow> bloom res" where
  "bloom_set hs x f =
     (let primary = fun_sdmm hs x mod bf_cap f;
          secondary = fun_djb hs x mod bf_cap f;
          tertiary = fun_pjw hs x mod bf_cap f
      in res_bind (res_bind (bs_set primary (bf_bits f)) (\<lambda>b.
           res_bind (bs_set secondary b) (bs_set tertiary)))
         (\<lambda>b. Inr (f\<lparr>bf_bits := b\<rparr>)))"

fun bloom_set_all :: "'a hash_functor \<Rightarrow> 'a list \<Rightarrow> bloom \<Rightarrow> bloom res" where
  "bloom_set_all hs [] f = Inr f"
| "bloom_set_all hs (x # xs) f = res_bind (bloom_set hs x f) (bloom_set_all hs xs)"

definition bloom_ok :: "bloom \<Rightarrow> bool" where
  "bloom_ok f \<longleftrightarrow> bs_ok (bf_bits f) \<and> bs_cap (bf_bits f) = bf_cap f \<and> bf_cap f \<noteq> 0"

definition locations :: "'a hash_functor \<Rightarrow> bloom \<Rightarrow> 'a \<Rightarrow> nat set" where
  "locations hs f x = unat ` {fun_sdmm hs x mod bf_cap f, fun_djb hs x mod bf_cap f, fun_pjw hs x mod bf_cap f}"

lemma bloom_test_iff:
  "bloom_ok f \<Longrightarrow> bloom_test hs x f = Inr (locations hs f x \<subseteq> bs_bits (bf_bits f))"
  by (simp add: bloom_test_def bloom_ok_def bs_test_Inr locations_def Let_def)

lemma mod_room: "n \<noteq> 0 \<Longrightarrow> (a :: 64 word) mod n < n"
  by (simp add: word_mod_less_divisor word_neq_0_conv)

lemma bloom_set_Inr:
  assumes "bloom_ok f"
  shows "\<exists>f'. bloom_set hs x f = Inr f' \<and> bloom_ok f' \<and> bf_cap f' = bf_cap f
    \<and> bs_bits (bf_bits f') = bs_bits (bf_bits f) \<union> locations hs f x"
proof -
  let ?c = "bf_cap f"
  from assms have ok: "bs_ok (bf_bits f)" and c: "bs_cap (bf_bits f) = ?c" and n: "?c \<noteq> 0"
    by (auto simp: bloom_ok_def)
  have r: "a mod ?c < bs_cap (bf_bits f)" for a using mod_room [OF n] c by simp
  from bit_set_store.mark_three [OF ok r r r] obtain b where
    b: "res_bind (bs_set (fun_sdmm hs x mod ?c) (bf_bits f)) (\<lambda>b.
          res_bind (bs_set (fun_djb hs x mod ?c) b) (bs_set (fun_pjw hs x mod ?c))) = Inr b"
    "bs_ok b" "bs_cap b = ?c"
    "\<forall>l. bs_test l b = Inr True \<longleftrightarrow>
      l \<in> {fun_sdmm hs x mod ?c, fun_djb hs x mod ?c, fun_pjw hs x mod ?c} \<or> bs_test l (bf_bits f) = Inr True"
    unfolding c by blast
  have "bs_bits b = bs_bits (bf_bits f) \<union> locations hs f x"
  proof (rule set_eqI)
    fix n
    show "n \<in> bs_bits b \<longleftrightarrow> n \<in> bs_bits (bf_bits f) \<union> locations hs f x"
    proof (cases "n < unat ?c")
      case True
      then have n: "unat (word_of_nat n :: 64 word) = n"
        using word_unat_bound [of ?c] by (simp add: unat_of_nat)
      have "(n \<in> bs_bits b) = (bs_test (word_of_nat n) b = Inr True)"
        using bs_test_Inr [OF b(2)] n by simp
      moreover have "(n \<in> bs_bits (bf_bits f)) = (bs_test (word_of_nat n) (bf_bits f) = Inr True)"
        using bs_test_Inr [OF ok] n by simp
      moreover have "n \<in> locations hs f x \<longleftrightarrow>
          word_of_nat n \<in> {fun_sdmm hs x mod ?c, fun_djb hs x mod ?c, fun_pjw hs x mod ?c}"
        using n by (auto simp: locations_def word_unat_eq_iff)
      ultimately show ?thesis using b(4) by auto
    next
      case False
      moreover have "m < unat ?c" if "m \<in> locations hs f x" for m
        using that mod_room [OF n] by (auto simp: locations_def simp flip: word_less_nat_alt)
      ultimately show ?thesis using b(3) c by (auto simp: bs_bits_def)
    qed
  qed
  moreover have "bloom_set hs x f = Inr (f\<lparr>bf_bits := b\<rparr>)"
    by (simp only: bloom_set_def Let_def b(1) res_bind.simps)
  moreover have "bloom_ok (f\<lparr>bf_bits := b\<rparr>)" using b(2,3) n by (simp add: bloom_ok_def)
  ultimately show ?thesis by (intro exI [of _ "f\<lparr>bf_bits := b\<rparr>"] conjI) simp_all
qed

lemma locations_cap: "bf_cap f' = bf_cap f \<Longrightarrow> locations hs f' x = locations hs f x"
  by (simp add: locations_def)

lemma bloom_set_all_Inr:
  "bloom_ok f \<Longrightarrow> \<exists>f'. bloom_set_all hs xs f = Inr f' \<and> bloom_ok f' \<and> bf_cap f' = bf_cap f
    \<and> bs_bits (bf_bits f') = bs_bits (bf_bits f) \<union> (\<Union>x \<in> set xs. locations hs f x)"
proof (induction xs arbitrary: f)
  case (Cons x xs)
  from bloom_set_Inr [OF Cons.prems, of hs x] obtain g where g: "bloom_set hs x f = Inr g" "bloom_ok g"
    "bf_cap g = bf_cap f" "bs_bits (bf_bits g) = bs_bits (bf_bits f) \<union> locations hs f x" by blast
  from Cons.IH [OF g(2)] obtain f' where "bloom_set_all hs xs g = Inr f'" "bloom_ok f'"
    "bf_cap f' = bf_cap g" "bs_bits (bf_bits f') = bs_bits (bf_bits g) \<union> (\<Union>x \<in> set xs. locations hs g x)"
    by blast
  then show ?case using g by (simp add: locations_cap [OF g(3)] Un_assoc)
qed simp

section \<open>Properties\<close>

text \<open>
  C26: a filter of nonzero capacity never throws and never misses an inserted element.  After
  any insertions on a valid filter, \<open>Test\<close> answers exactly whether the three locations of
  the element are among the bits that were set before or belong to inserted elements; so it
  is true for each of them.
\<close>

theorem bloom_no_false_negatives:
  assumes "bloom_ok f"
  shows "\<exists>f'. bloom_set_all hs xs f = Inr f' \<and> bloom_ok f'
    \<and> (\<forall>x. bloom_test hs x f' =
         Inr (locations hs f x \<subseteq> bs_bits (bf_bits f) \<union> (\<Union>y \<in> set xs. locations hs f y)))
    \<and> (\<forall>x \<in> set xs. bloom_test hs x f' = Inr True)"
proof -
  from bloom_set_all_Inr [OF assms, of hs xs] obtain f' where f': "bloom_set_all hs xs f = Inr f'" "bloom_ok f'"
    "bf_cap f' = bf_cap f"
    "bs_bits (bf_bits f') = bs_bits (bf_bits f) \<union> (\<Union>x \<in> set xs. locations hs f x)" by blast
  have "bloom_test hs x f' =
      Inr (locations hs f x \<subseteq> bs_bits (bf_bits f) \<union> (\<Union>y \<in> set xs. locations hs f y))" for x
    by (simp only: bloom_test_iff [OF f'(2)] f'(4) locations_cap [OF f'(3)])
  with f' show ?thesis by auto
qed

lemma bloom_default_ok:
  assumes "relocatable tr" and "32 \<le> max_size tr"
  shows "\<exists>f. bloom_default tr = Inr f \<and> bloom_ok f \<and> bs_bits (bf_bits f) = {}"
proof -
  have "unat (1000 :: 64 word) div 32 + 1 \<le> max_size tr" using assms(2) by simp
  from bs_resize_total [OF assms(1) this, of bs_empty] obtain b where "bs_resize tr 1000 bs_empty = Inr b" ..
  with bs_resize_Inr [OF this] show ?thesis by (auto simp: bloom_default_def bloom_ok_def)
qed

theorem bloom_no_false_negatives_witness:
  "\<exists>f f'. bloom_default \<lparr>max_size = 1000, relocatable = True\<rparr> = Inr f
     \<and> bloom_set_all (hash_function hash_string) [''wan'', ''map''] f = Inr f'
     \<and> bloom_test (hash_function hash_string) ''wan'' f' = Inr True"
proof -
  obtain f where f: "bloom_default \<lparr>max_size = 1000, relocatable = True\<rparr> = Inr f" "bloom_ok f"
    using bloom_default_ok [of "\<lparr>max_size = 1000, relocatable = True\<rparr>"] by auto
  with bloom_no_false_negatives [OF f(2), of "hash_function hash_string" "[''wan'', ''map'']"]
  show ?thesis by auto
qed

end
