(* ===== verification/KeyedStores.thy ===== *)
theory KeyedStores
  imports Prelude
begin

text \<open>
  The contract between the associative containers of \<open>Wan/Container/Map.hpp\<close> and \<open>Set.hpp\<close> and
  the structures they are built on.  A store holds entries with pairwise different keys; an
  insertion keeps an entry that is already there, a removal takes the entry with the key, a
  lookup finds it.  \<open>room n\<close> bounds the insertions that cannot run into a size limit.  What the
  maps and sets promise follows from these laws alone, in the locale; \<open>Maps\<close> and \<open>Sets\<close>
  interpret it by the red-black tree and by the hash table.
\<close>

definition known :: "('e \<Rightarrow> 'k) \<Rightarrow> ('k \<Rightarrow> 'k \<Rightarrow> bool) \<Rightarrow> 'k \<Rightarrow> 'e set \<Rightarrow> bool" where
  "known key same k E \<longleftrightarrow> (\<exists>e \<in> E. same (key e) k)"

text \<open>Pushing a list: each entry whose key is not there yet is added.\<close>

fun merge_new :: "('e \<Rightarrow> 'k) \<Rightarrow> ('k \<Rightarrow> 'k \<Rightarrow> bool) \<Rightarrow> 'e set \<Rightarrow> 'e list \<Rightarrow> 'e set" where
  "merge_new key same E [] = E"
| "merge_new key same E (e # es) =
     merge_new key same (if known key same (key e) E then E else insert e E) es"

fun push_all :: "('e \<Rightarrow> 't \<Rightarrow> (bool \<times> 't) option) \<Rightarrow> 'e list \<Rightarrow> 't \<Rightarrow> 't option" where
  "push_all ins [] t = Some t"
| "push_all ins (e # es) t = (case ins e t of None \<Rightarrow> None | Some (_, t') \<Rightarrow> push_all ins es t')"

lemma merge_new_grows: "E \<subseteq> merge_new key same E es"
proof (induction es arbitrary: E)
  case (Cons e es)
  have "E \<subseteq> (if known key same (key e) E then E else insert e E)" by auto
  also have "\<dots> \<subseteq> merge_new key same E (e # es)" unfolding merge_new.simps by (rule Cons.IH)
  finally show ?case .
qed simp

lemma merge_new_known:
  assumes "\<And>k. same k k"
  shows "e \<in> set es \<Longrightarrow> known key same (key e) (merge_new key same E es)"
proof (induction es arbitrary: E)
  case (Cons f es)
  show ?case
  proof (cases "e \<in> set es")
    case False
    then have "e = f" using Cons.prems by simp
    then have "known key same (key e) (if known key same (key f) E then E else insert f E)"
      using assms by (auto simp: known_def)
    then show ?thesis
      using merge_new_grows [of "if known key same (key f) E then E else insert f E" key same es]
      by (auto simp: known_def split: if_splits)
  qed (use Cons.IH in simp)
qed simp

locale keyed_store =
  fixes entries :: "'t \<Rightarrow> 'e set \<Rightarrow> bool"
    and room :: "nat \<Rightarrow> 't \<Rightarrow> bool"
    and key :: "'e \<Rightarrow> 'k"
    and same :: "'k \<Rightarrow> 'k \<Rightarrow> bool"
    and ins :: "'e \<Rightarrow> 't \<Rightarrow> (bool \<times> 't) option"
    and del :: "'k \<Rightarrow> 't \<Rightarrow> (bool \<times> 't) option"
    and get :: "'k \<Rightarrow> 't \<Rightarrow> 'e option option"
  assumes same_refl: "same k k"
    and same_sym: "same k l \<Longrightarrow> same l k"
    and same_trans: "same k l \<Longrightarrow> same l m \<Longrightarrow> same k m"
    and one_per_key: "entries t E \<Longrightarrow> e \<in> E \<Longrightarrow> e' \<in> E \<Longrightarrow> same (key e) (key e') \<Longrightarrow> e = e'"
    and ins_law: "entries t E \<Longrightarrow> room (Suc n) t
      \<Longrightarrow> \<exists>t'. ins e t = Some (\<not> known key same (key e) E, t') \<and> room n t'
        \<and> entries t' (if known key same (key e) E then E else insert e E)"
    and del_law: "entries t E
      \<Longrightarrow> \<exists>t'. del k t = Some (known key same k E, t') \<and> entries t' {e \<in> E. \<not> same (key e) k}"
    and get_law: "entries t E
      \<Longrightarrow> \<exists>r. get k t = Some r \<and> (case r of None \<Rightarrow> \<not> known key same k E | Some e \<Rightarrow> e \<in> E \<and> same (key e) k)"
begin

lemma get_cases:
  assumes "entries t E"
  obtains (found) e where "e \<in> E" "same (key e) k" "get k t = Some (Some e)"
  | (missing) "\<not> known key same k E" "get k t = Some None"
proof -
  from get_law [OF assms, of k] obtain r where
    "get k t = Some r" "case r of None \<Rightarrow> \<not> known key same k E | Some e \<Rightarrow> e \<in> E \<and> same (key e) k" by blast
  then show thesis using found missing by (cases r) auto
qed

lemma get_found:
  assumes "entries t E" and "e \<in> E" and "same (key e) k"
  shows "get k t = Some (Some e)"
  using assms(1)
proof (cases rule: get_cases [where k = k])
  case (found f)
  with assms same_sym same_trans have "same (key e) (key f)" by blast
  from one_per_key [OF assms(1,2) found(1) this] found show ?thesis by simp
next
  case missing
  with assms show ?thesis by (auto simp: known_def)
qed

lemma get_missing: "entries t E \<Longrightarrow> \<not> known key same k E \<Longrightarrow> get k t = Some None"
  by (erule get_cases [where k = k]) (auto simp: known_def)

text \<open>What is looked up after a push: the first entry pushed with a key stays.\<close>

lemma get_after_ins:
  assumes "entries t E" and "room (Suc n) t"
  shows "\<exists>t' old. ins e t = Some (old = None, t') \<and> get (key e) t = Some old
    \<and> get k t' = (if same (key e) k \<and> old = None then Some (Some e) else get k t)"
proof -
  from ins_law [OF assms, of e] obtain t' where t': "ins e t = Some (\<not> known key same (key e) E, t')"
    "entries t' (if known key same (key e) E then E else insert e E)" by blast
  from assms(1) show ?thesis
  proof (cases rule: get_cases [where k = "key e"])
    case (found f)
    then have kn: "known key same (key e) E" by (auto simp: known_def)
    then have t'E: "entries t' E" using t'(2) by simp
    from assms(1) have "get k t' = get k t"
      by (cases rule: get_cases [where k = k]) (simp_all add: get_found [OF t'E] get_missing [OF t'E])
    with found kn t'(1) show ?thesis by auto
  next
    case missing
    then have new: "entries t' (insert e E)" using t'(2) by simp
    have "get k t' = (if same (key e) k then Some (Some e) else get k t)"
    proof (cases "same (key e) k")
      case True
      then show ?thesis using get_found [OF new] by simp
    next
      case False
      from assms(1) have "get k t' = get k t"
      proof (cases rule: get_cases [where k = k])
        case (found f)
        then show ?thesis using get_found [OF new] by simp
      next
        case missing
        with False have "\<not> known key same k (insert e E)" by (auto simp: known_def)
        with missing show ?thesis using get_missing [OF new] by simp
      qed
      with False show ?thesis by simp
    qed
    with missing t'(1) show ?thesis by auto
  qed
qed

lemma get_after_del:
  assumes "entries t E"
  shows "\<exists>t' old. del k t = Some (old \<noteq> None, t') \<and> get k t = Some old
    \<and> get l t' = (if same k l then Some None else get l t)"
proof -
  let ?E = "{e \<in> E. \<not> same (key e) k}"
  from del_law [OF assms, of k] obtain t' where t': "del k t = Some (known key same k E, t')" "entries t' ?E"
    by blast
  have "get l t' = (if same k l then Some None else get l t)"
  proof (cases "same k l")
    case True
    then have "\<not> known key same l ?E" using same_trans same_sym unfolding known_def by blast
    with True show ?thesis using get_missing [OF t'(2)] by simp
  next
    case False
    have other: "\<not> same (key e) k" if "same (key e) l" for e using False that same_trans same_sym by blast
    from assms have "get l t' = get l t"
    proof (cases rule: get_cases [where k = l])
      case (found f)
      then show ?thesis using get_found [OF t'(2), of f l] other by simp
    next
      case missing
      then have "\<not> known key same l ?E" by (auto simp: known_def)
      with missing show ?thesis using get_missing [OF t'(2)] by simp
    qed
    with False show ?thesis by simp
  qed
  moreover have "\<exists>old. get k t = Some old \<and> (old \<noteq> None) = known key same k E"
    using assms by (cases rule: get_cases [where k = k]) (auto simp: known_def)
  ultimately show ?thesis using t'(1) by auto
qed

lemma push_all_law:
  "entries t E \<Longrightarrow> room (length es) t
    \<Longrightarrow> \<exists>t'. push_all ins es t = Some t' \<and> entries t' (merge_new key same E es)"
proof (induction es arbitrary: t E)
  case (Cons e es)
  from ins_law [OF Cons.prems(1), of "length es" e] Cons.prems(2) obtain t' where
    t': "ins e t = Some (\<not> known key same (key e) E, t')" "room (length es) t'"
    "entries t' (if known key same (key e) E then E else insert e E)" by auto
  from Cons.IH [OF t'(3,2)] t'(1) show ?case by simp
qed simp

text \<open>Every key of a pushed list is found afterwards, and nothing already stored is replaced.\<close>

lemma push_all_finds:
  assumes "entries t E" and "room (length es) t" and "e \<in> set es"
  shows "\<exists>t' f. push_all ins es t = Some t' \<and> get (key e) t' = Some (Some f) \<and> same (key f) (key e)"
proof -
  from push_all_law [OF assms(1,2)] obtain t' where
    t': "push_all ins es t = Some t'" "entries t' (merge_new key same E es)" by blast
  from merge_new_known [of same e es key E, OF same_refl assms(3)] obtain f where
    "f \<in> merge_new key same E es" "same (key f) (key e)" by (auto simp: known_def)
  from get_found [OF t'(2) this] this(2) t'(1) show ?thesis by blast
qed

lemma push_all_keeps:
  assumes "entries t E" and "room (length es) t" and "get k t = Some (Some e)"
  shows "\<exists>t'. push_all ins es t = Some t' \<and> get k t' = Some (Some e)"
proof -
  from push_all_law [OF assms(1,2)] obtain t' where
    t': "push_all ins es t = Some t'" "entries t' (merge_new key same E es)" by blast
  from assms(1) have "e \<in> E \<and> same (key e) k"
    using assms(3) by (cases rule: get_cases [where k = k]) auto
  then have "e \<in> merge_new key same E es" "same (key e) k"
    using merge_new_grows [of E key same es] by blast+
  from get_found [OF t'(2) this] t'(1) show ?thesis by blast
qed

end

end
