(* ===== verification/HashTables.thy ===== *)
theory HashTables
  imports Vectors
begin

text \<open>
  \<open>HashTable\<close> of \<open>Wan/Container/Base.hpp\<close>, at the level of its pointers.  A node is a record
  at an address; it is linked into the chain of its bucket (\<open>MemberNext\<close>) and into the
  insertion-order list (\<open>OverallListPrev\<close>, \<open>OverallListNext\<close>).  A table owns the nodes of
  \<open>ht_nodes\<close>; \<open>new\<close> takes the address \<open>ht_fresh\<close> and \<open>delete\<close> removes the node.  A null
  or dangling dereference, a division by zero and a loop that does not end are the outcome
  \<open>None\<close>; otherwise an operation returns its result or exception with the table it leaves.
  The template parameters (the key functor and the hash) are a record \<open>hash_policy\<close>, the
  limits of the two vectors a record \<open>hash_limits\<close>.
\<close>

type_synonym addr = nat

record 'v hnode =
  hn_data :: 'v
  hn_next :: "addr option"
  hn_prev :: "addr option"
  hn_after :: "addr option"

record 'v htable =
  ht_nodes :: "addr \<Rightarrow> 'v hnode option"
  ht_fresh :: addr
  ht_size :: "64 word"
  ht_load :: "64 word"
  ht_cap :: "64 word"
  ht_buckets :: "addr option vector"
  ht_tail :: "addr option"
  ht_head :: "addr option"

record ('k, 'v) hash_policy =
  key_of :: "'v \<Rightarrow> 'k"
  hash_key :: "'k \<Rightarrow> 64 word"
  hash_value :: "'v \<Rightarrow> 64 word"

record hash_limits =
  bucket_traits :: traits
  index_limit :: nat

section \<open>Construction\<close>

definition ht_blank :: "'v htable" where
  "ht_blank = \<lparr>ht_nodes = (\<lambda>_. None), ht_fresh = 0, ht_size = 0, ht_load = 7, ht_cap = 0,
     ht_buckets = vec_empty, ht_tail = None, ht_head = None\<rparr>"

definition ht_new :: "hash_limits \<Rightarrow> 64 word \<Rightarrow> 'v htable res" where
  "ht_new lim cap =
     res_bind (vec_size_adjust (bucket_traits lim) (unat cap) (Outside None) vec_empty) (\<lambda>bs.
       Inr (ht_blank\<lparr>ht_cap := cap, ht_buckets := bs\<rparr>))"

definition ht_default :: "hash_limits \<Rightarrow> 'v htable res" where
  "ht_default lim = ht_new lim 10"

section \<open>Rehashing\<close>

text \<open>The first loop of \<open>Rehash\<close> computes the bucket of every node in insertion order.\<close>

partial_function (option) bucket_indices ::
  "('v \<Rightarrow> 64 word) \<Rightarrow> 64 word \<Rightarrow> (addr \<Rightarrow> 'v hnode option) \<Rightarrow> addr option \<Rightarrow> 64 word list option" where
  "bucket_indices h cap nodes p =
     (case p of
        None \<Rightarrow> Some []
      | Some a \<Rightarrow>
          (case nodes a of
             None \<Rightarrow> None
           | Some nd \<Rightarrow> Option.bind (bucket_indices h cap nodes (hn_after nd))
                          (\<lambda>is. Some (h (hn_data nd) mod cap # is))))"

text \<open>The second loop pushes each node onto the front of its new chain.\<close>

fun relink :: "64 word list \<Rightarrow> addr option \<Rightarrow> (addr \<Rightarrow> 'v hnode option) \<Rightarrow> addr option vector
    \<Rightarrow> (unit res \<times> (addr \<Rightarrow> 'v hnode option) \<times> addr option vector) option" where
  "relink [] p nodes bs = Some (Inr (), nodes, bs)"
| "relink (b # is) p nodes bs =
     (case p of None \<Rightarrow> None | Some a \<Rightarrow>
     (case nodes a of None \<Rightarrow> None | Some nd \<Rightarrow>
     (case vec_at bs (unat b) of
        Inl e \<Rightarrow> Some (Inl e, nodes, bs)
      | Inr first \<Rightarrow>
          (let nodes' = nodes(a \<mapsto> nd\<lparr>hn_next := first\<rparr>)
           in case vec_put bs (unat b) (Some a) of
                Inl e \<Rightarrow> Some (Inl e, nodes', bs)
              | Inr bs' \<Rightarrow> relink is (hn_after nd) nodes' bs'))))"

definition ht_rehash :: "hash_limits \<Rightarrow> ('k, 'v) hash_policy \<Rightarrow> 64 word \<Rightarrow> 'v htable
    \<Rightarrow> (unit res \<times> 'v htable) option" where
  "ht_rehash lim pol newcap t =
     (if newcap = 0 then Some (Inl (LengthError ''hash table capacity cannot be zero''), t)
      else
        (case vec_size_adjust (bucket_traits lim) (unat newcap) (Outside None) vec_empty of
           Inl e \<Rightarrow> Some (Inl e, t)
         | Inr newbuckets \<Rightarrow>
             if index_limit lim < unat (ht_size t)
             then Some (Inl (LengthError ''hash table is too large''), t)
             else
               (case bucket_indices (hash_value pol) newcap (ht_nodes t) (ht_head t) of
                  None \<Rightarrow> None
                | Some is \<Rightarrow>
                    (case relink is (ht_head t) (ht_nodes t) newbuckets of
                       None \<Rightarrow> None
                     | Some (Inl e, nodes, bs) \<Rightarrow> Some (Inl e, t\<lparr>ht_nodes := nodes\<rparr>)
                     | Some (Inr _, nodes, bs) \<Rightarrow>
                         Some (Inr (), t\<lparr>ht_nodes := nodes, ht_buckets := bs, ht_cap := newcap\<rparr>)))))"

definition maximum_elements_for :: "64 word \<Rightarrow> 64 word \<Rightarrow> 64 word" where
  "maximum_elements_for cap factor = (cap div 10) * factor + ((cap mod 10) * factor) div 10"

lemma ht_rehash_cap: "ht_rehash lim pol c t = Some (Inr u, t') \<Longrightarrow> ht_cap t' = c"
  by (auto simp: ht_rehash_def split: if_splits sum.splits option.splits)

lemma double_word: "c \<le> 2 ^ 63 - 1 \<Longrightarrow> unat (c * 2 :: 64 word) = 2 * unat c"
proof -
  assume "c \<le> 2 ^ 63 - 1"
  then have "unat c \<le> 2 ^ 63 - 1" by (simp add: word_le_nat_alt)
  then have "unat c * unat (2 :: 64 word) < 2 ^ 64" by simp
  then show ?thesis using unat_mult_lem [of c 2] by simp
qed

text \<open>The growth loop.  \<open>18446744073709551615 div 2\<close> is \<open>max() / 2\<close>.\<close>

function ht_grow :: "hash_limits \<Rightarrow> ('k, 'v) hash_policy \<Rightarrow> 'v htable \<Rightarrow> (unit res \<times> 'v htable) option" where
  "ht_grow lim pol t =
     (if ht_cap t = 0 \<or> maximum_elements_for (ht_cap t) (ht_load t) < ht_size t + 1
      then
        (if ht_cap t \<noteq> 0 \<and> 18446744073709551615 div 2 < ht_cap t
         then Some (Inl (LengthError ''hash table capacity overflow''), t)
         else
           (case ht_rehash lim pol (if ht_cap t \<noteq> 0 then ht_cap t * 2 else 10) t of
              None \<Rightarrow> None
            | Some (Inl e, t') \<Rightarrow> Some (Inl e, t')
            | Some (Inr _, t') \<Rightarrow> ht_grow lim pol t'))
      else Some (Inr (), t))"
  by pat_completeness auto
termination
proof (relation "measure (\<lambda>(lim, pol, t). 2 ^ 64 - unat (ht_cap t))", simp, goal_cases)
  case (1 lim pol t y r t' u)
  have c: "ht_cap t' = (if ht_cap t \<noteq> 0 then ht_cap t * 2 else 10)"
    using 1 ht_rehash_cap [of lim pol _ t u t'] by auto
  have "unat (ht_cap t) < unat (ht_cap t')"
  proof (cases "ht_cap t = 0")
    case False
    with 1(2) have "ht_cap t \<le> 2 ^ 63 - 1" by (simp add: not_less)
    from double_word [OF this] have "unat (ht_cap t') = 2 * unat (ht_cap t)" using c False by simp
    moreover have "0 < unat (ht_cap t)" using False by (simp add: unat_gt_0)
    ultimately show ?thesis by simp
  qed (simp add: c)
  moreover have "unat (ht_cap t) < 2 ^ 64" using unsigned_less [of "ht_cap t"] by simp
  ultimately show ?case by simp
qed

declare ht_grow.simps [simp del]

definition ht_ensure_capacity :: "hash_limits \<Rightarrow> ('k, 'v) hash_policy \<Rightarrow> 'v htable
    \<Rightarrow> (unit res \<times> 'v htable) option" where
  "ht_ensure_capacity lim pol t =
     (if ht_load t < 1 \<or> 10 < ht_load t
      then Some (Inl (LogicError ''hash table load factor must be in [1, 10]''), t)
      else if ht_size t = 18446744073709551615
      then Some (Inl (LengthError ''hash table size overflow''), t)
      else ht_grow lim pol t)"

section \<open>Lookup\<close>

text \<open>The chain walk of \<open>Find\<close> and \<open>FindNodeByKey\<close>: the first node whose data satisfies the test.\<close>

partial_function (option) chain_find ::
  "('v \<Rightarrow> bool) \<Rightarrow> (addr \<Rightarrow> 'v hnode option) \<Rightarrow> addr option \<Rightarrow> addr option option" where
  "chain_find test nodes p =
     (case p of
        None \<Rightarrow> Some None
      | Some a \<Rightarrow>
          (case nodes a of
             None \<Rightarrow> None
           | Some nd \<Rightarrow> if test (hn_data nd) then Some (Some a)
                        else chain_find test nodes (hn_next nd)))"

text \<open>\<open>VectorHashTable[Hash % HashCapacity]\<close>, then the walk.\<close>

definition bucket_find :: "64 word \<Rightarrow> ('v \<Rightarrow> bool) \<Rightarrow> 'v htable \<Rightarrow> addr option res option" where
  "bucket_find hash test t =
     (if ht_cap t = 0 then None
      else
        (case vec_at (ht_buckets t) (unat (hash mod ht_cap t)) of
           Inl e \<Rightarrow> Some (Inl e)
         | Inr first \<Rightarrow> map_option Inr (chain_find test (ht_nodes t) first)))"

definition ht_find_node_by_key :: "('k, 'v) hash_policy \<Rightarrow> 'k \<Rightarrow> 'v htable \<Rightarrow> addr option res option" where
  "ht_find_node_by_key pol k t =
     (if ht_size t = 0 \<or> ht_cap t = 0 then Some (Inr None)
      else bucket_find (hash_key pol k) (\<lambda>v. key_of pol v = k) t)"

definition ht_find :: "('k, 'v) hash_policy \<Rightarrow> 'v \<Rightarrow> 'v htable \<Rightarrow> addr option res option" where
  "ht_find pol x t =
     (if ht_size t = 0 then Some (Inr None)
      else bucket_find (hash_value pol x) (\<lambda>v. key_of pol v = key_of pol x) t)"

definition ht_find_key :: "('k, 'v) hash_policy \<Rightarrow> 'k \<Rightarrow> 'v htable \<Rightarrow> addr option res option" where
  "ht_find_key pol k t = ht_find_node_by_key pol k t"

text \<open>The values an iterator from \<open>Begin()\<close> to \<open>End()\<close> shows.\<close>

partial_function (option) walk_values ::
  "(addr \<Rightarrow> 'v hnode option) \<Rightarrow> addr option \<Rightarrow> 'v list option" where
  "walk_values nodes p =
     (case p of
        None \<Rightarrow> Some []
      | Some a \<Rightarrow>
          (case nodes a of
             None \<Rightarrow> None
           | Some nd \<Rightarrow> Option.bind (walk_values nodes (hn_after nd)) (\<lambda>xs. Some (hn_data nd # xs))))"

definition ht_iterate :: "'v htable \<Rightarrow> 'v list option" where
  "ht_iterate t = walk_values (ht_nodes t) (ht_head t)"

section \<open>Insertion\<close>

text \<open>
  \<open>set_after\<close> and its like assign one link through a pointer; the pointer must not dangle.
\<close>

definition set_link :: "('v hnode \<Rightarrow> 'v hnode) \<Rightarrow> addr \<Rightarrow> (addr \<Rightarrow> 'v hnode option)
    \<Rightarrow> (addr \<Rightarrow> 'v hnode option) option" where
  "set_link f a nodes = (case nodes a of None \<Rightarrow> None | Some nd \<Rightarrow> Some (nodes(a \<mapsto> f nd)))"

text \<open>Allocating a node, pushing it onto the front of its bucket and onto the end of the order.\<close>

definition ht_link_new :: "'v \<Rightarrow> 64 word \<Rightarrow> 'v htable \<Rightarrow> (bool res \<times> 'v htable) option" where
  "ht_link_new x bucket t =
     (let a = ht_fresh t in
      case vec_at (ht_buckets t) (unat bucket) of
        Inl e \<Rightarrow> Some (Inl e, t)
      | Inr first \<Rightarrow>
      (case vec_put (ht_buckets t) (unat bucket) (Some a) of
         Inl e \<Rightarrow> Some (Inl e, t)
       | Inr bs \<Rightarrow>
           (let nodes = (ht_nodes t)(a \<mapsto> \<lparr>hn_data = x, hn_next = first, hn_prev = ht_tail t, hn_after = None\<rparr>);
                t' = t\<lparr>ht_fresh := Suc a, ht_buckets := bs, ht_tail := Some a, ht_size := ht_size t + 1\<rparr>
            in case ht_tail t of
                 None \<Rightarrow> Some (Inr True, t'\<lparr>ht_nodes := nodes, ht_head := Some a\<rparr>)
               | Some b \<Rightarrow>
                   (case set_link (\<lambda>nd. nd\<lparr>hn_after := Some a\<rparr>) b nodes of
                      None \<Rightarrow> None
                    | Some nodes' \<Rightarrow> Some (Inr True, t'\<lparr>ht_nodes := nodes'\<rparr>)))))"

definition ht_push :: "hash_limits \<Rightarrow> ('k, 'v) hash_policy \<Rightarrow> 'v \<Rightarrow> 'v htable
    \<Rightarrow> (bool res \<times> 'v htable) option" where
  "ht_push lim pol x t =
     (case ht_find pol x t of
        None \<Rightarrow> None
      | Some (Inl e) \<Rightarrow> Some (Inl e, t)
      | Some (Inr (Some _)) \<Rightarrow> Some (Inr False, t)
      | Some (Inr None) \<Rightarrow>
          (let fullhash = hash_value pol x in
           case ht_ensure_capacity lim pol t of
             None \<Rightarrow> None
           | Some (Inl e, t') \<Rightarrow> Some (Inl e, t')
           | Some (Inr _, t') \<Rightarrow>
               if ht_cap t' = 0 then None else ht_link_new x (fullhash mod ht_cap t') t'))"

section \<open>Removal\<close>

partial_function (option) bucket_search ::
  "(addr \<Rightarrow> 'v hnode option) \<Rightarrow> addr \<Rightarrow> addr option \<Rightarrow> addr option
    \<Rightarrow> (addr option \<times> addr option) option" where
  "bucket_search nodes target prev p =
     (case p of
        None \<Rightarrow> Some (prev, None)
      | Some a \<Rightarrow>
          if a = target then Some (prev, Some a)
          else (case nodes a of
                  None \<Rightarrow> None
                | Some nd \<Rightarrow> bucket_search nodes target (Some a) (hn_next nd)))"

text \<open>Unlinking \<open>BucketNode\<close> from its chain: the bucket's head or the predecessor skips it.\<close>

definition unlink_chain :: "64 word \<Rightarrow> addr option \<Rightarrow> 'v hnode \<Rightarrow> 'v htable \<Rightarrow> (unit res \<times> 'v htable) option" where
  "unlink_chain bucket prev nd t =
     (case prev of
        None \<Rightarrow>
          (case vec_put (ht_buckets t) (unat bucket) (hn_next nd) of
             Inl e \<Rightarrow> Some (Inl e, t)
           | Inr bs \<Rightarrow> Some (Inr (), t\<lparr>ht_buckets := bs\<rparr>))
      | Some q \<Rightarrow>
          map_option (\<lambda>nodes. (Inr (), t\<lparr>ht_nodes := nodes\<rparr>))
            (set_link (\<lambda>m. m\<lparr>hn_next := hn_next nd\<rparr>) q (ht_nodes t)))"

text \<open>Unlinking it from the insertion-order list, where it may be the first or the last.\<close>

definition unlink_order :: "'v hnode \<Rightarrow> 'v htable \<Rightarrow> 'v htable option" where
  "unlink_order nd t =
     Option.bind
       (case hn_prev nd of
          Some q \<Rightarrow> map_option (\<lambda>nodes. t\<lparr>ht_nodes := nodes\<rparr>)
                      (set_link (\<lambda>m. m\<lparr>hn_after := hn_after nd\<rparr>) q (ht_nodes t))
        | None \<Rightarrow> Some (t\<lparr>ht_head := hn_after nd\<rparr>))
       (\<lambda>t. case hn_after nd of
          Some q \<Rightarrow> map_option (\<lambda>nodes. t\<lparr>ht_nodes := nodes\<rparr>)
                      (set_link (\<lambda>m. m\<lparr>hn_prev := hn_prev nd\<rparr>) q (ht_nodes t))
        | None \<Rightarrow> Some (t\<lparr>ht_tail := hn_prev nd\<rparr>))"

definition ht_erase_node :: "addr \<Rightarrow> 64 word \<Rightarrow> 'v htable \<Rightarrow> (bool res \<times> 'v htable) option" where
  "ht_erase_node target bucket t =
     (case vec_at (ht_buckets t) (unat bucket) of
        Inl e \<Rightarrow> Some (Inl e, t)
      | Inr first \<Rightarrow>
      (case bucket_search (ht_nodes t) target None first of
         None \<Rightarrow> None
       | Some (prev, None) \<Rightarrow> Some (Inr False, t)
       | Some (prev, Some a) \<Rightarrow>
      (case ht_nodes t a of
         None \<Rightarrow> None
       | Some nd \<Rightarrow>
      (case unlink_chain bucket prev nd t of
         None \<Rightarrow> None
       | Some (Inl e, t1) \<Rightarrow> Some (Inl e, t1)
       | Some (Inr _, t1) \<Rightarrow>
           map_option (\<lambda>t2. (Inr True, t2\<lparr>ht_nodes := (ht_nodes t2)(a := None), ht_size := ht_size t2 - 1\<rparr>))
             (unlink_order nd t1)))))"

definition ht_pop :: "('k, 'v) hash_policy \<Rightarrow> 'v \<Rightarrow> 'v htable \<Rightarrow> (bool res \<times> 'v htable) option" where
  "ht_pop pol x t =
     (case ht_find pol x t of
        None \<Rightarrow> None
      | Some (Inl e) \<Rightarrow> Some (Inl e, t)
      | Some (Inr None) \<Rightarrow> Some (Inr False, t)
      | Some (Inr (Some a)) \<Rightarrow>
          if ht_cap t = 0 then Some (Inr False, t)
          else ht_erase_node a (hash_value pol x mod ht_cap t) t)"

definition ht_pop_key :: "('k, 'v) hash_policy \<Rightarrow> 'k \<Rightarrow> 'v htable \<Rightarrow> (bool res \<times> 'v htable) option" where
  "ht_pop_key pol k t =
     (if ht_cap t = 0 then Some (Inr False, t)
      else
        (case ht_find_node_by_key pol k t of
           None \<Rightarrow> None
         | Some (Inl e) \<Rightarrow> Some (Inl e, t)
         | Some (Inr None) \<Rightarrow> Some (Inr False, t)
         | Some (Inr (Some a)) \<Rightarrow> ht_erase_node a (hash_key pol k mod ht_cap t) t))"

section \<open>Clearing, copying and moving\<close>

partial_function (option) free_chain ::
  "(addr \<Rightarrow> 'v hnode option) \<Rightarrow> addr option \<Rightarrow> (addr \<Rightarrow> 'v hnode option) option" where
  "free_chain nodes p =
     (case p of
        None \<Rightarrow> Some nodes
      | Some a \<Rightarrow>
          (case nodes a of
             None \<Rightarrow> None
           | Some nd \<Rightarrow> free_chain (nodes(a := None)) (hn_next nd)))"

text \<open>The loop over the buckets, on the heads still to be freed.\<close>

fun free_buckets :: "(addr \<Rightarrow> 'v hnode option) \<Rightarrow> addr option list \<Rightarrow> (addr \<Rightarrow> 'v hnode option) option" where
  "free_buckets nodes [] = Some nodes"
| "free_buckets nodes (p # ps) =
     (case free_chain nodes p of None \<Rightarrow> None | Some nodes' \<Rightarrow> free_buckets nodes' ps)"

definition ht_clear_nodes :: "'v htable \<Rightarrow> 'v htable option" where
  "ht_clear_nodes t =
     (case free_buckets (ht_nodes t) (vec_data (ht_buckets t)) of
        None \<Rightarrow> None
      | Some nodes \<Rightarrow>
          Some (t\<lparr>ht_nodes := nodes,
             ht_buckets := (ht_buckets t)\<lparr>vec_data := replicate (vec_size (ht_buckets t)) None\<rparr>,
             ht_size := 0, ht_tail := None, ht_head := None\<rparr>))"

text \<open>The copying loop, from the node at \<open>p\<close> of the source on.\<close>

partial_function (option) copy_nodes ::
  "('v \<Rightarrow> 64 word) \<Rightarrow> (addr \<Rightarrow> 'v hnode option) \<Rightarrow> addr option \<Rightarrow> 'v htable
    \<Rightarrow> (unit res \<times> 'v htable) option" where
  "copy_nodes h src p t =
     (case p of
        None \<Rightarrow> Some (Inr (), t)
      | Some a \<Rightarrow>
          (case src a of
             None \<Rightarrow> None
           | Some nd \<Rightarrow>
               if ht_cap t = 0 then None
               else
                 (case ht_link_new (hn_data nd) (h (hn_data nd) mod ht_cap t) t of
                    None \<Rightarrow> None
                  | Some (Inl e, t') \<Rightarrow> Some (Inl e, t')
                  | Some (Inr _, t') \<Rightarrow> copy_nodes h src (hn_after nd) t')))"

definition ht_copy :: "hash_limits \<Rightarrow> ('k, 'v) hash_policy \<Rightarrow> 'v htable \<Rightarrow> 'v htable res option" where
  "ht_copy lim pol src =
     (let t = ht_blank\<lparr>ht_load := ht_load src, ht_cap := ht_cap src\<rparr> in
      if ht_cap t = 0 then Some (Inr t)
      else
        (case vec_size_adjust (bucket_traits lim) (unat (ht_cap t)) (Outside None) vec_empty of
           Inl e \<Rightarrow> Some (Inl e)
         | Inr bs \<Rightarrow>
             (case copy_nodes (hash_value pol) (ht_nodes src) (ht_head src) (t\<lparr>ht_buckets := bs\<rparr>) of
                None \<Rightarrow> None
              | Some (Inl e, t') \<Rightarrow> map_option (\<lambda>_. Inl e) (ht_clear_nodes t')
              | Some (Inr _, t') \<Rightarrow> Some (Inr t'))))"

text \<open>The moved-to and the moved-from table.\<close>

definition ht_move :: "'v htable \<Rightarrow> 'v htable \<times> 'v htable" where
  "ht_move src = (src, ht_blank\<lparr>ht_fresh := ht_fresh src\<rparr>)"

text \<open>Copy and move assignment from another table: the old nodes are freed.\<close>

definition ht_assign :: "hash_limits \<Rightarrow> ('k, 'v) hash_policy \<Rightarrow> 'v htable \<Rightarrow> 'v htable
    \<Rightarrow> (unit res \<times> 'v htable) option" where
  "ht_assign lim pol src t =
     (case ht_copy lim pol src of
        None \<Rightarrow> None
      | Some (Inl e) \<Rightarrow> Some (Inl e, t)
      | Some (Inr c) \<Rightarrow> map_option (\<lambda>_. (Inr (), c)) (ht_clear_nodes t))"

definition ht_move_assign :: "'v htable \<Rightarrow> 'v htable \<Rightarrow> ('v htable \<times> 'v htable) option" where
  "ht_move_assign src t = map_option (\<lambda>_. ht_move src) (ht_clear_nodes t)"

section \<open>Load factor\<close>

text \<open>The capacity loop of \<open>ChangeLoadFactor\<close>.\<close>

function load_capacity :: "64 word \<Rightarrow> 64 word \<Rightarrow> 64 word \<Rightarrow> 64 word res" where
  "load_capacity count factor cap =
     (if cap \<noteq> 0 \<and> maximum_elements_for cap factor < count
      then if 18446744073709551615 div 2 < cap then Inl (LengthError ''hash table capacity overflow'')
           else load_capacity count factor (cap * 2)
      else Inr cap)"
  by pat_completeness auto
termination
proof (relation "measure (\<lambda>(count, factor, cap). 2 ^ 64 - unat cap)", simp, goal_cases)
  case (1 count factor cap)
  then have "cap \<le> 2 ^ 63 - 1" by (simp add: not_less)
  from double_word [OF this] have "unat (cap * 2) = 2 * unat cap" .
  moreover have "0 < unat cap" using 1 by (simp add: unat_gt_0)
  moreover have "unat cap < 2 ^ 64" using unsigned_less [of cap] by simp
  ultimately show ?case by simp
qed

declare load_capacity.simps [simp del]

definition ht_change_load_factor :: "hash_limits \<Rightarrow> ('k, 'v) hash_policy \<Rightarrow> 64 word \<Rightarrow> 'v htable
    \<Rightarrow> (bool res \<times> 'v htable) option" where
  "ht_change_load_factor lim pol factor t =
     (if factor < 1 \<or> 10 < factor then Some (Inr False, t)
      else
        (case load_capacity (ht_size t) factor (if ht_size t \<noteq> 0 \<and> ht_cap t = 0 then 10 else ht_cap t) of
           Inl e \<Rightarrow> Some (Inl e, t)
         | Inr newcap \<Rightarrow>
             if newcap \<noteq> ht_cap t
             then (case ht_rehash lim pol newcap t of
                     None \<Rightarrow> None
                   | Some (Inl e, t') \<Rightarrow> Some (Inl e, t')
                   | Some (Inr _, t') \<Rightarrow> Some (Inr True, t'\<lparr>ht_load := factor\<rparr>))
             else Some (Inr True, t\<lparr>ht_load := factor\<rparr>)))"

end
