(* ===== verification/HashTableLaws.thy ===== *)
theory HashTableLaws
  imports HashTables
begin

text \<open>
  The invariant of the pointer-level hash table and what each operation does to the sequence
  of values it stands for, in insertion order.  \<open>ht_shape\<close> ties the three kinds of links to
  a list of addresses (the order) and a chain per bucket; \<open>ht_rep\<close> adds the distinct keys and
  the load bound, and names the values.
\<close>

section \<open>Linked lists of addresses\<close>

fun linked :: "(addr \<Rightarrow> addr option) \<Rightarrow> addr option \<Rightarrow> addr list \<Rightarrow> bool" where
  "linked f p [] \<longleftrightarrow> p = None"
| "linked f p (a # as) \<longleftrightarrow> p = Some a \<and> linked f (f a) as"

lemma linked_cong: "(\<And>a. a \<in> set as \<Longrightarrow> f a = g a) \<Longrightarrow> linked f p as \<longleftrightarrow> linked g p as"
  by (induction as arbitrary: p) auto

lemma linked_upd: "a \<notin> set as \<Longrightarrow> linked (f(a := q)) p as \<longleftrightarrow> linked f p as"
  by (rule linked_cong) auto

lemma linked_middle:
  "linked f p (xs @ a # ys) \<Longrightarrow> linked f (f a) ys \<and> (xs = [] \<longrightarrow> p = Some a)
    \<and> (xs \<noteq> [] \<longrightarrow> f (last xs) = Some a \<and> p = Some (hd xs))"
proof (induction xs arbitrary: p)
  case (Cons x xs)
  then have "p = Some x" "linked f (f x) (xs @ a # ys)" by simp_all
  with Cons.IH [of "f x"] show ?case by (cases "xs = []") simp_all
qed simp

text \<open>Skipping a node by assigning the link that led to it.\<close>

lemma linked_skip:
  "linked f p (xs @ a # ys) \<Longrightarrow> distinct (xs @ a # ys) \<Longrightarrow> xs \<noteq> []
    \<Longrightarrow> linked (f(last xs := f a)) p (xs @ ys)"
proof (induction xs arbitrary: p)
  case (Cons x xs)
  show ?case
  proof (cases "xs = []")
    case True
    with Cons.prems linked_upd [of x ys f "f a" "f a"] show ?thesis
      by (simp add: fun_upd_same del: fun_upd_apply)
  next
    case False
    then have "last xs \<in> set xs" by simp
    with Cons.prems False Cons.IH [of "f x"] show ?thesis by auto
  qed
qed simp

lemma linked_skip_head: "linked f p (a # ys) \<Longrightarrow> linked f (f a) ys"
  by simp

text \<open>Appending a fresh node after the last one.\<close>

lemma linked_snoc:
  "linked f p xs \<Longrightarrow> distinct xs \<Longrightarrow> a \<notin> set xs \<Longrightarrow> xs \<noteq> [] \<Longrightarrow> f a = None
    \<Longrightarrow> linked (f(last xs := Some a)) p (xs @ [a])"
proof (induction xs arbitrary: p)
  case (Cons x xs)
  show ?case
  proof (cases "xs = []")
    case False
    then have "last xs \<in> set xs" by simp
    with Cons.prems False Cons.IH [of "f x"] show ?thesis by auto
  qed (use Cons.prems in auto)
qed simp

lemma linked_hd: "linked f p as \<Longrightarrow> p = (if as = [] then None else Some (hd as))"
  by (cases as) auto

lemma linked_last: "linked f p (rev as) \<Longrightarrow> p = (if as = [] then None else Some (last as))"
  using linked_hd [of f p "rev as"] by (simp add: hd_rev)

section \<open>What the loops compute on a linked list\<close>

definition present :: "(addr \<Rightarrow> 'v hnode option) \<Rightarrow> addr list \<Rightarrow> bool" where
  "present nodes as \<longleftrightarrow> (\<forall>a \<in> set as. nodes a \<noteq> None)"

abbreviation data_at :: "(addr \<Rightarrow> 'v hnode option) \<Rightarrow> addr \<Rightarrow> 'v" where
  "data_at nodes a \<equiv> hn_data (the (nodes a))"

abbreviation next_at :: "(addr \<Rightarrow> 'v hnode option) \<Rightarrow> addr \<Rightarrow> addr option" where
  "next_at nodes a \<equiv> hn_next (the (nodes a))"

abbreviation prev_at :: "(addr \<Rightarrow> 'v hnode option) \<Rightarrow> addr \<Rightarrow> addr option" where
  "prev_at nodes a \<equiv> hn_prev (the (nodes a))"

abbreviation after_at :: "(addr \<Rightarrow> 'v hnode option) \<Rightarrow> addr \<Rightarrow> addr option" where
  "after_at nodes a \<equiv> hn_after (the (nodes a))"

lemma chain_find_linked:
  "linked (next_at nodes) p as \<Longrightarrow> present nodes as
    \<Longrightarrow> chain_find test nodes p = Some (List.find (\<lambda>a. test (data_at nodes a)) as)"
  by (induction as arbitrary: p; subst chain_find.simps) (auto simp: present_def)

lemma walk_values_linked:
  "linked (after_at nodes) p as \<Longrightarrow> present nodes as
    \<Longrightarrow> walk_values nodes p = Some (map (data_at nodes) as)"
  by (induction as arbitrary: p; subst walk_values.simps) (auto simp: present_def)

lemma bucket_indices_linked:
  "linked (after_at nodes) p as \<Longrightarrow> present nodes as
    \<Longrightarrow> bucket_indices h cap nodes p = Some (map (\<lambda>a. h (data_at nodes a) mod cap) as)"
  by (induction as arbitrary: p; subst bucket_indices.simps) (auto simp: present_def)

lemma bucket_search_linked:
  "linked (next_at nodes) p (xs @ a # ys) \<Longrightarrow> present nodes xs \<Longrightarrow> a \<notin> set xs
    \<Longrightarrow> bucket_search nodes a prev p = Some (if xs = [] then prev else Some (last xs), Some a)"
proof (induction xs arbitrary: p prev)
  case Nil
  then show ?case by (subst bucket_search.simps) simp
next
  case (Cons x xs)
  then show ?case
    by (subst bucket_search.simps) (auto simp: present_def split: option.splits)
qed

section \<open>The invariant\<close>

definition bucket_of :: "('k, 'v) hash_policy \<Rightarrow> 64 word \<Rightarrow> 'v \<Rightarrow> nat" where
  "bucket_of pol cap x = unat (hash_value pol x mod cap)"

definition chains_ok :: "('k, 'v) hash_policy \<Rightarrow> 64 word \<Rightarrow> (addr \<Rightarrow> 'v hnode option)
    \<Rightarrow> addr option list \<Rightarrow> addr list \<Rightarrow> (nat \<Rightarrow> addr list) \<Rightarrow> bool" where
  "chains_ok pol cap nodes bs as cs \<longleftrightarrow> length bs = unat cap \<and>
     (\<forall>b < unat cap. linked (next_at nodes) (bs ! b) (cs b) \<and> distinct (cs b)
        \<and> set (cs b) = {a \<in> set as. bucket_of pol cap (data_at nodes a) = b})"

definition ht_shape :: "('k, 'v) hash_policy \<Rightarrow> 'v htable \<Rightarrow> addr list \<Rightarrow> (nat \<Rightarrow> addr list) \<Rightarrow> bool" where
  "ht_shape pol t as cs \<longleftrightarrow>
     distinct as \<and> dom (ht_nodes t) = set as \<and> (\<forall>a \<in> set as. a < ht_fresh t)
     \<and> linked (after_at (ht_nodes t)) (ht_head t) as
     \<and> linked (prev_at (ht_nodes t)) (ht_tail t) (rev as)
     \<and> (ht_cap t = 0 \<longrightarrow> as = []) \<and> unat (ht_size t) = length as
     \<and> chains_ok pol (ht_cap t) (ht_nodes t) (vec_data (ht_buckets t)) as cs"

definition ht_rep :: "('k, 'v) hash_policy \<Rightarrow> 'v htable \<Rightarrow> 'v list \<Rightarrow> bool" where
  "ht_rep pol t xs \<longleftrightarrow>
     (\<exists>as cs. ht_shape pol t as cs \<and> xs = map (data_at (ht_nodes t)) as)
     \<and> distinct (map (key_of pol) xs)
     \<and> 1 \<le> ht_load t \<and> ht_load t \<le> 10
     \<and> ht_size t \<le> maximum_elements_for (ht_cap t) (ht_load t)"

text \<open>What the table needs of its hash: a value hashes as its key does.\<close>

definition policy_ok :: "('k, 'v) hash_policy \<Rightarrow> bool" where
  "policy_ok pol \<longleftrightarrow> (\<forall>x. hash_value pol x = hash_key pol (key_of pol x))"

lemma shape_present: "ht_shape pol t as cs \<Longrightarrow> set bs \<subseteq> set as \<Longrightarrow> present (ht_nodes t) bs"
  by (auto simp: ht_shape_def present_def)

lemma shape_chain:
  assumes "ht_shape pol t as cs" and "b < unat (ht_cap t)"
  shows "linked (next_at (ht_nodes t)) (vec_data (ht_buckets t) ! b) (cs b)"
    and "distinct (cs b)" and "present (ht_nodes t) (cs b)"
    and "set (cs b) = {a \<in> set as. bucket_of pol (ht_cap t) (data_at (ht_nodes t) a) = b}"
    and "b < vec_size (ht_buckets t)"
  using assms by (auto simp: ht_shape_def chains_ok_def present_def vec_size_def)

lemma shape_tail: "ht_shape pol t as cs \<Longrightarrow> ht_tail t = (if as = [] then None else Some (last as))"
  using linked_last [of "prev_at (ht_nodes t)" "ht_tail t" as] by (simp add: ht_shape_def)

lemma mod_cap_less: "cap \<noteq> 0 \<Longrightarrow> unat ((h :: 64 word) mod cap) < unat cap"
  by (simp add: word_less_nat_alt [symmetric] word_mod_less_divisor word_neq_0_conv)

text \<open>Iteration shows the values in insertion order.\<close>

lemma ht_iterate_rep: "ht_rep pol t xs \<Longrightarrow> ht_iterate t = Some xs"
  by (auto simp: ht_rep_def ht_iterate_def ht_shape_def intro!: walk_values_linked)
    (auto simp: present_def)

lemma ht_size_rep: "ht_rep pol t xs \<Longrightarrow> unat (ht_size t) = length xs"
  by (auto simp: ht_rep_def ht_shape_def)

section \<open>Lookup\<close>

lemma find_distinct_key:
  assumes "distinct (map g (map f as))" and "a \<in> set bs" and "set bs \<subseteq> set as" and "g (f a) = k"
  shows "List.find (\<lambda>a. g (f a) = k) bs = Some a"
proof (cases "List.find (\<lambda>a. g (f a) = k) bs")
  case None
  with assms show ?thesis by (auto simp: find_None_iff)
next
  case (Some b)
  from find_Some_in [OF Some] have "b \<in> set bs" "g (f b) = k" by auto
  with assms Some show ?thesis by (auto simp: distinct_map inj_on_def)
qed

text \<open>The walk of one bucket finds the only node with the key, or there is none in the table.\<close>

lemma bucket_find_shape:
  assumes s: "ht_shape pol t as cs" and c: "ht_cap t \<noteq> 0"
    and d: "distinct (map (key_of pol) (map (data_at (ht_nodes t)) as))"
    and h: "policy_ok pol" and hash: "hash = hash_key pol k"
  shows "bucket_find hash (\<lambda>v. key_of pol v = k) t
    = Some (Inr (List.find (\<lambda>a. key_of pol (data_at (ht_nodes t) a) = k) as))"
proof -
  let ?b = "unat (hash mod ht_cap t)" and ?P = "\<lambda>a. key_of pol (data_at (ht_nodes t) a) = k"
  note ch = shape_chain [OF s mod_cap_less [OF c], of hash]
  have "List.find ?P (cs ?b) = List.find ?P as"
  proof (cases "List.find ?P as")
    case None
    then have "List.find ?P (cs ?b) = None" using ch(4) by (auto simp: find_None_iff)
    with None show ?thesis by simp
  next
    case (Some a)
    from find_Some_in [OF Some] have a: "a \<in> set as" "?P a" by auto
    then have "a \<in> set (cs ?b)"
      using ch(4) h by (auto simp: bucket_of_def policy_ok_def hash)
    with a Some show ?thesis
      using find_distinct_key [OF d, of a "cs ?b" k] ch(4) by auto
  qed
  with ch c show ?thesis
    by (simp add: bucket_find_def vec_at_def chain_find_linked)
qed

lemma find_node_shape:
  assumes s: "ht_shape pol t as cs"
    and d: "distinct (map (key_of pol) (map (data_at (ht_nodes t)) as))" and h: "policy_ok pol"
  shows "ht_find_node_by_key pol k t
    = Some (Inr (List.find (\<lambda>a. key_of pol (data_at (ht_nodes t) a) = k) as))"
  using s bucket_find_shape [OF s _ d h refl]
  by (auto simp: ht_find_node_by_key_def ht_shape_def unat_eq_zero)

lemma ht_find_by_key:
  assumes s: "ht_shape pol t as cs" and h: "policy_ok pol"
  shows "ht_find pol x t = ht_find_node_by_key pol (key_of pol x) t"
  using s h by (auto simp: ht_find_def ht_find_node_by_key_def policy_ok_def ht_shape_def unat_eq_zero)

section \<open>Load arithmetic\<close>

text \<open>The split of \<open>MaximumElementsFor\<close> keeps every product within 64 bits.\<close>

lemma maximum_elements_exact:
  assumes "f \<le> 10"
  shows "unat (maximum_elements_for cap f) = unat cap * unat f div 10"
proof -
  let ?c = "unat cap" and ?f = "unat f"
  have f: "?f \<le> 10" using assms by (simp add: word_le_nat_alt)
  have c: "?c < 2 ^ 64" by (rule word_unat_bound)
  have "?c div 10 * ?f \<le> ?c div 10 * 10" using f by simp
  also have "\<dots> \<le> ?c" by simp
  finally have q: "?c div 10 * ?f \<le> ?c" .
  then have 1: "unat (cap div 10 * f) = ?c div 10 * ?f"
    using c unat_mult_lem [of "cap div 10" f] by (simp add: unat_div)
  have "?c mod 10 * ?f \<le> 9 * 10" using f by (intro mult_le_mono) (simp_all add: less_Suc_eq_le [symmetric])
  then have 2: "unat (cap mod 10 * f) = ?c mod 10 * ?f"
    using unat_mult_lem [of "cap mod 10" f] by (simp add: unat_mod)
  have s: "?c * ?f div 10 = ?c div 10 * ?f + ?c mod 10 * ?f div 10"
  proof -
    have "?c * ?f = (?c div 10 * 10 + ?c mod 10) * ?f" by (simp only: div_mult_mod_eq)
    also have "\<dots> = ?c div 10 * ?f * 10 + ?c mod 10 * ?f"
      by (simp only: add_mult_distrib mult.assoc mult.commute [of 10])
    finally show ?thesis by (metis add.commute div_mult_self1 zero_neq_numeral)
  qed
  have "?c * ?f div 10 \<le> ?c * 10 div 10" using f by (intro div_le_mono mult_le_mono) simp_all
  then have "?c div 10 * ?f + ?c mod 10 * ?f div 10 < 2 ^ 64" using c s by simp
  then have "unat (cap div 10 * f + cap mod 10 * f div 10) = ?c div 10 * ?f + ?c mod 10 * ?f div 10"
    using unat_add_lem [of "cap div 10 * f" "cap mod 10 * f div 10"] 1 2 by (simp add: unat_div)
  with s show ?thesis by (simp add: maximum_elements_for_def)
qed

lemma maximum_elements_mono:
  "f \<le> 10 \<Longrightarrow> unat c \<le> unat d \<Longrightarrow> maximum_elements_for c f \<le> maximum_elements_for d f"
  by (simp add: word_le_nat_alt maximum_elements_exact div_le_mono)

lemma maximum_elements_small:
  assumes "1 \<le> f" and "f \<le> 10" and "maximum_elements_for cap f < n"
  shows "unat cap < 10 * unat n"
proof -
  have "unat cap * unat f div 10 < unat n"
    using assms by (simp add: word_less_nat_alt maximum_elements_exact)
  then have "unat cap * unat f < 10 * unat n" by linarith
  moreover have "1 \<le> unat f" using assms(1) by (simp add: word_le_nat_alt)
  then have "unat cap * 1 \<le> unat cap * unat f" by (intro mult_le_mono) simp_all
  ultimately show ?thesis by linarith
qed

section \<open>Rehashing and growth\<close>

text \<open>A rehash changes nothing of a node but its chain link.\<close>

definition same_but_next :: "(addr \<Rightarrow> 'v hnode option) \<Rightarrow> (addr \<Rightarrow> 'v hnode option) \<Rightarrow> bool" where
  "same_but_next nodes nodes' \<longleftrightarrow> dom nodes' = dom nodes \<and>
     (\<forall>a. data_at nodes' a = data_at nodes a \<and> prev_at nodes' a = prev_at nodes a
        \<and> after_at nodes' a = after_at nodes a)"

lemma same_but_next_refl [simp]: "same_but_next nodes nodes"
  by (simp add: same_but_next_def)

lemma same_but_next_upd:
  "nodes a = Some nd \<Longrightarrow> same_but_next (nodes(a \<mapsto> nd\<lparr>hn_next := q\<rparr>)) nodes'
    \<Longrightarrow> same_but_next nodes nodes'"
  by (auto simp: same_but_next_def fun_upd_apply split: if_splits)

lemma chains_push:
  assumes ok: "chains_ok pol cap nodes bs ds cs" and a: "a \<notin> set ds"
    and b: "b < unat cap" and nd: "nodes' a = Some nd" "hn_next nd = bs ! b"
      "bucket_of pol cap (hn_data nd) = b"
    and same: "\<And>x. x \<in> set ds \<Longrightarrow> next_at nodes' x = next_at nodes x \<and> data_at nodes' x = data_at nodes x"
  shows "chains_ok pol cap nodes' (bs[b := Some a]) (ds @ [a]) (cs(b := a # cs b))"
  unfolding chains_ok_def
proof (intro conjI allI impI)
  show "length (bs[b := Some a]) = unat cap" using ok by (simp add: chains_ok_def)
next
  fix c assume c: "c < unat cap"
  from ok c have l: "linked (next_at nodes) (bs ! c) (cs c)" "distinct (cs c)"
    and set: "set (cs c) = {x \<in> set ds. bucket_of pol cap (data_at nodes x) = c}"
    and len: "length bs = unat cap" by (auto simp: chains_ok_def)
  have l': "linked (next_at nodes') (bs ! c) (cs c)"
    using l(1) linked_cong [of "cs c" "next_at nodes'" "next_at nodes"] same set by auto
  show "linked (next_at nodes') ((bs[b := Some a]) ! c) ((cs(b := a # cs b)) c)"
    using l' nd b len by auto
  show "distinct ((cs(b := a # cs b)) c)" using l(2) set a by auto
  show "set ((cs(b := a # cs b)) c) = {x \<in> set (ds @ [a]). bucket_of pol cap (data_at nodes' x) = c}"
    using set nd same a by auto
qed

lemma relink_ok:
  assumes "cap \<noteq> 0"
  shows "chains_ok pol cap nodes (vec_data bs) ds cs \<Longrightarrow> linked (after_at nodes) p as
    \<Longrightarrow> distinct (ds @ as) \<Longrightarrow> present nodes as
    \<Longrightarrow> \<exists>nodes' bs' cs'. relink (map (\<lambda>a. hash_value pol (data_at nodes a) mod cap) as) p nodes bs
          = Some (Inr (), nodes', bs')
        \<and> chains_ok pol cap nodes' (vec_data bs') (ds @ as) cs' \<and> same_but_next nodes nodes'"
proof (induction as arbitrary: p nodes bs ds cs)
  case (Cons a as)
  from Cons.prems obtain nd where nd: "nodes a = Some nd" and p: "p = Some a"
    by (auto simp: present_def)
  let ?i = "hash_value pol (hn_data nd) mod cap" and ?b = "bucket_of pol cap (hn_data nd)"
  let ?first = "vec_data bs ! ?b"
  let ?n = "nodes(a \<mapsto> nd\<lparr>hn_next := ?first\<rparr>)" and ?bs = "bs\<lparr>vec_data := (vec_data bs)[?b := Some a]\<rparr>"
  have b: "?b < unat cap" using mod_cap_less [OF assms] by (simp add: bucket_of_def)
  have len: "length (vec_data bs) = unat cap" using Cons.prems(1) by (simp add: chains_ok_def)
  have 1: "chains_ok pol cap ?n (vec_data ?bs) (ds @ [a]) (cs(?b := a # cs ?b))"
    using Cons.prems b by (auto intro!: chains_push [of pol cap nodes _ ds cs])
  have 2: "linked (after_at ?n) (hn_after nd) as" "present ?n as" "distinct ((ds @ [a]) @ as)"
    using Cons.prems nd linked_cong [of as "after_at ?n" "after_at nodes" "hn_after nd"]
    by (auto simp: present_def)
  have 3: "map (\<lambda>x. hash_value pol (data_at ?n x) mod cap) as
      = map (\<lambda>x. hash_value pol (data_at nodes x) mod cap) as"
    using Cons.prems by auto
  from Cons.IH [OF 1 2(1) 2(3) 2(2)] obtain nodes' bs' cs' where
    r: "relink (map (\<lambda>a. hash_value pol (data_at nodes a) mod cap) as) (hn_after nd) ?n ?bs
      = Some (Inr (), nodes', bs')"
    "chains_ok pol cap nodes' (vec_data bs') (ds @ a # as) cs'" "same_but_next ?n nodes'"
    unfolding 3 append_assoc append_Cons append_Nil by blast
  from same_but_next_upd [OF nd r(3)] r(1,2) show ?case
    using nd p b len by (auto simp: vec_at_def vec_put_def vec_size_def bucket_of_def)
qed auto

lemma chains_ok_empty:
  "chains_ok pol cap nodes (replicate (unat cap) None) [] (\<lambda>_. [])"
  by (simp add: chains_ok_def)

lemma bucket_vector:
  "vec_size_adjust tr n (Outside None) vec_empty
     = (if n \<le> max_size tr then Inr \<lparr>vec_data = replicate n None,
          vec_cap = (if n = 0 then 0 else max n (min 10 (max_size tr)))\<rparr>
        else Inl (LengthError ''Vector size exceeds max_size''))"
  by (auto simp: vec_size_adjust_def reallocate_with_tail_def ensure_relocation_is_safe_def
      growth_capacity_def vec_empty_def vec_size_def vec_null_def Let_def)

lemma same_but_next_fields:
  assumes "same_but_next nodes nodes'"
  shows "data_at nodes' = data_at nodes" "prev_at nodes' = prev_at nodes"
    "after_at nodes' = after_at nodes" "dom nodes' = dom nodes"
  using assms by (auto simp: same_but_next_def)

text \<open>What a table keeps when only its buckets are rebuilt.\<close>

definition same_table :: "'v htable \<Rightarrow> 'v htable \<Rightarrow> bool" where
  "same_table t t' \<longleftrightarrow> same_but_next (ht_nodes t) (ht_nodes t') \<and> ht_fresh t' = ht_fresh t
     \<and> ht_size t' = ht_size t \<and> ht_load t' = ht_load t \<and> ht_head t' = ht_head t \<and> ht_tail t' = ht_tail t"

lemma same_table_refl [simp]: "same_table t t"
  by (simp add: same_table_def)

lemma same_table_trans: "same_table t u \<Longrightarrow> same_table u w \<Longrightarrow> same_table t w"
  by (simp add: same_table_def same_but_next_def)

definition rehash_fits :: "hash_limits \<Rightarrow> 64 word \<Rightarrow> 'v htable \<Rightarrow> bool" where
  "rehash_fits lim cap t \<longleftrightarrow>
     cap \<noteq> 0 \<and> unat cap \<le> max_size (bucket_traits lim) \<and> unat (ht_size t) \<le> index_limit lim"

lemma ht_rehash_fails:
  "\<not> rehash_fits lim cap t \<Longrightarrow> \<exists>m. ht_rehash lim pol cap t = Some (Inl (LengthError m), t)"
  by (auto simp: rehash_fits_def ht_rehash_def bucket_vector)

lemma ht_rehash_ok:
  assumes s: "ht_shape pol t as cs" and fits: "rehash_fits lim cap t"
  shows "\<exists>t' cs'. ht_rehash lim pol cap t = Some (Inr (), t') \<and> ht_shape pol t' as cs'
    \<and> same_table t t' \<and> ht_cap t' = cap"
proof -
  let ?nodes = "ht_nodes t" and ?bs = "\<lparr>vec_data = replicate (unat cap) None,
    vec_cap = max (unat cap) (min 10 (max_size (bucket_traits lim)))\<rparr>"
  from s have l: "linked (after_at ?nodes) (ht_head t) as" "distinct as" "present ?nodes as"
    by (auto simp: ht_shape_def present_def)
  from fits have c: "cap \<noteq> 0" and n: "unat cap \<noteq> 0" by (auto simp: rehash_fits_def unat_eq_zero)
  from chains_ok_empty have "chains_ok pol cap ?nodes (vec_data ?bs) [] (\<lambda>_. [])" by simp
  from relink_ok [OF c this l(1) _ l(3)] l(2) obtain nodes bs cs' where
    r: "relink (map (\<lambda>a. hash_value pol (data_at ?nodes a) mod cap) as) (ht_head t) ?nodes ?bs
      = Some (Inr (), nodes, bs)" "chains_ok pol cap nodes (vec_data bs) as cs'"
      "same_but_next ?nodes nodes" by auto
  have "ht_rehash lim pol cap t = Some (Inr (), t\<lparr>ht_nodes := nodes, ht_buckets := bs, ht_cap := cap\<rparr>)"
    using fits r(1) n by (simp add: ht_rehash_def rehash_fits_def bucket_vector
        bucket_indices_linked [OF l(1,3)] not_less)
  moreover have "ht_shape pol (t\<lparr>ht_nodes := nodes, ht_buckets := bs, ht_cap := cap\<rparr>) as cs'"
    using s r(2) c same_but_next_fields [OF r(3)] by (simp add: ht_shape_def)
  ultimately show ?thesis using r(3) by (auto simp: same_table_def)
qed

lemma ht_rehash_cases:
  assumes "ht_shape pol t as cs"
  obtains (fails) m where "\<not> rehash_fits lim cap t" "ht_rehash lim pol cap t = Some (Inl (LengthError m), t)"
  | (ok) t' cs' where "rehash_fits lim cap t" "ht_rehash lim pol cap t = Some (Inr (), t')"
      "ht_shape pol t' as cs'" "same_table t t'" "ht_cap t' = cap"
  using ht_rehash_fails ht_rehash_ok [OF assms] by (metis)

text \<open>Room for one more element: enough for the largest capacity the growth loop asks for.\<close>

definition ht_room :: "hash_limits \<Rightarrow> 'v htable \<Rightarrow> bool" where
  "ht_room lim t \<longleftrightarrow> 20 * (unat (ht_size t) + 1) \<le> max_size (bucket_traits lim)
     \<and> 20 * (unat (ht_size t) + 1) \<le> 2 ^ 63 \<and> unat (ht_size t) \<le> index_limit lim"

lemma ht_room_same: "same_table t t' \<Longrightarrow> ht_room lim t' = ht_room lim t"
  by (simp add: ht_room_def same_table_def)

lemma succ_size: "ht_size t \<noteq> 18446744073709551615 \<Longrightarrow> unat (ht_size t + 1) = unat (ht_size t) + 1"
proof -
  assume "ht_size t \<noteq> 18446744073709551615"
  then have "unat (ht_size t) \<noteq> 18446744073709551615" by (simp add: word_unat_eq_iff)
  then show ?thesis
    using word_unat_bound [of "ht_size t"] unat_add_lem [of "ht_size t" 1] by simp
qed

lemma grow_arg:
  assumes "1 \<le> ht_load t" and "ht_load t \<le> 10" and "ht_size t \<noteq> 18446744073709551615"
    and need: "ht_cap t = 0 \<or> maximum_elements_for (ht_cap t) (ht_load t) < ht_size t + 1"
    and small: "ht_cap t \<noteq> 0 \<longrightarrow> ht_cap t \<le> 18446744073709551615 div 2"
  defines "c \<equiv> if ht_cap t \<noteq> 0 then ht_cap t * 2 else 10"
  shows "c \<noteq> 0" "unat (ht_cap t) < unat c" "unat c \<le> 20 * (unat (ht_size t) + 1)"
proof -
  have d: "unat c = (if ht_cap t \<noteq> 0 then 2 * unat (ht_cap t) else 10)"
    using small double_word [of "ht_cap t"] by (simp add: c_def)
  then show "unat (ht_cap t) < unat c" by (auto simp: unat_gt_0)
  then show "c \<noteq> 0" by auto
  show "unat c \<le> 20 * (unat (ht_size t) + 1)"
  proof (cases "ht_cap t = 0")
    case False
    with maximum_elements_small [OF assms(1,2)] need succ_size [OF assms(3)] d
    show ?thesis by fastforce
  qed (simp add: d)
qed

lemma ht_grow_ok:
  assumes "ht_shape pol t as cs" and "1 \<le> ht_load t" and "ht_load t \<le> 10"
    and "ht_size t \<noteq> 18446744073709551615"
  shows "\<exists>r t' cs'. ht_grow lim pol t = Some (r, t') \<and> ht_shape pol t' as cs' \<and> same_table t t'
    \<and> unat (ht_cap t) \<le> unat (ht_cap t')
    \<and> (r = Inr () \<and> ht_cap t' \<noteq> 0 \<and> ht_size t + 1 \<le> maximum_elements_for (ht_cap t') (ht_load t)
       \<or> (\<exists>m. r = Inl (LengthError m)) \<and> \<not> ht_room lim t)"
  using assms
proof (induction "2 ^ 64 - unat (ht_cap t)" arbitrary: t cs rule: less_induct)
  case less
  let ?need = "ht_cap t = 0 \<or> maximum_elements_for (ht_cap t) (ht_load t) < ht_size t + 1"
  let ?over = "ht_cap t \<noteq> 0 \<and> 18446744073709551615 div 2 < ht_cap t"
  let ?c = "if ht_cap t \<noteq> 0 then ht_cap t * 2 else 10"
  consider "\<not> ?need" | "?need" "?over" | "?need" "\<not> ?over" by blast
  then show ?case
  proof cases
    case 1
    then have "ht_grow lim pol t = Some (Inr (), t)" by (subst ht_grow.simps) auto
    with 1 less.prems show ?thesis by (auto simp: not_less)
  next
    case 2
    then have g: "ht_grow lim pol t = Some (Inl (LengthError ''hash table capacity overflow''), t)"
      by (subst ht_grow.simps) auto
    have "unat (ht_cap t) < 10 * (unat (ht_size t) + 1)"
      using maximum_elements_small [OF less.prems(2,3)] 2 succ_size [OF less.prems(4)] by fastforce
    moreover have "2 ^ 63 \<le> unat (ht_cap t) + 1" using 2(2) by (simp add: word_less_nat_alt)
    ultimately have "\<not> ht_room lim t" by (simp add: ht_room_def)
    with g less.prems show ?thesis by auto
  next
    case 3
    then have small: "ht_cap t \<noteq> 0 \<longrightarrow> ht_cap t \<le> 18446744073709551615 div 2" by (auto simp: not_less)
    note arg = grow_arg [OF less.prems(2-4) 3(1) small]
    have g: "ht_grow lim pol t = (case ht_rehash lim pol ?c t of None \<Rightarrow> None
        | Some (Inl e, t') \<Rightarrow> Some (Inl e, t') | Some (Inr _, t') \<Rightarrow> ht_grow lim pol t')"
      using 3 by (subst ht_grow.simps) (simp only: if_True if_False)
    from less.prems(1) show ?thesis
    proof (cases rule: ht_rehash_cases [where lim = lim and cap = ?c])
      case (fails m)
      with arg have "\<not> ht_room lim t" by (auto simp: ht_room_def rehash_fits_def)
      with fails g less.prems show ?thesis by auto
    next
      case (ok u cs')
      have u: "ht_size u = ht_size t" "ht_load u = ht_load t" using ok(4) by (auto simp: same_table_def)
      have "2 ^ 64 - unat (ht_cap u) < 2 ^ 64 - unat (ht_cap t)"
        using arg(2) word_unat_bound [of "ht_cap t"] unfolding ok(5) by linarith
      from less.hyps [OF this ok(3)] less.prems(2-4) obtain r t' cs'' where
        h: "ht_grow lim pol u = Some (r, t')" "ht_shape pol t' as cs''" "same_table u t'"
          "unat (ht_cap u) \<le> unat (ht_cap t')"
          "r = Inr () \<and> ht_cap t' \<noteq> 0 \<and> ht_size t + 1 \<le> maximum_elements_for (ht_cap t') (ht_load t)
           \<or> (\<exists>m. r = Inl (LengthError m)) \<and> \<not> ht_room lim u"
        unfolding u by blast
      have "ht_grow lim pol t = Some (r, t')" using g ok(2) h(1) by simp
      moreover have "unat (ht_cap t) \<le> unat (ht_cap t')" using arg(2) ok(5) h(4) by simp
      ultimately show ?thesis
        using h same_table_trans [OF ok(4) h(3)] ht_room_same [OF ok(4), of lim] by blast
    qed
  qed
qed

section \<open>Insertion\<close>

text \<open>The nodes after a new one is linked: the old ones keep all but the last one's successor.\<close>

definition new_nodes :: "'v \<Rightarrow> addr option \<Rightarrow> 'v htable \<Rightarrow> (addr \<Rightarrow> 'v hnode option)" where
  "new_nodes x first t =
     (let a = ht_fresh t;
          nodes = (ht_nodes t)(a \<mapsto> \<lparr>hn_data = x, hn_next = first, hn_prev = ht_tail t, hn_after = None\<rparr>)
      in case ht_tail t of
           None \<Rightarrow> nodes
         | Some b \<Rightarrow> nodes(b \<mapsto> (the (nodes b))\<lparr>hn_after := Some a\<rparr>))"

lemma new_nodes_fields:
  fixes t :: "'v htable" and x :: 'v and first :: "addr option"
  assumes "ht_shape pol t as cs"
  defines "n \<equiv> new_nodes x first t"
  shows "data_at n = (data_at (ht_nodes t))(ht_fresh t := x)"
    and "next_at n = (next_at (ht_nodes t))(ht_fresh t := first)"
    and "prev_at n = (prev_at (ht_nodes t))(ht_fresh t := ht_tail t)"
    and "after_at n = (if as = [] then (after_at (ht_nodes t))(ht_fresh t := None)
           else (after_at (ht_nodes t))(ht_fresh t := None, last as := Some (ht_fresh t)))"
    and "dom n = set (as @ [ht_fresh t])"
proof -
  have f: "\<forall>a \<in> set as. a < ht_fresh t" and d: "dom (ht_nodes t) = set as"
    and l: "ht_tail t = (if as = [] then None else Some (last as))"
    using assms(1) shape_tail [OF assms(1)] by (simp_all add: ht_shape_def)
  have "last as < ht_fresh t" if "as \<noteq> []" using f that by simp
  then have ne: "last as \<noteq> ht_fresh t" if "as \<noteq> []" using that by auto
  have "last as \<in> dom (ht_nodes t)" if "as \<noteq> []" using d that by simp
  then obtain nd where nd: "ht_nodes t (last as) = Some nd" if "as \<noteq> []" by (cases "as = []") auto
  have n: "n = (if as = [] then (ht_nodes t)(ht_fresh t \<mapsto>
        \<lparr>hn_data = x, hn_next = first, hn_prev = ht_tail t, hn_after = None\<rparr>)
      else (ht_nodes t)(ht_fresh t \<mapsto>
        \<lparr>hn_data = x, hn_next = first, hn_prev = ht_tail t, hn_after = None\<rparr>,
        last as \<mapsto> nd\<lparr>hn_after := Some (ht_fresh t)\<rparr>))"
    using ne nd by (simp add: n_def new_nodes_def Let_def l)
  show "data_at n = (data_at (ht_nodes t))(ht_fresh t := x)"
    by (rule ext) (use ne nd in \<open>simp add: n\<close>)
  show "next_at n = (next_at (ht_nodes t))(ht_fresh t := first)"
    by (rule ext) (use ne nd in \<open>simp add: n\<close>)
  show "prev_at n = (prev_at (ht_nodes t))(ht_fresh t := ht_tail t)"
    by (rule ext) (use ne nd in \<open>simp add: n\<close>)
  show "after_at n = (if as = [] then (after_at (ht_nodes t))(ht_fresh t := None)
      else (after_at (ht_nodes t))(ht_fresh t := None, last as := Some (ht_fresh t)))"
    by (rule ext) (use ne nd in \<open>simp add: n\<close>)
  show "dom n = set (as @ [ht_fresh t])"
    using d by (auto simp: n)
qed

lemma ht_link_new_shape:
  assumes s: "ht_shape pol t as cs" and c: "ht_cap t \<noteq> 0"
    and sz: "ht_size t \<noteq> 18446744073709551615"
  shows "\<exists>t' cs'. ht_link_new x (hash_value pol x mod ht_cap t) t = Some (Inr True, t')
    \<and> ht_shape pol t' (as @ [ht_fresh t]) cs'
    \<and> map (data_at (ht_nodes t')) (as @ [ht_fresh t]) = map (data_at (ht_nodes t)) as @ [x]
    \<and> ht_size t' = ht_size t + 1 \<and> ht_load t' = ht_load t \<and> ht_cap t' = ht_cap t"
proof -
  let ?a = "ht_fresh t" and ?b = "bucket_of pol (ht_cap t) x"
  let ?first = "vec_data (ht_buckets t) ! ?b"
  let ?n = "new_nodes x ?first t"
  let ?bs = "(ht_buckets t)\<lparr>vec_data := (vec_data (ht_buckets t))[?b := Some ?a]\<rparr>"
  define t' where "t' = t\<lparr>ht_nodes := ?n, ht_fresh := Suc ?a, ht_buckets := ?bs, ht_tail := Some ?a,
    ht_head := (if as = [] then Some ?a else ht_head t), ht_size := ht_size t + 1\<rparr>"
  have b: "?b < unat (ht_cap t)" using mod_cap_less [OF c] by (simp add: bucket_of_def)
  have f: "\<forall>a \<in> set as. a < ?a" and d: "distinct as"
    and l: "ht_tail t = (if as = [] then None else Some (last as))"
    and la: "linked (after_at (ht_nodes t)) (ht_head t) as"
    and lp: "linked (prev_at (ht_nodes t)) (ht_tail t) (rev as)"
    and ch: "chains_ok pol (ht_cap t) (ht_nodes t) (vec_data (ht_buckets t)) as cs"
    using s shape_tail [OF s] by (simp_all add: ht_shape_def)
  from f have a: "?a \<notin> set as" by auto
  have last: "last as \<in> dom (ht_nodes t) \<and> last as \<noteq> ?a" if "as \<noteq> []"
    using last_in_set [OF that] s a unfolding ht_shape_def by metis
  note fields = new_nodes_fields [OF s, of x ?first]
  have link: "ht_link_new x (hash_value pol x mod ht_cap t) t = Some (Inr True, t')"
    using shape_chain(5) [OF s b] l last
    by (cases "as = []") (auto simp: ht_link_new_def vec_at_def vec_put_def set_link_def t'_def
        new_nodes_def bucket_of_def Let_def)
  have after: "linked (after_at ?n) (if as = [] then Some ?a else ht_head t) (as @ [?a])"
  proof (cases "as = []")
    case False
    have "linked ((after_at (ht_nodes t))(?a := None)) (ht_head t) as" using la a by (simp add: linked_upd)
    from linked_snoc [OF this d a False] show ?thesis using False fields(4) by simp
  qed (simp add: fields(4))
  have prev: "linked (prev_at ?n) (Some ?a) (rev (as @ [?a]))"
    using lp a by (simp add: fields(3) linked_upd)
  have "?n ?a \<noteq> None" using fields(5) by (auto simp: dom_def)
  then obtain nd where nd: "?n ?a = Some nd" by blast
  have nda: "hn_next nd = ?first" "hn_data nd = x"
    using fields(1,2) nd by (auto simp: fun_eq_iff dest!: spec [of _ ?a])
  have chain: "chains_ok pol (ht_cap t) ?n ((vec_data (ht_buckets t))[?b := Some ?a]) (as @ [?a])
      (cs(?b := ?a # cs ?b))"
  proof (rule chains_push [where nodes = "ht_nodes t" and nodes' = ?n and nd = nd])
    show "next_at ?n y = next_at (ht_nodes t) y \<and> data_at ?n y = data_at (ht_nodes t) y"
      if "y \<in> set as" for y
      using that a fields(1,2) by (auto simp: fun_eq_iff)
  qed (use ch a b nd nda in simp_all)
  have "ht_shape pol t' (as @ [?a]) (cs(?b := ?a # cs ?b))"
    unfolding ht_shape_def
    using s after prev chain fields(5) d a c f succ_size [OF sz]
    by (auto simp: t'_def ht_shape_def)
  moreover have "map (data_at (ht_nodes t')) (as @ [?a]) = map (data_at (ht_nodes t)) as @ [x]"
    using a by (simp add: t'_def fields(1))
  ultimately show ?thesis using link by (auto simp: t'_def)
qed

lemma rep_data_same:
  "same_table t t' \<Longrightarrow> map (data_at (ht_nodes t')) as = map (data_at (ht_nodes t)) as"
  by (auto simp: same_table_def same_but_next_def)

text \<open>A table whose buckets were rebuilt, with a capacity at least as large, stands for the same values.\<close>

lemma rep_same_table:
  assumes "ht_rep pol t xs" and "ht_shape pol t' as cs" and "same_table t t'"
    and "xs = map (data_at (ht_nodes t)) as" and "unat (ht_cap t) \<le> unat (ht_cap t')"
  shows "ht_rep pol t' xs"
proof -
  have "ht_size t' = ht_size t" "ht_load t' = ht_load t" using assms(3) by (auto simp: same_table_def)
  moreover have "ht_size t \<le> maximum_elements_for (ht_cap t') (ht_load t)"
    using maximum_elements_mono [OF _ assms(5), of "ht_load t"] assms(1) by (auto simp: ht_rep_def)
  moreover have "xs = map (data_at (ht_nodes t')) as" using assms(4) rep_data_same [OF assms(3)] by metis
  ultimately show ?thesis unfolding ht_rep_def using assms(1,2) by (auto simp: ht_rep_def)
qed

lemma key_find_iff:
  "List.find (\<lambda>a. key_of pol (data_at nodes a) = k) as = None
    \<longleftrightarrow> k \<notin> key_of pol ` set (map (data_at nodes) as)"
  by (auto simp: find_None_iff)

lemma ht_push_rep:
  assumes rep: "ht_rep pol t xs" and h: "policy_ok pol"
  shows "\<exists>r t'. ht_push lim pol x t = Some (r, t') \<and>
    (if key_of pol x \<in> key_of pol ` set xs then r = Inr False \<and> t' = t
     else r = Inr True \<and> ht_rep pol t' (xs @ [x])
       \<or> (\<exists>m. r = Inl (LengthError m)) \<and> ht_rep pol t' xs \<and> \<not> ht_room lim t)"
proof -
  from rep obtain as cs where s: "ht_shape pol t as cs" and xs: "xs = map (data_at (ht_nodes t)) as"
    and d: "distinct (map (key_of pol) xs)" and load: "1 \<le> ht_load t" "ht_load t \<le> 10"
    by (auto simp: ht_rep_def)
  have inb: "\<not> ht_load t < 1" "\<not> 10 < ht_load t" using load by (simp_all only: not_less)
  let ?f = "List.find (\<lambda>a. key_of pol (data_at (ht_nodes t) a) = key_of pol x) as"
  have find: "ht_find pol x t = Some (Inr ?f)"
    using ht_find_by_key [OF s h] find_node_shape [OF s _ h] d xs by simp
  show ?thesis
  proof (cases "key_of pol x \<in> key_of pol ` set xs")
    case True
    then have "?f \<noteq> None" unfolding xs key_find_iff by simp
    then obtain a where "?f = Some a" by blast
    then show ?thesis using find True by (simp add: ht_push_def)
  next
    case False
    then have f: "?f = None" unfolding xs key_find_iff .
    show ?thesis
    proof (cases "ht_size t = 18446744073709551615")
      case True
      then have "ht_ensure_capacity lim pol t = Some (Inl (LengthError ''hash table size overflow''), t)"
        using inb by (simp add: ht_ensure_capacity_def)
      moreover have "\<not> ht_room lim t" using True by (simp add: ht_room_def)
      ultimately show ?thesis using find f False rep by (simp add: ht_push_def)
    next
      case sz: False
      then have e: "ht_ensure_capacity lim pol t = ht_grow lim pol t"
        using inb by (simp add: ht_ensure_capacity_def)
      from ht_grow_ok [OF s load sz, of lim] obtain r t' cs' where g: "ht_grow lim pol t = Some (r, t')"
        "ht_shape pol t' as cs'" "same_table t t'" "unat (ht_cap t) \<le> unat (ht_cap t')"
        "r = Inr () \<and> ht_cap t' \<noteq> 0 \<and> ht_size t + 1 \<le> maximum_elements_for (ht_cap t') (ht_load t)
         \<or> (\<exists>m. r = Inl (LengthError m)) \<and> \<not> ht_room lim t" by blast
      from g(5) show ?thesis
      proof
        assume r: "r = Inr () \<and> ht_cap t' \<noteq> 0
          \<and> ht_size t + 1 \<le> maximum_elements_for (ht_cap t') (ht_load t)"
        have same: "ht_size t' = ht_size t" "ht_load t' = ht_load t" using g(3) by (auto simp: same_table_def)
        from ht_link_new_shape [OF g(2), of x] r sz same obtain u cs'' where
          u: "ht_link_new x (hash_value pol x mod ht_cap t') t' = Some (Inr True, u)"
          "ht_shape pol u (as @ [ht_fresh t']) cs''"
          "map (data_at (ht_nodes u)) (as @ [ht_fresh t']) = map (data_at (ht_nodes t')) as @ [x]"
          "ht_size u = ht_size t + 1" "ht_load u = ht_load t" "ht_cap u = ht_cap t'" by auto
        have vals: "xs @ [x] = map (data_at (ht_nodes u)) (as @ [ht_fresh t'])"
          using u(3) rep_data_same [OF g(3), of as] xs by simp
        have "ht_rep pol u (xs @ [x])"
          unfolding ht_rep_def using u(2) vals d False load r u(4-6) by auto
        then show ?thesis using find f e g(1) r u(1) False by (simp add: ht_push_def)
      next
        assume "(\<exists>m. r = Inl (LengthError m)) \<and> \<not> ht_room lim t"
        then show ?thesis using find f e g(1) False rep_same_table [OF rep g(2,3) xs g(4)]
          by (auto simp: ht_push_def)
      qed
    qed
  qed
qed

section \<open>Removal\<close>

definition next_if :: "bool \<Rightarrow> addr \<Rightarrow> addr option \<Rightarrow> (addr \<Rightarrow> 'v hnode option) \<Rightarrow> (addr \<Rightarrow> 'v hnode option)" where
  "next_if c b q n = (if c then n(b \<mapsto> (the (n b))\<lparr>hn_next := q\<rparr>) else n)"

definition after_if :: "bool \<Rightarrow> addr \<Rightarrow> addr option \<Rightarrow> (addr \<Rightarrow> 'v hnode option) \<Rightarrow> (addr \<Rightarrow> 'v hnode option)" where
  "after_if c b q n = (if c then n(b \<mapsto> (the (n b))\<lparr>hn_after := q\<rparr>) else n)"

definition prev_if :: "bool \<Rightarrow> addr \<Rightarrow> addr option \<Rightarrow> (addr \<Rightarrow> 'v hnode option) \<Rightarrow> (addr \<Rightarrow> 'v hnode option)" where
  "prev_if c b q n = (if c then n(b \<mapsto> (the (n b))\<lparr>hn_prev := q\<rparr>) else n)"

lemma next_if_fields [simp]:
  "data_at (next_if c b q n) x = data_at n x" "prev_at (next_if c b q n) x = prev_at n x"
  "after_at (next_if c b q n) x = after_at n x"
  "next_at (next_if c b q n) x = (if c \<and> x = b then q else next_at n x)"
  by (simp_all add: next_if_def)

lemma after_if_fields [simp]:
  "data_at (after_if c b q n) x = data_at n x" "prev_at (after_if c b q n) x = prev_at n x"
  "next_at (after_if c b q n) x = next_at n x"
  "after_at (after_if c b q n) x = (if c \<and> x = b then q else after_at n x)"
  by (simp_all add: after_if_def)

lemma prev_if_fields [simp]:
  "data_at (prev_if c b q n) x = data_at n x" "next_at (prev_if c b q n) x = next_at n x"
  "after_at (prev_if c b q n) x = after_at n x"
  "prev_at (prev_if c b q n) x = (if c \<and> x = b then q else prev_at n x)"
  by (simp_all add: prev_if_def)

lemma link_if_dom:
  "(c \<Longrightarrow> b \<in> dom n) \<Longrightarrow> dom (next_if c b q n) = dom n"
  "(c \<Longrightarrow> b \<in> dom n) \<Longrightarrow> dom (after_if c b q n) = dom n"
  "(c \<Longrightarrow> b \<in> dom n) \<Longrightarrow> dom (prev_if c b q n) = dom n"
  by (auto simp: next_if_def after_if_def prev_if_def)

lemma set_link_present: "nodes a \<noteq> None \<Longrightarrow> set_link f a nodes = Some (nodes(a \<mapsto> f (the (nodes a))))"
  by (auto simp: set_link_def)

lemma chains_remove:
  assumes ok: "chains_ok pol cap nodes bs as cs" and b: "b < unat cap" and cb: "cs b = xs @ a # ys"
    and nxt: "\<And>x. x \<in> set as \<Longrightarrow> x \<noteq> a \<Longrightarrow> next_at nodes' x
        = (if xs \<noteq> [] \<and> x = last xs then next_at nodes a else next_at nodes x)"
    and data: "\<And>x. x \<in> set as \<Longrightarrow> x \<noteq> a \<Longrightarrow> data_at nodes' x = data_at nodes x"
    and as': "set as' = set as - {a}"
  shows "chains_ok pol cap nodes' (if xs = [] then bs[b := next_at nodes a] else bs) as' (cs(b := xs @ ys))"
  unfolding chains_ok_def
proof (intro conjI allI impI)
  show "length (if xs = [] then bs[b := next_at nodes a] else bs) = unat cap"
    using ok by (simp add: chains_ok_def)
next
  fix c assume c: "c < unat cap"
  from ok c b have l: "linked (next_at nodes) (bs ! c) (cs c)" "distinct (cs c)"
    and set: "set (cs c) = {x \<in> set as. bucket_of pol cap (data_at nodes x) = c}"
    and setb: "set (cs b) = {x \<in> set as. bucket_of pol cap (data_at nodes x) = b}"
    and len: "length bs = unat cap" by (auto simp: chains_ok_def)
  let ?cs = "cs(b := xs @ ys)" and ?bs = "if xs = [] then bs[b := next_at nodes a] else bs"
  have in_as: "set (?cs c) \<subseteq> set as - {a}" using set setb l(2) cb by (cases "c = b") auto
  show "distinct (?cs c)" using l(2) cb by (cases "c = b") auto
  show "set (?cs c) = {x \<in> set as'. bucket_of pol cap (data_at nodes' x) = c}"
  proof (cases "c = b")
    case True
    then have "set (?cs c) = set (cs b) - {a}" using l(2) cb by auto
    then show ?thesis using setb True as' data by auto
  next
    case False
    then have "set (?cs c) = {x \<in> set as - {a}. bucket_of pol cap (data_at nodes x) = c}"
      using set setb cb by auto
    then show ?thesis using as' data by auto
  qed
  define f where "f = (if xs = [] then next_at nodes else (next_at nodes)(last xs := next_at nodes a))"
  have "linked f (?bs ! c) (?cs c)"
  proof (cases "c = b")
    case True
    with l cb len b linked_skip [of "next_at nodes" "bs ! b" xs a ys] show ?thesis
      by (cases "xs = []") (auto simp: f_def)
  next
    case False
    have "last xs \<notin> set (cs c)" if "xs \<noteq> []"
    proof
      assume "last xs \<in> set (cs c)"
      moreover have "last xs \<in> set (cs b)" using cb that by simp
      ultimately show False using set setb False by auto
    qed
    then have "linked f (bs ! c) (cs c)" using l(1) by (simp add: f_def linked_upd del: fun_upd_apply)
    then show ?thesis using False by simp
  qed
  moreover have "linked (next_at nodes') (?bs ! c) (?cs c) = linked f (?bs ! c) (?cs c)"
  proof (rule linked_cong)
    fix x assume "x \<in> set (?cs c)"
    with in_as have "x \<in> set as" "x \<noteq> a" by blast+
    from nxt [OF this] show "next_at nodes' x = f x" by (simp add: f_def)
  qed
  ultimately show "linked (next_at nodes') (?bs ! c) (?cs c)" by simp
qed

text \<open>The state after \<open>EraseNode\<close> on a node between \<open>us\<close> and \<open>vs\<close> of the order.\<close>

definition cut_nodes :: "addr list \<Rightarrow> addr list \<Rightarrow> addr list \<Rightarrow> addr
    \<Rightarrow> (addr \<Rightarrow> 'v hnode option) \<Rightarrow> (addr \<Rightarrow> 'v hnode option)" where
  "cut_nodes xs us vs a nodes =
     (prev_if (vs \<noteq> []) (hd vs) (prev_at nodes a)
       (after_if (us \<noteq> []) (last us) (after_at nodes a)
         (next_if (xs \<noteq> []) (last xs) (next_at nodes a) nodes)))(a := None)"

lemma cut_nodes_fields:
  assumes "x \<noteq> a"
  shows "data_at (cut_nodes xs us vs a nodes) x = data_at nodes x"
    and "next_at (cut_nodes xs us vs a nodes) x
      = (if xs \<noteq> [] \<and> x = last xs then next_at nodes a else next_at nodes x)"
    and "after_at (cut_nodes xs us vs a nodes) x
      = (if us \<noteq> [] \<and> x = last us then after_at nodes a else after_at nodes x)"
    and "prev_at (cut_nodes xs us vs a nodes) x
      = (if vs \<noteq> [] \<and> x = hd vs then prev_at nodes a else prev_at nodes x)"
  using assms by (simp_all add: cut_nodes_def)

lemma cut_nodes_dom:
  assumes "set xs \<subseteq> dom nodes" and "set us \<subseteq> dom nodes" and "set vs \<subseteq> dom nodes"
  shows "dom (cut_nodes xs us vs a nodes) = dom nodes - {a}"
proof -
  have "last xs \<in> dom nodes" if "xs \<noteq> []" using that assms(1) last_in_set by blast
  moreover have "last us \<in> dom nodes" if "us \<noteq> []" using that assms(2) last_in_set by blast
  moreover have "hd vs \<in> dom nodes" if "vs \<noteq> []" using that assms(3) hd_in_set by blast
  ultimately show ?thesis by (simp add: cut_nodes_def link_if_dom)
qed

lemma unlink_chain_eq:
  assumes "prev = (if xs = [] then None else Some (last xs))" and "unat b < vec_size (ht_buckets t)"
    and "set xs \<subseteq> dom (ht_nodes t)"
  shows "unlink_chain b prev nd t = Some (Inr (), t\<lparr>ht_nodes := next_if (xs \<noteq> []) (last xs) (hn_next nd) (ht_nodes t),
    ht_buckets := (ht_buckets t)\<lparr>vec_data := (if xs = []
      then (vec_data (ht_buckets t))[unat b := hn_next nd] else vec_data (ht_buckets t))\<rparr>\<rparr>)"
proof (cases "xs = []")
  case True
  with assms show ?thesis by (simp add: unlink_chain_def vec_put_def vec_at_def next_if_def)
next
  case False
  then have "ht_nodes t (last xs) \<noteq> None" using assms(3) last_in_set [OF False] by blast
  with False assms show ?thesis by (simp add: unlink_chain_def set_link_present next_if_def)
qed

lemma unlink_order_eq:
  assumes "hn_prev nd = (if us = [] then None else Some (last us))"
    and "hn_after nd = (if vs = [] then None else Some (hd vs))"
    and "set us \<subseteq> dom (ht_nodes t)" and "set vs \<subseteq> dom (ht_nodes t)"
  shows "unlink_order nd t = Some (t\<lparr>ht_nodes := prev_if (vs \<noteq> []) (hd vs) (hn_prev nd)
      (after_if (us \<noteq> []) (last us) (hn_after nd) (ht_nodes t)),
    ht_head := (if us = [] then hn_after nd else ht_head t),
    ht_tail := (if vs = [] then hn_prev nd else ht_tail t)\<rparr>)"
proof -
  let ?n = "after_if (us \<noteq> []) (last us) (hn_after nd) (ht_nodes t)"
  have u: "ht_nodes t (last us) \<noteq> None" if "us \<noteq> []" using assms(3) last_in_set [OF that] by blast
  then have "dom ?n = dom (ht_nodes t)" by (intro link_if_dom(2)) auto
  moreover have "hd vs \<in> dom (ht_nodes t)" if "vs \<noteq> []" using assms(4) hd_in_set [OF that] by blast
  ultimately have v: "?n (hd vs) \<noteq> None" if "vs \<noteq> []" using that by blast
  let ?t = "if us = [] then t\<lparr>ht_head := hn_after nd\<rparr> else t\<lparr>ht_nodes := ?n\<rparr>"
  have 1: "(case hn_prev nd of
        Some q \<Rightarrow> map_option (\<lambda>nodes. t\<lparr>ht_nodes := nodes\<rparr>)
                    (set_link (\<lambda>m. m\<lparr>hn_after := hn_after nd\<rparr>) q (ht_nodes t))
      | None \<Rightarrow> Some (t\<lparr>ht_head := hn_after nd\<rparr>)) = Some ?t"
    using u assms(1) by (cases "us = []") (simp_all add: set_link_present after_if_def)
  have 2: "ht_nodes ?t = ?n" by (simp add: after_if_def)
  have "(case hn_after nd of
        Some q \<Rightarrow> map_option (\<lambda>nodes. ?t\<lparr>ht_nodes := nodes\<rparr>)
                    (set_link (\<lambda>m. m\<lparr>hn_prev := hn_prev nd\<rparr>) q (ht_nodes ?t))
      | None \<Rightarrow> Some (?t\<lparr>ht_tail := hn_prev nd\<rparr>))
    = Some (?t\<lparr>ht_nodes := prev_if (vs \<noteq> []) (hd vs) (hn_prev nd) ?n,
        ht_tail := (if vs = [] then hn_prev nd else ht_tail t)\<rparr>)"
    unfolding 2 using v assms(2)
    by (cases "vs = []"; cases "us = []") (simp_all add: set_link_present prev_if_def after_if_def)
  then show ?thesis unfolding unlink_order_def 1 by (simp split: if_splits)
qed

lemma order_cut:
  assumes l: "linked f p (us @ a # vs)" and d: "distinct (us @ a # vs)"
    and g: "\<And>x. x \<in> set (us @ vs) \<Longrightarrow> g x = (if us \<noteq> [] \<and> x = last us then f a else f x)"
  shows "linked g (if us = [] then f a else p) (us @ vs)"
proof -
  have "linked (if us = [] then f else f(last us := f a)) (if us = [] then f a else p) (us @ vs)"
    using l linked_skip [OF l d] by auto
  moreover have "linked g q (us @ vs) = linked (if us = [] then f else f(last us := f a)) q (us @ vs)" for q
    by (rule linked_cong) (use g in auto)
  ultimately show ?thesis by simp
qed

lemma ht_erase_node_shape:
  assumes s: "ht_shape pol t as cs" and as: "as = us @ a # vs"
    and b: "bucket = hash_value pol (data_at (ht_nodes t) a) mod ht_cap t"
  shows "\<exists>t' cs'. ht_erase_node a bucket t = Some (Inr True, t') \<and> ht_shape pol t' (us @ vs) cs'
    \<and> map (data_at (ht_nodes t')) (us @ vs) = map (data_at (ht_nodes t)) (us @ vs)
    \<and> ht_size t' = ht_size t - 1 \<and> ht_load t' = ht_load t \<and> ht_cap t' = ht_cap t"
proof -
  let ?n = "ht_nodes t" and ?bs = "vec_data (ht_buckets t)"
  define c where "c = bucket_of pol (ht_cap t) (data_at ?n a)"
  have cap: "ht_cap t \<noteq> 0" using s as by (auto simp: ht_shape_def)
  have c: "c < unat (ht_cap t)" using mod_cap_less [OF cap] by (simp add: c_def bucket_of_def)
  note ch = shape_chain [OF s c]
  have "a \<in> set (cs c)" using ch(4) as by (simp add: c_def)
  then obtain xs ys where xy: "cs c = xs @ a # ys" by (auto simp: in_set_conv_decomp)
  have d: "distinct as" "distinct (xs @ a # ys)" using s ch(2) xy by (auto simp: ht_shape_def)
  have dom: "dom ?n = set as" and xs_as: "set xs \<subseteq> set as" using s ch(4) xy by (auto simp: ht_shape_def)
  obtain nd where nd: "?n a = Some nd" using dom as by (auto simp: dom_def)
  have la: "linked (after_at ?n) (ht_head t) (us @ a # vs)"
    and lp: "linked (prev_at ?n) (ht_tail t) (rev vs @ a # rev us)"
    using s as by (auto simp: ht_shape_def)
  have after: "after_at ?n a = (if vs = [] then None else Some (hd vs))"
    using linked_middle [OF la] linked_hd by blast
  have prev: "prev_at ?n a = (if us = [] then None else Some (last us))"
    using linked_middle [OF lp] linked_last by blast
  have search: "bucket_search ?n a None (?bs ! c) = Some (if xs = [] then None else Some (last xs), Some a)"
    using bucket_search_linked [of ?n "?bs ! c" xs a ys None] ch(1,3) d(2)
    by (auto simp: xy present_def)
  let ?c = "cut_nodes xs us vs a ?n"
  define t' where "t' = t\<lparr>ht_nodes := ?c,
      ht_buckets := (ht_buckets t)\<lparr>vec_data := (if xs = [] then ?bs[c := next_at ?n a] else ?bs)\<rparr>,
      ht_head := (if us = [] then after_at ?n a else ht_head t),
      ht_tail := (if vs = [] then prev_at ?n a else ht_tail t), ht_size := ht_size t - 1\<rparr>"
  have "ht_erase_node a bucket t = Some (Inr True, t')"
  proof -
    have ub: "unat bucket = c" by (simp add: b c_def bucket_of_def)
    have us: "set us \<subseteq> dom ?n" "set vs \<subseteq> dom ?n" "set xs \<subseteq> dom ?n" using dom as xs_as by auto
    let ?t1 = "t\<lparr>ht_nodes := next_if (xs \<noteq> []) (last xs) (hn_next nd) ?n,
        ht_buckets := (ht_buckets t)\<lparr>vec_data := (if xs = [] then ?bs[c := hn_next nd] else ?bs)\<rparr>\<rparr>"
    have 1: "unlink_chain bucket (if xs = [] then None else Some (last xs)) nd t = Some (Inr (), ?t1)"
      using unlink_chain_eq [OF refl _ us(3), of bucket nd] ch(5) by (simp add: ub)
    have "dom (next_if (xs \<noteq> []) (last xs) (hn_next nd) ?n) = dom ?n"
    proof (rule link_if_dom(1))
      assume "xs \<noteq> []"
      then show "last xs \<in> dom ?n" using us(3) last_in_set by blast
    qed
    then have 2: "unlink_order nd ?t1 = Some (?t1\<lparr>ht_nodes := prev_if (vs \<noteq> []) (hd vs) (hn_prev nd)
        (after_if (us \<noteq> []) (last us) (hn_after nd) (ht_nodes ?t1)),
      ht_head := (if us = [] then hn_after nd else ht_head ?t1),
      ht_tail := (if vs = [] then hn_prev nd else ht_tail ?t1)\<rparr>)"
      using us(1,2) after prev nd by (intro unlink_order_eq) simp_all
    show ?thesis
      using search ch(5) nd 1 2
      by (simp add: ht_erase_node_def vec_at_def ub t'_def cut_nodes_def)
  qed
  moreover have ne: "x \<noteq> a" if "x \<in> set (us @ vs)" for x using that d(1) as by auto
  have "ht_shape pol t' (us @ vs) (cs(c := xs @ ys))"
    unfolding ht_shape_def
  proof (intro conjI)
    show "distinct (us @ vs)" "(ht_cap t' = 0 \<longrightarrow> us @ vs = [])" using d(1) as cap by (auto simp: t'_def)
    show "dom (ht_nodes t') = set (us @ vs)"
      using cut_nodes_dom [of xs ?n us vs a] dom as xs_as d(1) by (auto simp: t'_def)
    show "\<forall>a \<in> set (us @ vs). a < ht_fresh t'" using s as by (auto simp: t'_def ht_shape_def)
    have "linked (after_at ?c) (if us = [] then after_at ?n a else ht_head t) (us @ vs)"
    proof (rule order_cut [OF la])
      show "distinct (us @ a # vs)" using d(1) as by simp
      fix x assume "x \<in> set (us @ vs)"
      from cut_nodes_fields(3) [OF ne [OF this]]
      show "after_at ?c x = (if us \<noteq> [] \<and> x = last us then after_at ?n a else after_at ?n x)" .
    qed
    then show "linked (after_at (ht_nodes t')) (ht_head t') (us @ vs)" by (simp add: t'_def)
    have "linked (prev_at ?c) (if rev vs = [] then prev_at ?n a else ht_tail t) (rev vs @ rev us)"
    proof (rule order_cut [OF lp])
      show "distinct (rev vs @ a # rev us)" using d(1) as by auto
      fix x assume "x \<in> set (rev vs @ rev us)"
      then have "x \<in> set (us @ vs)" by auto
      from cut_nodes_fields(4) [OF ne [OF this], of xs us vs ?n]
      show "prev_at ?c x = (if rev vs \<noteq> [] \<and> x = last (rev vs) then prev_at ?n a else prev_at ?n x)"
        by (simp only: last_rev rev_is_Nil_conv)
    qed
    then show "linked (prev_at (ht_nodes t')) (ht_tail t') (rev (us @ vs))" by (simp add: t'_def)
    have "length as = Suc (length (us @ vs))" using as by simp
    moreover have "unat (ht_size t) = length as" using s by (simp add: ht_shape_def)
    moreover from calculation have "ht_size t \<noteq> 0" by auto
    ultimately show "unat (ht_size t') = length (us @ vs)"
      using unat_minus_one [of "ht_size t"] by (simp add: t'_def)
    have "chains_ok pol (ht_cap t) ?n ?bs as cs" using s by (simp add: ht_shape_def)
    from chains_remove [where nodes' = "cut_nodes xs us vs a ?n" and as' = "us @ vs", OF this c xy]
    show "chains_ok pol (ht_cap t') (ht_nodes t') (vec_data (ht_buckets t')) (us @ vs) (cs(c := xs @ ys))"
      using d(1) as by (auto simp: t'_def cut_nodes_fields)
  qed
  moreover have "map (data_at (ht_nodes t')) (us @ vs) = map (data_at ?n) (us @ vs)"
  proof (rule map_cong [OF refl])
    fix x assume "x \<in> set (us @ vs)"
    from cut_nodes_fields(1) [OF ne [OF this], of xs us vs ?n]
    show "data_at (ht_nodes t') x = data_at ?n x" by (simp add: t'_def)
  qed
  ultimately show ?thesis by (auto simp: t'_def)
qed

lemma filter_key_cut:
  assumes "distinct (map g (us @ x # vs))"
  shows "filter (\<lambda>y. g y \<noteq> g x) (us @ x # vs) = us @ vs"
proof -
  have "\<forall>y \<in> set us \<union> set vs. g y \<noteq> g x" using assms by (auto simp: image_def)
  then show ?thesis by (simp add: filter_id_conv)
qed

lemma ht_erase_rep:
  assumes rep: "ht_rep pol t xs" and s: "ht_shape pol t as cs" and xs: "xs = map (data_at (ht_nodes t)) as"
    and h: "policy_ok pol"
    and f: "List.find (\<lambda>a. key_of pol (data_at (ht_nodes t) a) = k) as = Some a"
  shows "\<exists>t'. ht_erase_node a (hash_key pol k mod ht_cap t) t = Some (Inr True, t')
    \<and> ht_rep pol t' (filter (\<lambda>y. key_of pol y \<noteq> k) xs) \<and> k \<in> key_of pol ` set xs"
proof -
  from find_Some_in [OF f] have a: "a \<in> set as" and k: "key_of pol (data_at (ht_nodes t) a) = k" by auto
  then obtain us vs where as: "as = us @ a # vs" by (auto simp: in_set_conv_decomp)
  have hash: "hash_key pol k mod ht_cap t = hash_value pol (data_at (ht_nodes t) a) mod ht_cap t"
    using h k by (simp add: policy_ok_def)
  from ht_erase_node_shape [OF s as hash] obtain t' cs' where
    t': "ht_erase_node a (hash_key pol k mod ht_cap t) t = Some (Inr True, t')"
    "ht_shape pol t' (us @ vs) cs'" "ht_size t' = ht_size t - 1" "ht_load t' = ht_load t" "ht_cap t' = ht_cap t"
    and m: "map (data_at (ht_nodes t')) (us @ vs) = map (data_at (ht_nodes t)) (us @ vs)" by blast
  have d: "distinct (map (key_of pol) xs)" using rep by (simp add: ht_rep_def)
  have cut: "filter (\<lambda>y. key_of pol y \<noteq> k) xs = map (data_at (ht_nodes t')) (us @ vs)"
    using filter_key_cut [of "key_of pol" "map (data_at (ht_nodes t)) us" "data_at (ht_nodes t) a"
        "map (data_at (ht_nodes t)) vs"] d m k by (simp add: xs as)
  have "ht_size t \<noteq> 0" using s as by (auto simp: ht_shape_def)
  then have "ht_size t' \<le> ht_size t" using t'(3) unat_minus_one [of "ht_size t"] by (simp add: word_le_nat_alt)
  moreover have "distinct (map (key_of pol) (filter (\<lambda>y. key_of pol y \<noteq> k) xs))"
    using d by (rule distinct_map_filter)
  ultimately have "ht_rep pol t' (filter (\<lambda>y. key_of pol y \<noteq> k) xs)"
    using rep t'(2,4,5) cut unfolding ht_rep_def by auto
  moreover have "k \<in> key_of pol ` set xs" using a k by (auto simp: xs)
  ultimately show ?thesis using t'(1) by blast
qed

lemma ht_pop_key_rep:
  assumes rep: "ht_rep pol t xs" and h: "policy_ok pol"
  shows "\<exists>t'. ht_pop_key pol k t = Some (Inr (k \<in> key_of pol ` set xs), t')
    \<and> ht_rep pol t' (filter (\<lambda>y. key_of pol y \<noteq> k) xs)"
proof -
  from rep obtain as cs where s: "ht_shape pol t as cs" and xs: "xs = map (data_at (ht_nodes t)) as"
    and d: "distinct (map (key_of pol) xs)" by (auto simp: ht_rep_def)
  let ?f = "List.find (\<lambda>a. key_of pol (data_at (ht_nodes t) a) = k) as"
  have find: "ht_find_node_by_key pol k t = Some (Inr ?f)" using find_node_shape [OF s _ h] d xs by simp
  show ?thesis
  proof (cases ?f)
    case None
    then have k: "k \<notin> key_of pol ` set xs" unfolding xs key_find_iff .
    then have "filter (\<lambda>y. key_of pol y \<noteq> k) xs = xs" by (auto simp: filter_id_conv)
    then show ?thesis using rep None find k by (simp add: ht_pop_key_def)
  next
    case (Some a)
    then have "ht_cap t \<noteq> 0" using s by (auto simp: ht_shape_def)
    then show ?thesis using ht_erase_rep [OF rep s xs h Some] Some find by (auto simp: ht_pop_key_def)
  qed
qed

lemma ht_pop_by_key:
  assumes rep: "ht_rep pol t xs" and h: "policy_ok pol"
  shows "ht_pop pol x t = ht_pop_key pol (key_of pol x) t"
proof -
  from rep obtain as cs where s: "ht_shape pol t as cs" by (auto simp: ht_rep_def)
  show ?thesis
  proof (cases "ht_cap t = 0")
    case True
    then have "ht_size t = 0" using s by (auto simp: ht_shape_def unat_eq_zero)
    with True show ?thesis by (simp add: ht_pop_def ht_pop_key_def ht_find_def)
  next
    case False
    moreover have "hash_value pol x = hash_key pol (key_of pol x)" using h by (simp add: policy_ok_def)
    ultimately show ?thesis using ht_find_by_key [OF s h, of x]
      by (auto simp: ht_pop_def ht_pop_key_def split: option.splits sum.splits)
  qed
qed

lemma ht_find_key_rep:
  assumes rep: "ht_rep pol t xs" and h: "policy_ok pol"
  shows "\<exists>p. ht_find_key pol k t = Some (Inr p)
    \<and> map_option (data_at (ht_nodes t)) p = List.find (\<lambda>y. key_of pol y = k) xs
    \<and> (\<forall>a. p = Some a \<longrightarrow> ht_nodes t a \<noteq> None)"
proof -
  from rep obtain as cs where s: "ht_shape pol t as cs" and xs: "xs = map (data_at (ht_nodes t)) as"
    and d: "distinct (map (key_of pol) xs)" by (auto simp: ht_rep_def)
  let ?f = "List.find (\<lambda>a. key_of pol (data_at (ht_nodes t) a) = k) as"
  have "ht_find_key pol k t = Some (Inr ?f)"
    using find_node_shape [OF s _ h] d xs by (simp add: ht_find_key_def)
  moreover have "map_option g (List.find (\<lambda>a. key_of pol (g a) = k) bs)
      = List.find (\<lambda>y. key_of pol y = k) (map g bs)" for g :: "addr \<Rightarrow> 'b" and bs
    by (induction bs) auto
  moreover have "\<forall>a. ?f = Some a \<longrightarrow> ht_nodes t a \<noteq> None"
    using s by (auto simp: ht_shape_def dest!: find_Some_in)
  ultimately show ?thesis using xs by blast
qed

section \<open>Clearing and copying\<close>

lemma free_chain_linked:
  "linked (next_at nodes) p as \<Longrightarrow> present nodes as \<Longrightarrow> distinct as
    \<Longrightarrow> free_chain nodes p = Some (nodes |` (- set as))"
proof (induction as arbitrary: p nodes)
  case Nil
  then show ?case by (subst free_chain.simps) (simp add: restrict_map_def)
next
  case (Cons a as)
  let ?n = "nodes(a := None)"
  from Cons.prems have p: "p = Some a" and l: "linked (next_at nodes) (next_at nodes a) as"
    and a: "nodes a \<noteq> None" "a \<notin> set as" by (auto simp: present_def)
  have "linked (next_at ?n) (next_at nodes a) as"
    by (subst linked_cong [of as "next_at ?n" "next_at nodes"]) (use l a in auto)
  moreover have "present ?n as" "distinct as" using Cons.prems by (auto simp: present_def)
  ultimately have "free_chain ?n (next_at nodes a) = Some (?n |` (- set as))" by (rule Cons.IH)
  moreover have "?n |` (- set as) = nodes |` (- set (a # as))" by (auto simp: restrict_map_def)
  moreover have "free_chain nodes p = free_chain ?n (next_at nodes a)"
    using a p by (subst free_chain.simps) auto
  ultimately show ?case by simp
qed

lemma free_buckets_linked:
  "\<forall>i < length ps. linked (next_at nodes) (ps ! i) (cs i) \<and> present nodes (cs i) \<and> distinct (cs i)
    \<Longrightarrow> \<forall>i < length ps. \<forall>j < length ps. i \<noteq> j \<longrightarrow> set (cs i) \<inter> set (cs j) = {}
    \<Longrightarrow> free_buckets nodes ps = Some (nodes |` (- (\<Union>i < length ps. set (cs i))))"
proof (induction ps arbitrary: nodes cs)
  case Nil
  then show ?case by simp
next
  case (Cons p ps)
  let ?n = "nodes |` (- set (cs 0))" and ?cs = "\<lambda>i. cs (Suc i)"
  have free: "free_chain nodes p = Some ?n"
    using Cons.prems(1) by (intro free_chain_linked) (auto dest: spec [of _ 0])
  have tl: "linked (next_at nodes) (ps ! i) (?cs i) \<and> present nodes (?cs i) \<and> distinct (?cs i)"
    "set (?cs i) \<inter> set (cs 0) = {}" if "i < length ps" for i
    using Cons.prems(1) [rule_format, of "Suc i"] Cons.prems(2) [rule_format, of "Suc i" 0] that by auto
  have "linked (next_at ?n) (ps ! i) (?cs i) \<and> present ?n (?cs i) \<and> distinct (?cs i)"
    if "i < length ps" for i
  proof -
    have "x \<notin> set (cs 0)" if "x \<in> set (?cs i)" for x using tl(2) [OF \<open>i < length ps\<close>] that by auto
    then have eq: "?n x = nodes x" if "x \<in> set (?cs i)" for x using that by (simp add: restrict_map_def)
    then have "linked (next_at ?n) (ps ! i) (?cs i) = linked (next_at nodes) (ps ! i) (?cs i)"
      by (intro linked_cong) simp
    with tl(1) [OF that] eq show ?thesis by (auto simp: present_def)
  qed
  moreover have "\<forall>i < length ps. \<forall>j < length ps. i \<noteq> j \<longrightarrow> set (?cs i) \<inter> set (?cs j) = {}"
    using Cons.prems(2) by auto
  ultimately have "free_buckets ?n ps = Some (?n |` (- (\<Union>i < length ps. set (?cs i))))"
    by (intro Cons.IH) auto
  moreover have "?n |` (- (\<Union>i < length ps. set (?cs i))) = nodes |` (- (\<Union>i < length (p # ps). set (cs i)))"
    by (simp add: restrict_restrict lessThan_Suc_eq_insert_0 image_image)
  ultimately show ?case using free by simp
qed

lemma ht_clear_nodes_rep:
  assumes "ht_rep pol t xs"
  shows "\<exists>t'. ht_clear_nodes t = Some t' \<and> ht_nodes t' = (\<lambda>_. None) \<and> ht_rep pol t' []
    \<and> ht_cap t' = ht_cap t \<and> ht_load t' = ht_load t"
proof -
  from assms obtain as cs where s: "ht_shape pol t as cs" and load: "1 \<le> ht_load t" "ht_load t \<le> 10"
    by (auto simp: ht_rep_def)
  have len: "length (vec_data (ht_buckets t)) = unat (ht_cap t)" and dom: "dom (ht_nodes t) = set as"
    using s by (auto simp: ht_shape_def chains_ok_def)
  have free: "free_buckets (ht_nodes t) (vec_data (ht_buckets t))
      = Some (ht_nodes t |` (- (\<Union>i < length (vec_data (ht_buckets t)). set (cs i))))"
    using shape_chain [OF s] len by (intro free_buckets_linked) auto
  have all: "(\<Union>i < length (vec_data (ht_buckets t)). set (cs i)) = set as"
  proof (intro equalityI subsetI)
    fix a assume a: "a \<in> set as"
    then have "ht_cap t \<noteq> 0" using s by (auto simp: ht_shape_def)
    then have "bucket_of pol (ht_cap t) (data_at (ht_nodes t) a) < unat (ht_cap t)"
      using mod_cap_less by (simp add: bucket_of_def)
    from shape_chain(4) [OF s this] a this show "a \<in> (\<Union>i < length (vec_data (ht_buckets t)). set (cs i))"
      unfolding len by blast
  qed (use shape_chain(4) [OF s] len in auto)
  have none: "ht_nodes t |` (- set as) = (\<lambda>_. None)"
    using dom by (auto simp: restrict_map_def fun_eq_iff)
  from free [unfolded all none] obtain t' where t': "ht_clear_nodes t = Some t'" "ht_nodes t' = (\<lambda>_. None)" "ht_cap t' = ht_cap t"
    "ht_load t' = ht_load t" "ht_size t' = 0" "ht_head t' = None" "ht_tail t' = None"
    "vec_data (ht_buckets t') = replicate (unat (ht_cap t)) None"
    using len by (simp add: ht_clear_nodes_def vec_size_def)
  have "ht_shape pol t' [] (\<lambda>_. [])" using t' chains_ok_empty by (auto simp: ht_shape_def)
  then have "ht_rep pol t' []" using t'(4,5) load by (auto simp: ht_rep_def)
  with t' show ?thesis by blast
qed

lemma copy_nodes_ok:
  "ht_shape pol t as cs \<Longrightarrow> ht_cap t \<noteq> 0 \<Longrightarrow> linked (after_at src) p bs \<Longrightarrow> present src bs
    \<Longrightarrow> length as + length bs < 2 ^ 64
    \<Longrightarrow> \<exists>t' as' cs'. copy_nodes (hash_value pol) src p t = Some (Inr (), t') \<and> ht_shape pol t' as' cs'
      \<and> map (data_at (ht_nodes t')) as' = map (data_at (ht_nodes t)) as @ map (data_at src) bs
      \<and> ht_load t' = ht_load t \<and> ht_cap t' = ht_cap t"
proof (induction bs arbitrary: t as cs p)
  case Nil
  then show ?case by (subst copy_nodes.simps) auto
next
  case (Cons b bs)
  from Cons.prems obtain nd where nd: "src b = Some nd" "p = Some b" by (auto simp: present_def)
  have "unat (ht_size t) \<noteq> 18446744073709551615" using Cons.prems(1,5) by (auto simp: ht_shape_def)
  then have sz: "ht_size t \<noteq> 18446744073709551615" by auto
  from ht_link_new_shape [OF Cons.prems(1,2) sz, of "hn_data nd"] obtain u cs' where
    u: "ht_link_new (hn_data nd) (hash_value pol (hn_data nd) mod ht_cap t) t = Some (Inr True, u)"
    "ht_shape pol u (as @ [ht_fresh t]) cs'"
    "map (data_at (ht_nodes u)) (as @ [ht_fresh t]) = map (data_at (ht_nodes t)) as @ [hn_data nd]"
    "ht_load u = ht_load t" "ht_cap u = ht_cap t" by blast
  have "copy_nodes (hash_value pol) src p t = copy_nodes (hash_value pol) src (hn_after nd) u"
    using nd Cons.prems(2) u(1) by (subst copy_nodes.simps) simp
  moreover from Cons.IH [OF u(2), of "hn_after nd"] Cons.prems nd u(5) obtain t' as' cs'' where
    "copy_nodes (hash_value pol) src (hn_after nd) u = Some (Inr (), t')" "ht_shape pol t' as' cs''"
    "map (data_at (ht_nodes t')) as' = map (data_at (ht_nodes u)) (as @ [ht_fresh t]) @ map (data_at src) bs"
    "ht_load t' = ht_load u" "ht_cap t' = ht_cap u" by (auto simp: present_def)
  ultimately show ?case using u(3-5) nd by auto
qed

lemma ht_copy_rep:
  assumes rep: "ht_rep pol t xs" and lim: "unat (ht_cap t) \<le> max_size (bucket_traits lim)"
  shows "\<exists>t'. ht_copy lim pol t = Some (Inr t') \<and> ht_rep pol t' xs
    \<and> ht_cap t' = ht_cap t \<and> ht_load t' = ht_load t"
proof -
  from rep obtain as cs where s: "ht_shape pol t as cs" and xs: "xs = map (data_at (ht_nodes t)) as"
    by (auto simp: ht_rep_def)
  have sz: "unat (ht_size t) = length as" using s by (simp add: ht_shape_def)
  let ?t = "ht_blank\<lparr>ht_load := ht_load t, ht_cap := ht_cap t\<rparr>"
  show ?thesis
  proof (cases "ht_cap t = 0")
    case True
    then have "as = []" using s by (simp add: ht_shape_def)
    moreover have "ht_shape pol ?t [] (\<lambda>_. [])"
      using True by (simp add: ht_shape_def ht_blank_def chains_ok_def vec_empty_def)
    ultimately have "ht_rep pol ?t xs" using rep xs by (auto simp: ht_rep_def ht_blank_def)
    then show ?thesis using True by (simp add: ht_copy_def Let_def)
  next
    case False
    let ?bs = "\<lparr>vec_data = replicate (unat (ht_cap t)) None,
      vec_cap = max (unat (ht_cap t)) (min 10 (max_size (bucket_traits lim)))\<rparr>"
    have "ht_shape pol (?t\<lparr>ht_buckets := ?bs\<rparr>) [] (\<lambda>_. [])"
      using False chains_ok_empty by (auto simp: ht_shape_def ht_blank_def)
    moreover have "linked (after_at (ht_nodes t)) (ht_head t) as" "present (ht_nodes t) as"
      using s by (auto simp: ht_shape_def present_def)
    moreover have "length as < 2 ^ 64" using sz word_unat_bound [of "ht_size t"] by simp
    ultimately obtain t' as' cs' where
      t': "copy_nodes (hash_value pol) (ht_nodes t) (ht_head t) (?t\<lparr>ht_buckets := ?bs\<rparr>) = Some (Inr (), t')"
      "ht_shape pol t' as' cs'" "map (data_at (ht_nodes t')) as' = xs"
      "ht_load t' = ht_load t" "ht_cap t' = ht_cap t"
      using copy_nodes_ok [of pol "?t\<lparr>ht_buckets := ?bs\<rparr>" "[]" "\<lambda>_. []" "ht_nodes t" "ht_head t" as] False xs
      by auto
    have "unat (ht_size t') = unat (ht_size t)"
      using t'(2,3) sz xs by (metis ht_shape_def length_map)
    then have "ht_size t' = ht_size t" by (rule word_unat_eq_iff [THEN iffD2])
    with t' rep have "ht_rep pol t' xs" by (auto simp: ht_rep_def)
    moreover have "unat (ht_cap t) \<noteq> 0" using False by (simp add: unat_eq_zero)
    ultimately show ?thesis using t'(1,4,5) False lim by (simp add: ht_copy_def bucket_vector Let_def)
  qed
qed

section \<open>Load factor\<close>

lemma load_capacity_spec:
  assumes "1 \<le> f" and "f \<le> 10"
  shows "(\<exists>c. load_capacity n f cap = Inr c \<and> unat cap \<le> unat c \<and> (cap \<noteq> 0 \<longrightarrow> n \<le> maximum_elements_for c f)
       \<and> (c = cap \<or> unat c \<le> 20 * unat n))
     \<or> (\<exists>m. load_capacity n f cap = Inl (LengthError m)) \<and> 2 ^ 63 \<le> 10 * unat n"
proof (induction "2 ^ 64 - unat cap" arbitrary: cap rule: less_induct)
  case less
  show ?case
  proof (cases "cap \<noteq> 0 \<and> maximum_elements_for cap f < n")
    case False
    then show ?thesis by (subst (1 2) load_capacity.simps) (auto simp: not_less)
  next
    case True
    then have small: "unat cap < 10 * unat n" using maximum_elements_small [OF assms] by blast
    show ?thesis
    proof (cases "18446744073709551615 div 2 < cap")
      case over: True
      then have "2 ^ 63 \<le> unat cap" by (simp add: word_less_nat_alt)
      then show ?thesis using True over small by (subst (1 2) load_capacity.simps) auto
    next
      case False
      then have d: "unat (cap * 2) = 2 * unat cap" using double_word [of cap] by (simp add: not_less)
      have "cap * 2 \<noteq> 0"
      proof
        assume "cap * 2 = 0"
        then have "2 * unat cap = 0" using d by simp
        then show False using True by (simp add: unat_eq_zero)
      qed
      moreover have "0 < unat cap" using True by (simp add: unat_gt_0)
      then have "2 ^ 64 - unat (cap * 2) < 2 ^ 64 - unat cap"
        using d word_unat_bound [of cap] by linarith
      note IH = less.hyps [OF this]
      have "load_capacity n f cap = load_capacity n f (cap * 2)"
        using True False by (subst load_capacity.simps) simp
      ultimately show ?thesis using IH d small by auto
    qed
  qed
qed

lemma ht_change_load_rep:
  assumes rep: "ht_rep pol t xs"
  shows "\<exists>r t'. ht_change_load_factor lim pol f t = Some (r, t') \<and> ht_rep pol t' xs \<and>
    (if f < 1 \<or> 10 < f then r = Inr False \<and> t' = t
     else r = Inr True \<and> ht_load t' = f
       \<or> (\<exists>m. r = Inl (LengthError m)) \<and> t' = t \<and> \<not> ht_room lim t)"
proof (cases "f < 1 \<or> 10 < f")
  case True
  with rep show ?thesis by (simp add: ht_change_load_factor_def)
next
  case False
  then have f: "1 \<le> f" "f \<le> 10" by (simp_all only: not_less de_Morgan_disj)
  from rep obtain as cs where s: "ht_shape pol t as cs" and xs: "xs = map (data_at (ht_nodes t)) as"
    and d: "distinct (map (key_of pol) xs)" by (auto simp: ht_rep_def)
  have "ht_size t = 0 \<or> ht_cap t \<noteq> 0" using s by (auto simp: ht_shape_def unat_eq_zero)
  then have start: "(if ht_size t \<noteq> 0 \<and> ht_cap t = 0 then 10 else ht_cap t) = ht_cap t" by auto
  consider (error) m where "load_capacity (ht_size t) f (ht_cap t) = Inl (LengthError m)"
      "2 ^ 63 \<le> 10 * unat (ht_size t)"
    | (fine) c where "load_capacity (ht_size t) f (ht_cap t) = Inr c" "unat (ht_cap t) \<le> unat c"
      "ht_cap t \<noteq> 0 \<longrightarrow> ht_size t \<le> maximum_elements_for c f" "c = ht_cap t \<or> unat c \<le> 20 * unat (ht_size t)"
    using load_capacity_spec [OF f, of "ht_size t" "ht_cap t"] by blast
  then show ?thesis
  proof cases
    case error
    then have "\<not> ht_room lim t" by (auto simp: ht_room_def)
    with error rep False show ?thesis by (simp only: ht_change_load_factor_def start) auto
  next
    case fine
    have bound: "ht_size t \<le> maximum_elements_for c f"
      using fine(3) \<open>ht_size t = 0 \<or> ht_cap t \<noteq> 0\<close> by auto
    show ?thesis
    proof (cases "c = ht_cap t")
      case True
      then have "ht_change_load_factor lim pol f t = Some (Inr True, t\<lparr>ht_load := f\<rparr>)"
        using False fine(1) by (simp only: ht_change_load_factor_def start) simp
      moreover have "ht_shape pol (t\<lparr>ht_load := f\<rparr>) as cs" using s by (simp add: ht_shape_def)
      then have "ht_rep pol (t\<lparr>ht_load := f\<rparr>) xs"
        using xs d f bound True by (auto simp: ht_rep_def)
      ultimately show ?thesis using False by auto
    next
      case c: False
      have eq: "ht_change_load_factor lim pol f t = (case ht_rehash lim pol c t of
           None \<Rightarrow> None | Some (Inl e, t') \<Rightarrow> Some (Inl e, t')
         | Some (Inr _, t') \<Rightarrow> Some (Inr True, t'\<lparr>ht_load := f\<rparr>))"
        using False fine(1) c by (simp only: ht_change_load_factor_def start) simp
      from s show ?thesis
      proof (cases rule: ht_rehash_cases [where lim = lim and cap = c])
        case (fails m)
        have "c \<noteq> 0" using fine(2) c by (auto simp: word_unat_eq_iff)
        with fails(1) fine(4) c have "\<not> ht_room lim t" by (auto simp: ht_room_def rehash_fits_def)
        with fails eq rep False show ?thesis by auto
      next
        case (ok u cs')
        have u: "ht_size u = ht_size t" "xs = map (data_at (ht_nodes u)) as"
          using ok(4) xs rep_data_same [OF ok(4), of as] by (auto simp: same_table_def)
        have "ht_shape pol (u\<lparr>ht_load := f\<rparr>) as cs'" using ok(3) by (simp add: ht_shape_def)
        then have "ht_rep pol (u\<lparr>ht_load := f\<rparr>) xs"
          using u d f bound ok(5) unfolding ht_rep_def by auto
        then show ?thesis using eq ok(2) False by auto
      qed
    qed
  qed
qed

section \<open>New tables\<close>

lemma ht_new_rep:
  assumes "ht_new lim cap = Inr t"
  shows "ht_rep pol t []"
proof -
  from assms have t: "vec_data (ht_buckets t) = replicate (unat cap) None" "ht_cap t = cap"
    "ht_nodes t = (\<lambda>_. None)" "ht_size t = 0" "ht_load t = 7" "ht_head t = None" "ht_tail t = None"
    by (auto simp: ht_new_def bucket_vector ht_blank_def split: if_splits)
  then have "ht_shape pol t [] (\<lambda>_. [])" using chains_ok_empty by (auto simp: ht_shape_def)
  with t show ?thesis by (auto simp: ht_rep_def)
qed

lemma ht_default_rep: "ht_default lim = Inr t \<Longrightarrow> ht_rep pol t []"
  unfolding ht_default_def by (rule ht_new_rep)

lemma ht_blank_rep: "ht_rep pol ht_blank []"
proof -
  have "ht_new \<lparr>bucket_traits = \<lparr>max_size = 0, relocatable = True\<rparr>, index_limit = 0\<rparr> 0 = Inr ht_blank"
    by (simp add: ht_new_def bucket_vector ht_blank_def) (simp add: vec_empty_def)
  then show ?thesis by (rule ht_new_rep)
qed

section \<open>Properties\<close>

text \<open>
  C23: \<open>Push\<close> follows every link without a bad dereference.  If the key is present it returns
  false and leaves the table as it is; otherwise it appends the value at the end of the
  insertion order, keeps the keys distinct and the load within the factor, and returns true.
  It throws only \<open>length_error\<close>, only when there is no room, and then the contents are kept.
\<close>

theorem ht_push_correct:
  assumes "ht_rep pol t xs" and "policy_ok pol"
  shows "\<exists>r t'. ht_push lim pol x t = Some (r, t') \<and>
    (if key_of pol x \<in> key_of pol ` set xs then r = Inr False \<and> t' = t
     else r = Inr True \<and> ht_rep pol t' (xs @ [x])
       \<or> (\<exists>m. r = Inl (LengthError m)) \<and> ht_rep pol t' xs \<and> \<not> ht_room lim t)"
  using assms by (rule ht_push_rep)

theorem ht_push_correct_witness:
  "\<exists>t'. ht_push \<lparr>bucket_traits = \<lparr>max_size = 1000, relocatable = True\<rparr>, index_limit = 1000\<rparr>
        \<lparr>key_of = fst, hash_key = word_of_nat, hash_value = (\<lambda>x. word_of_nat (fst x))\<rparr>
        (7, ''a'') ht_blank = Some (Inr True, t')
      \<and> ht_rep \<lparr>key_of = fst, hash_key = word_of_nat, hash_value = (\<lambda>x. word_of_nat (fst x))\<rparr>
          t' [(7 :: nat, ''a'')]"
proof -
  let ?lim = "\<lparr>bucket_traits = \<lparr>max_size = 1000, relocatable = True\<rparr>, index_limit = 1000\<rparr>"
  let ?pol = "\<lparr>key_of = fst, hash_key = word_of_nat, hash_value = (\<lambda>x :: nat \<times> string. word_of_nat (fst x))\<rparr>"
  have "policy_ok ?pol" by (simp add: policy_ok_def)
  moreover have "ht_room ?lim (ht_blank :: (nat \<times> string) htable)" by (simp add: ht_room_def ht_blank_def)
  ultimately show ?thesis
    using ht_push_correct [OF ht_blank_rep, of ?pol ?lim "(7, ''a'')"] by auto
qed

text \<open>
  \<open>PopKey\<close> (and \<open>Pop\<close>, which is \<open>PopKey\<close> of the value's key) removes exactly the value
  with the key, keeps the order of the others, and returns whether there was one; it frees
  the node it unlinks and no other.
\<close>

theorem ht_pop_key_correct:
  assumes "ht_rep pol t xs" and "policy_ok pol"
  shows "(\<exists>t'. ht_pop_key pol k t = Some (Inr (k \<in> key_of pol ` set xs), t')
      \<and> ht_rep pol t' (filter (\<lambda>y. key_of pol y \<noteq> k) xs))
    \<and> ht_pop pol x t = ht_pop_key pol (key_of pol x) t"
  using ht_pop_key_rep [OF assms] ht_pop_by_key [OF assms] by blast

lemma demo_table:
  obtains t where "ht_push \<lparr>bucket_traits = \<lparr>max_size = 1000, relocatable = True\<rparr>, index_limit = 1000\<rparr>
      \<lparr>key_of = id, hash_key = word_of_nat, hash_value = word_of_nat\<rparr> 7 ht_blank = Some (Inr True, t)"
    "ht_rep \<lparr>key_of = id, hash_key = word_of_nat, hash_value = word_of_nat\<rparr> t [7 :: nat]"
proof -
  let ?lim = "\<lparr>bucket_traits = \<lparr>max_size = 1000, relocatable = True\<rparr>, index_limit = 1000\<rparr>"
  let ?pol = "\<lparr>key_of = id, hash_key = word_of_nat, hash_value = word_of_nat\<rparr> :: (nat, nat) hash_policy"
  have "policy_ok ?pol" "ht_room ?lim (ht_blank :: nat htable)"
    by (simp_all add: policy_ok_def ht_room_def ht_blank_def)
  with that show ?thesis
    using ht_push_rep [OF ht_blank_rep, of ?pol ?lim 7] by auto
qed

theorem ht_pop_key_correct_witness:
  "\<exists>t t'. ht_rep \<lparr>key_of = id, hash_key = word_of_nat, hash_value = word_of_nat\<rparr> t [7 :: nat]
     \<and> ht_pop_key \<lparr>key_of = id, hash_key = word_of_nat, hash_value = word_of_nat\<rparr> 7 t = Some (Inr True, t')
     \<and> ht_rep \<lparr>key_of = id, hash_key = word_of_nat, hash_value = word_of_nat\<rparr> t' []"
proof -
  let ?pol = "\<lparr>key_of = id, hash_key = word_of_nat, hash_value = word_of_nat\<rparr> :: (nat, nat) hash_policy"
  obtain t where t: "ht_rep ?pol t [7]" by (rule demo_table)
  have "policy_ok ?pol" by (simp add: policy_ok_def)
  from ht_pop_key_correct [OF t this, of 7 7] t show ?thesis by auto
qed

text \<open>
  \<open>FindKey\<close> returns the node of the value with the key, or the end iterator when there is
  none; a walk from \<open>Begin()\<close> shows the values in insertion order, \<open>Size()\<close> is their number,
  and the number of values never exceeds what the load factor allows.
\<close>

theorem ht_find_key_correct:
  assumes "ht_rep pol t xs" and "policy_ok pol"
  shows "(\<exists>p. ht_find_key pol k t = Some (Inr p)
      \<and> map_option (data_at (ht_nodes t)) p = List.find (\<lambda>y. key_of pol y = k) xs
      \<and> (\<forall>a. p = Some a \<longrightarrow> ht_nodes t a \<noteq> None))
    \<and> ht_iterate t = Some xs \<and> unat (ht_size t) = length xs
    \<and> 10 * length xs \<le> unat (ht_cap t) * unat (ht_load t)"
proof -
  have "unat (ht_size t) \<le> unat (ht_cap t) * unat (ht_load t) div 10"
    using assms(1) by (auto simp: ht_rep_def word_le_nat_alt maximum_elements_exact)
  then show ?thesis
    using ht_find_key_rep [OF assms] ht_iterate_rep [OF assms(1)] ht_size_rep [OF assms(1)] by auto
qed

theorem ht_find_key_correct_witness:
  "\<exists>t p. ht_find_key \<lparr>key_of = id, hash_key = word_of_nat, hash_value = word_of_nat\<rparr> (7 :: nat) t
      = Some (Inr (Some p)) \<and> data_at (ht_nodes t) p = 7 \<and> ht_iterate t = Some [7]"
proof -
  let ?pol = "\<lparr>key_of = id, hash_key = word_of_nat, hash_value = word_of_nat\<rparr> :: (nat, nat) hash_policy"
  obtain t where t: "ht_rep ?pol t [7]" by (rule demo_table)
  have "policy_ok ?pol" by (simp add: policy_ok_def)
  from ht_find_key_correct [OF t this, of 7] show ?thesis by (auto simp: map_option_case split: option.splits)
qed

text \<open>
  C24: \<open>Rehash\<close> either fails without touching the table, exactly when the new capacity is zero
  or a limit is exceeded, or moves every node to its bucket for the new capacity.  It keeps the
  nodes at their addresses with their data and their place in the insertion order, so iterators
  stay valid.
\<close>

theorem ht_rehash_stable:
  assumes "ht_shape pol t as cs"
  shows "if rehash_fits lim cap t
    then \<exists>t' cs'. ht_rehash lim pol cap t = Some (Inr (), t') \<and> ht_shape pol t' as cs'
      \<and> same_table t t' \<and> ht_cap t' = cap
    else \<exists>m. ht_rehash lim pol cap t = Some (Inl (LengthError m), t)"
  using ht_rehash_ok [OF assms, of lim cap] ht_rehash_fails [of lim cap t pol] by simp

theorem ht_rehash_stable_witness:
  "\<exists>t t'. ht_rehash \<lparr>bucket_traits = \<lparr>max_size = 1000, relocatable = True\<rparr>, index_limit = 1000\<rparr>
      \<lparr>key_of = id, hash_key = word_of_nat, hash_value = word_of_nat\<rparr> 20 t = Some (Inr (), t')
    \<and> data_at (ht_nodes t) 0 = (7 :: nat) \<and> data_at (ht_nodes t') 0 = 7"
proof -
  let ?lim = "\<lparr>bucket_traits = \<lparr>max_size = 1000, relocatable = True\<rparr>, index_limit = 1000\<rparr>"
  let ?pol = "\<lparr>key_of = id, hash_key = word_of_nat, hash_value = word_of_nat\<rparr> :: (nat, nat) hash_policy"
  let ?t = "ht_blank\<lparr>ht_nodes := [0 \<mapsto> \<lparr>hn_data = 7, hn_next = None, hn_prev = None, hn_after = None\<rparr>],
      ht_fresh := 1, ht_size := 1, ht_cap := 2, ht_buckets := \<lparr>vec_data = [None, Some 0], vec_cap = 10\<rparr>,
      ht_tail := Some 0, ht_head := Some 0\<rparr>"
  have "chains_ok ?pol 2 (ht_nodes ?t) [None, Some 0] [0] (\<lambda>b. if b = 1 then [0] else [])"
    by (auto simp: chains_ok_def bucket_of_def less_2_cases_iff)
  then have "ht_shape ?pol ?t [0] (\<lambda>b. if b = 1 then [0] else [])"
    by (simp add: ht_shape_def ht_blank_def)
  from ht_rehash_stable [OF this, of ?lim 20] obtain t' where
    "ht_rehash ?lim ?pol 20 ?t = Some (Inr (), t')" "same_table ?t t'"
    by (auto simp: rehash_fits_def ht_blank_def)
  moreover from this(2) have "data_at (ht_nodes t') 0 = 7" by (simp add: same_table_def same_but_next_def)
  moreover have "data_at (ht_nodes ?t) 0 = 7" by simp
  ultimately show ?thesis by blast
qed

text \<open>
  \<open>ChangeLoadFactor\<close> rejects a factor outside 1 to 10; otherwise it grows the table until
  the contents fit the new factor and keeps them, or throws \<open>length_error\<close> on a table without
  room and changes nothing.
\<close>

theorem ht_change_load_factor_correct:
  assumes "ht_rep pol t xs"
  shows "\<exists>r t'. ht_change_load_factor lim pol f t = Some (r, t') \<and> ht_rep pol t' xs \<and>
    (if f < 1 \<or> 10 < f then r = Inr False \<and> t' = t
     else r = Inr True \<and> ht_load t' = f
       \<or> (\<exists>m. r = Inl (LengthError m)) \<and> t' = t \<and> \<not> ht_room lim t)"
  using assms by (rule ht_change_load_rep)

theorem ht_change_load_factor_correct_witness:
  "\<exists>t'. ht_change_load_factor \<lparr>bucket_traits = \<lparr>max_size = 1000, relocatable = True\<rparr>, index_limit = 1000\<rparr>
      \<lparr>key_of = id, hash_key = word_of_nat, hash_value = word_of_nat\<rparr> 1 (ht_blank :: nat htable)
      = Some (Inr True, t') \<and> ht_load t' = 1"
  using ht_change_load_factor_correct [OF ht_blank_rep, of
      "\<lparr>bucket_traits = \<lparr>max_size = 1000, relocatable = True\<rparr>, index_limit = 1000\<rparr>"
      "\<lparr>key_of = id, hash_key = word_of_nat, hash_value = word_of_nat\<rparr> :: (nat, nat) hash_policy" 1]
  by (auto simp: ht_room_def ht_blank_def)

text \<open>
  A copy holds the same values in the same order with the capacity and the load factor of
  the source, and clearing a table frees every node exactly once and leaves it empty.
\<close>

theorem ht_copy_clear_correct:
  assumes "ht_rep pol t xs" and "unat (ht_cap t) \<le> max_size (bucket_traits lim)"
  shows "(\<exists>t'. ht_copy lim pol t = Some (Inr t') \<and> ht_rep pol t' xs
      \<and> ht_cap t' = ht_cap t \<and> ht_load t' = ht_load t)
    \<and> (\<exists>t'. ht_clear_nodes t = Some t' \<and> ht_nodes t' = (\<lambda>_. None) \<and> ht_rep pol t' [])"
  using ht_copy_rep [OF assms] ht_clear_nodes_rep [OF assms(1)] by blast

theorem ht_copy_clear_correct_witness:
  "\<exists>t'. ht_copy \<lparr>bucket_traits = \<lparr>max_size = 1000, relocatable = True\<rparr>, index_limit = 1000\<rparr>
      \<lparr>key_of = id, hash_key = word_of_nat, hash_value = word_of_nat\<rparr> (ht_blank :: nat htable)
      = Some (Inr t') \<and> ht_load t' = 7"
  using ht_copy_clear_correct [OF ht_blank_rep, of
      "\<lparr>bucket_traits = \<lparr>max_size = 1000, relocatable = True\<rparr>, index_limit = 1000\<rparr>"
      "\<lparr>key_of = id, hash_key = word_of_nat, hash_value = word_of_nat\<rparr> :: (nat, nat) hash_policy"]
  by (auto simp: ht_blank_def)

end
