(* ===== verification/RBTrees.thy ===== *)
theory RBTrees
  imports Comparators
begin

text \<open>
  \<open>RedBlackTree\<close> of \<open>Wan/Container/Base.hpp\<close>.  A tree is a value; the parent links are read
  as a context: the path from a node up to the root, each step with the sibling it leaves
  aside.  A non-null node pointer is a cursor, a nonempty subtree with its context, and
  following or assigning \<open>MemberParent\<close>, \<open>MemberLeft\<close> and \<open>MemberRight\<close> around the pointer is
  a change of the cursor.  Rotating a node whose pivot is null would dereference null: the
  outcome \<open>None\<close>.  \<open>key\<close> is the functor \<open>Element\<close> and \<open>lt\<close> the functor \<open>FunctionPolicy\<close>.
\<close>

datatype color = Red | Black

datatype 'v rbt = Leaf | Node "'v rbt" color 'v "'v rbt"

text \<open>The parent of a left child (with its right subtree), or of a right child (with its left one).\<close>

datatype 'v frame =
    LeftOf color 'v "'v rbt"
  | RightOf "'v rbt" color 'v

type_synonym 'v cursor = "'v rbt \<times> 'v frame list"

section \<open>Colours and links\<close>

fun get_color :: "'v rbt \<Rightarrow> color" where
  "get_color Leaf = Black"
| "get_color (Node l c v r) = c"

definition red_get :: "'v rbt \<Rightarrow> bool" where
  "red_get t \<longleftrightarrow> get_color t = Red"

definition black_get :: "'v rbt \<Rightarrow> bool" where
  "black_get t \<longleftrightarrow> get_color t = Black"

text \<open>The assignment to \<open>MemberColor\<close> under a null check.\<close>

fun paint :: "color \<Rightarrow> 'v rbt \<Rightarrow> 'v rbt" where
  "paint c Leaf = Leaf"
| "paint c (Node l _ v r) = Node l c v r"

fun frame_color :: "'v frame \<Rightarrow> color" where
  "frame_color (LeftOf c v r) = c"
| "frame_color (RightOf l c v) = c"

fun fill :: "'v frame \<Rightarrow> 'v rbt \<Rightarrow> 'v rbt" where
  "fill (LeftOf c v r) t = Node t c v r"
| "fill (RightOf l c v) t = Node l c v t"

fun plug :: "'v frame list \<Rightarrow> 'v rbt \<Rightarrow> 'v rbt" where
  "plug [] t = t"
| "plug (f # ctx) t = plug ctx (fill f t)"

section \<open>Rotations\<close>

fun left_revolve :: "'v rbt \<Rightarrow> 'v rbt option" where
  "left_revolve (Node a c v (Node b c' v' d)) = Some (Node (Node a c v b) c' v' d)"
| "left_revolve _ = None"

fun right_revolve :: "'v rbt \<Rightarrow> 'v rbt option" where
  "right_revolve (Node (Node a c v b) c' v' d) = Some (Node a c v (Node b c' v' d))"
| "right_revolve _ = None"

text \<open>The freeing loop of \<open>Clear\<close>: rotates until the root has no left child, then frees the root.\<close>

fun left_size :: "'v rbt \<Rightarrow> nat" where
  "left_size Leaf = 0"
| "left_size (Node l c v r) = size l"

function rb_clear :: "'v rbt \<Rightarrow> 'v list" where
  "rb_clear Leaf = []"
| "rb_clear (Node Leaf c v r) = v # rb_clear r"
| "rb_clear (Node (Node a c v b) c' v' d) = rb_clear (Node a c v (Node b c' v' d))"
  by pat_completeness auto
termination by (relation "measures [size, left_size]") auto

section \<open>Traversals with an explicit stack\<close>

fun inorder :: "'v rbt \<Rightarrow> 'v list" where
  "inorder Leaf = []"
| "inorder (Node l c v r) = inorder l @ v # inorder r"

text \<open>The inner loop of \<open>InteriorMiddleOrderTraversal\<close>: pushes the left spine.\<close>

fun push_left :: "'v rbt \<Rightarrow> 'v rbt list \<Rightarrow> 'v rbt list" where
  "push_left Leaf st = st"
| "push_left (Node l c v r) st = push_left l (Node l c v r # st)"

fun stack_weight :: "'v rbt list \<Rightarrow> nat" where
  "stack_weight [] = 0"
| "stack_weight (Leaf # st) = Suc (stack_weight st)"
| "stack_weight (Node l c v r # st) = Suc (size r + stack_weight st)"

lemma stack_weight_push_left: "stack_weight (push_left t st) = size t + stack_weight st"
  by (induction t arbitrary: st) simp_all

text \<open>The outer loop, from a stack whose left spines are pushed; it shows the values it prints.\<close>

function middle_order :: "'v rbt list \<Rightarrow> 'v list" where
  "middle_order [] = []"
| "middle_order (Leaf # st) = middle_order st"
| "middle_order (Node l c v r # st) = v # middle_order (push_left r st)"
  by pat_completeness auto
termination by (relation "measure stack_weight") (auto simp: stack_weight_push_left)

definition middle_order_traversal :: "'v rbt \<Rightarrow> 'v list" where
  "middle_order_traversal t = middle_order (push_left t [])"

definition push_child :: "'v rbt \<Rightarrow> 'v rbt list \<Rightarrow> 'v rbt list" where
  "push_child t st = (if t = Leaf then st else t # st)"

text \<open>The stack loop of \<open>InteriorPreOrderTraversal\<close> and \<open>InternalSize\<close>.\<close>

function pre_order :: "'v rbt list \<Rightarrow> 'v list" where
  "pre_order [] = []"
| "pre_order (Leaf # st) = pre_order st"
| "pre_order (Node l c v r # st) = v # pre_order (push_child l (push_child r st))"
  by pat_completeness auto
termination
  by (relation "measure (\<lambda>st. sum_list (map (\<lambda>t. Suc (2 * size t)) st))") (auto simp: push_child_def)

definition pre_order_traversal :: "'v rbt \<Rightarrow> 'v list" where
  "pre_order_traversal t = pre_order (push_child t [])"

function count_nodes :: "'v rbt list \<Rightarrow> nat \<Rightarrow> nat" where
  "count_nodes [] n = n"
| "count_nodes (Leaf # st) n = count_nodes st n"
| "count_nodes (Node l c v r # st) n = count_nodes (push_child l (push_child r st)) (Suc n)"
  by pat_completeness auto
termination
  by (relation "measure (\<lambda>(st, n). sum_list (map (\<lambda>t. Suc (2 * size t)) st))") (auto simp: push_child_def)

definition internal_size :: "'v rbt \<Rightarrow> nat" where
  "internal_size t = count_nodes (push_child t []) 0"

section \<open>Insertion\<close>

text \<open>
  \<open>InsertAdjust\<close> on the cursor \<open>Node\<close>.  After the last rotation the parent of \<open>Node\<close> is black,
  so the loop ends there; the root is painted black.
\<close>

fun insert_adjust :: "'v rbt \<Rightarrow> 'v frame list \<Rightarrow> 'v rbt option" where
  "insert_adjust n [] = Some (paint Black n)"
| "insert_adjust n [p] = Some (paint Black (fill p n))"
| "insert_adjust n (p # LeftOf gc gv uncle # ctx) =
     (if frame_color p = Red then
        if red_get uncle
        then insert_adjust (Node (paint Black (fill p n)) Red gv (paint Black uncle)) ctx
        else
          (case (case p of RightOf _ _ _ \<Rightarrow> left_revolve (fill p n) | LeftOf _ _ _ \<Rightarrow> Some (fill p n)) of
             None \<Rightarrow> None
           | Some parent \<Rightarrow>
               (case right_revolve (Node (paint Black parent) Red gv uncle) of
                  None \<Rightarrow> None
                | Some t \<Rightarrow> Some (paint Black (plug ctx t))))
      else Some (paint Black (plug (p # LeftOf gc gv uncle # ctx) n)))"
| "insert_adjust n (p # RightOf uncle gc gv # ctx) =
     (if frame_color p = Red then
        if red_get uncle
        then insert_adjust (Node (paint Black uncle) Red gv (paint Black (fill p n))) ctx
        else
          (case (case p of LeftOf _ _ _ \<Rightarrow> right_revolve (fill p n) | RightOf _ _ _ \<Rightarrow> Some (fill p n)) of
             None \<Rightarrow> None
           | Some parent \<Rightarrow>
               (case left_revolve (Node uncle Red gv (paint Black parent)) of
                  None \<Rightarrow> None
                | Some t \<Rightarrow> Some (paint Black (plug ctx t))))
      else Some (paint Black (plug (p # RightOf uncle gc gv # ctx) n)))"

text \<open>
  The descent of \<open>InsertValue\<close> and \<open>FindNodeByKey\<close> from the cursor: \<open>Inl\<close> the node with the
  same key, \<open>Inr\<close> the context of the null link where the search ends.
\<close>

fun descend :: "('v \<Rightarrow> 'k) \<Rightarrow> ('k \<Rightarrow> 'k \<Rightarrow> bool) \<Rightarrow> 'k \<Rightarrow> 'v rbt \<Rightarrow> 'v frame list
    \<Rightarrow> 'v cursor + 'v frame list" where
  "descend key lt k Leaf ctx = Inr ctx"
| "descend key lt k (Node l c v r) ctx =
     (if \<not> lt (key v) k \<and> \<not> lt k (key v) then Inl (Node l c v r, ctx)
      else if lt (key v) k then descend key lt k r (RightOf l c v # ctx)
      else descend key lt k l (LeftOf c v r # ctx))"

text \<open>The result is the tree and whether the value was inserted.\<close>

definition rb_insert :: "('v \<Rightarrow> 'k) \<Rightarrow> ('k \<Rightarrow> 'k \<Rightarrow> bool) \<Rightarrow> 'v \<Rightarrow> 'v rbt \<Rightarrow> ('v rbt \<times> bool) option" where
  "rb_insert key lt x t =
     (case descend key lt (key x) t [] of
        Inl _ \<Rightarrow> Some (t, False)
      | Inr ctx \<Rightarrow> map_option (\<lambda>t. (t, True)) (insert_adjust (Node Leaf Red x Leaf) ctx))"

section \<open>Lookup\<close>

definition find_node_by_key :: "('v \<Rightarrow> 'k) \<Rightarrow> ('k \<Rightarrow> 'k \<Rightarrow> bool) \<Rightarrow> 'k \<Rightarrow> 'v rbt \<Rightarrow> 'v cursor option" where
  "find_node_by_key key lt k t =
     (case descend key lt k t [] of Inl cur \<Rightarrow> Some cur | Inr _ \<Rightarrow> None)"

definition rb_find :: "('v \<Rightarrow> 'k) \<Rightarrow> ('k \<Rightarrow> 'k \<Rightarrow> bool) \<Rightarrow> 'v \<Rightarrow> 'v rbt \<Rightarrow> 'v cursor option" where
  "rb_find key lt x t =
     (if t = Leaf then None else find_node_by_key key lt (key x) t)"

section \<open>Removal\<close>

text \<open>One round of the loop of \<open>DeleteAdjust\<close>: go round again from a cursor, or stop with a tree.\<close>

datatype 'v round = Again "'v rbt" "'v frame list" | Stop "'v rbt"

text \<open>
  The cases on a brother right of the current node, once it is not red: both nephews black, the
  inner one red, the outer one red.  If the brother is null or red nothing is done.
\<close>

definition adjust_left :: "'v rbt \<Rightarrow> color \<Rightarrow> 'v \<Rightarrow> 'v rbt \<Rightarrow> 'v frame list \<Rightarrow> 'v round option" where
  "adjust_left cur pc pv brother ctx =
     (case brother of
        Node xl Black xv xr \<Rightarrow>
          if black_get xl \<and> black_get xr then
            (let up = Node cur pc pv (Node xl Red xv xr)
             in Some (if pc = Red then Stop (plug ctx (paint Black up)) else Again up ctx))
          else if black_get xr then
            map_option (\<lambda>b. Again cur (LeftOf pc pv b # ctx))
              (right_revolve (Node (paint Black xl) Red xv xr))
          else
            map_option (\<lambda>t. Stop (paint Black (plug ctx t)))
              (left_revolve (Node cur Black pv (Node xl pc xv (paint Black xr))))
      | _ \<Rightarrow> Some (Again cur (LeftOf pc pv brother # ctx)))"

definition adjust_right :: "'v rbt \<Rightarrow> 'v rbt \<Rightarrow> color \<Rightarrow> 'v \<Rightarrow> 'v frame list \<Rightarrow> 'v round option" where
  "adjust_right cur brother pc pv ctx =
     (case brother of
        Node xl Black xv xr \<Rightarrow>
          if black_get xl \<and> black_get xr then
            (let up = Node (Node xl Red xv xr) pc pv cur
             in Some (if pc = Red then Stop (plug ctx (paint Black up)) else Again up ctx))
          else if black_get xl then
            map_option (\<lambda>b. Again cur (RightOf b pc pv # ctx))
              (left_revolve (Node xl Red xv (paint Black xr)))
          else
            map_option (\<lambda>t. Stop (paint Black (plug ctx t)))
              (right_revolve (Node (Node (paint Black xl) pc xv xr) Black pv cur))
      | _ \<Rightarrow> Some (Again cur (RightOf brother pc pv # ctx)))"

text \<open>
  The round on the frame of \<open>CurrentNode\<close>, which may be null.  A null brother moves one level
  up; a red brother is rotated above the parent first (\<open>red_brother_rotation\<close> below).
\<close>

fun adjust_round :: "'v rbt \<Rightarrow> 'v frame \<Rightarrow> 'v frame list \<Rightarrow> 'v round option" where
  "adjust_round cur (LeftOf pc pv Leaf) ctx = Some (Again (Node cur pc pv Leaf) ctx)"
| "adjust_round cur (LeftOf pc pv (Node bl Red bv br)) ctx =
     adjust_left cur Red pv bl (LeftOf Black bv br # ctx)"
| "adjust_round cur (LeftOf pc pv (Node bl Black bv br)) ctx =
     adjust_left cur pc pv (Node bl Black bv br) ctx"
| "adjust_round cur (RightOf Leaf pc pv) ctx = Some (Again (Node Leaf pc pv cur) ctx)"
| "adjust_round cur (RightOf (Node bl Red bv br) pc pv) ctx =
     adjust_right cur br Red pv (RightOf bl Black bv # ctx)"
| "adjust_round cur (RightOf (Node bl Black bv br) pc pv) ctx =
     adjust_right cur (Node bl Black bv br) pc pv ctx"

lemma red_brother_rotation:
  "left_revolve (Node cur Red pv (Node bl Black bv br)) = Some (plug [LeftOf Red pv bl, LeftOf Black bv br] cur)"
  "right_revolve (Node (Node bl Black bv br) Red pv cur) = Some (plug [RightOf br Red pv, RightOf bl Black bv] cur)"
  by simp_all

fun frame_weight :: "'v frame \<Rightarrow> nat" where
  "frame_weight (LeftOf c v r) = 2 * size r + 1"
| "frame_weight (RightOf l c v) = 2 * size l + 1"

fun inner_weight :: "'v frame list \<Rightarrow> nat" where
  "inner_weight (LeftOf c v (Node l _ _ _) # ctx) = size l"
| "inner_weight (RightOf (Node _ _ _ r) c v # ctx) = size r"
| "inner_weight _ = 0"

definition ctx_weight :: "'v frame list \<Rightarrow> nat" where
  "ctx_weight ctx = sum_list (map frame_weight ctx)"

lemma adjust_left_decreases:
  assumes "adjust_left cur pc pv brother ctx = Some (Again cur' ctx')"
  shows "ctx_weight ctx' < ctx_weight (LeftOf pc pv brother # ctx)
    \<or> ctx_weight ctx' = ctx_weight (LeftOf pc pv brother # ctx)
      \<and> (inner_weight ctx' < inner_weight (LeftOf pc pv brother # ctx)
         \<or> ctx' = LeftOf pc pv brother # ctx \<and> (\<forall>l v r. brother \<noteq> Node l Black v r))"
proof (cases brother)
  case (Node xl c xv xr)
  show ?thesis
  proof (cases c)
    case Red
    with assms Node show ?thesis by (simp add: adjust_left_def)
  next
    case Black
    consider "black_get xl" "black_get xr" | a y b where "xl = Node a Red y b" "black_get xr"
      | "\<not> black_get xr"
      by (cases xl; cases "get_color xl") (auto simp: black_get_def)
    then show ?thesis
    proof cases
      case 1
      with assms Node Black show ?thesis
        by (auto simp: adjust_left_def Let_def ctx_weight_def split: if_splits)
    next
      case 2
      with assms Node Black show ?thesis
        by (auto simp: adjust_left_def black_get_def ctx_weight_def)
    next
      case 3
      with assms Node Black show ?thesis by (simp add: adjust_left_def)
    qed
  qed
qed (use assms in \<open>simp add: adjust_left_def\<close>)

lemma adjust_right_decreases:
  assumes "adjust_right cur brother pc pv ctx = Some (Again cur' ctx')"
  shows "ctx_weight ctx' < ctx_weight (RightOf brother pc pv # ctx)
    \<or> ctx_weight ctx' = ctx_weight (RightOf brother pc pv # ctx)
      \<and> (inner_weight ctx' < inner_weight (RightOf brother pc pv # ctx)
         \<or> ctx' = RightOf brother pc pv # ctx \<and> (\<forall>l v r. brother \<noteq> Node l Black v r))"
proof (cases brother)
  case (Node xl c xv xr)
  show ?thesis
  proof (cases c)
    case Red
    with assms Node show ?thesis by (simp add: adjust_right_def)
  next
    case Black
    consider "black_get xl" "black_get xr" | a y b where "xr = Node a Red y b" "black_get xl"
      | "\<not> black_get xl"
      by (cases xr; cases "get_color xr") (auto simp: black_get_def)
    then show ?thesis
    proof cases
      case 1
      with assms Node Black show ?thesis
        by (auto simp: adjust_right_def Let_def ctx_weight_def split: if_splits)
    next
      case 2
      with assms Node Black show ?thesis
        by (auto simp: adjust_right_def black_get_def ctx_weight_def)
    next
      case 3
      with assms Node Black show ?thesis by (simp add: adjust_right_def)
    qed
  qed
qed (use assms in \<open>simp add: adjust_right_def\<close>)

lemma adjust_round_decreases:
  assumes "adjust_round cur f ctx = Some (Again cur' ctx')"
  shows "ctx_weight ctx' < ctx_weight (f # ctx)
    \<or> ctx_weight ctx' = ctx_weight (f # ctx) \<and> inner_weight ctx' < inner_weight (f # ctx)"
  using assms
proof (cases "(cur, f, ctx)" rule: adjust_round.cases)
  case (2 cur pc pv bl bv br ctx)
  with assms adjust_left_decreases [of cur Red pv bl "LeftOf Black bv br # ctx" cur' ctx']
  show ?thesis by (auto simp: ctx_weight_def)
next
  case (3 cur pc pv bl bv br ctx)
  with assms adjust_left_decreases [of cur pc pv "Node bl Black bv br" ctx cur' ctx']
  show ?thesis by auto
next
  case (5 cur bl bv br pc pv ctx)
  with assms adjust_right_decreases [of cur br Red pv "RightOf bl Black bv # ctx" cur' ctx']
  show ?thesis by (auto simp: ctx_weight_def)
next
  case (6 cur bl bv br pc pv ctx)
  with assms adjust_right_decreases [of cur "Node bl Black bv br" pc pv ctx cur' ctx']
  show ?thesis by auto
qed (use assms in \<open>auto simp: ctx_weight_def\<close>)

text \<open>The loop: it ends at the root or at a red node, which is painted black.\<close>

function delete_adjust :: "'v rbt \<Rightarrow> 'v frame list \<Rightarrow> 'v rbt option" where
  "delete_adjust cur ctx =
     (case ctx of
        [] \<Rightarrow> Some (paint Black cur)
      | f # ctx' \<Rightarrow>
          if \<not> black_get cur then Some (plug ctx (paint Black cur))
          else
            (case adjust_round cur f ctx' of
               None \<Rightarrow> None
             | Some (Stop t) \<Rightarrow> Some t
             | Some (Again cur' ctx'') \<Rightarrow> delete_adjust cur' ctx''))"
  by pat_completeness auto
termination
  by (relation "measures [\<lambda>(cur, ctx). ctx_weight ctx, \<lambda>(cur, ctx). inner_weight ctx]")
    (auto dest: adjust_round_decreases)

declare delete_adjust.simps [simp del]

text \<open>The walk to the leftmost node of a subtree.\<close>

fun leftmost :: "'v rbt \<Rightarrow> 'v frame list \<Rightarrow> 'v cursor" where
  "leftmost (Node (Node a c v b) c' v' d) ctx = leftmost (Node a c v b) (LeftOf c' v' d # ctx)"
| "leftmost t ctx = (t, ctx)"

fun rightmost :: "'v rbt \<Rightarrow> 'v frame list \<Rightarrow> 'v cursor" where
  "rightmost (Node a c v (Node b c' v' d)) ctx = rightmost (Node b c' v' d) (RightOf a c v # ctx)"
| "rightmost t ctx = (t, ctx)"

text \<open>
  \<open>EraseNode\<close>: a node with two children is replaced by the leftmost node of its right subtree,
  which takes over its colour and children; \<open>cur\<close> and \<open>ctx'\<close> are \<open>FixNode\<close> and \<open>FixParent\<close>.
\<close>

fun erase_node :: "'v rbt \<Rightarrow> 'v frame list \<Rightarrow> 'v rbt option" where
  "erase_node Leaf ctx = None"
| "erase_node (Node l c v r) ctx =
     (let (movedcolor, fix, ctx') =
        (if l = Leaf then (c, r, ctx)
         else if r = Leaf then (c, l, ctx)
         else
           (case leftmost r [] of
              (Node _ mc mv mr, path) \<Rightarrow> (mc, mr, path @ RightOf l c mv # ctx)
            | (Leaf, path) \<Rightarrow> (c, r, ctx)))
      in map_option (paint Black)
           (if movedcolor = Black then delete_adjust fix ctx' else Some (plug ctx' fix)))"

definition rb_pop_key :: "('v \<Rightarrow> 'k) \<Rightarrow> ('k \<Rightarrow> 'k \<Rightarrow> bool) \<Rightarrow> 'k \<Rightarrow> 'v rbt \<Rightarrow> ('v rbt \<times> bool) option" where
  "rb_pop_key key lt k t =
     (case find_node_by_key key lt k t of
        None \<Rightarrow> Some (t, False)
      | Some (n, ctx) \<Rightarrow> map_option (\<lambda>t. (t, True)) (erase_node n ctx))"

definition rb_pop :: "('v \<Rightarrow> 'k) \<Rightarrow> ('k \<Rightarrow> 'k \<Rightarrow> bool) \<Rightarrow> 'v \<Rightarrow> 'v rbt \<Rightarrow> ('v rbt \<times> bool) option" where
  "rb_pop key lt x t = rb_pop_key key lt (key x) t"

section \<open>Iterators\<close>

text \<open>An iterator is a cursor on a nonempty subtree, or null.\<close>

definition rb_begin :: "'v rbt \<Rightarrow> 'v cursor option" where
  "rb_begin t = (if t = Leaf then None else Some (leftmost t []))"

definition rb_rbegin :: "'v rbt \<Rightarrow> 'v cursor option" where
  "rb_rbegin t = (if t = Leaf then None else Some (rightmost t []))"

text \<open>Climbing while the node is a right child (a left child), then one step more.\<close>

fun climb_right :: "'v rbt \<Rightarrow> 'v frame list \<Rightarrow> 'v cursor option" where
  "climb_right t [] = None"
| "climb_right t (RightOf l c v # ctx) = climb_right (Node l c v t) ctx"
| "climb_right t (LeftOf c v r # ctx) = Some (Node t c v r, ctx)"

fun climb_left :: "'v rbt \<Rightarrow> 'v frame list \<Rightarrow> 'v cursor option" where
  "climb_left t [] = None"
| "climb_left t (LeftOf c v r # ctx) = climb_left (Node t c v r) ctx"
| "climb_left t (RightOf l c v # ctx) = Some (Node l c v t, ctx)"

fun iter_next :: "'v cursor option \<Rightarrow> 'v cursor option" where
  "iter_next None = None"
| "iter_next (Some (Node l c v r, ctx)) =
     (if r \<noteq> Leaf then Some (leftmost r (RightOf l c v # ctx)) else climb_right (Node l c v r) ctx)"
| "iter_next (Some (Leaf, ctx)) = None"

fun iter_prev :: "'v cursor option \<Rightarrow> 'v cursor option" where
  "iter_prev None = None"
| "iter_prev (Some (Node l c v r, ctx)) =
     (if l \<noteq> Leaf then Some (rightmost l (LeftOf c v r # ctx)) else climb_left (Node l c v r) ctx)"
| "iter_prev (Some (Leaf, ctx)) = None"

end
