(* ===== verification/RBTreeLaws.thy ===== *)
theory RBTreeLaws
  imports RBTrees "HOL-Library.Multiset"
begin

text \<open>
  The invariants of the red-black tree and what its operations do to the sequence of its
  values.  \<open>rb n t\<close> says that no red node has a red child and every path has \<open>n\<close> black nodes;
  \<open>hole n ctx\<close> says the same of a context for a subtree of black height \<open>n\<close>.
\<close>

section \<open>Order of the values\<close>

fun before :: "'v frame list \<Rightarrow> 'v list" where
  "before [] = []"
| "before (LeftOf c v r # ctx) = before ctx"
| "before (RightOf l c v # ctx) = before ctx @ inorder l @ [v]"

fun behind :: "'v frame list \<Rightarrow> 'v list" where
  "behind [] = []"
| "behind (LeftOf c v r # ctx) = v # inorder r @ behind ctx"
| "behind (RightOf l c v # ctx) = behind ctx"

lemma inorder_paint [simp]: "inorder (paint c t) = inorder t"
  by (cases t) simp_all

lemma inorder_plug [simp]: "inorder (plug ctx t) = before ctx @ inorder t @ behind ctx"
  by (induction ctx arbitrary: t rule: before.induct) simp_all

lemma before_append [simp]: "before (ctx @ ctx') = before ctx' @ before ctx"
  by (induction ctx rule: before.induct) simp_all

lemma behind_append [simp]: "behind (ctx @ ctx') = behind ctx @ behind ctx'"
  by (induction ctx rule: behind.induct) simp_all

lemma plug_append [simp]: "plug (ctx @ ctx') t = plug ctx' (plug ctx t)"
  by (induction ctx arbitrary: t) simp_all

lemma inorder_left_revolve: "left_revolve t = Some t' \<Longrightarrow> inorder t' = inorder t"
  by (cases t rule: left_revolve.cases) auto

lemma inorder_right_revolve: "right_revolve t = Some t' \<Longrightarrow> inorder t' = inorder t"
  by (cases t rule: right_revolve.cases) auto

lemma inorder_fill [simp]: "inorder (fill f t) = inorder (plug [f] t)"
  by simp

lemma insert_adjust_inorder:
  "insert_adjust n ctx = Some t \<Longrightarrow> inorder t = before ctx @ inorder n @ behind ctx"
proof (induction n ctx arbitrary: t rule: insert_adjust.induct)
  case (2 n p)
  then show ?case by (cases p) auto
next
  case (3 n p gc gv uncle ctx)
  show ?case
  proof (cases p)
    case (LeftOf c v r)
    with 3 show ?thesis
      by (auto split: if_splits option.splits dest!: inorder_right_revolve)
  next
    case (RightOf l c v)
    with 3 show ?thesis
      by (auto split: if_splits option.splits dest!: inorder_right_revolve inorder_left_revolve)
  qed
next
  case (4 n p uncle gc gv ctx)
  show ?case
  proof (cases p)
    case (LeftOf c v r)
    with 4 show ?thesis
      by (auto split: if_splits option.splits dest!: inorder_right_revolve inorder_left_revolve)
  next
    case (RightOf l c v)
    with 4 show ?thesis
      by (auto split: if_splits option.splits dest!: inorder_left_revolve)
  qed
qed simp

fun round_inorder :: "'v round \<Rightarrow> 'v list" where
  "round_inorder (Again cur ctx) = before ctx @ inorder cur @ behind ctx"
| "round_inorder (Stop t) = inorder t"

lemma adjust_left_inorder:
  "adjust_left cur pc pv brother ctx = Some res
    \<Longrightarrow> round_inorder res = before ctx @ inorder cur @ pv # inorder brother @ behind ctx"
  by (auto simp: adjust_left_def Let_def split: rbt.splits color.splits if_splits
      dest!: inorder_left_revolve inorder_right_revolve)

lemma adjust_right_inorder:
  "adjust_right cur brother pc pv ctx = Some res
    \<Longrightarrow> round_inorder res = before ctx @ inorder brother @ pv # inorder cur @ behind ctx"
  by (auto simp: adjust_right_def Let_def split: rbt.splits color.splits if_splits
      dest!: inorder_left_revolve inorder_right_revolve)

lemma adjust_round_inorder:
  "adjust_round cur f ctx = Some res
    \<Longrightarrow> round_inorder res = before (f # ctx) @ inorder cur @ behind (f # ctx)"
  by (cases "(cur, f, ctx)" rule: adjust_round.cases)
    (auto dest!: adjust_left_inorder adjust_right_inorder)

lemma delete_adjust_cases:
  "delete_adjust cur [] = Some (paint Black cur)"
  "\<not> black_get cur \<Longrightarrow> delete_adjust cur (f # ctx) = Some (plug (f # ctx) (paint Black cur))"
  "black_get cur \<Longrightarrow> delete_adjust cur (f # ctx) = (case adjust_round cur f ctx of
      None \<Rightarrow> None | Some (Stop t) \<Rightarrow> Some t | Some (Again cur' ctx') \<Rightarrow> delete_adjust cur' ctx')"
  by (simp_all add: delete_adjust.simps)

lemma delete_adjust_inorder:
  "delete_adjust cur ctx = Some t \<Longrightarrow> inorder t = before ctx @ inorder cur @ behind ctx"
proof (induction cur ctx arbitrary: t rule: delete_adjust.induct)
  case (1 cur ctx)
  show ?case
  proof (cases ctx)
    case Nil
    with 1(2) show ?thesis by (auto simp: delete_adjust_cases(1))
  next
    case (Cons f ctx')
    show ?thesis
    proof (cases "black_get cur")
      case False
      with Cons 1(2) show ?thesis by (cases f) (auto simp: delete_adjust_cases(2))
    next
      case True
      with Cons 1(2) obtain res where r: "adjust_round cur f ctx' = Some res"
        by (auto simp: delete_adjust_cases(3) split: option.splits)
      note inord = adjust_round_inorder [OF r]
      show ?thesis
      proof (cases res)
        case (Stop u)
        with Cons True 1(2) r inord show ?thesis by (simp add: delete_adjust_cases(3))
      next
        case (Again cur' ctx'')
        with Cons True 1(2) r have "delete_adjust cur' ctx'' = Some t"
          by (simp add: delete_adjust_cases(3))
        from 1(1) [OF Cons _ r Again this] True inord Again Cons show ?thesis by simp
      qed
    qed
  qed
qed

section \<open>Red-black invariants\<close>

fun rb :: "nat \<Rightarrow> 'v rbt \<Rightarrow> bool" where
  "rb n Leaf \<longleftrightarrow> n = 0"
| "rb n (Node l Red v r) \<longleftrightarrow> rb n l \<and> rb n r \<and> black_get l \<and> black_get r"
| "rb n (Node l Black v r) \<longleftrightarrow> (\<exists>m. n = Suc m \<and> rb m l \<and> rb m r)"

fun parent_color :: "'v frame list \<Rightarrow> color" where
  "parent_color [] = Black"
| "parent_color (f # ctx) = frame_color f"

fun hole :: "nat \<Rightarrow> 'v frame list \<Rightarrow> bool" where
  "hole n [] \<longleftrightarrow> True"
| "hole n (LeftOf Red v r # ctx) \<longleftrightarrow> rb n r \<and> black_get r \<and> parent_color ctx = Black \<and> hole n ctx"
| "hole n (LeftOf Black v r # ctx) \<longleftrightarrow> rb n r \<and> hole (Suc n) ctx"
| "hole n (RightOf l Red v # ctx) \<longleftrightarrow> rb n l \<and> black_get l \<and> parent_color ctx = Black \<and> hole n ctx"
| "hole n (RightOf l Black v # ctx) \<longleftrightarrow> rb n l \<and> hole (Suc n) ctx"

lemma black_get_simps [simp]:
  "black_get Leaf" "black_get (Node l c v r) \<longleftrightarrow> c = Black" "red_get (Node l c v r) \<longleftrightarrow> c = Red"
  "\<not> red_get Leaf" "black_get (paint Black t)"
  by (simp_all add: black_get_def red_get_def) (cases t; simp)

lemma red_iff_not_black: "red_get t \<longleftrightarrow> \<not> black_get t"
  by (cases t) (auto intro: color.exhaust)

lemma not_red_color [simp]: "(c \<noteq> Red) = (c = Black)" "(c \<noteq> Black) = (c = Red)"
  by (cases c; simp)+

lemma rb_paint_black: "rb n t \<Longrightarrow> \<exists>m. rb m (paint Black t)"
  by (cases "(n, t)" rule: rb.cases) auto

lemma rb_paint_red: "rb n t \<Longrightarrow> red_get t \<Longrightarrow> rb (Suc n) (paint Black t)"
  by (cases "(n, t)" rule: rb.cases) auto

lemma rb_plug:
  "rb n t \<Longrightarrow> hole n ctx \<Longrightarrow> (parent_color ctx = Red \<longrightarrow> black_get t) \<Longrightarrow> \<exists>m. rb m (plug ctx t)"
  by (induction n ctx arbitrary: t rule: hole.induct) auto

text \<open>A valid tree has no red root here, and then every cursor in it stands in a valid context.\<close>

lemma rb_unplug:
  "rb m (plug ctx t) \<Longrightarrow> \<exists>n. rb n t \<and> hole n ctx \<and> (parent_color ctx = Red \<longrightarrow> black_get t)"
proof (induction ctx arbitrary: t)
  case (Cons f ctx)
  from Cons.IH [of "fill f t"] Cons.prems obtain n where
    "rb n (fill f t)" "hole n ctx" "parent_color ctx = Red \<longrightarrow> black_get (fill f t)" by auto
  then show ?case by (cases f; cases "frame_color f") auto
qed auto

definition valid :: "'v rbt \<Rightarrow> bool" where
  "valid t \<longleftrightarrow> (\<exists>n. rb n t) \<and> black_get t"

lemma valid_painted: "rb n t \<Longrightarrow> valid (paint Black t)"
  using rb_paint_black by (auto simp: valid_def)

lemma plug_black_valid:
  assumes "rb n t" and "hole n ctx" and "parent_color ctx = Red \<longrightarrow> black_get t"
  shows "valid (paint Black (plug ctx t))"
  using rb_plug [OF assms] valid_painted by blast

section \<open>Insertion\<close>

lemma insert_adjust_valid:
  "rb k (Node l Red v r) \<Longrightarrow> hole k ctx \<Longrightarrow> \<exists>t. insert_adjust (Node l Red v r) ctx = Some t \<and> valid t"
proof (induction "length ctx" arbitrary: k l v r ctx rule: less_induct)
  case less
  let ?n = "Node l Red v r"
  show ?case
  proof (cases "(?n, ctx)" rule: insert_adjust.cases)
    case (1 n)
    then show ?thesis using less.prems by (auto simp: valid_def)
  next
    case (2 n p)
    then have "rb (Suc k) (paint Black (fill p ?n))"
      using less.prems by (cases p; cases "frame_color p") auto
    with 2 show ?thesis by (auto simp: valid_def)
  next
    case (3 n p gc gv uncle ctx')
    show ?thesis
    proof (cases "frame_color p")
      case Black
      then have "rb k ?n" "hole k ctx" "parent_color ctx = Black" using less.prems 3 by auto
      from plug_black_valid [OF this(1,2)] this(3) Black 3 show ?thesis by auto
    next
      case Red
      with less.prems 3 have g: "gc = Black" "rb k uncle" "hole (Suc k) ctx'"
        by (cases p; cases gc; auto)+
      show ?thesis
      proof (cases "red_get uncle")
        case True
        have "rb (Suc k) (paint Black (fill p ?n))" "rb (Suc k) (paint Black uncle)"
          using less.prems 3 Red g rb_paint_red True by (cases p; auto)+
        then have "rb (Suc k) (Node (paint Black (fill p ?n)) Red gv (paint Black uncle))" by simp
        from less.hyps [OF _ this g(3)] 3 Red True show ?thesis by simp
      next
        case False
        then have u: "black_get uncle" by (simp add: red_iff_not_black)
        show ?thesis
        proof (cases p)
          case (LeftOf c pv s)
          with less.prems 3 Red have "rb k s" "black_get s" by auto
          with less.prems g(2) u have "rb (Suc k) (Node ?n Black pv (Node s Red gv uncle))" by auto
          from plug_black_valid [OF this g(3)] 3 Red False LeftOf show ?thesis by simp
        next
          case (RightOf s c pv)
          with less.prems 3 Red have "rb k s" "black_get s" by auto
          with less.prems g(2) u have "rb (Suc k) (Node (Node s Red pv l) Black v (Node r Red gv uncle))"
            by auto
          from plug_black_valid [OF this g(3)] 3 Red False RightOf show ?thesis by auto
        qed
      qed
    qed
  next
    case (4 n p uncle gc gv ctx')
    show ?thesis
    proof (cases "frame_color p")
      case Black
      then have "rb k ?n" "hole k ctx" "parent_color ctx = Black" using less.prems 4 by auto
      from plug_black_valid [OF this(1,2)] this(3) Black 4 show ?thesis by auto
    next
      case Red
      with less.prems 4 have g: "gc = Black" "rb k uncle" "hole (Suc k) ctx'"
        by (cases p; cases gc; auto)+
      show ?thesis
      proof (cases "red_get uncle")
        case True
        have "rb (Suc k) (paint Black (fill p ?n))" "rb (Suc k) (paint Black uncle)"
          using less.prems 4 Red g rb_paint_red True by (cases p; auto)+
        then have "rb (Suc k) (Node (paint Black uncle) Red gv (paint Black (fill p ?n)))" by simp
        from less.hyps [OF _ this g(3)] 4 Red True show ?thesis by simp
      next
        case False
        then have u: "black_get uncle" by (simp add: red_iff_not_black)
        show ?thesis
        proof (cases p)
          case (RightOf s c pv)
          with less.prems 4 Red have "rb k s" "black_get s" by auto
          with less.prems g(2) u have "rb (Suc k) (Node (Node uncle Red gv s) Black pv ?n)" by auto
          from plug_black_valid [OF this g(3)] 4 Red False RightOf show ?thesis by simp
        next
          case (LeftOf c pv s)
          with less.prems 4 Red have "rb k s" "black_get s" by auto
          with less.prems g(2) u have "rb (Suc k) (Node (Node uncle Red gv l) Black v (Node r Red pv s))"
            by auto
          from plug_black_valid [OF this g(3)] 4 Red False LeftOf show ?thesis by auto
        qed
      qed
    qed
  qed
qed

section \<open>Removal\<close>

text \<open>
  \<open>short k ctx\<close>: the context of a node whose subtree is one black node too short, of black
  height \<open>k\<close> where its siblings have \<open>Suc k\<close>.
\<close>

fun round_valid :: "'v round \<Rightarrow> bool" where
  "round_valid (Again cur ctx) \<longleftrightarrow> (\<exists>k. rb k cur \<and> hole (Suc k) ctx)"
| "round_valid (Stop t) \<longleftrightarrow> (\<exists>n. rb n t)"

lemma rb_recolor_red: "rb (Suc k) (Node l Black v r) \<Longrightarrow> black_get l \<Longrightarrow> black_get r \<Longrightarrow> rb k (Node l Red v r)"
  by simp

text \<open>A parent of colour \<open>c\<close> in a valid context whose subtree should have black height \<open>n\<close>.\<close>

definition seat :: "nat \<Rightarrow> color \<Rightarrow> 'v frame list \<Rightarrow> bool" where
  "seat n c ctx \<longleftrightarrow> (case c of Red \<Rightarrow> parent_color ctx = Black \<and> hole n ctx | Black \<Rightarrow> hole (Suc n) ctx)"

lemma seat_plug:
  assumes "seat n c ctx" and "rb n l" and "rb n r" and "c = Red \<longrightarrow> black_get l \<and> black_get r"
  shows "\<exists>m. rb m (plug ctx (Node l c v r))"
  using assms rb_plug [of n "Node l c v r" ctx] rb_plug [of "Suc n" "Node l c v r" ctx]
  by (cases c) (auto simp: seat_def)

lemma adjust_left_valid:
  assumes cur: "rb k cur" "black_get cur" and seat: "seat (Suc k) pc ctx"
    and brother: "rb (Suc k) (Node xl Black xv xr)"
  shows "\<exists>res. adjust_left cur pc pv (Node xl Black xv xr) ctx = Some res \<and> round_valid res"
proof -
  from brother have x: "rb k xl" "rb k xr" by auto
  consider "black_get xl" "black_get xr" | a y b where "xl = Node a Red y b" "black_get xr"
    | a y b where "xr = Node a Red y b"
    by (cases xl; cases xr; cases "get_color xl"; cases "get_color xr") auto
  then show ?thesis
  proof cases
    case 1
    show ?thesis
    proof (cases pc)
      case Red
      have "rb (Suc k) (Node cur Black pv (Node xl Red xv xr))" using cur x 1 by simp
      moreover have "hole (Suc k) ctx" using seat Red by (simp add: seat_def)
      ultimately have "\<exists>n. rb n (plug ctx (Node cur Black pv (Node xl Red xv xr)))"
        by (intro rb_plug) auto
      with 1 Red show ?thesis by (simp add: adjust_left_def)
    next
      case Black
      have "rb (Suc k) (Node cur Black pv (Node xl Red xv xr))" using cur x 1 by simp
      moreover have "hole (Suc (Suc k)) ctx" using seat Black by (simp add: seat_def)
      ultimately have "round_valid (Again (Node cur Black pv (Node xl Red xv xr)) ctx)"
        unfolding round_valid.simps by blast
      with 1 Black show ?thesis by (simp add: adjust_left_def del: round_valid.simps)
    qed
  next
    case 2
    then have "rb (Suc k) (Node a Black y (Node b Red xv xr))" using x by auto
    then have "hole (Suc k) (LeftOf pc pv (Node a Black y (Node b Red xv xr)) # ctx)"
      using seat by (cases pc) (auto simp: seat_def)
    with 2 cur show ?thesis by (auto simp: adjust_left_def)
  next
    case 3
    have "rb (Suc k) (Node cur Black pv xl)" "rb (Suc k) (paint Black xr)" using cur x 3 by auto
    from seat_plug [OF seat this] 3 have "\<exists>m. rb m (plug ctx (Node (Node cur Black pv xl) pc xv (paint Black xr)))"
      by simp
    then have "\<exists>m. rb m (paint Black (plug ctx (Node (Node cur Black pv xl) pc xv (paint Black xr))))"
      using rb_paint_black by blast
    with 3 show ?thesis by (simp add: adjust_left_def)
  qed
qed

lemma adjust_right_valid:
  assumes cur: "rb k cur" "black_get cur" and seat: "seat (Suc k) pc ctx"
    and brother: "rb (Suc k) (Node xl Black xv xr)"
  shows "\<exists>res. adjust_right cur (Node xl Black xv xr) pc pv ctx = Some res \<and> round_valid res"
proof -
  from brother have x: "rb k xl" "rb k xr" by auto
  consider "black_get xl" "black_get xr" | a y b where "xr = Node a Red y b" "black_get xl"
    | a y b where "xl = Node a Red y b"
    by (cases xl; cases xr; cases "get_color xl"; cases "get_color xr") auto
  then show ?thesis
  proof cases
    case 1
    show ?thesis
    proof (cases pc)
      case Red
      have "rb (Suc k) (Node (Node xl Red xv xr) Black pv cur)" using cur x 1 by simp
      moreover have "hole (Suc k) ctx" using seat Red by (simp add: seat_def)
      ultimately have "\<exists>n. rb n (plug ctx (Node (Node xl Red xv xr) Black pv cur))"
        by (intro rb_plug) auto
      with 1 Red show ?thesis by (simp add: adjust_right_def)
    next
      case Black
      have "rb (Suc k) (Node (Node xl Red xv xr) Black pv cur)" using cur x 1 by simp
      moreover have "hole (Suc (Suc k)) ctx" using seat Black by (simp add: seat_def)
      ultimately have "round_valid (Again (Node (Node xl Red xv xr) Black pv cur) ctx)"
        unfolding round_valid.simps by blast
      with 1 Black show ?thesis by (simp add: adjust_right_def del: round_valid.simps)
    qed
  next
    case 2
    then have "rb (Suc k) (Node (Node xl Red xv a) Black y b)" using x by auto
    then have "hole (Suc k) (RightOf (Node (Node xl Red xv a) Black y b) pc pv # ctx)"
      using seat by (cases pc) (auto simp: seat_def)
    with 2 cur show ?thesis by (auto simp: adjust_right_def)
  next
    case 3
    have "rb (Suc k) (paint Black xl)" "rb (Suc k) (Node xr Black pv cur)" using cur x 3 by auto
    from seat_plug [OF seat this] 3 have "\<exists>m. rb m (plug ctx (Node (paint Black xl) pc xv (Node xr Black pv cur)))"
      by simp
    then have "\<exists>m. rb m (paint Black (plug ctx (Node (paint Black xl) pc xv (Node xr Black pv cur))))"
      using rb_paint_black by blast
    with 3 show ?thesis by (simp add: adjust_right_def)
  qed
qed

lemma black_brother:
  assumes "rb (Suc k) t" and "black_get t"
  obtains l v r where "t = Node l Black v r"
  using assms by (cases t) auto

lemma adjust_round_valid:
  assumes cur: "rb k cur" "black_get cur" and h: "hole (Suc k) (f # ctx)"
  shows "\<exists>res. adjust_round cur f ctx = Some res \<and> round_valid res"
  using assms
proof (cases "(cur, f, ctx)" rule: adjust_round.cases)
  case (1 cur pc pv ctx)
  with h have "rb (Suc k) (Leaf :: 'a rbt)" by (cases pc) auto
  then show ?thesis by simp
next
  case (2 c pc pv bl bv br ctx')
  with h have "pc = Black" "rb (Suc k) bl" "rb (Suc k) br" "black_get bl" "black_get br" "hole (Suc (Suc k)) ctx'"
    by (cases pc; auto)+
  moreover from black_brother [OF \<open>rb (Suc k) bl\<close> \<open>black_get bl\<close>] obtain xl xv xr where "bl = Node xl Black xv xr" .
  moreover have "seat (Suc k) Red (LeftOf Black bv br # ctx')" using calculation by (simp add: seat_def)
  ultimately show ?thesis using adjust_left_valid [of k cur Red _ xl xv xr pv] cur 2 by auto
next
  case (3 c pc pv bl bv br ctx')
  with h have "seat (Suc k) pc ctx'" "rb (Suc k) (Node bl Black bv br)" by (cases pc; auto simp: seat_def)+
  from adjust_left_valid [OF cur this] 3 show ?thesis by auto
next
  case (4 cur pc pv ctx)
  with h have "rb (Suc k) (Leaf :: 'a rbt)" by (cases pc) auto
  then show ?thesis by simp
next
  case (5 c bl bv br pc pv ctx')
  with h have "pc = Black" "rb (Suc k) bl" "rb (Suc k) br" "black_get bl" "black_get br" "hole (Suc (Suc k)) ctx'"
    by (cases pc; auto)+
  moreover from black_brother [OF \<open>rb (Suc k) br\<close> \<open>black_get br\<close>] obtain xl xv xr where "br = Node xl Black xv xr" .
  moreover have "seat (Suc k) Red (RightOf bl Black bv # ctx')" using calculation by (simp add: seat_def)
  ultimately show ?thesis using adjust_right_valid [of k cur Red _ xl xv xr pv] cur 5 by auto
next
  case (6 c bl bv br pc pv ctx')
  with h have "seat (Suc k) pc ctx'" "rb (Suc k) (Node bl Black bv br)" by (cases pc; auto simp: seat_def)+
  from adjust_right_valid [OF cur this] 6 show ?thesis by auto
qed

lemma delete_adjust_valid:
  "rb k cur \<Longrightarrow> hole (Suc k) ctx \<Longrightarrow> \<exists>t n. delete_adjust cur ctx = Some t \<and> rb n t"
proof (induction cur ctx arbitrary: k rule: delete_adjust.induct)
  case (1 cur ctx)
  show ?case
  proof (cases ctx)
    case Nil
    with 1 rb_paint_black show ?thesis by (auto simp: delete_adjust_cases(1))
  next
    case (Cons f ctx')
    show ?thesis
    proof (cases "black_get cur")
      case False
      then have "rb (Suc k) (paint Black cur)" using 1(2) rb_paint_red by (simp add: red_iff_not_black)
      from rb_plug [OF this 1(3)] False Cons show ?thesis by (simp add: delete_adjust_cases(2))
    next
      case True
      from adjust_round_valid [OF 1(2) True] 1(3) Cons obtain res where
        r: "adjust_round cur f ctx' = Some res" "round_valid res" by auto
      show ?thesis
      proof (cases res)
        case (Stop t)
        with r True Cons show ?thesis by (auto simp: delete_adjust_cases(3))
      next
        case (Again cur' ctx'')
        with r(2) obtain j where "rb j cur'" "hole (Suc j) ctx''" by auto
        with 1(1) [OF Cons _ r(1) Again] True have "\<exists>t n. delete_adjust cur' ctx'' = Some t \<and> rb n t" by auto
        with r True Cons Again show ?thesis by (simp add: delete_adjust_cases(3))
      qed
    qed
  qed
qed

lemma leftmost_shape:
  "t \<noteq> Leaf \<Longrightarrow> \<exists>c v r path. leftmost t ctx = (Node Leaf c v r, path @ ctx) \<and> before path = []
    \<and> plug path (Node Leaf c v r) = t"
proof (induction t ctx rule: leftmost.induct)
  case (1 a c v b c' v' d ctx)
  then obtain e w r path where "leftmost (Node a c v b) (LeftOf c' v' d # ctx)
      = (Node Leaf e w r, path @ LeftOf c' v' d # ctx)" "before path = []"
    "plug path (Node Leaf e w r) = Node a c v b" by auto
  then show ?case by (intro exI [of _ e] exI [of _ w] exI [of _ r] exI [of _ "path @ [LeftOf c' v' d]"]) simp
qed auto

lemma hole_value:
  "hole j (q @ RightOf l c x # ctx) = hole j (q @ RightOf l c y # ctx)"
  "parent_color (q @ RightOf l c x # ctx) = parent_color (q @ RightOf l c y # ctx)"
proof -
  show p: "parent_color (q @ RightOf l c x # ctx) = parent_color (q @ RightOf l c y # ctx)" for q
    by (cases q) simp_all
  show "hole j (q @ RightOf l c x # ctx) = hole j (q @ RightOf l c y # ctx)"
  proof (induction q arbitrary: j)
    case Nil
    then show ?case by (cases c) simp_all
  next
    case (Cons f q)
    then show ?case using p [of q] by (cases f; cases "frame_color f") simp_all
  qed
qed

text \<open>Removing a node from a valid tree gives a valid tree without its value.\<close>

lemma erase_node_valid:
  assumes v: "valid (plug ctx (Node l c v r))"
  shows "\<exists>t. erase_node (Node l c v r) ctx = Some t \<and> valid t
    \<and> inorder t = before ctx @ inorder l @ inorder r @ behind ctx"
proof -
  from v obtain m where "rb m (plug ctx (Node l c v r))" by (auto simp: valid_def)
  from rb_unplug [OF this] obtain n where n: "rb n (Node l c v r)" "hole n ctx"
    "parent_color ctx = Red \<longrightarrow> c = Black" by auto
  have finish: "\<exists>t. map_option (paint Black)
        (if mc = Black then delete_adjust fx ctx' else Some (plug ctx' fx)) = Some t \<and> valid t
      \<and> inorder t = before ctx' @ inorder fx @ behind ctx'"
    if moved: "rb k (Node Leaf mc mv fx) \<or> rb k (Node fx mc mv Leaf)" "hole k ctx'"
      "parent_color ctx' = Red \<longrightarrow> mc = Black" for mc mv fx k ctx'
  proof (cases mc)
    case Black
    then obtain j where "k = Suc j" "rb j fx" using moved(1) by auto
    with delete_adjust_valid [of j fx ctx'] moved(2) obtain t i where
      t: "delete_adjust fx ctx' = Some t" "rb i t" by auto
    with delete_adjust_inorder [OF t(1)] valid_painted [OF t(2)] Black show ?thesis by simp
  next
    case Red
    then have "rb k fx" "parent_color ctx' = Black" using moved by auto
    with plug_black_valid [of k fx ctx'] moved(2) Red show ?thesis by simp
  qed
  consider "l = Leaf" | "l \<noteq> Leaf" "r = Leaf" | "l \<noteq> Leaf" "r \<noteq> Leaf" by blast
  then show ?thesis
  proof cases
    case 1
    with finish [of n c v r ctx] n show ?thesis by simp
  next
    case 2
    with finish [of n c v l ctx] n show ?thesis by simp
  next
    case 3
    from leftmost_shape [OF 3(2), of "[]"] obtain mc mv mr path where
      p: "leftmost r [] = (Node Leaf mc mv mr, path)" "before path = []" "plug path (Node Leaf mc mv mr) = r"
      by auto
    have r: "inorder r = mv # inorder mr @ behind path" using inorder_plug [of path "Node Leaf mc mv mr"] p by simp
    have "plug (path @ RightOf l c v # ctx) (Node Leaf mc mv mr) = plug ctx (Node l c v r)" using p(3) by simp
    with \<open>rb m (plug ctx (Node l c v r))\<close> rb_unplug [of m "path @ RightOf l c v # ctx" "Node Leaf mc mv mr"]
    obtain k where k: "rb k (Node Leaf mc mv mr)" "hole k (path @ RightOf l c v # ctx)"
      "parent_color (path @ RightOf l c v # ctx) = Red \<longrightarrow> mc = Black" by auto
    have "hole k (path @ RightOf l c mv # ctx)"
      "parent_color (path @ RightOf l c mv # ctx) = Red \<longrightarrow> mc = Black"
      using k(2,3) by (simp_all only: hole_value [where x = mv and y = v])
    from finish [OF disjI1 [OF k(1)] this] p(1,2) r 3 show ?thesis by auto
  qed
qed

section \<open>Search order\<close>

definition key_sorted :: "('v \<Rightarrow> 'k) \<Rightarrow> ('k \<Rightarrow> 'k \<Rightarrow> bool) \<Rightarrow> 'v list \<Rightarrow> bool" where
  "key_sorted key lt xs \<longleftrightarrow> sorted_wrt (\<lambda>x y. lt (key x) (key y)) xs"

text \<open>The insertion and the removal on the sorted sequence that the tree implements.\<close>

definition has_key :: "('v \<Rightarrow> 'k) \<Rightarrow> ('k \<Rightarrow> 'k \<Rightarrow> bool) \<Rightarrow> 'k \<Rightarrow> 'v list \<Rightarrow> bool" where
  "has_key key lt k xs \<longleftrightarrow> (\<exists>y \<in> set xs. same_key lt (key y) k)"

definition seq_insert :: "('v \<Rightarrow> 'k) \<Rightarrow> ('k \<Rightarrow> 'k \<Rightarrow> bool) \<Rightarrow> 'v \<Rightarrow> 'v list \<Rightarrow> 'v list" where
  "seq_insert key lt x xs =
     (if has_key key lt (key x) xs then xs
      else filter (\<lambda>y. lt (key y) (key x)) xs @ x # filter (\<lambda>y. lt (key x) (key y)) xs)"

definition seq_remove :: "('v \<Rightarrow> 'k) \<Rightarrow> ('k \<Rightarrow> 'k \<Rightarrow> bool) \<Rightarrow> 'k \<Rightarrow> 'v list \<Rightarrow> 'v list" where
  "seq_remove key lt k xs = filter (\<lambda>y. \<not> same_key lt (key y) k) xs"

context strict_weak_order
begin

lemma descend_found:
  "descend key lt k t ctx = Inl (n, ctx')
    \<Longrightarrow> plug ctx' n = plug ctx t \<and> (\<exists>l c v r. n = Node l c v r \<and> same_key lt (key v) k)"
proof (induction t arbitrary: ctx)
  case (Node l c v r)
  show ?case
  proof (cases "same_key lt (key v) k")
    case False
    with Node.prems Node.IH(1) [of "LeftOf c v r # ctx"] Node.IH(2) [of "RightOf l c v # ctx"]
    show ?thesis by (simp add: same_key_def split: if_splits)
  next
    case True
    with Node.prems have "n = Node l c v r" "ctx' = ctx" by (simp_all add: same_key_def)
    with True show ?thesis by simp
  qed
qed simp

lemma descend_missing:
  "descend key lt k t ctx = Inr ctx' \<Longrightarrow> key_sorted key lt (inorder t)
    \<Longrightarrow> \<forall>y \<in> set (before ctx). lt (key y) k \<Longrightarrow> \<forall>y \<in> set (behind ctx). lt k (key y)
    \<Longrightarrow> plug ctx' Leaf = plug ctx t \<and> (\<forall>y \<in> set (before ctx'). lt (key y) k)
      \<and> (\<forall>y \<in> set (behind ctx'). lt k (key y))"
proof (induction t arbitrary: ctx)
  case (Node l c v r)
  from Node.prems(2) have srt: "key_sorted key lt (inorder l)" "key_sorted key lt (inorder r)"
    "\<forall>y \<in> set (inorder l). lt (key y) (key v)" "\<forall>y \<in> set (inorder r). lt (key v) (key y)"
    by (simp_all add: key_sorted_def sorted_wrt_append)
  show ?case
  proof (cases "lt (key v) k")
    case True
    then have d: "descend key lt k r (RightOf l c v # ctx) = Inr ctx'" using Node.prems(1) by simp
    have "\<forall>y \<in> set (inorder l). lt (key y) k" using srt(3) trans [OF _ True] by blast
    then have "\<forall>y \<in> set (before (RightOf l c v # ctx)). lt (key y) k"
      using Node.prems(3) True by (simp add: ball_Un)
    from Node.IH(2) [OF d srt(2) this] Node.prems(4) show ?thesis by simp
  next
    case False
    then have less: "lt k (key v)" and d: "descend key lt k l (LeftOf c v r # ctx) = Inr ctx'"
      using Node.prems(1) by (auto split: if_splits)
    have "\<forall>y \<in> set (inorder r). lt k (key y)" using srt(4) trans [OF less] by blast
    then have "\<forall>y \<in> set (behind (LeftOf c v r # ctx)). lt k (key y)"
      using Node.prems(4) less by (simp add: ball_Un)
    from Node.IH(1) [OF d srt(1) _ this] Node.prems(3) show ?thesis by simp
  qed
qed simp

lemma sorted_split:
  assumes "key_sorted key lt (us @ v # vs)" and "same_key lt (key v) k"
  shows "\<forall>y \<in> set us. lt (key y) k" and "\<forall>y \<in> set vs. lt k (key y)"
  using assms lt_same_left [OF assms(2)] lt_same_right [OF assms(2)]
  by (auto simp: key_sorted_def sorted_wrt_append)

lemma seq_remove_split:
  assumes "key_sorted key lt (us @ v # vs)" and "same_key lt (key v) k"
  shows "seq_remove key lt k (us @ v # vs) = us @ vs" and "has_key key lt k (us @ v # vs)"
  using sorted_split [OF assms] assms(2)
  by (auto simp: seq_remove_def has_key_def same_key_def filter_id_conv)

lemma missing_split:
  assumes "\<forall>y \<in> set us. lt (key y) k" and "\<forall>y \<in> set vs. lt k (key y)"
  shows "\<not> has_key key lt k (us @ vs)" and "filter (\<lambda>y. lt (key y) k) (us @ vs) = us"
    and "filter (\<lambda>y. lt k (key y)) (us @ vs) = vs"
proof -
  show "\<not> has_key key lt k (us @ vs)" using assms by (auto simp: has_key_def same_key_def)
  have "\<forall>y \<in> set vs. \<not> lt (key y) k" "\<forall>y \<in> set us. \<not> lt k (key y)" using assms asym by blast+
  with assms show "filter (\<lambda>y. lt (key y) k) (us @ vs) = us" "filter (\<lambda>y. lt k (key y)) (us @ vs) = vs"
    by (simp_all add: filter_id_conv filter_empty_conv)
qed

lemma descend_missing_root:
  assumes "descend key lt k t [] = Inr ctx" and "key_sorted key lt (inorder t)"
  shows "plug ctx Leaf = t" and "inorder t = before ctx @ behind ctx"
    and "\<forall>y \<in> set (before ctx). lt (key y) k" and "\<forall>y \<in> set (behind ctx). lt k (key y)"
  using descend_missing [OF assms] inorder_plug [of ctx Leaf] by auto

lemma rb_insert_spec:
  assumes v: "valid t" and srt: "key_sorted key lt (inorder t)"
  shows "\<exists>t'. rb_insert key lt x t = Some (t', \<not> has_key key lt (key x) (inorder t)) \<and> valid t'
    \<and> inorder t' = seq_insert key lt x (inorder t) \<and> key_sorted key lt (inorder t')"
proof (cases "descend key lt (key x) t []")
  case (Inl cur)
  obtain n ctx where cur: "cur = (n, ctx)" by fastforce
  from descend_found [OF Inl [unfolded cur]] obtain l c w r where
    n: "plug ctx (Node l c w r) = t" "same_key lt (key w) (key x)" by auto
  have "has_key key lt (key x) (inorder t)" unfolding has_key_def n(1) [symmetric] using n(2) by auto
  with Inl v srt show ?thesis by (simp add: rb_insert_def seq_insert_def)
next
  case (Inr ctx)
  note d = descend_missing_root [OF Inr srt]
  from v obtain m where "rb m (plug ctx Leaf)" using d(1) by (auto simp: valid_def)
  from rb_unplug [OF this] have "rb 0 (Node Leaf Red x Leaf)" "hole 0 ctx" by auto
  from insert_adjust_valid [OF this] obtain t' where
    t': "insert_adjust (Node Leaf Red x Leaf) ctx = Some t'" "valid t'" by blast
  from insert_adjust_inorder [OF t'(1)] have ino: "inorder t' = before ctx @ x # behind ctx" by simp
  have "lt (key y) (key z)" if "y \<in> set (before ctx)" "z \<in> set (behind ctx)" for y z
    using d(3,4) that trans by blast
  then have "key_sorted key lt (inorder t')"
    using srt d by (auto simp: ino key_sorted_def sorted_wrt_append)
  with t' Inr ino missing_split [OF d(3,4)] d(2) show ?thesis
    by (simp add: rb_insert_def seq_insert_def)
qed

lemma find_node_spec:
  assumes srt: "key_sorted key lt (inorder t)"
  shows "case find_node_by_key key lt k t of
      Some (n, ctx) \<Rightarrow> plug ctx n = t \<and> (\<exists>l c v r. n = Node l c v r \<and> same_key lt (key v) k)
    | None \<Rightarrow> \<not> has_key key lt k (inorder t)"
proof (cases "descend key lt k t []")
  case (Inl cur)
  obtain n ctx where cur: "cur = (n, ctx)" by fastforce
  from descend_found [OF Inl [unfolded cur]] show ?thesis by (simp add: find_node_by_key_def Inl cur)
next
  case (Inr ctx)
  note d = descend_missing_root [OF Inr srt]
  from missing_split(1) [OF d(3,4)] d(2) show ?thesis by (simp add: find_node_by_key_def Inr)
qed

lemma rb_pop_key_spec:
  assumes v: "valid t" and srt: "key_sorted key lt (inorder t)"
  shows "\<exists>t'. rb_pop_key key lt k t = Some (t', has_key key lt k (inorder t)) \<and> valid t'
    \<and> inorder t' = seq_remove key lt k (inorder t) \<and> key_sorted key lt (inorder t')"
proof (cases "find_node_by_key key lt k t")
  case None
  with find_node_spec [OF srt, of k] have no: "\<not> has_key key lt k (inorder t)" by simp
  then have "seq_remove key lt k (inorder t) = inorder t"
    by (auto simp: seq_remove_def has_key_def filter_id_conv)
  with None no v srt show ?thesis by (simp add: rb_pop_key_def)
next
  case (Some cur)
  obtain n ctx where cur: "cur = (n, ctx)" by fastforce
  from find_node_spec [OF srt, of k] Some cur obtain l c w r where
    n: "n = Node l c w r" "plug ctx (Node l c w r) = t" "same_key lt (key w) k" by auto
  from erase_node_valid [of ctx l c w r] v n(2) obtain t' where
    t': "erase_node n ctx = Some t'" "valid t'" "inorder t' = before ctx @ inorder l @ inorder r @ behind ctx"
    unfolding n(1) by auto
  have ino: "inorder t = (before ctx @ inorder l) @ w # (inorder r @ behind ctx)"
    unfolding n(2) [symmetric] by simp
  from seq_remove_split [OF srt [unfolded ino] n(3)] t'(3) ino
  have "inorder t' = seq_remove key lt k (inorder t)" "has_key key lt k (inorder t)" by auto
  moreover have "key_sorted key lt (seq_remove key lt k (inorder t))"
    using srt by (simp add: key_sorted_def seq_remove_def sorted_wrt_filter)
  ultimately show ?thesis using t' Some cur by (simp add: rb_pop_key_def)
qed

end

section \<open>Iteration, traversal and clearing\<close>

text \<open>The values from an iterator on, and those before it.\<close>

fun from_cursor :: "'v cursor option \<Rightarrow> 'v list" where
  "from_cursor None = []"
| "from_cursor (Some (Leaf, ctx)) = []"
| "from_cursor (Some (Node l c v r, ctx)) = v # inorder r @ behind ctx"

fun upto_cursor :: "'v cursor \<Rightarrow> 'v list" where
  "upto_cursor (Leaf, ctx) = before ctx"
| "upto_cursor (Node l c v r, ctx) = before ctx @ inorder l"

definition at_node :: "'v rbt \<Rightarrow> 'v cursor option \<Rightarrow> bool" where
  "at_node t it \<longleftrightarrow> (case it of None \<Rightarrow> True | Some (n, ctx) \<Rightarrow> n \<noteq> Leaf \<and> plug ctx n = t)"

lemma leftmost_at:
  "t \<noteq> Leaf \<Longrightarrow> at_node (plug ctx t) (Some (leftmost t ctx))
    \<and> from_cursor (Some (leftmost t ctx)) = inorder t @ behind ctx"
  by (induction t ctx rule: leftmost.induct) (auto simp: at_node_def)

lemma climb_right_at:
  "at_node (plug ctx t) (climb_right t ctx) \<and> from_cursor (climb_right t ctx) = behind ctx"
  by (induction t ctx rule: climb_right.induct) (auto simp: at_node_def)

lemma iter_next_at:
  assumes "at_node t it"
  shows "at_node t (iter_next it) \<and> from_cursor (iter_next it) = tl (from_cursor it)"
proof (cases it rule: iter_next.cases)
  case (2 l c v r ctx)
  with assms have t: "plug ctx (Node l c v r) = t" by (simp add: at_node_def)
  show ?thesis
  proof (cases "r = Leaf")
    case True
    with 2 t climb_right_at [of ctx "Node l c v r"] show ?thesis by simp
  next
    case False
    with 2 t leftmost_at [of r "RightOf l c v # ctx"] show ?thesis by simp
  qed
qed (use assms in \<open>auto simp: at_node_def\<close>)

lemma rb_begin_at: "at_node t (rb_begin t) \<and> from_cursor (rb_begin t) = inorder t"
  using leftmost_at [of t "[]"] by (auto simp: rb_begin_def at_node_def)

lemma iterate_at:
  "at_node t ((iter_next ^^ k) (rb_begin t)) \<and> from_cursor ((iter_next ^^ k) (rb_begin t)) = drop k (inorder t)"
proof (induction k)
  case 0
  then show ?case using rb_begin_at by simp
next
  case (Suc k)
  with iter_next_at [of t "(iter_next ^^ k) (rb_begin t)"] show ?case by (simp add: drop_Suc tl_drop)
qed

lemma rb_clear_inorder: "rb_clear t = inorder t"
  by (induction t rule: rb_clear.induct) simp_all

lemma middle_order_stack:
  "middle_order (push_left t st) = inorder t @ middle_order st"
  by (induction t arbitrary: st) simp_all

lemma middle_order_inorder: "middle_order_traversal t = inorder t"
  by (simp add: middle_order_traversal_def middle_order_stack)

lemma count_nodes_sum:
  "count_nodes st n = n + length (concat (map inorder st))"
  by (induction st n rule: count_nodes.induct) (auto simp: push_child_def)

lemma internal_size_inorder: "internal_size t = length (inorder t)"
  by (simp add: internal_size_def count_nodes_sum push_child_def)

fun preorder :: "'v rbt \<Rightarrow> 'v list" where
  "preorder Leaf = []"
| "preorder (Node l c v r) = v # preorder l @ preorder r"

lemma pre_order_preorder: "pre_order_traversal t = preorder t"
proof -
  have "pre_order st = concat (map preorder st)" for st :: "'a rbt list"
    by (induction st rule: pre_order.induct) (auto simp: push_child_def)
  then show ?thesis by (simp add: pre_order_traversal_def push_child_def)
qed

text \<open>The search depth.\<close>

fun height :: "'v rbt \<Rightarrow> nat" where
  "height Leaf = 0"
| "height (Node l c v r) = Suc (max (height l) (height r))"

lemma rb_count: "rb n t \<Longrightarrow> 2 ^ n \<le> length (inorder t) + 1"
proof (induction n t rule: rb.induct)
  case (3 n l v r)
  then obtain m where "n = Suc m" "2 ^ m \<le> length (inorder l) + 1" "2 ^ m \<le> length (inorder r) + 1" by auto
  then show ?case by simp
qed auto

lemma rb_height: "rb n t \<Longrightarrow> height t \<le> 2 * n + (if black_get t then 0 else 1)"
proof (induction n t rule: rb.induct)
  case (3 n l v r)
  then obtain m where m: "n = Suc m" "rb m l" "rb m r" by auto
  from "3.IH" m have "height l \<le> 2 * m + (if black_get l then 0 else 1)"
    "height r \<le> 2 * m + (if black_get r then 0 else 1)" by blast+
  then have "height l \<le> 2 * m + 1" "height r \<le> 2 * m + 1" by (simp_all split: if_splits)
  with m show ?case by simp
qed auto

lemma valid_height: "valid t \<Longrightarrow> 2 ^ (height t div 2) \<le> length (inorder t) + 1"
proof -
  assume "valid t"
  then obtain n where n: "rb n t" "black_get t" by (auto simp: valid_def)
  from rb_height [OF n(1)] n(2) have "height t div 2 \<le> n" by simp
  then have "(2::nat) ^ (height t div 2) \<le> 2 ^ n" by (rule power_increasing) simp
  with rb_count [OF n(1)] show ?thesis by linarith
qed

section \<open>Properties\<close>

text \<open>
  C21: under a strict weak order \<open>Push\<close> on a valid search tree never dereferences null, keeps the
  red-black invariants and the order, and has the effect of a sorted insertion: a present key
  leaves the tree as it is and returns false, a new one is put at its place and returns true.
\<close>

theorem rb_insert_correct:
  assumes "strict_weak_order lt" and "valid t" and "key_sorted key lt (inorder t)"
  shows "\<exists>t'. rb_insert key lt x t = Some (t', \<not> has_key key lt (key x) (inorder t)) \<and> valid t'
    \<and> inorder t' = seq_insert key lt x (inorder t) \<and> key_sorted key lt (inorder t')"
  using strict_weak_order.rb_insert_spec [OF assms] .

theorem rb_insert_correct_witness:
  "\<exists>t. rb_insert id less_cmp (1 :: int) (Node (Node Leaf Red 2 Leaf) Black 3 Leaf) = Some (t, True)
     \<and> valid t \<and> inorder t = [1, 2, 3]"
proof -
  let ?t = "Node (Node Leaf Red 2 Leaf) Black (3 :: int) Leaf"
  have "valid ?t" by (auto simp: valid_def)
  moreover have "key_sorted id less_cmp (inorder ?t)" by (simp add: key_sorted_def less_cmp_def)
  ultimately show ?thesis
    using rb_insert_correct [OF less_order.strict_weak_order_axioms, of ?t id 1]
    by (auto simp: has_key_def seq_insert_def same_key_def less_cmp_def)
qed

text \<open>
  C22: \<open>PopKey\<close> on a valid search tree never dereferences null and its loop ends; it removes
  exactly the value with the key, keeps the red-black invariants and the order of the others,
  and returns whether there was one.
\<close>

theorem rb_pop_key_correct:
  assumes "strict_weak_order lt" and "valid t" and "key_sorted key lt (inorder t)"
  shows "\<exists>t'. rb_pop_key key lt k t = Some (t', has_key key lt k (inorder t)) \<and> valid t'
    \<and> inorder t' = seq_remove key lt k (inorder t) \<and> key_sorted key lt (inorder t')"
  using strict_weak_order.rb_pop_key_spec [OF assms] .

theorem rb_pop_key_correct_witness:
  "\<exists>t. rb_pop_key id less_cmp (1 :: int) (Node (Node Leaf Black 1 Leaf) Black 2 (Node Leaf Black 3 Leaf))
       = Some (t, True) \<and> valid t \<and> inorder t = [2, 3]"
proof -
  let ?t = "Node (Node Leaf Black 1 Leaf) Black (2 :: int) (Node Leaf Black 3 Leaf)"
  have "rb 2 ?t" by (simp add: numeral_2_eq_2)
  then have "valid ?t" by (auto simp: valid_def)
  moreover have "key_sorted id less_cmp (inorder ?t)" by (simp add: key_sorted_def less_cmp_def)
  ultimately show ?thesis
    using rb_pop_key_correct [OF less_order.strict_weak_order_axioms, of ?t id 1]
    by (auto simp: has_key_def seq_remove_def same_key_def less_cmp_def)
qed

text \<open>
  \<open>FindKey\<close> on a search tree returns a node of the tree with the key, or null exactly when
  no value has it; and a valid tree of \<open>n\<close> values is at most \<open>2 log (n + 1)\<close> high, rounded up, so
  every descent is logarithmic.
\<close>

theorem rb_find_key_correct:
  assumes "strict_weak_order lt" and "valid t" and "key_sorted key lt (inorder t)"
  shows "(case find_node_by_key key lt k t of
      Some (n, ctx) \<Rightarrow> plug ctx n = t \<and> (\<exists>l c v r. n = Node l c v r \<and> same_key lt (key v) k)
    | None \<Rightarrow> \<not> has_key key lt k (inorder t))
    \<and> 2 ^ (height t div 2) \<le> length (inorder t) + 1"
  using strict_weak_order.find_node_spec [OF assms(1,3)] valid_height [OF assms(2)] by blast

theorem rb_find_key_correct_witness:
  "case find_node_by_key id less_cmp (2 :: int) (Node (Node Leaf Red 2 Leaf) Black 3 Leaf) of
      Some (n, ctx) \<Rightarrow> plug ctx n = Node (Node Leaf Red 2 Leaf) Black 3 Leaf
    | None \<Rightarrow> False"
proof -
  let ?t = "Node (Node Leaf Red 2 Leaf) Black (3 :: int) Leaf"
  have "valid ?t" by (auto simp: valid_def)
  moreover have "key_sorted id less_cmp (inorder ?t)" by (simp add: key_sorted_def less_cmp_def)
  ultimately show ?thesis
    using rb_find_key_correct [OF less_order.strict_weak_order_axioms, of ?t id 2]
    by (auto simp: has_key_def same_key_def less_cmp_def split: option.splits)
qed

text \<open>
  Iteration from \<open>Begin()\<close> visits the values in order: after \<open>k\<close> increments the iterator is a
  node of the tree holding value number \<open>k\<close>, or the end iterator once every value was visited.
\<close>

theorem rb_iteration_correct:
  "case (iter_next ^^ k) (rb_begin t) of
     Some (n, ctx) \<Rightarrow> plug ctx n = t \<and> k < length (inorder t)
        \<and> (\<exists>l c r. n = Node l c (inorder t ! k) r)
   | None \<Rightarrow> length (inorder t) \<le> k"
proof (cases "(iter_next ^^ k) (rb_begin t)")
  case None
  with iterate_at [of t k] show ?thesis by simp
next
  case (Some cur)
  obtain n ctx where cur: "cur = (n, ctx)" by fastforce
  with iterate_at [of t k] Some obtain l c v r where n: "n = Node l c v r" "plug ctx n = t"
    "v # inorder r @ behind ctx = drop k (inorder t)"
    by (cases n) (auto simp: at_node_def)
  then have "k < length (inorder t)" by (metis drop_all list.distinct(1) not_le)
  moreover from this n(3) have "v = inorder t ! k" by (metis hd_drop_conv_nth list.sel(1))
  ultimately show ?thesis using Some cur n by auto
qed

text \<open>
  The stack-driven traversals print the values in order and in pre-order, \<open>Size()\<close> counts them,
  and \<open>Clear\<close>, which rotates the tree as it goes, frees each node exactly once.
\<close>

theorem rb_loops_correct:
  "middle_order_traversal t = inorder t \<and> internal_size t = length (inorder t)
    \<and> mset (rb_clear t) = mset (inorder t) \<and> pre_order_traversal t = preorder t"
  by (simp add: middle_order_inorder internal_size_inorder rb_clear_inorder pre_order_preorder)

end
