(* ===== verification/Maps.thy ===== *)
theory Maps
  imports KeyedStores HashTableLaws RBTreeLaws
begin

text \<open>
  \<open>TreeMap\<close> and \<open>HashMap\<close> of \<open>Wan/Container/Map.hpp\<close> over the red-black tree and the hash table.
  A \<open>MapEntry\<close> is a pair of its key and its value.  Both interpret the locale \<open>keyed_store\<close>: the
  tree for every strict weak order (a sublocale), the hash table for every hash function, since
  the map's hash functor depends on the key alone.
\<close>

type_synonym ('k, 'v) entry = "'k \<times> 'v"

section \<open>Ordered maps\<close>

type_synonym ('k, 'v) tree_map = "('k, 'v) entry rbt"

definition tm_push :: "('k \<Rightarrow> 'k \<Rightarrow> bool) \<Rightarrow> ('k, 'v) entry \<Rightarrow> ('k, 'v) tree_map
    \<Rightarrow> (('k, 'v) tree_map \<times> bool) option" where
  "tm_push lt e t = rb_insert fst lt e t"

definition tm_pop :: "('k \<Rightarrow> 'k \<Rightarrow> bool) \<Rightarrow> 'k \<Rightarrow> ('k, 'v) tree_map
    \<Rightarrow> (('k, 'v) tree_map \<times> bool) option" where
  "tm_pop lt k t = rb_pop_key fst lt k t"

definition tm_pop_pair :: "('k \<Rightarrow> 'k \<Rightarrow> bool) \<Rightarrow> ('k, 'v) entry \<Rightarrow> ('k, 'v) tree_map
    \<Rightarrow> (('k, 'v) tree_map \<times> bool) option" where
  "tm_pop_pair lt e t = rb_pop_key fst lt (fst e) t"

definition tm_find :: "('k \<Rightarrow> 'k \<Rightarrow> bool) \<Rightarrow> 'k \<Rightarrow> ('k, 'v) tree_map \<Rightarrow> ('k, 'v) entry cursor option" where
  "tm_find lt k t = find_node_by_key fst lt k t"

fun tm_assign_list :: "('k \<Rightarrow> 'k \<Rightarrow> bool) \<Rightarrow> ('k, 'v) entry list \<Rightarrow> ('k, 'v) tree_map
    \<Rightarrow> ('k, 'v) tree_map option" where
  "tm_assign_list lt [] t = Some t"
| "tm_assign_list lt (e # es) t =
     (case tm_push lt e t of None \<Rightarrow> None | Some (t', _) \<Rightarrow> tm_assign_list lt es t')"

definition tm_of_list :: "('k \<Rightarrow> 'k \<Rightarrow> bool) \<Rightarrow> ('k, 'v) entry list \<Rightarrow> ('k, 'v) tree_map option" where
  "tm_of_list lt es = tm_assign_list lt es Leaf"

definition tm_size :: "('k, 'v) tree_map \<Rightarrow> nat" where
  "tm_size t = internal_size t"

definition tm_empty :: "('k, 'v) tree_map \<Rightarrow> bool" where
  "tm_empty t \<longleftrightarrow> t = Leaf"

text \<open>Dereferencing an iterator.\<close>

fun cursor_value :: "'v cursor \<Rightarrow> 'v option" where
  "cursor_value (Leaf, ctx) = None"
| "cursor_value (Node l c v r, ctx) = Some v"

section \<open>The tree as a keyed store\<close>

definition flip_result :: "('t \<times> bool) option \<Rightarrow> (bool \<times> 't) option" where
  "flip_result r = map_option (\<lambda>(t, b). (b, t)) r"

definition tree_entries :: "('e \<Rightarrow> 'k) \<Rightarrow> ('k \<Rightarrow> 'k \<Rightarrow> bool) \<Rightarrow> 'e rbt \<Rightarrow> 'e set \<Rightarrow> bool" where
  "tree_entries key lt t E \<longleftrightarrow> valid t \<and> key_sorted key lt (inorder t) \<and> E = set (inorder t)"

definition tree_get :: "('e \<Rightarrow> 'k) \<Rightarrow> ('k \<Rightarrow> 'k \<Rightarrow> bool) \<Rightarrow> 'k \<Rightarrow> 'e rbt \<Rightarrow> 'e option option" where
  "tree_get key lt k t = Some (Option.bind (find_node_by_key key lt k t) cursor_value)"

lemma known_has_key: "known key (same_key lt) k (set xs) \<longleftrightarrow> has_key key lt k xs"
  by (simp add: known_def has_key_def)

context strict_weak_order
begin

lemma sorted_one_per_key:
  "key_sorted key lt xs \<Longrightarrow> e \<in> set xs \<Longrightarrow> f \<in> set xs \<Longrightarrow> same_key lt (key e) (key f) \<Longrightarrow> e = f"
  by (induction xs) (auto simp: key_sorted_def same_key_def)

lemma set_seq_insert:
  assumes "\<not> has_key key lt (key x) xs"
  shows "set (seq_insert key lt x xs) = insert x (set xs)"
proof -
  have "y \<in> set xs \<Longrightarrow> lt (key y) (key x) \<or> lt (key x) (key y)" for y
    using assms by (auto simp: has_key_def same_key_def)
  with assms show ?thesis by (auto simp: seq_insert_def)
qed

lemma tree_store:
  "keyed_store (tree_entries key lt) (\<lambda>n t. True) key (same_key lt)
     (\<lambda>e t. flip_result (rb_insert key lt e t)) (\<lambda>k t. flip_result (rb_pop_key key lt k t)) (tree_get key lt)"
proof
  show "same_key lt k k" for k by simp
  show "same_key lt k l \<Longrightarrow> same_key lt l k" for k l by (rule same_sym)
  show "same_key lt k l \<Longrightarrow> same_key lt l m \<Longrightarrow> same_key lt k m" for k l m by (rule same_trans)
  show "tree_entries key lt t E \<Longrightarrow> e \<in> E \<Longrightarrow> e' \<in> E \<Longrightarrow> same_key lt (key e) (key e') \<Longrightarrow> e = e'"
    for t E e e' using sorted_one_per_key by (auto simp: tree_entries_def)
  show "\<exists>t'. flip_result (rb_insert key lt e t) = Some (\<not> known key (same_key lt) (key e) E, t') \<and> True
      \<and> tree_entries key lt t' (if known key (same_key lt) (key e) E then E else insert e E)"
    if E: "tree_entries key lt t E" for t E e
  proof -
    from E have v: "valid t" "key_sorted key lt (inorder t)" and e: "E = set (inorder t)"
      by (auto simp: tree_entries_def)
    from rb_insert_spec [OF v, of e] obtain t' where
      t': "rb_insert key lt e t = Some (t', \<not> has_key key lt (key e) (inorder t))" "valid t'"
      "inorder t' = seq_insert key lt e (inorder t)" "key_sorted key lt (inorder t')" by blast
    have "set (inorder t') = (if known key (same_key lt) (key e) E then E else insert e E)"
      using set_seq_insert [of key e "inorder t"] by (auto simp: t'(3) e known_has_key seq_insert_def)
    with t' show ?thesis by (simp add: flip_result_def tree_entries_def e known_has_key)
  qed
  show "\<exists>t'. flip_result (rb_pop_key key lt k t) = Some (known key (same_key lt) k E, t')
      \<and> tree_entries key lt t' {e \<in> E. \<not> same_key lt (key e) k}"
    if E: "tree_entries key lt t E" for t E k
  proof -
    from E have v: "valid t" "key_sorted key lt (inorder t)" and e: "E = set (inorder t)"
      by (auto simp: tree_entries_def)
    from rb_pop_key_spec [OF v, of k] show ?thesis
      by (auto simp: flip_result_def tree_entries_def e known_has_key seq_remove_def)
  qed
  show "\<exists>r. tree_get key lt k t = Some r
      \<and> (case r of None \<Rightarrow> \<not> known key (same_key lt) k E | Some e \<Rightarrow> e \<in> E \<and> same_key lt (key e) k)"
    if E: "tree_entries key lt t E" for t E k
  proof -
    from E have e: "E = set (inorder t)" and s: "key_sorted key lt (inorder t)"
      by (auto simp: tree_entries_def)
    show ?thesis
    proof (cases "find_node_by_key key lt k t")
      case None
      with find_node_spec [OF s, of k] show ?thesis by (simp add: tree_get_def e known_has_key)
    next
      case (Some cur)
      obtain n ctx where cur: "cur = (n, ctx)" by fastforce
      with find_node_spec [OF s, of k] Some obtain l c v r where
        n: "plug ctx (Node l c v r) = t" "n = Node l c v r" "same_key lt (key v) k" by auto
      have "v \<in> set (inorder t)" unfolding n(1) [symmetric] by simp
      with Some cur n show ?thesis by (simp add: tree_get_def e)
    qed
  qed
qed

end

sublocale strict_weak_order \<subseteq> tree_map: keyed_store "tree_entries fst lt" "\<lambda>n t. True" fst "same_key lt"
    "\<lambda>e t. flip_result (rb_insert fst lt e t)" "\<lambda>k t. flip_result (rb_pop_key fst lt k t)" "tree_get fst lt"
  by (rule tree_store)

context strict_weak_order
begin

lemmas tree_map_push = tree_map.get_after_ins
lemmas tree_map_pop = tree_map.get_after_del
lemmas tree_map_push_all = tree_map.push_all_law
lemmas tree_map_keeps = tree_map.push_all_keeps
lemmas tree_map_finds = tree_map.push_all_finds

end

section \<open>Hash maps\<close>

type_synonym ('k, 'v) hash_map = "('k, 'v) entry htable"

text \<open>\<open>KeyVal\<close> and \<open>InbuiltMapHashFunctor\<close>: the hash of an entry is that of its key, times 31.\<close>

definition hm_policy :: "('k \<Rightarrow> 64 word) \<Rightarrow> ('k, ('k, 'v) entry) hash_policy" where
  "hm_policy h = \<lparr>key_of = fst, hash_key = (\<lambda>k. h k * 31), hash_value = (\<lambda>e. h (fst e) * 31)\<rparr>"

definition hm_push :: "hash_limits \<Rightarrow> ('k \<Rightarrow> 64 word) \<Rightarrow> ('k, 'v) entry \<Rightarrow> ('k, 'v) hash_map
    \<Rightarrow> (bool res \<times> ('k, 'v) hash_map) option" where
  "hm_push lim h e t = ht_push lim (hm_policy h) e t"

definition hm_pop :: "('k \<Rightarrow> 64 word) \<Rightarrow> 'k \<Rightarrow> ('k, 'v) hash_map
    \<Rightarrow> (bool res \<times> ('k, 'v) hash_map) option" where
  "hm_pop h k t = ht_pop_key (hm_policy h) k t"

definition hm_find :: "('k \<Rightarrow> 64 word) \<Rightarrow> 'k \<Rightarrow> ('k, 'v) hash_map \<Rightarrow> addr option res option" where
  "hm_find h k t = ht_find_key (hm_policy h) k t"

fun hm_assign_list :: "hash_limits \<Rightarrow> ('k \<Rightarrow> 64 word) \<Rightarrow> ('k, 'v) entry list \<Rightarrow> ('k, 'v) hash_map
    \<Rightarrow> (unit res \<times> ('k, 'v) hash_map) option" where
  "hm_assign_list lim h [] t = Some (Inr (), t)"
| "hm_assign_list lim h (e # es) t =
     (case hm_push lim h e t of
        None \<Rightarrow> None
      | Some (Inl x, t') \<Rightarrow> Some (Inl x, t')
      | Some (Inr _, t') \<Rightarrow> hm_assign_list lim h es t')"

definition hm_size :: "('k, 'v) hash_map \<Rightarrow> 64 word" where
  "hm_size t = ht_size t"

definition hm_empty :: "('k, 'v) hash_map \<Rightarrow> bool" where
  "hm_empty t \<longleftrightarrow> ht_size t = 0"

definition hm_capacity :: "('k, 'v) hash_map \<Rightarrow> 64 word" where
  "hm_capacity t = ht_cap t"

section \<open>The hash table as a keyed store\<close>

text \<open>The outcome of an operation that must not throw.\<close>

fun no_throw :: "('a res \<times> 't) option \<Rightarrow> ('a \<times> 't) option" where
  "no_throw (Some (Inr b, t)) = Some (b, t)"
| "no_throw _ = None"

definition hash_entries :: "('k, 'e) hash_policy \<Rightarrow> 'e htable \<Rightarrow> 'e set \<Rightarrow> bool" where
  "hash_entries pol t E \<longleftrightarrow> (\<exists>xs. ht_rep pol t xs \<and> E = set xs)"

definition hash_room :: "hash_limits \<Rightarrow> nat \<Rightarrow> 'e htable \<Rightarrow> bool" where
  "hash_room lim n t \<longleftrightarrow> 20 * (unat (ht_size t) + n) \<le> max_size (bucket_traits lim)
     \<and> 20 * (unat (ht_size t) + n) \<le> 2 ^ 63 \<and> unat (ht_size t) + n \<le> index_limit lim"

definition hash_get :: "('k, 'e) hash_policy \<Rightarrow> 'k \<Rightarrow> 'e htable \<Rightarrow> 'e option option" where
  "hash_get pol k t =
     (case ht_find_key pol k t of
        Some (Inr p) \<Rightarrow> Some (map_option (data_at (ht_nodes t)) p)
      | _ \<Rightarrow> None)"

lemma hash_room_room: "hash_room lim (Suc n) t \<Longrightarrow> ht_room lim t"
  by (simp add: hash_room_def ht_room_def)

lemma hash_room_step:
  assumes "hash_room lim (Suc n) t" and "unat (ht_size t') \<le> Suc (unat (ht_size t))"
  shows "hash_room lim n t'"
proof -
  have "20 * (unat (ht_size t') + n) \<le> 20 * (unat (ht_size t) + Suc n)" using assms(2) by simp
  then show ?thesis using assms by (simp add: hash_room_def)
qed

lemma find_key_set:
  "case List.find (\<lambda>y. key y = k) xs of None \<Rightarrow> \<not> known key (=) k (set xs) | Some e \<Rightarrow> e \<in> set xs \<and> key e = k"
  by (induction xs) (auto simp: known_def split: option.splits)

lemma hash_store:
  assumes pol: "policy_ok pol"
  shows "keyed_store (hash_entries pol) (hash_room lim) (key_of pol) (=)
    (\<lambda>e t. no_throw (ht_push lim pol e t)) (\<lambda>k t. no_throw (ht_pop_key pol k t)) (hash_get pol)"
proof
  show "hash_entries pol t E \<Longrightarrow> e \<in> E \<Longrightarrow> e' \<in> E \<Longrightarrow> key_of pol e = key_of pol e' \<Longrightarrow> e = e'" for t E e e'
    by (auto simp: hash_entries_def ht_rep_def distinct_map inj_on_def)
  show "\<exists>t'. no_throw (ht_push lim pol e t) = Some (\<not> known (key_of pol) (=) (key_of pol e) E, t')
      \<and> hash_room lim n t'
      \<and> hash_entries pol t' (if known (key_of pol) (=) (key_of pol e) E then E else insert e E)"
    if E: "hash_entries pol t E" and room: "hash_room lim (Suc n) t" for t E e n
  proof -
    from E obtain xs where xs: "ht_rep pol t xs" "E = set xs" by (auto simp: hash_entries_def)
    have kn: "known (key_of pol) (=) (key_of pol e) E \<longleftrightarrow> key_of pol e \<in> key_of pol ` set xs"
      unfolding known_def xs(2) image_iff by metis
    from ht_push_rep [OF xs(1) pol, of lim e] obtain r t' where
      r: "ht_push lim pol e t = Some (r, t')" and
      c: "if key_of pol e \<in> key_of pol ` set xs then r = Inr False \<and> t' = t
        else r = Inr True \<and> ht_rep pol t' (xs @ [e])
          \<or> (\<exists>m. r = Inl (LengthError m)) \<and> ht_rep pol t' xs \<and> \<not> ht_room lim t" by blast
    show ?thesis
    proof (cases "key_of pol e \<in> key_of pol ` set xs")
      case True
      with c r E kn room show ?thesis by (auto simp: hash_room_step)
    next
      case False
      with c hash_room_room [OF room] have t': "r = Inr True" "ht_rep pol t' (xs @ [e])" by auto
      from ht_size_rep [OF t'(2)] ht_size_rep [OF xs(1)]
      have "hash_room lim n t'" by (intro hash_room_step [OF room]) simp
      moreover have "hash_entries pol t' (insert e E)" using t'(2) xs(2) by (auto simp: hash_entries_def)
      ultimately show ?thesis using False kn r t'(1) by simp
    qed
  qed
  show "\<exists>t'. no_throw (ht_pop_key pol k t) = Some (known (key_of pol) (=) k E, t')
      \<and> hash_entries pol t' {e \<in> E. key_of pol e \<noteq> k}"
    if E: "hash_entries pol t E" for t E k
  proof -
    from E obtain xs where xs: "ht_rep pol t xs" "E = set xs" by (auto simp: hash_entries_def)
    have "known (key_of pol) (=) k E \<longleftrightarrow> k \<in> key_of pol ` set xs" by (auto simp: known_def xs(2))
    moreover from ht_pop_key_rep [OF xs(1) pol, of k] obtain t' where
      "ht_pop_key pol k t = Some (Inr (k \<in> key_of pol ` set xs), t')"
      "ht_rep pol t' (filter (\<lambda>y. key_of pol y \<noteq> k) xs)" by blast
    moreover from this(2) have "hash_entries pol t' {e \<in> E. key_of pol e \<noteq> k}"
      unfolding hash_entries_def xs(2) by (intro exI conjI) (assumption, auto)
    ultimately show ?thesis by simp
  qed
  show "\<exists>r. hash_get pol k t = Some r
      \<and> (case r of None \<Rightarrow> \<not> known (key_of pol) (=) k E | Some e \<Rightarrow> e \<in> E \<and> key_of pol e = k)"
    if E: "hash_entries pol t E" for t E k
  proof -
    from E obtain xs where xs: "ht_rep pol t xs" "E = set xs" by (auto simp: hash_entries_def)
    from ht_find_key_rep [OF xs(1) pol, of k] obtain p where
      p: "ht_find_key pol k t = Some (Inr p)"
      "map_option (data_at (ht_nodes t)) p = List.find (\<lambda>y. key_of pol y = k) xs" by blast
    then have "hash_get pol k t = Some (List.find (\<lambda>y. key_of pol y = k) xs)" by (simp add: hash_get_def)
    with find_key_set [of "key_of pol" k xs] show ?thesis unfolding xs(2) by blast
  qed
qed simp_all

lemma hm_policy_ok: "policy_ok (hm_policy h)"
  by (simp add: policy_ok_def hm_policy_def)

lemma hm_policy_key [simp]: "key_of (hm_policy h) = fst"
  by (simp add: hm_policy_def)

interpretation hash_map: keyed_store "hash_entries (hm_policy h)" "hash_room lim" fst "(=)"
  "\<lambda>e t. no_throw (ht_push lim (hm_policy h) e t)" "\<lambda>k t. no_throw (ht_pop_key (hm_policy h) k t)"
  "hash_get (hm_policy h)" for h :: "'k \<Rightarrow> 64 word" and lim
  using hash_store [OF hm_policy_ok, of h lim] by simp

lemma no_throw_Some: "no_throw r = Some (b, t) \<longleftrightarrow> r = Some (Inr b, t)"
  by (cases r rule: no_throw.cases) auto

lemma flip_result_Some: "flip_result r = Some (b, t) \<longleftrightarrow> r = Some (t, b)"
  by (auto simp: flip_result_def)

lemma hm_assign_list_push_all:
  "push_all (\<lambda>e t. no_throw (hm_push lim h e t)) es t = Some t' \<Longrightarrow> hm_assign_list lim h es t = Some (Inr (), t')"
  by (induction es arbitrary: t) (auto simp: no_throw_Some split: option.splits)

lemma tm_assign_list_push_all:
  "tm_assign_list lt es t = push_all (\<lambda>e t. flip_result (tm_push lt e t)) es t"
  by (induction es arbitrary: t) (auto simp: flip_result_def split: option.splits)

section \<open>Properties\<close>

text \<open>The value an iterator from \<open>Find\<close> shows.\<close>

definition tm_lookup :: "('k \<Rightarrow> 'k \<Rightarrow> bool) \<Rightarrow> 'k \<Rightarrow> ('k, 'v) tree_map \<Rightarrow> ('k, 'v) entry option" where
  "tm_lookup lt k t = Option.bind (tm_find lt k t) cursor_value"

definition hm_lookup :: "('k \<Rightarrow> 64 word) \<Rightarrow> 'k \<Rightarrow> ('k, 'v) hash_map \<Rightarrow> ('k, 'v) entry option option" where
  "hm_lookup h k t = hash_get (hm_policy h) k t"

lemma tree_get_lookup: "tree_get fst lt k t = Some (tm_lookup lt k t)"
  by (simp add: tree_get_def tm_lookup_def tm_find_def)

text \<open>
  C28: for every strict weak order \<open>TreeMap\<close> is a finite map on the classes of equivalent keys.
  \<open>Push\<close> succeeds exactly when the key is new and then only its lookup changes; \<open>Pop\<close> succeeds
  exactly when the key is there and then only its lookup becomes empty; assigning a list keeps
  every entry that was there and makes every key of the list found.
\<close>

theorem tree_map_is_map:
  assumes "strict_weak_order lt" and "tree_entries fst lt t E"
  shows "(\<exists>t'. tm_push lt e t = Some (t', tm_lookup lt (fst e) t = None)
        \<and> tm_lookup lt k t' = (if same_key lt (fst e) k \<and> tm_lookup lt (fst e) t = None then Some e
                                else tm_lookup lt k t))
    \<and> (\<exists>t'. tm_pop lt l t = Some (t', tm_lookup lt l t \<noteq> None)
        \<and> tm_lookup lt k t' = (if same_key lt l k then None else tm_lookup lt k t))
    \<and> (\<exists>t'. tm_assign_list lt es t = Some t' \<and> tree_entries fst lt t' (merge_new fst (same_key lt) E es)
        \<and> (\<forall>f. tm_lookup lt k t = Some f \<longrightarrow> tm_lookup lt k t' = Some f)
        \<and> (\<forall>f \<in> set es. tm_lookup lt (fst f) t' \<noteq> None))"
proof (intro conjI)
  note laws = strict_weak_order.tree_map_push [OF assms(1)]
    strict_weak_order.tree_map_pop [OF assms] strict_weak_order.tree_map_push_all [OF assms TrueI, of es]
  show "\<exists>t'. tm_push lt e t = Some (t', tm_lookup lt (fst e) t = None)
      \<and> tm_lookup lt k t' = (if same_key lt (fst e) k \<and> tm_lookup lt (fst e) t = None then Some e
                              else tm_lookup lt k t)"
    using laws(1) [OF assms(2) TrueI, of e k] by (auto simp: tree_get_lookup flip_result_Some tm_push_def)
  show "\<exists>t'. tm_pop lt l t = Some (t', tm_lookup lt l t \<noteq> None)
      \<and> tm_lookup lt k t' = (if same_key lt l k then None else tm_lookup lt k t)"
    using laws(2) [of l k] by (auto simp: tree_get_lookup flip_result_Some tm_pop_def)
  from laws(3) obtain t' where t': "push_all (\<lambda>e t. flip_result (rb_insert fst lt e t)) es t = Some t'"
    "tree_entries fst lt t' (merge_new fst (same_key lt) E es)" by auto
  have "\<forall>f. tm_lookup lt k t = Some f \<longrightarrow> tm_lookup lt k t' = Some f"
    using strict_weak_order.tree_map_keeps [OF assms TrueI, of k _ es] t'(1)
    by (auto simp: tree_get_lookup)
  moreover have "\<forall>f \<in> set es. tm_lookup lt (fst f) t' \<noteq> None"
    using strict_weak_order.tree_map_finds [OF assms TrueI, of _ es] t'(1)
    by (fastforce simp: tree_get_lookup)
  ultimately show "\<exists>t'. tm_assign_list lt es t = Some t'
      \<and> tree_entries fst lt t' (merge_new fst (same_key lt) E es)
      \<and> (\<forall>f. tm_lookup lt k t = Some f \<longrightarrow> tm_lookup lt k t' = Some f)
      \<and> (\<forall>f \<in> set es. tm_lookup lt (fst f) t' \<noteq> None)"
    using t' by (simp add: tm_assign_list_push_all tm_push_def)
qed

lemma empty_tree_entries: "tree_entries key lt Leaf {}"
  by (simp add: tree_entries_def valid_def key_sorted_def)

theorem tree_map_is_map_witness:
  "\<exists>t. tm_assign_list less_cmp [(2 :: int, ''b''), (1, ''a''), (2, ''c'')] Leaf = Some t
     \<and> tree_entries fst less_cmp t {(1, ''a''), (2, ''b'')}"
proof -
  have "merge_new fst (same_key less_cmp) {} [(2 :: int, ''b''), (1, ''a''), (2, ''c'')]
      = {(1, ''a''), (2, ''b'')}"
    by (auto simp: known_def same_key_def less_cmp_def)
  with tree_map_is_map [OF less_order.strict_weak_order_axioms empty_tree_entries, of undefined 0 0
      "[(2 :: int, ''b''), (1, ''a''), (2, ''c'')]"]
  show ?thesis by metis
qed

text \<open>
  C29: for every hash function \<open>HashMap\<close> is a finite map: with room for the insertions nothing
  throws; \<open>Push\<close> succeeds exactly when the key is new and then only its lookup changes; \<open>Pop\<close>
  succeeds exactly when the key is there and then only its lookup becomes empty; assigning a
  list keeps every entry that was there and makes every key of the list found.
\<close>

theorem hash_map_is_map:
  assumes "hash_entries (hm_policy h) t E" and "hash_room lim (Suc (length es)) t"
  shows "(\<exists>t' old. hm_push lim h e t = Some (Inr (old = None), t') \<and> hm_lookup h (fst e) t = Some old
        \<and> hm_lookup h k t' = (if fst e = k \<and> old = None then Some (Some e) else hm_lookup h k t))
    \<and> (\<exists>t' old. hm_pop h l t = Some (Inr (old \<noteq> None), t') \<and> hm_lookup h l t = Some old
        \<and> hm_lookup h k t' = (if l = k then Some None else hm_lookup h k t))
    \<and> (\<exists>t'. hm_assign_list lim h es t = Some (Inr (), t')
        \<and> hash_entries (hm_policy h) t' (merge_new fst (=) E es)
        \<and> (\<forall>f. hm_lookup h k t = Some (Some f) \<longrightarrow> hm_lookup h k t' = Some (Some f))
        \<and> (\<forall>f \<in> set es. \<exists>g. hm_lookup h (fst f) t' = Some (Some g) \<and> fst g = fst f))"
proof (intro conjI)
  show "\<exists>t' old. hm_push lim h e t = Some (Inr (old = None), t') \<and> hm_lookup h (fst e) t = Some old
      \<and> hm_lookup h k t' = (if fst e = k \<and> old = None then Some (Some e) else hm_lookup h k t)"
    using hash_map.get_after_ins [OF assms, of e k]
    unfolding hm_lookup_def no_throw_Some hm_push_def by blast
  show "\<exists>t' old. hm_pop h l t = Some (Inr (old \<noteq> None), t') \<and> hm_lookup h l t = Some old
      \<and> hm_lookup h k t' = (if l = k then Some None else hm_lookup h k t)"
    using hash_map.get_after_del [OF assms(1), of l k]
    unfolding hm_lookup_def no_throw_Some hm_pop_def by blast
  have room: "hash_room lim (length es) t" using assms(2) by (simp add: hash_room_def)
  from hash_map.push_all_law [OF assms(1) room] obtain t' where
    t': "push_all (\<lambda>e t. no_throw (ht_push lim (hm_policy h) e t)) es t = Some t'"
    "hash_entries (hm_policy h) t' (merge_new fst (=) E es)" by auto
  have "\<forall>f. hm_lookup h k t = Some (Some f) \<longrightarrow> hm_lookup h k t' = Some (Some f)"
    using hash_map.push_all_keeps [OF assms(1) room, of k] t'(1) by (auto simp: hm_lookup_def)
  moreover have "\<forall>f \<in> set es. \<exists>g. hm_lookup h (fst f) t' = Some (Some g) \<and> fst g = fst f"
    using hash_map.push_all_finds [OF assms(1) room] t'(1) by (fastforce simp: hm_lookup_def)
  ultimately show "\<exists>t'. hm_assign_list lim h es t = Some (Inr (), t')
      \<and> hash_entries (hm_policy h) t' (merge_new fst (=) E es)
      \<and> (\<forall>f. hm_lookup h k t = Some (Some f) \<longrightarrow> hm_lookup h k t' = Some (Some f))
      \<and> (\<forall>f \<in> set es. \<exists>g. hm_lookup h (fst f) t' = Some (Some g) \<and> fst g = fst f)"
    using t' hm_assign_list_push_all [of lim h es t t'] by (auto simp: hm_push_def)
qed

theorem hash_map_is_map_witness:
  "\<exists>t. hm_assign_list \<lparr>bucket_traits = \<lparr>max_size = 1000, relocatable = True\<rparr>, index_limit = 1000\<rparr>
        (word_of_nat :: nat \<Rightarrow> 64 word) [(2, ''b''), (1, ''a''), (2, ''c'')] ht_blank = Some (Inr (), t)
     \<and> hash_entries (hm_policy word_of_nat) t {(1, ''a''), (2, ''b'')}"
proof -
  let ?lim = "\<lparr>bucket_traits = \<lparr>max_size = 1000, relocatable = True\<rparr>, index_limit = 1000\<rparr>"
  let ?es = "[(2 :: nat, ''b''), (1, ''a''), (2, ''c'')]"
  have "hash_entries (hm_policy word_of_nat) (ht_blank :: (nat, string) hash_map) {}"
    using ht_blank_rep by (auto simp: hash_entries_def)
  moreover have "hash_room ?lim (Suc (length ?es)) (ht_blank :: (nat, string) hash_map)"
    by (simp add: hash_room_def ht_blank_def)
  moreover have "merge_new fst (=) {} ?es = {(1, ''a''), (2, ''b'')}" by (auto simp: known_def)
  ultimately show ?thesis
    using hash_map_is_map [of word_of_nat "ht_blank :: (nat, string) hash_map" "{}" ?lim ?es] by metis
qed

end
