(* ===== verification/Sets.thy ===== *)
theory Sets
  imports Maps
begin

text \<open>
  \<open>TreeSet\<close> and \<open>HashSet\<close> of \<open>Wan/Container/Set.hpp\<close>: the same two structures with the element as
  its own key.  Both interpret \<open>keyed_store\<close>, and the properties say that the operations are
  those of a set of elements up to the equivalence of the order.
\<close>

section \<open>Ordered sets\<close>

type_synonym 'a tree_set = "'a rbt"

definition ts_push :: "('a \<Rightarrow> 'a \<Rightarrow> bool) \<Rightarrow> 'a \<Rightarrow> 'a tree_set \<Rightarrow> ('a tree_set \<times> bool) option" where
  "ts_push lt x t = rb_insert id lt x t"

definition ts_pop :: "('a \<Rightarrow> 'a \<Rightarrow> bool) \<Rightarrow> 'a \<Rightarrow> 'a tree_set \<Rightarrow> ('a tree_set \<times> bool) option" where
  "ts_pop lt x t = rb_pop id lt x t"

definition ts_find :: "('a \<Rightarrow> 'a \<Rightarrow> bool) \<Rightarrow> 'a \<Rightarrow> 'a tree_set \<Rightarrow> 'a cursor option" where
  "ts_find lt x t = rb_find id lt x t"

fun ts_assign_list :: "('a \<Rightarrow> 'a \<Rightarrow> bool) \<Rightarrow> 'a list \<Rightarrow> 'a tree_set \<Rightarrow> 'a tree_set option" where
  "ts_assign_list lt [] t = Some t"
| "ts_assign_list lt (x # xs) t =
     (case ts_push lt x t of None \<Rightarrow> None | Some (t', _) \<Rightarrow> ts_assign_list lt xs t')"

definition ts_of_list :: "('a \<Rightarrow> 'a \<Rightarrow> bool) \<Rightarrow> 'a list \<Rightarrow> 'a tree_set option" where
  "ts_of_list lt xs = ts_assign_list lt xs Leaf"

definition ts_size :: "'a tree_set \<Rightarrow> nat" where
  "ts_size t = internal_size t"

definition ts_empty :: "'a tree_set \<Rightarrow> bool" where
  "ts_empty t \<longleftrightarrow> t = Leaf"

section \<open>Hash sets\<close>

type_synonym 'a hash_set = "'a htable"

text \<open>\<open>KeyVal\<close> and \<open>InbuiltSetHashFunctor\<close>: the hash of an element is its base hash times 131.\<close>

definition hs_policy :: "('a \<Rightarrow> 64 word) \<Rightarrow> ('a, 'a) hash_policy" where
  "hs_policy h = \<lparr>key_of = id, hash_key = (\<lambda>k. h k * 131), hash_value = (\<lambda>x. h x * 131)\<rparr>"

definition hs_push :: "hash_limits \<Rightarrow> ('a \<Rightarrow> 64 word) \<Rightarrow> 'a \<Rightarrow> 'a hash_set \<Rightarrow> (bool res \<times> 'a hash_set) option" where
  "hs_push lim h x t = ht_push lim (hs_policy h) x t"

definition hs_pop :: "('a \<Rightarrow> 64 word) \<Rightarrow> 'a \<Rightarrow> 'a hash_set \<Rightarrow> (bool res \<times> 'a hash_set) option" where
  "hs_pop h x t = ht_pop (hs_policy h) x t"

definition hs_find :: "('a \<Rightarrow> 64 word) \<Rightarrow> 'a \<Rightarrow> 'a hash_set \<Rightarrow> addr option res option" where
  "hs_find h x t = ht_find (hs_policy h) x t"

fun hs_assign_list :: "hash_limits \<Rightarrow> ('a \<Rightarrow> 64 word) \<Rightarrow> 'a list \<Rightarrow> 'a hash_set \<Rightarrow> (unit res \<times> 'a hash_set) option" where
  "hs_assign_list lim h [] t = Some (Inr (), t)"
| "hs_assign_list lim h (x # xs) t =
     (case hs_push lim h x t of
        None \<Rightarrow> None
      | Some (Inl e, t') \<Rightarrow> Some (Inl e, t')
      | Some (Inr _, t') \<Rightarrow> hs_assign_list lim h xs t')"

definition hs_size :: "'a hash_set \<Rightarrow> 64 word" where
  "hs_size t = ht_size t"

definition hs_empty :: "'a hash_set \<Rightarrow> bool" where
  "hs_empty t \<longleftrightarrow> ht_size t = 0"

definition hs_capacity :: "'a hash_set \<Rightarrow> 64 word" where
  "hs_capacity t = ht_cap t"

section \<open>Both as keyed stores\<close>

lemma hs_policy_ok: "policy_ok (hs_policy h)"
  by (simp add: policy_ok_def hs_policy_def)

lemma hs_policy_key [simp]: "key_of (hs_policy h) = id"
  by (simp add: hs_policy_def)

sublocale strict_weak_order \<subseteq> tree_set: keyed_store "tree_entries id lt" "\<lambda>n t. True" id "same_key lt"
    "\<lambda>e t. flip_result (rb_insert id lt e t)" "\<lambda>k t. flip_result (rb_pop_key id lt k t)" "tree_get id lt"
  by (rule tree_store)

context strict_weak_order
begin

lemmas tree_set_insert = tree_set.ins_law
lemmas tree_set_remove = tree_set.del_law
lemmas tree_set_find = tree_set.get_law
lemmas tree_set_push_all = tree_set.push_all_law

end

interpretation hash_set: keyed_store "hash_entries (hs_policy h)" "hash_room lim" id "(=)"
  "\<lambda>e t. no_throw (ht_push lim (hs_policy h) e t)" "\<lambda>k t. no_throw (ht_pop_key (hs_policy h) k t)"
  "hash_get (hs_policy h)" for h :: "'a \<Rightarrow> 64 word" and lim
  using hash_store [OF hs_policy_ok, of h lim] by simp

lemma rb_find_is_find_node: "rb_find key lt x t = find_node_by_key key lt (key x) t"
  by (simp add: rb_find_def find_node_by_key_def)

lemma ts_assign_list_push_all:
  "ts_assign_list lt xs t = push_all (\<lambda>e t. flip_result (ts_push lt e t)) xs t"
  by (induction xs arbitrary: t) (auto simp: flip_result_def split: option.splits)

lemma hs_assign_list_push_all:
  "push_all (\<lambda>e t. no_throw (hs_push lim h e t)) es t = Some t' \<Longrightarrow> hs_assign_list lim h es t = Some (Inr (), t')"
  by (induction es arbitrary: t) (auto simp: no_throw_Some split: option.splits)

lemma hs_pop_key:
  assumes "hash_entries (hs_policy h) t E"
  shows "hs_pop h x t = ht_pop_key (hs_policy h) x t"
proof -
  from assms obtain xs where "ht_rep (hs_policy h) t xs" by (auto simp: hash_entries_def)
  from ht_pop_by_key [OF this hs_policy_ok] show ?thesis by (simp add: hs_pop_def)
qed

lemma hs_find_key:
  assumes "hash_entries (hs_policy h) t E"
  shows "hs_find h x t = ht_find_key (hs_policy h) x t"
proof -
  from assms obtain as cs where "ht_shape (hs_policy h) t as cs" by (auto simp: hash_entries_def ht_rep_def)
  from ht_find_by_key [OF this hs_policy_ok] show ?thesis by (simp add: hs_find_def ht_find_key_def)
qed

section \<open>Properties\<close>

lemma merge_new_set: "merge_new id (=) E xs = E \<union> set xs"
  by (induction xs arbitrary: E) (auto simp: known_def)

text \<open>
  For every strict weak order \<open>TreeSet\<close> is a set of pairwise inequivalent elements: \<open>Push\<close>
  adds the element and succeeds exactly when no equivalent one is there, \<open>Pop\<close> removes the
  equivalent element and succeeds exactly when there is one, \<open>Find\<close> shows it, and assigning a
  list adds its elements one by one.
\<close>

theorem tree_set_is_set:
  assumes "strict_weak_order lt" and "tree_entries id lt t E"
  shows "(\<exists>t'. ts_push lt x t = Some (t', \<not> (\<exists>y \<in> E. same_key lt y x))
        \<and> tree_entries id lt t' (if \<exists>y \<in> E. same_key lt y x then E else insert x E))
    \<and> (\<exists>t'. ts_pop lt x t = Some (t', \<exists>y \<in> E. same_key lt y x)
        \<and> tree_entries id lt t' {y \<in> E. \<not> same_key lt y x})
    \<and> (case Option.bind (ts_find lt x t) cursor_value of
         None \<Rightarrow> \<not> (\<exists>y \<in> E. same_key lt y x)
       | Some y \<Rightarrow> y \<in> E \<and> same_key lt y x)
    \<and> (\<exists>t'. ts_assign_list lt xs t = Some t' \<and> tree_entries id lt t' (merge_new id (same_key lt) E xs))"
proof (intro conjI)
  have kn: "known id (same_key lt) x E \<longleftrightarrow> (\<exists>y \<in> E. same_key lt y x)" by (simp add: known_def)
  show "\<exists>t'. ts_push lt x t = Some (t', \<not> (\<exists>y \<in> E. same_key lt y x))
      \<and> tree_entries id lt t' (if \<exists>y \<in> E. same_key lt y x then E else insert x E)"
    using strict_weak_order.tree_set_insert [OF assms TrueI, of x]
    by (simp add: kn flip_result_Some ts_push_def)
  show "\<exists>t'. ts_pop lt x t = Some (t', \<exists>y \<in> E. same_key lt y x)
      \<and> tree_entries id lt t' {y \<in> E. \<not> same_key lt y x}"
    using strict_weak_order.tree_set_remove [OF assms, of x]
    by (simp add: kn flip_result_Some ts_pop_def rb_pop_def)
  show "case Option.bind (ts_find lt x t) cursor_value of
         None \<Rightarrow> \<not> (\<exists>y \<in> E. same_key lt y x)
       | Some y \<Rightarrow> y \<in> E \<and> same_key lt y x"
    using strict_weak_order.tree_set_find [OF assms, of x]
    by (simp add: kn tree_get_def ts_find_def rb_find_is_find_node split: option.splits)
  show "\<exists>t'. ts_assign_list lt xs t = Some t' \<and> tree_entries id lt t' (merge_new id (same_key lt) E xs)"
    using strict_weak_order.tree_set_push_all [OF assms TrueI, of xs]
    by (auto simp: ts_assign_list_push_all ts_push_def)
qed

theorem tree_set_is_set_witness:
  "\<exists>t. ts_assign_list less_cmp [2 :: int, 1, 2] Leaf = Some t \<and> tree_entries id less_cmp t {1, 2}"
proof -
  have "merge_new id (same_key less_cmp) {} [2 :: int, 1, 2] = {1, 2}"
    by (auto simp: known_def same_key_def less_cmp_def)
  with tree_set_is_set [OF less_order.strict_weak_order_axioms empty_tree_entries, of 0 "[2 :: int, 1, 2]"]
  show ?thesis by metis
qed

text \<open>
  For every hash function \<open>HashSet\<close> is a set: with room for the insertions nothing throws,
  \<open>Push\<close> inserts and succeeds exactly when the element is new, \<open>Pop\<close> removes and succeeds
  exactly when it is there, \<open>Find\<close> is the membership test, and assigning a list adds exactly its
  elements.
\<close>

theorem hash_set_is_set:
  assumes "hash_entries (hs_policy h) t E" and "hash_room lim (Suc (length xs)) t"
  shows "(\<exists>t'. hs_push lim h x t = Some (Inr (x \<notin> E), t') \<and> hash_entries (hs_policy h) t' (insert x E))
    \<and> (\<exists>t'. hs_pop h x t = Some (Inr (x \<in> E), t') \<and> hash_entries (hs_policy h) t' (E - {x}))
    \<and> (\<exists>p. hs_find h x t = Some (Inr p) \<and> (p \<noteq> None \<longleftrightarrow> x \<in> E))
    \<and> (\<exists>t'. hs_assign_list lim h xs t = Some (Inr (), t') \<and> hash_entries (hs_policy h) t' (E \<union> set xs))"
proof (intro conjI)
  have kn: "known id (=) x E \<longleftrightarrow> x \<in> E" by (simp add: known_def)
  have ins: "(if x \<in> E then E else insert x E) = insert x E" by auto
  show "\<exists>t'. hs_push lim h x t = Some (Inr (x \<notin> E), t') \<and> hash_entries (hs_policy h) t' (insert x E)"
    using hash_set.ins_law [OF assms, of x] by (auto simp: kn ins no_throw_Some hs_push_def)
  have del: "{e \<in> E. id e \<noteq> x} = E - {x}" by auto
  show "\<exists>t'. hs_pop h x t = Some (Inr (x \<in> E), t') \<and> hash_entries (hs_policy h) t' (E - {x})"
    using hash_set.del_law [OF assms(1), of x] unfolding kn del no_throw_Some hs_pop_key [OF assms(1)] by blast
  from hash_set.get_law [OF assms(1), of x] obtain r where r: "hash_get (hs_policy h) x t = Some r"
    "case r of None \<Rightarrow> x \<notin> E | Some e \<Rightarrow> e \<in> E \<and> e = x" unfolding kn id_apply by blast
  from r(2) have "r \<noteq> None \<longleftrightarrow> x \<in> E" by (cases r) auto
  with r(1) show "\<exists>p. hs_find h x t = Some (Inr p) \<and> (p \<noteq> None \<longleftrightarrow> x \<in> E)"
    by (auto simp: hs_find_key [OF assms(1)] hash_get_def split: option.splits sum.splits)
  have room: "hash_room lim (length xs) t" using assms(2) by (simp add: hash_room_def)
  from hash_set.push_all_law [OF assms(1) room] obtain t' where
    "push_all (\<lambda>e t. no_throw (ht_push lim (hs_policy h) e t)) xs t = Some t'"
    "hash_entries (hs_policy h) t' (merge_new id (=) E xs)" by auto
  then show "\<exists>t'. hs_assign_list lim h xs t = Some (Inr (), t') \<and> hash_entries (hs_policy h) t' (E \<union> set xs)"
    using hs_assign_list_push_all [of lim h xs t t'] by (auto simp: hs_push_def merge_new_set)
qed

theorem hash_set_is_set_witness:
  "\<exists>t. hs_assign_list \<lparr>bucket_traits = \<lparr>max_size = 1000, relocatable = True\<rparr>, index_limit = 1000\<rparr>
        (word_of_nat :: nat \<Rightarrow> 64 word) [2, 1, 2] ht_blank = Some (Inr (), t)
     \<and> hash_entries (hs_policy word_of_nat) t {1, 2}"
proof -
  let ?lim = "\<lparr>bucket_traits = \<lparr>max_size = 1000, relocatable = True\<rparr>, index_limit = 1000\<rparr>"
  have "hash_entries (hs_policy word_of_nat) (ht_blank :: nat hash_set) {}"
    using ht_blank_rep by (auto simp: hash_entries_def)
  moreover have "hash_room ?lim (Suc (length [2 :: nat, 1, 2])) (ht_blank :: nat hash_set)"
    by (simp add: hash_room_def ht_blank_def)
  moreover have "{} \<union> set [2 :: nat, 1, 2] = {1, 2}" by auto
  ultimately show ?thesis
    using hash_set_is_set [of word_of_nat "ht_blank :: nat hash_set" "{}" ?lim "[2, 1, 2]" 0] by metis
qed

end
