(* ===== verification/Routers.thy ===== *)
theory Routers
  imports Prelude "HOL-Library.AList"
begin

text \<open>
  \<open>RadixTree\<close> and \<open>Router\<close> of \<open>Wan/Web/Router/Router.hpp\<close>.  A node is a value with its children in
  order; the walk of \<open>Insert\<close> through shared pointers is the recursion that rebuilds the visited
  path, and a position in a path is the suffix that starts there.  Operations that may throw
  after they changed the tree return the outcome together with the tree.  A handler is a
  parameter: \<open>None\<close> is the empty \<open>std::function\<close>, and the HTTP verb is any type.
\<close>

section \<open>Nodes\<close>

datatype param_type = NoParam | IntParam | StringParam | PathParam

datatype 'h radix =
  RNode (node_prefix: string) (kids: "'h radix list") (handler: "'h option")
    (ptype: param_type) (pname: string) (wildcard: bool)

definition is_leaf :: "'h radix \<Rightarrow> bool" where
  "is_leaf n \<longleftrightarrow> handler n \<noteq> None"

definition is_param :: "'h radix \<Rightarrow> bool" where
  "is_param n \<longleftrightarrow> ptype n \<noteq> NoParam"

fun set_kids :: "'h radix list \<Rightarrow> 'h radix \<Rightarrow> 'h radix" where
  "set_kids ks (RNode pre _ h ty nm w) = RNode pre ks h ty nm w"

fun set_handler :: "'h option \<Rightarrow> 'h radix \<Rightarrow> 'h radix" where
  "set_handler h (RNode pre ks _ ty nm w) = RNode pre ks h ty nm w"

definition radix_empty :: "'h radix" where
  "radix_empty = RNode [] [] None NoParam [] False"

section \<open>Patterns\<close>

text \<open>\<open>std::isdigit\<close> and \<open>std::isalnum\<close> in the C locale.\<close>

definition is_digit :: "char \<Rightarrow> bool" where
  "is_digit c \<longleftrightarrow> 48 \<le> (of_char c :: nat) \<and> (of_char c :: nat) \<le> 57"

definition is_alnum :: "char \<Rightarrow> bool" where
  "is_alnum c \<longleftrightarrow> is_digit c \<or> 65 \<le> (of_char c :: nat) \<and> (of_char c :: nat) \<le> 90
     \<or> 97 \<le> (of_char c :: nat) \<and> (of_char c :: nat) \<le> 122"

text \<open>The text up to a separator and the text after it: \<open>find\<close> with the two \<open>substr\<close>.\<close>

fun cut_at :: "char \<Rightarrow> string \<Rightarrow> (string \<times> string) option" where
  "cut_at s [] = None"
| "cut_at s (c # cs) = (if c = s then Some ([], cs) else map_option (apfst (Cons c)) (cut_at s cs))"

lemma cut_at_Some: "cut_at s cs = Some (a, b) \<longleftrightarrow> cs = a @ s # b \<and> s \<notin> set a"
proof (induction cs arbitrary: a)
  case (Cons c cs)
  show ?case
  proof (cases a)
    case Nil
    then show ?thesis by auto
  next
    case (Cons d ds)
    then show ?thesis using Cons.IH [of ds] by auto
  qed
qed simp

lemma cut_at_length [termination_simp]: "cut_at s cs = Some (a, b) \<Longrightarrow> length b < length cs"
  by (auto simp: cut_at_Some)

definition split_spec :: "string \<Rightarrow> string \<times> string" where
  "split_spec spec = (case cut_at CHR '':'' spec of None \<Rightarrow> (''string'', spec) | Some (t, n) \<Rightarrow> (t, n))"

definition spec_type :: "string \<Rightarrow> param_type" where
  "spec_type t = (if t = ''int'' then IntParam else if t = ''path'' then PathParam else StringParam)"

text \<open>The validation of the complete pattern, with the set of the parameter names met so far.\<close>

function validate :: "string set \<Rightarrow> string \<Rightarrow> unit res" where
  "validate names [] = Inr ()"
| "validate names (c # cs) =
     (if c = CHR ''<'' then
        case cut_at CHR ''>'' cs of
          None \<Rightarrow> Inl (InvalidArgument ''unterminated route parameter'')
        | Some (spec, after) \<Rightarrow>
            let (t, nm) = split_spec spec in
            if t \<notin> {''int'', ''string'', ''path''} \<or> nm = []
            then Inl (InvalidArgument ''invalid route parameter specification'')
            else if t = ''path'' \<and> after \<noteq> []
            then Inl (InvalidArgument ''path route parameter must be terminal'')
            else if \<exists>d \<in> set nm. \<not> is_alnum d \<and> d \<noteq> CHR ''_''
            then Inl (InvalidArgument ''invalid route parameter name'')
            else if nm \<in> names
            then Inl (InvalidArgument ''duplicate route parameter name'')
            else validate (insert nm names) after
      else if c = CHR ''>'' then Inl (InvalidArgument ''unmatched route parameter terminator'')
      else validate names cs)"
  by pat_completeness auto
termination
  by (relation "measure (length \<circ> snd)") (auto dest: cut_at_length)

section \<open>Insertion\<close>

text \<open>The scan of the children for a parameter.\<close>

fun scan_params :: "param_type \<Rightarrow> string \<Rightarrow> nat \<Rightarrow> 'h radix list \<Rightarrow> nat option res" where
  "scan_params ty nm i [] = Inr None"
| "scan_params ty nm i (k # ks) =
     (if is_param k \<and> pname k = nm \<and> ptype k \<noteq> ty
      then Inl (InvalidArgument ''conflicting parameter types for route shape'')
      else if is_param k \<and> ptype k = ty
      then if pname k \<noteq> nm
           then Inl (InvalidArgument ''conflicting parameter names for route shape'')
           else Inr (Some i)
      else scan_params ty nm (Suc i) ks)"

fun common_len :: "string \<Rightarrow> string \<Rightarrow> nat" where
  "common_len (a # as) (b # bs) = (if a = b then Suc (common_len as bs) else 0)"
| "common_len _ _ = 0"

fun scan_static :: "string \<Rightarrow> nat \<Rightarrow> 'h radix list \<Rightarrow> (nat \<times> nat) option" where
  "scan_static seg i [] = None"
| "scan_static seg i (k # ks) =
     (if is_param k then scan_static seg (Suc i) ks
      else let c = common_len (node_prefix k) seg in
        if 0 < c then Some (i, c) else scan_static seg (Suc i) ks)"

lemma scan_static_pos: "scan_static seg i ks = Some (j, n) \<Longrightarrow> 0 < n"
  by (induction seg i ks rule: scan_static.induct) (auto simp: Let_def split: if_splits)

text \<open>Splitting a static child at the end of the common prefix.\<close>

fun split_node :: "nat \<Rightarrow> 'h radix \<Rightarrow> 'h radix" where
  "split_node n (RNode pre ks h ty nm w) =
     (if n < length pre
      then RNode (take n pre) [RNode (drop n pre) ks h NoParam [] False] None ty nm w
      else RNode pre ks h ty nm w)"

function insert_at :: "string \<Rightarrow> 'h \<Rightarrow> 'h radix \<Rightarrow> unit res \<times> 'h radix" where
  "insert_at [] h n = (Inr (), set_handler (Some h) n)"
| "insert_at (c # cs) h n =
     (if c = CHR ''<'' then
        case cut_at CHR ''>'' cs of
          None \<Rightarrow> (Inl (InvalidArgument ''unterminated route parameter''), n)
        | Some (spec, after) \<Rightarrow>
            let (t, nm) = split_spec spec in
            if nm = [] then (Inl (InvalidArgument ''route parameter name must not be empty''), n)
            else if t \<notin> {''int'', ''string'', ''path''}
            then (Inl (InvalidArgument ''invalid route parameter type''), n)
            else
              (case scan_params (spec_type t) nm 0 (kids n) of
                 Inl e \<Rightarrow> (Inl e, n)
               | Inr (Some i) \<Rightarrow>
                   let (r, k) = insert_at after h (kids n ! i) in (r, set_kids ((kids n)[i := k]) n)
               | Inr None \<Rightarrow>
                   let (r, k) = insert_at after h (RNode [] [] None (spec_type t) nm (t = ''path''))
                   in (r, set_kids (kids n @ [k]) n))
      else
        let seg = takeWhile (\<lambda>d. d \<noteq> CHR ''<'') (c # cs) in
        case scan_static seg 0 (kids n) of
          Some (i, len) \<Rightarrow>
            let (r, k) = insert_at (drop len (c # cs)) h (split_node len (kids n ! i))
            in (r, set_kids ((kids n)[i := k]) n)
        | None \<Rightarrow>
            let (r, k) = insert_at (drop (length seg) (c # cs)) h (RNode seg [] None NoParam [] False)
            in (r, set_kids (kids n @ [k]) n))"
  by pat_completeness auto
termination
  by (relation "measure (\<lambda>(p, h, n). length p)") (auto dest: cut_at_length scan_static_pos)

definition radix_insert :: "string \<Rightarrow> 'h option \<Rightarrow> 'h radix \<Rightarrow> unit res \<times> 'h radix" where
  "radix_insert p h t =
     (if p = [] \<or> hd p \<noteq> CHR ''/'' then (Inl (InvalidArgument ''route pattern must be an absolute path''), t)
      else case h of
        None \<Rightarrow> (Inl (InvalidArgument ''route handler must not be empty''), t)
      | Some f \<Rightarrow>
          (case validate {} p of
             Inl e \<Rightarrow> (Inl e, t)
           | Inr _ \<Rightarrow> insert_at p f t))"

section \<open>Search\<close>

type_synonym params = "string \<Rightarrow> string option"

text \<open>The text a parameter takes from the front of the path, and the rest.\<close>

fun capture :: "param_type \<Rightarrow> string \<Rightarrow> string \<times> string" where
  "capture PathParam path = (path, [])"
| "capture IntParam path = (takeWhile (\<lambda>c. c \<noteq> CHR ''/'' \<and> is_digit c) path, dropWhile (\<lambda>c. c \<noteq> CHR ''/'' \<and> is_digit c) path)"
| "capture _ path = (takeWhile (\<lambda>c. c \<noteq> CHR ''/'') path, dropWhile (\<lambda>c. c \<noteq> CHR ''/'') path)"

function search_node :: "'h radix \<Rightarrow> string \<Rightarrow> params \<Rightarrow> 'h radix option \<times> params"
  and search_static :: "'h radix list \<Rightarrow> string \<Rightarrow> params \<Rightarrow> 'h radix option \<times> params"
  and search_params :: "'h radix list \<Rightarrow> string \<Rightarrow> params \<Rightarrow> 'h radix option \<times> params" where
  "search_node (RNode pre ks h ty nm w) path ps =
     (if pre \<noteq> [] \<and> (length path < length pre \<or> take (length pre) path \<noteq> pre) then (None, ps)
      else let rest = drop (length pre) path in
        if rest = [] then
          if is_leaf (RNode pre ks h ty nm w) then (Some (RNode pre ks h ty nm w), ps) else (None, ps)
        else case search_static ks rest ps of
            (Some n, ps') \<Rightarrow> (Some n, ps')
          | (None, ps') \<Rightarrow> search_params ks rest ps')"
| "search_static [] path ps = (None, ps)"
| "search_static (k # ks) path ps =
     (if is_param k then search_static ks path ps
      else case search_node k path ps of
          (Some n, ps') \<Rightarrow> (Some n, ps')
        | (None, ps') \<Rightarrow> search_static ks path ps')"
| "search_params [] path ps = (None, ps)"
| "search_params (k # ks) path ps =
     (if \<not> is_param k then search_params ks path ps
      else let (v, rest) = capture (ptype k) path in
        if ptype k \<noteq> PathParam \<and> v = [] then search_params ks path ps
        else case search_node k rest (ps(pname k := Some v)) of
            (Some n, ps') \<Rightarrow> (Some n, ps')
          | (None, ps') \<Rightarrow> search_params ks path (ps'(pname k := None)))"
  by pat_completeness auto
termination
  by (relation "measure (\<lambda>x. case x of Inl (n, _) \<Rightarrow> size n
      | Inr (Inl (ks, _)) \<Rightarrow> size_list size ks | Inr (Inr (ks, _)) \<Rightarrow> size_list size ks)") auto

definition radix_search :: "string \<Rightarrow> 'h radix \<Rightarrow> ('h option \<times> params) option" where
  "radix_search path t =
     (case search_node t path Map.empty of
        (Some n, ps) \<Rightarrow> Some (handler n, ps)
      | (None, _) \<Rightarrow> None)"

section \<open>The router\<close>

record ('m, 'h) router =
  trees :: "('m \<times> 'h radix) list"
  frozen :: bool

definition router_new :: "('m, 'h) router" where
  "router_new = \<lparr>trees = [], frozen = False\<rparr>"

definition freeze :: "('m, 'h) router \<Rightarrow> ('m, 'h) router" where
  "freeze R = R\<lparr>frozen := True\<rparr>"

definition add_route :: "'m \<Rightarrow> string \<Rightarrow> 'h option \<Rightarrow> ('m, 'h) router \<Rightarrow> unit res \<times> ('m, 'h) router" where
  "add_route m p h R =
     (if frozen R then (Inl (LogicError ''routes cannot be registered after the router is frozen''), R)
      else case map_of (trees R) m of
        None \<Rightarrow>
          (case radix_insert p h radix_empty of
             (Inl e, _) \<Rightarrow> (Inl e, R)
           | (Inr _, t) \<Rightarrow> (Inr (), R\<lparr>trees := AList.update m t (trees R)\<rparr>))
      | Some t \<Rightarrow>
          (case radix_insert p h t of (r, t') \<Rightarrow> (r, R\<lparr>trees := AList.update m t' (trees R)\<rparr>)))"

definition router_match :: "'m \<Rightarrow> string \<Rightarrow> ('m, 'h) router \<Rightarrow> ('h option \<times> params) option" where
  "router_match m target R =
     (let path = (case cut_at CHR ''?'' target of None \<Rightarrow> target | Some (q, _) \<Rightarrow> q) in
      case map_of (trees R) m of None \<Rightarrow> None | Some t \<Rightarrow> radix_search path t)"

definition router_is_empty :: "('m, 'h) router \<Rightarrow> bool" where
  "router_is_empty R \<longleftrightarrow> trees R = []"

end
