(* ===== verification/RouterLaws.thy ===== *)
theory RouterLaws
  imports Routers
begin

text \<open>
  What the radix tree stands for: the list of its routes, each a token sequence with a handler,
  in the order of preference of the search.  The search is the first match in that list, and an
  insertion changes exactly one route or, on a conflict of parameters, nothing at all.
\<close>

section \<open>Routes\<close>

datatype token = Chr char | Par param_type string

type_synonym 'h route = "token list \<times> 'h"

definition add_prefix :: "token list \<Rightarrow> 'h route list \<Rightarrow> 'h route list" where
  "add_prefix us rs = map (\<lambda>(ts, h). (us @ ts, h)) rs"

definition own_tokens :: "'h radix \<Rightarrow> token list" where
  "own_tokens n = (if is_param n then [Par (ptype n) (pname n)] else map Chr (node_prefix n))"

text \<open>The routes below a node, in the order in which the search tries them.\<close>

fun routes :: "'h radix \<Rightarrow> 'h route list"
  and static_routes :: "'h radix list \<Rightarrow> 'h route list"
  and param_routes :: "'h radix list \<Rightarrow> 'h route list" where
  "routes (RNode pre ks h ty nm w) =
     (case h of None \<Rightarrow> [] | Some f \<Rightarrow> [([], f)]) @ static_routes ks @ param_routes ks"
| "static_routes [] = []"
| "static_routes (k # ks) =
     (if is_param k then [] else add_prefix (own_tokens k) (routes k)) @ static_routes ks"
| "param_routes [] = []"
| "param_routes (k # ks) =
     (if is_param k then add_prefix (own_tokens k) (routes k) else []) @ param_routes ks"

abbreviation all_routes :: "'h radix \<Rightarrow> 'h route list" where
  "all_routes n \<equiv> add_prefix (own_tokens n) (routes n)"

text \<open>The tokens of a valid pattern.\<close>

function tokens :: "string \<Rightarrow> token list" where
  "tokens [] = []"
| "tokens (c # cs) =
     (if c = CHR ''<'' then
        case cut_at CHR ''>'' cs of
          None \<Rightarrow> []
        | Some (spec, after) \<Rightarrow>
            let (t, nm) = split_spec spec in Par (spec_type t) nm # tokens after
      else Chr c # tokens cs)"
  by pat_completeness auto
termination
  by (relation "measure length") (auto dest: cut_at_length)

text \<open>Matching one route: a parameter takes the longest text its type allows.\<close>

fun match_tokens :: "token list \<Rightarrow> string \<Rightarrow> (string \<times> string) list option" where
  "match_tokens [] path = (if path = [] then Some [] else None)"
| "match_tokens (Chr c # ts) path =
     (case path of [] \<Rightarrow> None | d # ds \<Rightarrow> if c = d then match_tokens ts ds else None)"
| "match_tokens (Par ty nm # ts) path =
     (let (v, rest) = capture ty path in
      if v = [] then None else map_option (Cons (nm, v)) (match_tokens ts rest))"

fun first_match :: "'h route list \<Rightarrow> string \<Rightarrow> ('h \<times> (string \<times> string) list) option" where
  "first_match [] path = None"
| "first_match ((ts, h) # rs) path =
     (case match_tokens ts path of
        Some caps \<Rightarrow> Some (h, caps)
      | None \<Rightarrow> first_match rs path)"

text \<open>Two routes conflict when they reach parameters of the same type or name, but not both, at the same place.\<close>

fun conflict :: "token list \<Rightarrow> token list \<Rightarrow> bool" where
  "conflict (Chr c # ts) (Chr d # us) = (c = d \<and> conflict ts us)"
| "conflict (Par a m # ts) (Par b n # us) = (if a = b \<and> m = n then conflict ts us else a = b \<or> m = n)"
| "conflict _ _ = False"

fun par_names :: "token list \<Rightarrow> string list" where
  "par_names [] = []"
| "par_names (Chr c # ts) = par_names ts"
| "par_names (Par ty nm # ts) = nm # par_names ts"

section \<open>Well-formed trees\<close>

definition wf_kids :: "'h radix list \<Rightarrow> bool" where
  "wf_kids ks \<longleftrightarrow>
     (\<forall>k \<in> set ks. if is_param k then node_prefix k = [] else node_prefix k \<noteq> [])
     \<and> distinct (map (hd \<circ> node_prefix) (filter (\<lambda>k. \<not> is_param k) ks))
     \<and> distinct (map ptype (filter is_param ks)) \<and> distinct (map pname (filter is_param ks))
     \<and> (\<forall>k \<in> set ks. routes k \<noteq> [])"

fun wf_node :: "'h radix \<Rightarrow> bool" where
  "wf_node (RNode pre ks h ty nm w) \<longleftrightarrow> wf_kids ks \<and> (\<forall>k \<in> set ks. wf_node k)"

text \<open>The parameter names of every route are distinct and none of them is bound already.\<close>

definition fresh_names :: "string set \<Rightarrow> 'h route list \<Rightarrow> bool" where
  "fresh_names names rs \<longleftrightarrow> (\<forall>(ts, h) \<in> set rs. distinct (par_names ts) \<and> set (par_names ts) \<inter> names = {})"

section \<open>Search\<close>

lemma match_chars: "match_tokens (map Chr pre @ ts) path
    = (if take (length pre) path = pre then match_tokens ts (drop (length pre) path) else None)"
proof (induction pre arbitrary: path)
  case (Cons c pre)
  then show ?case by (cases path) auto
qed simp

lemma first_match_append: "first_match (rs @ qs) path
    = (case first_match rs path of None \<Rightarrow> first_match qs path | Some r \<Rightarrow> Some r)"
  by (induction rs) (auto split: option.splits)

lemma add_prefix_simps [simp]:
  "add_prefix us [] = []" "add_prefix us ((ts, h) # rs) = (us @ ts, h) # add_prefix us rs"
  "add_prefix us (rs @ qs) = add_prefix us rs @ add_prefix us qs"
  "add_prefix us (add_prefix vs rs) = add_prefix (us @ vs) rs" "add_prefix [] rs = rs"
  by (auto simp: add_prefix_def)

lemma first_match_chars: "first_match (add_prefix (map Chr pre) rs) path
    = (if take (length pre) path = pre then first_match rs (drop (length pre) path) else None)"
  by (induction rs) (auto simp: match_chars split: option.splits prod.splits)

lemma first_match_par: "first_match (add_prefix [Par ty nm] rs) path
    = (let (v, rest) = capture ty path in
       if v = [] then None else map_option (apsnd (Cons (nm, v))) (first_match rs rest))"
  by (induction rs) (auto split: option.splits prod.splits)

lemma match_names: "match_tokens ts path = Some caps \<Longrightarrow> map fst caps = par_names ts"
  by (induction ts path arbitrary: caps rule: match_tokens.induct)
    (auto split: list.splits if_splits prod.splits option.splits)

lemma first_match_in:
  "first_match rs path = Some (h, caps) \<Longrightarrow> \<exists>ts. (ts, h) \<in> set rs \<and> match_tokens ts path = Some caps"
  by (induction rs) (auto split: option.splits)

lemma first_match_None: "first_match rs path = None \<longleftrightarrow> (\<forall>(ts, h) \<in> set rs. match_tokens ts path = None)"
  by (induction rs) (auto split: option.splits)

lemma match_found: "(ts, h) \<in> set rs \<Longrightarrow> match_tokens ts path = Some caps \<Longrightarrow> first_match rs path \<noteq> None"
  by (induction rs) (auto split: option.splits)

lemma fresh_names_simps [simp]:
  "fresh_names names []"
  "fresh_names names (rs @ qs) \<longleftrightarrow> fresh_names names rs \<and> fresh_names names qs"
  by (auto simp: fresh_names_def)

lemma par_names_append [simp]: "par_names (ts @ us) = par_names ts @ par_names us"
  by (induction ts rule: par_names.induct) auto

lemma par_names_chars [simp]: "par_names (map Chr cs) = []"
  by (induction cs) auto

lemma fresh_names_chars [simp]: "fresh_names names (add_prefix (map Chr pre) rs) = fresh_names names rs"
  by (simp add: fresh_names_def add_prefix_def case_prod_beta)

lemma fresh_names_par: "fresh_names names (add_prefix [Par ty nm] rs) \<Longrightarrow> rs \<noteq> []
    \<Longrightarrow> nm \<notin> names \<and> fresh_names (insert nm names) rs"
  by (fastforce simp: fresh_names_def add_prefix_def neq_Nil_conv)

text \<open>The outcome of a search step, against the first match among its routes.\<close>

definition finds :: "('h \<times> (string \<times> string) list) option \<Rightarrow> 'h radix option \<times> params \<Rightarrow> params \<Rightarrow> bool" where
  "finds r res ps \<longleftrightarrow>
     (case r of
        None \<Rightarrow> res = (None, ps)
      | Some (h, caps) \<Rightarrow> \<exists>m. handler m = Some h \<and> res = (Some m, ps ++ map_of caps))"

lemma finds_None [simp]: "finds None res ps \<longleftrightarrow> res = (None, ps)"
  by (simp add: finds_def)

lemma finds_Some: "finds (Some (h, caps)) res ps \<longleftrightarrow> (\<exists>m. handler m = Some h \<and> res = (Some m, ps ++ map_of caps))"
  by (simp add: finds_def)

lemma finds_orelse:
  assumes "finds r res ps" and "finds q (f ps) ps"
  shows "finds (case r of None \<Rightarrow> q | Some x \<Rightarrow> Some x)
    (case res of (Some n, ps') \<Rightarrow> (Some n, ps') | (None, ps') \<Rightarrow> f ps') ps"
  using assms by (cases r) (auto simp: finds_Some)

lemma routes_match_empty:
  assumes "\<forall>k \<in> set ks. if is_param k then node_prefix k = [] else node_prefix k \<noteq> []"
  shows "first_match (static_routes ks) [] = None" "first_match (param_routes ks) [] = None"
proof -
  have par: "capture ty [] = ([], [])" for ty by (cases ty) auto
  from assms show "first_match (static_routes ks) [] = None"
    by (induction ks) (auto simp: first_match_append own_tokens_def first_match_chars)
  from assms show "first_match (param_routes ks) [] = None"
    by (induction ks) (auto simp: first_match_append own_tokens_def first_match_par par)
qed

lemma search_spec:
  fixes n :: "'h radix" and ks js :: "'h radix list"
  shows "wf_node n \<Longrightarrow> fresh_names (dom ps) (routes n) \<Longrightarrow>
      finds (first_match (add_prefix (map Chr (node_prefix n)) (routes n)) path) (search_node n path ps) ps"
    and "\<forall>k \<in> set ks. wf_node k \<Longrightarrow> fresh_names (dom ps) (static_routes ks) \<Longrightarrow>
      finds (first_match (static_routes ks) path) (search_static ks path ps) ps"
    and "\<forall>k \<in> set js. wf_node k \<and> routes k \<noteq> [] \<and> (is_param k \<longrightarrow> node_prefix k = []) \<Longrightarrow>
      fresh_names (dom ps) (param_routes js) \<Longrightarrow> path \<noteq> [] \<Longrightarrow>
      finds (first_match (param_routes js) path) (search_params js path ps) ps"
proof (induction n and ks and js arbitrary: path ps and path ps and path ps
    rule: routes_static_routes_param_routes.induct)
  case (1 pre ks h ty nm w)
  let ?rest = "drop (length pre) path"
  have ks: "\<forall>k \<in> set ks. wf_node k" "wf_kids ks" using "1.prems"(1) by auto
  then have js: "\<forall>k \<in> set ks. wf_node k \<and> routes k \<noteq> [] \<and> (is_param k \<longrightarrow> node_prefix k = [])"
    by (auto simp: wf_kids_def)
  have fr: "fresh_names (dom ps) (static_routes ks)" "fresh_names (dom ps) (param_routes ks)"
    using "1.prems"(2) by auto
  show ?case
  proof (cases "take (length pre) path = pre")
    case False
    then show ?thesis by (auto simp: first_match_chars simp del: routes.simps add_prefix_simps)
  next
    case True
    then have pre: "\<not> (pre \<noteq> [] \<and> (length path < length pre \<or> take (length pre) path \<noteq> pre))"
      by (auto dest: arg_cong [of _ _ length])
    show ?thesis
    proof (cases "?rest = []")
      case rest: True
      from ks(2) have none: "first_match (static_routes ks) [] = None" "first_match (param_routes ks) [] = None"
        by (auto intro: routes_match_empty simp: wf_kids_def)
      show ?thesis
        using pre True rest none by (cases h) (simp_all add: first_match_chars first_match_append is_leaf_def finds_Some del: add_prefix_simps)
    next
      case rest: False
      have "finds (first_match (static_routes ks @ param_routes ks) ?rest)
        (case search_static ks ?rest ps of (Some n, ps') \<Rightarrow> (Some n, ps') | (None, ps') \<Rightarrow> search_params ks ?rest ps') ps"
        unfolding first_match_append
        by (rule finds_orelse) (rule "1.IH"(1) [OF ks(1) fr(1)], rule "1.IH"(2) [OF js fr(2) rest])
      moreover have "first_match (add_prefix (map Chr pre) (routes (RNode pre ks h ty nm w))) path
          = first_match (static_routes ks @ param_routes ks) ?rest"
        using True rest by (simp add: first_match_chars del: add_prefix_simps split: option.splits)
      ultimately show ?thesis using pre rest by (auto simp: Let_def simp del: add_prefix_simps)
    qed
  qed
next
  case (3 k ks)
  show ?case
  proof (cases "is_param k")
    case True
    then show ?thesis using 3 by simp
  next
    case False
    have "finds (first_match (add_prefix (own_tokens k) (routes k)) path) (search_node k path ps) ps"
      using False "3.prems" "3.IH"(1) [of ps path] by (simp add: own_tokens_def)
    moreover have "finds (first_match (static_routes ks) path) (search_static ks path ps) ps"
      using False "3.prems" by (intro "3.IH"(2)) auto
    ultimately have "finds (first_match (add_prefix (own_tokens k) (routes k) @ static_routes ks) path)
       (case search_node k path ps of (Some n, ps') \<Rightarrow> (Some n, ps') | (None, ps') \<Rightarrow> search_static ks path ps') ps"
      unfolding first_match_append by (rule finds_orelse)
    then show ?thesis using False by simp
  qed
next
  case (5 k ks)
  have tl: "finds (first_match (param_routes ks) path) (search_params ks path ps) ps"
    using "5.prems" by (intro "5.IH"(2)) (auto split: if_splits)
  show ?case
  proof (cases "is_param k")
    case False
    then show ?thesis using tl by simp
  next
    case True
    obtain v rest where cap: "capture (ptype k) path = (v, rest)" by fastforce
    have fr: "pname k \<notin> dom ps" "fresh_names (insert (pname k) (dom ps)) (routes k)"
      using True "5.prems"(1,2) fresh_names_par [of "dom ps" "ptype k" "pname k" "routes k"]
      by (auto simp: own_tokens_def)
    show ?thesis
    proof (cases "v = []")
      case v: True
      then have "ptype k \<noteq> PathParam" using cap \<open>path \<noteq> []\<close> by auto
      then show ?thesis using True v cap tl by (simp add: own_tokens_def first_match_append first_match_par)
    next
      case v: False
      let ?ps = "ps(pname k := Some v)"
      have k: "wf_node k" "fresh_names (dom ?ps) (routes k)" "node_prefix k = []"
        using True "5.prems"(1) fr by auto
      have "finds (first_match (routes k) rest) (search_node k rest ?ps) ?ps"
        using "5.IH"(1) [OF True k(1,2), of rest] unfolding k(3) list.map add_prefix_simps(5) .
      then show ?thesis
      proof (cases "first_match (routes k) rest")
        case None
        have "?ps(pname k := None) = ps" using fr(1) by (auto simp: fun_eq_iff)
        moreover have "search_node k rest ?ps = (None, ?ps)"
          using None \<open>finds _ (search_node k rest ?ps) ?ps\<close> by simp
        ultimately show ?thesis
          using True v cap tl None by (simp add: own_tokens_def first_match_append first_match_par)
      next
        case (Some hc)
        obtain h caps where hc: "hc = (h, caps)" by fastforce
        obtain m where m: "handler m = Some h" "search_node k rest ?ps = (Some m, ?ps ++ map_of caps)"
          using Some hc \<open>finds _ (search_node k rest ?ps) ?ps\<close> by (auto simp: finds_Some)
        obtain ts where ts: "(ts, h) \<in> set (routes k)" "match_tokens ts rest = Some caps"
          using first_match_in [of "routes k" rest h caps] Some hc by auto
        then have "pname k \<notin> set (map fst caps)"
          unfolding match_names [OF ts(2)] using fr(2) by (auto simp: fresh_names_def)
        then have "pname k \<notin> dom (map_of caps)" by (simp add: dom_map_of_conv_image_fst)
        then have "?ps ++ map_of caps = ps ++ map_of ((pname k, v) # caps)"
          by (auto simp: fun_eq_iff map_add_def split: option.splits)
        with m show ?thesis
          using True v cap Some hc by (simp add: own_tokens_def first_match_append first_match_par finds_Some)
      qed
    qed
  qed
qed auto

section \<open>Insertion\<close>

lemma in_add_prefix: "(ts, h) \<in> set (add_prefix us rs) \<longleftrightarrow> (\<exists>vs. ts = us @ vs \<and> (vs, h) \<in> set rs)"
  by (force simp: add_prefix_def)

lemma in_kid_routes: "r \<in> set (static_routes ks) \<or> r \<in> set (param_routes ks) \<longleftrightarrow> (\<exists>k \<in> set ks. r \<in> set (all_routes k))"
  by (induction ks) auto

lemma in_routes: "(us, f) \<in> set (routes (RNode pre ks h ty nm w))
    \<longleftrightarrow> us = [] \<and> h = Some f \<or> (\<exists>k \<in> set ks. (us, f) \<in> set (all_routes k))"
  unfolding in_kid_routes [symmetric] by (cases h) auto

lemma wf_kids_own: "wf_kids ks \<Longrightarrow> k \<in> set ks \<Longrightarrow> own_tokens k \<noteq> []"
  by (auto simp: wf_kids_def own_tokens_def split: if_splits)

lemma conflict_chars [simp]: "conflict (map Chr cs @ ts) (map Chr cs @ us) = conflict ts us"
  by (induction cs) auto

lemma conflict_own [simp]: "conflict (own_tokens k @ ts) (own_tokens k @ us) = conflict ts us"
  by (simp add: own_tokens_def)

lemma conflict_Nil [simp]: "\<not> conflict [] us" "\<not> conflict ts []"
proof -
  show "\<not> conflict [] us" by simp
  show "\<not> conflict ts []" by (cases ts; simp)
qed

lemma tokens_chars: "CHR ''<'' \<notin> set a \<Longrightarrow> tokens (a @ b) = map Chr a @ tokens b"
  by (induction a) auto

lemma validate_chars:
  "CHR ''<'' \<notin> set a \<Longrightarrow> validate names (a @ b) = Inr () \<Longrightarrow> validate names b = Inr ()"
  by (induction a) (auto split: if_splits)

text \<open>A child that cannot share a first token with a route.\<close>

fun apart :: "token \<Rightarrow> 'h radix \<Rightarrow> bool" where
  "apart (Chr c) k \<longleftrightarrow> is_param k \<or> hd (node_prefix k) \<noteq> c"
| "apart (Par ty nm) k \<longleftrightarrow> \<not> is_param k \<or> ptype k \<noteq> ty \<and> pname k \<noteq> nm"

lemma apart_routes:
  assumes "apart t k" and "wf_kids ks" and "k \<in> set ks" and "(us, g) \<in> set (all_routes k)"
  shows "\<not> conflict (t # ts) us \<and> us \<noteq> t # ts"
proof -
  from assms(4) obtain vs where us: "us = own_tokens k @ vs" by (auto simp: in_add_prefix)
  show ?thesis
  proof (cases "is_param k")
    case True
    then show ?thesis using assms(1) by (cases t) (auto simp: us own_tokens_def)
  next
    case False
    then obtain d ds where "node_prefix k = d # ds"
      using assms(2,3) by (cases "node_prefix k") (auto simp: wf_kids_def)
    then show ?thesis using False assms(1) by (cases t) (auto simp: us own_tokens_def)
  qed
qed

text \<open>What an insertion of the route \<open>(ts, h)\<close> below a node does.\<close>

definition conflicting :: "token list \<Rightarrow> 'h radix \<Rightarrow> bool" where
  "conflicting ts n \<longleftrightarrow> (\<exists>(us, g) \<in> set (routes n). conflict ts us)"

definition same_label :: "'h radix \<Rightarrow> 'h radix \<Rightarrow> bool" where
  "same_label m n \<longleftrightarrow> node_prefix m = node_prefix n \<and> ptype m = ptype n \<and> pname m = pname n"

definition inserted :: "token list \<Rightarrow> 'h \<Rightarrow> 'h radix \<Rightarrow> 'h radix \<Rightarrow> bool" where
  "inserted ts h n m \<longleftrightarrow> wf_node m \<and> same_label m n
     \<and> (\<forall>us f. (us, f) \<in> set (routes m) \<longleftrightarrow> (if us = ts then f = h else (us, f) \<in> set (routes n)))"

lemma same_label_own: "same_label m n \<Longrightarrow> own_tokens m = own_tokens n"
  by (simp add: same_label_def own_tokens_def is_param_def)

lemma inserted_routes_nonempty: "inserted ts h n m \<Longrightarrow> routes m \<noteq> []"
proof -
  assume "inserted ts h n m"
  then have "(ts, h) \<in> set (routes m)" by (simp add: inserted_def)
  then show ?thesis by auto
qed

lemma wf_kids_update:
  assumes "wf_kids (as @ k # bs)" and "same_label m k" and "routes m \<noteq> []"
  shows "wf_kids (as @ m # bs)"
proof -
  have "is_param m = is_param k" using assms(2) by (simp add: same_label_def is_param_def)
  then show ?thesis using assms unfolding wf_kids_def same_label_def
    by (cases "is_param k") (simp_all add: ball_Un)
qed

lemma inserted_kid:
  assumes wf: "wf_node (RNode pre (as @ k # bs) g ty nm w)"
    and apart: "\<forall>j \<in> set as \<union> set bs. apart (hd (own_tokens k)) j"
    and m: "inserted ts h k m"
  shows "inserted (own_tokens k @ ts) h (RNode pre (as @ k # bs) g ty nm w) (RNode pre (as @ m # bs) g ty nm w)"
proof -
  have kids: "wf_kids (as @ k # bs)" and own: "own_tokens k \<noteq> []" using wf wf_kids_own [of "as @ k # bs" k] by auto
  have "wf_kids (as @ m # bs)"
    using m inserted_routes_nonempty [OF m] by (intro wf_kids_update [OF kids]) (auto simp: inserted_def)
  then have wf': "wf_node (RNode pre (as @ m # bs) g ty nm w)" using wf m by (auto simp: inserted_def)
  have others: "us \<noteq> own_tokens k @ ts" if "j \<in> set as \<union> set bs" "(us, f) \<in> set (all_routes j)" for us f j
    using apart_routes [of "hd (own_tokens k)" j "as @ k # bs" us f "tl (own_tokens k) @ ts"] apart kids own that by auto
  have m': "(us, f) \<in> set (all_routes m)
      \<longleftrightarrow> (if us = own_tokens k @ ts then f = h else (us, f) \<in> set (all_routes k))" for us f
    using m unfolding inserted_def by (auto simp: in_add_prefix same_label_own)
  have "(us, f) \<in> set (routes (RNode pre (as @ m # bs) g ty nm w))
     \<longleftrightarrow> (if us = own_tokens k @ ts then f = h else (us, f) \<in> set (routes (RNode pre (as @ k # bs) g ty nm w)))"
    for us f
    unfolding in_routes using own others [of _ us f] by (auto simp: m')
  with wf' show ?thesis by (simp add: inserted_def same_label_def)
qed

lemma not_conflicting_kids:
  assumes "wf_kids ks" and "\<forall>j \<in> set ks. apart t j"
  shows "\<not> conflicting (t # ts) (RNode pre ks g ty nm w)" and "(t # ts, f) \<notin> set (routes (RNode pre ks g ty nm w))"
proof -
  have no: "\<not> conflict (t # ts) us \<and> us \<noteq> t # ts" if us: "(us, f) \<in> set (routes (RNode pre ks g ty nm w))" for us f
  proof (cases "us = []")
    case False
    then obtain k where k: "k \<in> set ks" "(us, f) \<in> set (all_routes k)" using us unfolding in_routes by blast
    show ?thesis using apart_routes [OF bspec [OF assms(2) k(1)] assms(1) k] .
  qed simp
  show "\<not> conflicting (t # ts) (RNode pre ks g ty nm w)" using no unfolding conflicting_def by blast
  show "(t # ts, f) \<notin> set (routes (RNode pre ks g ty nm w))" using no by blast
qed

lemma conflicting_kid:
  assumes kids: "wf_kids (as @ k # bs)" and apart: "\<forall>j \<in> set as \<union> set bs. apart (hd (own_tokens k)) j"
  shows "conflicting (own_tokens k @ ts) (RNode pre (as @ k # bs) g ty nm w) \<longleftrightarrow> conflicting ts k"
proof -
  from kids wf_kids_own [of "as @ k # bs" k] obtain t vs where tv: "own_tokens k = t # vs"
    by (cases "own_tokens k") auto
  have no: "\<not> conflict (own_tokens k @ ts) us" if "j \<in> set as \<union> set bs" "(us, f) \<in> set (all_routes j)" for us f j
    using apart_routes [of t j "as @ k # bs" us f "vs @ ts"] apart kids that by (auto simp: tv)
  show ?thesis
  proof
    assume "conflicting (own_tokens k @ ts) (RNode pre (as @ k # bs) g ty nm w)"
    then obtain us f where us: "(us, f) \<in> set (routes (RNode pre (as @ k # bs) g ty nm w))" "conflict (own_tokens k @ ts) us"
      by (auto simp: conflicting_def)
    then obtain j where j: "j \<in> set (as @ k # bs)" "(us, f) \<in> set (all_routes j)" unfolding in_routes by auto
    with no us have "j = k" by auto
    with j us(2) obtain vs where "(vs, f) \<in> set (routes k)" "conflict ts vs" by (auto simp: in_add_prefix)
    then show "conflicting ts k" unfolding conflicting_def by blast
  next
    assume "conflicting ts k"
    then obtain us f where us: "(us, f) \<in> set (routes k)" "conflict ts us" by (auto simp: conflicting_def)
    then have "(own_tokens k @ us, f) \<in> set (routes (RNode pre (as @ k # bs) g ty nm w))"
      unfolding in_routes by (auto simp: in_add_prefix)
    moreover have "conflict (own_tokens k @ ts) (own_tokens k @ us)" using us(2) by simp
    ultimately show "conflicting (own_tokens k @ ts) (RNode pre (as @ k # bs) g ty nm w)"
      unfolding conflicting_def by blast
  qed
qed

text \<open>A new child at the end.\<close>

lemma inserted_new_kid:
  assumes wf: "wf_node (RNode pre ks g ty nm w)" and apart: "\<forall>j \<in> set ks. apart (hd (own_tokens k)) j"
    and k: "routes k = []" "if is_param k then node_prefix k = [] else node_prefix k \<noteq> []"
    and m: "inserted ts h k m"
  shows "inserted (own_tokens k @ ts) h (RNode pre ks g ty nm w) (RNode pre (ks @ [m]) g ty nm w)"
proof -
  have kids: "wf_kids ks" using wf by simp
  have own: "own_tokens k \<noteq> []" using k(2) by (auto simp: own_tokens_def split: if_splits)
  have lab: "node_prefix m = node_prefix k" "ptype m = ptype k" "pname m = pname k" "is_param m = is_param k"
    using m by (auto simp: inserted_def same_label_def is_param_def)
  have "wf_kids (ks @ [m])"
  proof (cases "is_param k")
    case True
    then show ?thesis using kids k(2) apart inserted_routes_nonempty [OF m] lab
      by (auto simp: wf_kids_def own_tokens_def)
  next
    case False
    then obtain c cs where c: "node_prefix k = c # cs" using k(2) by (cases "node_prefix k") auto
    then have "\<forall>j \<in> set ks. \<not> is_param j \<longrightarrow> hd (node_prefix j) \<noteq> c"
      using apart False by (auto simp: own_tokens_def)
    then show ?thesis using False kids c inserted_routes_nonempty [OF m] lab by (auto simp: wf_kids_def)
  qed
  then have wf': "wf_node (RNode pre (ks @ [m]) g ty nm w)" using wf m by (auto simp: inserted_def)
  have others: "us \<noteq> own_tokens k @ ts" if "j \<in> set ks" "(us, f) \<in> set (all_routes j)" for us f j
    using apart_routes [of "hd (own_tokens k)" j ks us f "tl (own_tokens k) @ ts"] apart kids own that by auto
  have "(us, f) \<in> set (all_routes m) \<longleftrightarrow> us = own_tokens k @ ts \<and> f = h" for us f
    using m k(1) unfolding inserted_def by (auto simp: in_add_prefix same_label_own)
  then have "(us, f) \<in> set (routes (RNode pre (ks @ [m]) g ty nm w))
     \<longleftrightarrow> (if us = own_tokens k @ ts then f = h else (us, f) \<in> set (routes (RNode pre ks g ty nm w)))"
    for us f
    unfolding in_routes using own others [of _ us f] by auto
  with wf' show ?thesis by (simp add: inserted_def same_label_def)
qed

text \<open>The scans over the children.\<close>

lemma wf_kids_tl: "wf_kids (k # ks) \<Longrightarrow> wf_kids ks"
  by (auto simp: wf_kids_def split: if_splits)

definition params_scanned :: "param_type \<Rightarrow> string \<Rightarrow> nat \<Rightarrow> 'h radix list \<Rightarrow> nat option res \<Rightarrow> bool" where
  "params_scanned ty nm i ks r \<longleftrightarrow>
     (case r of
        Inl e \<Rightarrow> (\<exists>m. e = InvalidArgument m) \<and> (\<exists>k \<in> set ks. is_param k \<and> (ptype k = ty) \<noteq> (pname k = nm))
      | Inr None \<Rightarrow> \<forall>k \<in> set ks. apart (Par ty nm) k
      | Inr (Some j) \<Rightarrow> \<exists>as k bs. ks = as @ k # bs \<and> j = i + length as \<and> own_tokens k = [Par ty nm] \<and> is_param k
          \<and> (\<forall>l \<in> set as \<union> set bs. apart (Par ty nm) l))"

lemma params_scanned_Cons:
  assumes "params_scanned ty nm (Suc i) ks r" and "apart (Par ty nm) k"
  shows "params_scanned ty nm i (k # ks) r"
proof (cases r)
  case (Inl e)
  then show ?thesis using assms by (auto simp: params_scanned_def)
next
  case (Inr q)
  show ?thesis
  proof (cases q)
    case None
    then show ?thesis using assms Inr by (simp add: params_scanned_def)
  next
    case (Some j)
    with Inr assms(1) obtain as l bs where "ks = as @ l # bs" "j = Suc i + length as" "own_tokens l = [Par ty nm]"
      "is_param l" "\<forall>x \<in> set as \<union> set bs. apart (Par ty nm) x" unfolding params_scanned_def by auto
    then have "\<exists>as l bs. k # ks = as @ l # bs \<and> j = i + length as \<and> own_tokens l = [Par ty nm] \<and> is_param l
        \<and> (\<forall>x \<in> set as \<union> set bs. apart (Par ty nm) x)"
      using assms(2) by (intro exI [of _ "k # as"] exI [of _ l] exI [of _ bs]) simp
    then show ?thesis using Inr Some by (simp add: params_scanned_def)
  qed
qed

lemma scan_params_spec:
  assumes "wf_kids ks" and "ty \<noteq> NoParam"
  shows "params_scanned ty nm i ks (scan_params ty nm i ks)"
  using assms(1)
proof (induction ty nm i ks rule: scan_params.induct)
  case (1 ty nm i)
  show ?case by (simp add: params_scanned_def)
next
  case (2 ty nm i k ks)
  consider (types) "is_param k" "pname k = nm" "ptype k \<noteq> ty" | (names) "is_param k" "ptype k = ty" "pname k \<noteq> nm"
    | (found) "is_param k" "ptype k = ty" "pname k = nm"
    | (skip) "\<not> is_param k \<or> pname k \<noteq> nm \<and> ptype k \<noteq> ty" by blast
  then show ?case
  proof cases
    case types
    then show ?thesis by (auto simp: params_scanned_def)
  next
    case names
    then show ?thesis by (auto simp: params_scanned_def)
  next
    case found
    have "apart (Par ty nm) l" if "l \<in> set ks" for l
      using "2.prems" found that by (cases "is_param l") (auto simp: wf_kids_def image_iff)
    then have "\<exists>as l bs. k # ks = as @ l # bs \<and> i = i + length as \<and> own_tokens l = [Par ty nm] \<and> is_param l
        \<and> (\<forall>x \<in> set as \<union> set bs. apart (Par ty nm) x)"
      using found by (intro exI [of _ "[]"] exI [of _ k] exI [of _ ks]) (simp add: own_tokens_def)
    with found show ?thesis by (simp add: params_scanned_def)
  next
    case skip
    then have "scan_params ty nm i (k # ks) = scan_params ty nm (Suc i) ks" "apart (Par ty nm) k"
      using assms(2) by (auto simp: is_param_def)
    moreover have "params_scanned ty nm (Suc i) ks (scan_params ty nm (Suc i) ks)"
      using skip wf_kids_tl [OF "2.prems"] by (intro "2.IH") auto
    ultimately show ?thesis using params_scanned_Cons [of ty nm i ks] by simp
  qed
qed

lemma common_len_spec:
  "take (common_len a b) a = take (common_len a b) b \<and> common_len a b \<le> length a \<and> common_len a b \<le> length b
   \<and> (common_len a b < length a \<longrightarrow> common_len a b < length b \<longrightarrow> a ! common_len a b \<noteq> b ! common_len a b)"
  by (induction a b rule: common_len.induct) auto

lemma scan_static_spec:
  assumes "wf_kids ks" and "seg = c # cs"
  shows "case scan_static seg i ks of
      None \<Rightarrow> \<forall>k \<in> set ks. apart (Chr c) k
    | Some (j, len) \<Rightarrow> \<exists>as k bs. ks = as @ k # bs \<and> j = i + length as \<and> \<not> is_param k
        \<and> len = common_len (node_prefix k) seg \<and> 0 < len \<and> (\<forall>l \<in> set as \<union> set bs. apart (Chr c) l)"
  using assms
proof (induction seg i ks rule: scan_static.induct)
  case (2 seg i k ks)
  have tl: "wf_kids ks" using "2.prems" wf_kids_tl by blast
  show ?case
  proof (cases "is_param k \<or> common_len (node_prefix k) seg = 0")
    case True
    then have step: "scan_static seg i (k # ks) = scan_static seg (Suc i) ks" by auto
    have ap: "apart (Chr c) k"
      using True "2.prems" by (cases "node_prefix k") (auto simp: wf_kids_def split: if_splits)
    have IH: "case scan_static seg (Suc i) ks of
      None \<Rightarrow> \<forall>k \<in> set ks. apart (Chr c) k
    | Some (j, len) \<Rightarrow> \<exists>as k bs. ks = as @ k # bs \<and> j = Suc i + length as \<and> \<not> is_param k
        \<and> len = common_len (node_prefix k) seg \<and> 0 < len \<and> (\<forall>l \<in> set as \<union> set bs. apart (Chr c) l)"
      using "2.IH"(1) [OF _ tl "2.prems"(2)] "2.IH"(2) [OF _ refl _ tl "2.prems"(2)] True
      by (cases "is_param k") blast+
    show ?thesis
    proof (cases "scan_static seg (Suc i) ks")
      case None
      with IH ap step show ?thesis by auto
    next
      case (Some jl)
      obtain j len where jl: "jl = (j, len)" by fastforce
      with IH Some obtain as l bs where "ks = as @ l # bs" "j = Suc i + length as" "\<not> is_param l"
        "len = common_len (node_prefix l) seg" "0 < len" "\<forall>x \<in> set as \<union> set bs. apart (Chr c) x" by auto
      with Some jl step ap show ?thesis by (auto intro!: exI [of _ "k # as"])
    qed
  next
    case False
    then obtain d ds where d: "node_prefix k = d # ds" "d = c"
      using "2.prems"(2) by (cases "node_prefix k") (auto split: if_splits)
    have "apart (Chr c) l" if "l \<in> set ks" for l
      using "2.prems"(1) False d that by (cases "is_param l") (auto simp: wf_kids_def image_iff)
    with False show ?thesis by (auto simp: Let_def intro!: exI [of _ "[]"])
  qed
qed simp

text \<open>Splitting a node keeps its routes.\<close>

lemma split_node_spec:
  assumes k: "\<not> is_param k" "wf_node k" "routes k \<noteq> []" and len: "0 < len" "len < length (node_prefix k)"
  shows "wf_node (split_node len k)" "node_prefix (split_node len k) = take len (node_prefix k)"
    "\<not> is_param (split_node len k)" "routes (split_node len k) = add_prefix (map Chr (drop len (node_prefix k))) (routes k)"
proof -
  obtain pre ks g ty nm w where n: "k = RNode pre ks g ty nm w" by (cases k)
  let ?b = "RNode (drop len pre) ks g NoParam [] False"
  have b: "split_node len k = RNode (take len pre) [?b] None ty nm w" using len by (simp add: n)
  have "routes ?b = routes k" by (simp add: n)
  then have "wf_kids [?b]" using k(3) len by (simp add: wf_kids_def is_param_def n)
  then show "wf_node (split_node len k)" using k(2) by (simp add: b) (simp add: n)
  show "node_prefix (split_node len k) = take len (node_prefix k)" using len by (simp add: n)
  show "\<not> is_param (split_node len k)" using k(1) by (simp add: b is_param_def) (simp add: n)
  show "routes (split_node len k) = add_prefix (map Chr (drop len (node_prefix k))) (routes k)"
    using \<open>routes ?b = routes k\<close> by (simp add: b own_tokens_def is_param_def) (simp add: n)
qed

lemma wf_kids_split:
  assumes "wf_kids (as @ k # bs)" and "\<not> is_param k" "\<not> is_param m" and "node_prefix m = take len (node_prefix k)"
    and "0 < len" and "routes m \<noteq> []"
  shows "wf_kids (as @ m # bs)"
  using assms by (cases "node_prefix k") (auto simp: wf_kids_def split: if_splits)

definition insertion_ok :: "token list \<Rightarrow> 'h \<Rightarrow> 'h radix \<Rightarrow> unit res \<times> 'h radix \<Rightarrow> bool" where
  "insertion_ok ts h n r \<longleftrightarrow>
     (if conflicting ts n then \<exists>msg. r = (Inl (InvalidArgument msg), n)
      else \<exists>m. r = (Inr (), m) \<and> inserted ts h n m)"

lemma insertion_kid:
  assumes "wf_node (RNode pre (as @ k # bs) g ty nm w)"
    and "\<forall>j \<in> set as \<union> set bs. apart (hd (own_tokens k)) j"
    and "insertion_ok ts h k (r, m)"
  shows "insertion_ok (own_tokens k @ ts) h (RNode pre (as @ k # bs) g ty nm w) (r, RNode pre (as @ m # bs) g ty nm w)"
proof (cases "conflicting ts k")
  case True
  then show ?thesis using assms conflicting_kid [of as k bs ts pre g ty nm w] by (simp add: insertion_ok_def)
next
  case False
  then show ?thesis
    using assms conflicting_kid [of as k bs ts pre g ty nm w] inserted_kid [OF assms(1,2), of ts h m]
    by (simp add: insertion_ok_def)
qed

lemma insertion_new_kid:
  assumes wf: "wf_node (RNode pre ks g ty nm w)" and own: "own_tokens k = t # us"
    and ap: "\<forall>j \<in> set ks. apart t j"
    and k: "routes k = []" "if is_param k then node_prefix k = [] else node_prefix k \<noteq> []"
    and m: "insertion_ok ts h k (r, m)"
  shows "insertion_ok (own_tokens k @ ts) h (RNode pre ks g ty nm w) (r, RNode pre (ks @ [m]) g ty nm w)"
proof -
  have "\<not> conflicting ts k" by (simp add: conflicting_def k(1))
  then have rm: "r = Inr ()" "inserted ts h k m" using m by (auto simp: insertion_ok_def)
  have "inserted (own_tokens k @ ts) h (RNode pre ks g ty nm w) (RNode pre (ks @ [m]) g ty nm w)"
    using inserted_new_kid [OF wf _ k rm(2)] ap own by simp
  moreover have "\<not> conflicting (own_tokens k @ ts) (RNode pre ks g ty nm w)"
    using not_conflicting_kids(1) [of ks t "us @ ts" pre g ty nm w] wf ap own by simp
  ultimately show ?thesis using rm(1) by (simp add: insertion_ok_def)
qed

text \<open>The split of a static child, followed by the insertion below it.\<close>

lemma insertion_split:
  assumes wf: "wf_node (RNode pre (as @ k # bs) g ty nm w)" and k: "\<not> is_param k"
    and len: "0 < len" "len < length (node_prefix k)"
    and ap: "\<forall>j \<in> set as \<union> set bs. apart (hd (own_tokens k)) j"
    and ts: "ts = [] \<or> hd ts \<noteq> Chr (node_prefix k ! len)"
    and m: "insertion_ok ts h (split_node len k) (r, m)"
  shows "insertion_ok (map Chr (take len (node_prefix k)) @ ts) h
    (RNode pre (as @ k # bs) g ty nm w) (r, RNode pre (as @ m # bs) g ty nm w)"
proof -
  let ?s = "split_node len k" and ?p = "node_prefix k"
  have kids: "wf_kids (as @ k # bs)" "wf_node k" "routes k \<noteq> []" using wf by (auto simp: wf_kids_def)
  note s = split_node_spec [OF k kids(2,3) len]
  have own: "own_tokens ?s = map Chr (take len ?p)" using s(2,3) by (simp add: own_tokens_def)
  have nempty: "routes ?s \<noteq> []" using kids(3) s(4) by (auto simp: add_prefix_def)
  have wf': "wf_node (RNode pre (as @ ?s # bs) g ty nm w)"
    using wf wf_kids_split [OF kids(1) k s(3,2) len(1) nempty] s(1) by auto
  have hd: "hd (own_tokens ?s) = hd (own_tokens k)"
    unfolding own using len k by (cases ?p; cases len) (auto simp: own_tokens_def)
  have all: "all_routes ?s = all_routes k"
    unfolding own s(4) using k by (simp add: own_tokens_def map_append [symmetric] del: map_append)
  let ?n = "RNode pre (as @ k # bs) g ty nm w" and ?n' = "RNode pre (as @ ?s # bs) g ty nm w"
  have "(us, f) \<in> set (routes ?n') \<longleftrightarrow> (us, f) \<in> set (routes ?n)" for us f
    unfolding in_routes by (simp add: all)
  then have same: "set (routes ?n') = set (routes ?n)" by (intro set_eqI) (simp only: split_paired_all)
  have cs: "drop len ?p = ?p ! len # drop (Suc len) ?p" using len by (simp add: Cons_nth_drop_Suc)
  have "\<not> conflict ts (map Chr (drop len ?p) @ us)" for us
    using ts unfolding cs by (cases ts rule: list.exhaust; cases "hd ts") auto
  then have "\<not> conflicting ts ?s" by (auto simp: conflicting_def s(4) in_add_prefix)
  moreover have "insertion_ok (own_tokens ?s @ ts) h (RNode pre (as @ ?s # bs) g ty nm w) (r, RNode pre (as @ m # bs) g ty nm w)"
    using insertion_kid [OF wf' _ m] ap hd by simp
  ultimately have "insertion_ok (map Chr (take len ?p) @ ts) h ?n' (r, RNode pre (as @ m # bs) g ty nm w)"
    and "\<not> conflicting (map Chr (take len ?p) @ ts) ?n'"
    using conflicting_kid [of as ?s bs ts pre g ty nm w] wf' ap hd by (auto simp: own)
  then show ?thesis
    unfolding insertion_ok_def conflicting_def inserted_def same by (simp add: same_label_def)
qed

text \<open>The static step: the scan meets a child, or the segment becomes a new one.\<close>

lemma insert_static:
  fixes h :: 'h
  assumes wf: "wf_node n" and p: "p = c # cs" "c \<noteq> CHR ''<''" and seg: "seg = takeWhile (\<lambda>d. d \<noteq> CHR ''<'') p"
    and IH: "\<And>q m. length q < length p \<Longrightarrow> wf_node m \<Longrightarrow> validate names q = Inr () \<Longrightarrow> insertion_ok (tokens q) h m (insert_at q h m)"
    and val: "validate names p = Inr ()"
  shows "insertion_ok (tokens p) h n (insert_at p h n)"
proof -
  obtain pre ks g ty nm w where n: "n = RNode pre ks g ty nm w" by (cases n)
  have segc: "seg = c # takeWhile (\<lambda>d. d \<noteq> CHR ''<'') cs" using p seg by simp
  have pre_seg: "take l p = take l seg \<and> CHR ''<'' \<notin> set (take l seg)" if "l \<le> length seg" for l
  proof -
    have "take l p = take l seg"
      using that arg_cong [OF takeWhile_dropWhile_id [of "\<lambda>d. d \<noteq> CHR ''<''" p], of "take l"]
      by (simp add: seg [symmetric])
    then show ?thesis using seg by (auto dest!: in_set_takeD set_takeWhileD)
  qed
  have cut: "tokens p = map Chr (take l seg) @ tokens (drop l p) \<and> validate names (drop l p) = Inr ()" if "l \<le> length seg" for l
    using pre_seg [OF that] tokens_chars [of "take l p" "drop l p", unfolded append_take_drop_id]
      validate_chars [of "take l p" names "drop l p", unfolded append_take_drop_id] val by simp
  have shorter: "length (drop l p) < length p" if "0 < l" for l using that p(1) by simp
  have kids: "wf_kids ks" using wf n by simp
  note scan = scan_static_spec [OF kids segc, of 0]
  show ?thesis
  proof (cases "scan_static seg 0 ks")
    case None
    let ?k = "RNode seg [] None NoParam [] False :: 'h radix"
    obtain r m where rm: "insert_at (drop (length seg) p) h ?k = (r, m)" by fastforce
    have own: "own_tokens ?k = Chr c # map Chr (takeWhile (\<lambda>d. d \<noteq> CHR ''<'') cs)"
      by (simp add: own_tokens_def is_param_def segc)
    have "insertion_ok (tokens (drop (length seg) p)) h ?k (r, m)"
      using IH [of "drop (length seg) p" ?k] shorter [of "length seg"] cut [of "length seg"] segc rm
      by (simp add: wf_kids_def)
    then have "insertion_ok (own_tokens ?k @ tokens (drop (length seg) p)) h n (r, RNode pre (ks @ [m]) g ty nm w)"
      unfolding n using wf n None scan by (intro insertion_new_kid [OF _ own]) (auto simp: is_param_def segc)
    moreover have "insert_at p h n = (r, RNode pre (ks @ [m]) g ty nm w)"
      using None p rm by (simp add: n seg)
    moreover have "own_tokens ?k = map Chr seg" by (simp add: own_tokens_def is_param_def)
    ultimately show ?thesis using cut [of "length seg"] by simp
  next
    case (Some jl)
    obtain j len where jl: "jl = (j, len)" by fastforce
    with scan Some obtain as k bs where k: "ks = as @ k # bs" "j = length as" "\<not> is_param k"
      "len = common_len (node_prefix k) seg" "0 < len" "\<forall>l \<in> set as \<union> set bs. apart (Chr c) l" by auto
    note cl = common_len_spec [of "node_prefix k" seg, folded k(4)]
    let ?p = "node_prefix k"
    have wfk: "wf_node k" "routes k \<noteq> []" "?p \<noteq> []" using wf k(1,3) n by (auto simp: wf_kids_def)
    have hd: "hd (own_tokens k) = Chr c"
      using cl k(3,5) wfk(3) segc by (cases ?p; cases len) (auto simp: own_tokens_def)
    obtain r m where rm: "insert_at (drop len p) h (split_node len k) = (r, m)" by fastforce
    have ins: "insert_at p h n = (r, RNode pre (as @ m # bs) g ty nm w)"
      using Some jl k(1,2) p rm by (simp add: n seg)
    have wfs: "wf_node (split_node len k)"
      using split_node_spec(1) [OF k(3) wfk(1,2) k(5)] wfk(1) by (cases "len < length ?p"; cases k) auto
    have ok: "insertion_ok (tokens (drop len p)) h (split_node len k) (r, m)"
      using IH [OF shorter [OF k(5)] wfs] cut [of len] cl rm by simp
    have tok: "tokens p = map Chr (take len ?p) @ tokens (drop len p)" using cut [of len] cl by simp
    show ?thesis
    proof (cases "len < length ?p")
      case False
      then have "split_node len k = k" "take len ?p = ?p" by (cases k; simp)+
      then have "insertion_ok (own_tokens k @ tokens (drop len p)) h n (r, RNode pre (as @ m # bs) g ty nm w)"
        unfolding n k(1) using ok wf n k(1,6) hd by (intro insertion_kid) auto
      then show ?thesis using \<open>take len ?p = ?p\<close> k(3) by (simp add: ins tok own_tokens_def)
    next
      case True
      have "tokens (drop len p) = [] \<or> hd (tokens (drop len p)) \<noteq> Chr (?p ! len)"
      proof (cases "drop len p")
        case (Cons d ds)
        have "d \<noteq> CHR ''<'' \<Longrightarrow> d \<noteq> ?p ! len"
        proof -
          assume d: "d \<noteq> CHR ''<''"
          have "len < length seg"
          proof (rule ccontr)
            assume "\<not> len < length seg"
            then have "drop len p = dropWhile (\<lambda>d. d \<noteq> CHR ''<'') p"
              using cl by (simp add: seg dropWhile_eq_drop)
            then have "dropWhile (\<lambda>d. d \<noteq> CHR ''<'') p = d # ds" using Cons by simp
            then show False using d unfolding dropWhile_eq_Cons_conv by simp
          qed
          moreover from this have "seg ! len = p ! len" unfolding seg by (rule takeWhile_nth)
          moreover have "p ! len = d" using Cons by (metis nth_via_drop)
          ultimately show ?thesis using cl True by auto
        qed
        then show ?thesis using Cons by (auto split: option.splits prod.splits)
      qed simp
      then show ?thesis
        unfolding ins tok unfolding n k(1) using wf n k ok hd True by (intro insertion_split) auto
    qed
  qed
qed

text \<open>The parameter step.\<close>

lemma spec_type_param [simp]: "spec_type t \<noteq> NoParam"
  by (simp add: spec_type_def)

lemma insert_param:
  fixes h :: 'h
  assumes wf: "wf_node n" and p: "p = CHR ''<'' # cs"
    and IH: "\<And>q m names. length q < length p \<Longrightarrow> wf_node m \<Longrightarrow> validate names q = Inr () \<Longrightarrow> insertion_ok (tokens q) h m (insert_at q h m)"
    and val: "validate names p = Inr ()"
  shows "insertion_ok (tokens p) h n (insert_at p h n)"
proof -
  obtain pre ks g ty nm w where n: "n = RNode pre ks g ty nm w" by (cases n)
  obtain spec after where sa: "cut_at CHR ''>'' cs = Some (spec, after)"
    using val p by (auto split: option.splits)
  obtain t x where tx: "split_spec spec = (t, x)" by fastforce
  have ok: "t \<in> {''int'', ''string'', ''path''}" "x \<noteq> []" "validate (insert x names) after = Inr ()"
    using val by (auto simp: p sa tx split: if_splits)
  have shorter: "length after < length p" using cut_at_length [OF sa] p by simp
  let ?T = "spec_type t"
  have tok: "tokens p = Par ?T x # tokens after" by (simp add: p sa tx)
  have kids: "wf_kids ks" using wf n by simp
  note scan = scan_params_spec [OF kids spec_type_param, of t x 0]
  have ins: "insert_at p h n = (case scan_params ?T x 0 ks of
        Inl e \<Rightarrow> (Inl e, n)
      | Inr (Some i) \<Rightarrow>
          let (r, k) = insert_at after h (ks ! i) in (r, RNode pre (ks[i := k]) g ty nm w)
      | Inr None \<Rightarrow>
          let (r, k) = insert_at after h (RNode [] [] None ?T x (t = ''path''))
          in (r, RNode pre (ks @ [k]) g ty nm w))"
    using ok(1,2) by (auto simp: p sa tx n split: sum.splits option.splits prod.splits)
  show ?thesis
  proof (cases "scan_params ?T x 0 ks")
    case (Inl e)
    with scan obtain msg k where k: "e = InvalidArgument msg" "k \<in> set ks" "is_param k" "(ptype k = ?T) \<noteq> (pname k = x)"
      by (auto simp: params_scanned_def)
    then obtain us f where "(us, f) \<in> set (routes k)" using kids by (fastforce simp: wf_kids_def neq_Nil_conv)
    then have "(Par (ptype k) (pname k) # us, f) \<in> set (routes n)"
      unfolding n in_routes using k(2,3) by (auto simp: in_add_prefix own_tokens_def)
    moreover have "conflict (tokens p) (Par (ptype k) (pname k) # us)" using k(4) by (auto simp: tok)
    ultimately have "conflicting (tokens p) n" unfolding conflicting_def by blast
    with Inl ins k(1) show ?thesis by (simp add: insertion_ok_def)
  next
    case (Inr q)
    show ?thesis
    proof (cases q)
      case None
      let ?k = "RNode [] [] None ?T x (t = ''path'') :: 'h radix"
      obtain r m where rm: "insert_at after h ?k = (r, m)" by fastforce
      have own: "own_tokens ?k = Par ?T x # []" by (simp add: own_tokens_def is_param_def)
      have "insertion_ok (tokens after) h ?k (r, m)"
        using IH [OF shorter _ ok(3), of ?k] rm by (simp add: wf_kids_def)
      then have "insertion_ok (own_tokens ?k @ tokens after) h n (r, RNode pre (ks @ [m]) g ty nm w)"
        unfolding n using wf n None Inr scan
        by (intro insertion_new_kid [OF _ own]) (auto simp: is_param_def params_scanned_def)
      then show ?thesis using None Inr rm by (simp add: ins tok own)
    next
      case (Some i)
      with Inr scan obtain as k bs where k: "ks = as @ k # bs" "i = length as" "own_tokens k = [Par ?T x]"
        "is_param k" "\<forall>l \<in> set as \<union> set bs. apart (Par ?T x) l" by (auto simp: params_scanned_def)
      obtain r m where rm: "insert_at after h k = (r, m)" by fastforce
      have wfk: "wf_node k" using wf k(1) n by simp
      have "insertion_ok (own_tokens k @ tokens after) h n (r, RNode pre (as @ m # bs) g ty nm w)"
        unfolding n k(1) using IH [OF shorter wfk ok(3)] rm wf n k(1,3,5) by (intro insertion_kid) auto
      then show ?thesis using Some Inr rm k(1,2,3) by (simp add: ins tok)
    qed
  qed
qed

lemma insert_at_spec:
  "wf_node n \<Longrightarrow> validate names p = Inr () \<Longrightarrow> insertion_ok (tokens p) h n (insert_at p h n)"
proof (induction p arbitrary: n names rule: length_induct)
  case (1 p)
  have IH: "insertion_ok (tokens q) h m (insert_at q h m)"
    if "length q < length p" "wf_node m" "validate names q = Inr ()" for q m names
    using "1.IH" that by blast
  show ?case
  proof (cases p)
    case Nil
    obtain pre ks g ty nm w where n: "n = RNode pre ks g ty nm w" by (cases n)
    have "inserted [] h n (set_handler (Some h) n)"
      using "1.prems"(1) wf_kids_own [of ks]
      unfolding inserted_def n set_handler.simps in_routes
      by (auto simp: same_label_def in_add_prefix)
    then show ?thesis by (simp add: Nil insertion_ok_def conflicting_def)
  next
    case (Cons c cs)
    show ?thesis
    proof (cases "c = CHR ''<''")
      case True
      show ?thesis by (rule insert_param [OF "1.prems"(1) _ IH "1.prems"(2)]) (simp add: Cons True)
    next
      case False
      show ?thesis by (rule insert_static [OF "1.prems"(1) Cons False refl IH "1.prems"(2)])
    qed
  qed
qed

section \<open>The tree and the router\<close>

definition radix_ok :: "'h radix \<Rightarrow> bool" where
  "radix_ok t \<longleftrightarrow> wf_node t \<and> node_prefix t = [] \<and> ptype t = NoParam \<and> fresh_names {} (routes t)"

definition router_ok :: "('m, 'h) router \<Rightarrow> bool" where
  "router_ok R \<longleftrightarrow> (\<forall>m t. map_of (trees R) m = Some t \<longrightarrow> radix_ok t)"

lemma radix_ok_empty: "radix_ok radix_empty"
  by (simp add: radix_ok_def radix_empty_def wf_kids_def)

lemma validate_error: "validate names p = Inl e \<Longrightarrow> \<exists>m. e = InvalidArgument m"
  by (induction names p rule: validate.induct) (auto split: if_splits option.splits prod.splits simp: Let_def)

lemma validate_names: "validate names p = Inr () \<Longrightarrow> distinct (par_names (tokens p)) \<and> set (par_names (tokens p)) \<inter> names = {}"
proof (induction names p rule: validate.induct)
  case (2 names c cs)
  show ?case
  proof (cases "c = CHR ''<''")
    case False
    then show ?thesis using 2 by (auto split: if_splits)
  next
    case True
    then obtain spec after t nm where s: "cut_at CHR ''>'' cs = Some (spec, after)" "split_spec spec = (t, nm)"
      using "2.prems" by (cases "cut_at CHR ''>'' cs"; fastforce)
    then have "nm \<notin> names" "validate (insert nm names) after = Inr ()"
      using "2.prems" True by (auto split: if_splits)
    then show ?thesis using "2.IH"(1) [OF True s(1) refl s(2) [symmetric] refl] "2.prems" True s
      by (auto split: if_splits)
  qed
qed simp

text \<open>When a registration is refused.\<close>

definition refused :: "string \<Rightarrow> 'h option \<Rightarrow> 'h radix \<Rightarrow> bool" where
  "refused p H t \<longleftrightarrow> p = [] \<or> hd p \<noteq> CHR ''/'' \<or> H = None \<or> validate {} p \<noteq> Inr () \<or> conflicting (tokens p) t"

lemma radix_insert_rep:
  assumes "radix_ok t"
  shows "if refused p H t then \<exists>msg. radix_insert p H t = (Inl (InvalidArgument msg), t)
    else \<exists>t'. radix_insert p H t = (Inr (), t') \<and> radix_ok t'
      \<and> (\<forall>us f. (us, f) \<in> set (routes t') \<longleftrightarrow> (if us = tokens p then Some f = H else (us, f) \<in> set (routes t)))"
proof (cases "p = [] \<or> hd p \<noteq> CHR ''/'' \<or> H = None \<or> validate {} p \<noteq> Inr ()")
  case True
  then show ?thesis
    by (auto simp: refused_def radix_insert_def split: option.splits sum.splits dest: validate_error)
next
  case False
  then obtain h where h: "H = Some h" by auto
  from assms have wf: "wf_node t" and fresh: "fresh_names {} (routes t)" by (auto simp: radix_ok_def)
  have run: "radix_insert p H t = insert_at p h t" using False h by (simp add: radix_insert_def)
  have ins: "insertion_ok (tokens p) h t (insert_at p h t)" using insert_at_spec [OF wf, of "{}" p h] False by simp
  have names: "distinct (par_names (tokens p))" using validate_names [of "{}" p] False by simp
  show ?thesis
  proof (cases "conflicting (tokens p) t")
    case True
    then show ?thesis using ins by (simp add: run insertion_ok_def refused_def)
  next
    case no: False
    then obtain m where m: "insert_at p h t = (Inr (), m)" "inserted (tokens p) h t m"
      using ins by (auto simp: insertion_ok_def)
    have "fresh_names {} (routes m)"
      using m(2) fresh names by (auto simp: fresh_names_def inserted_def split: if_splits)
    then have "radix_ok m" using m(2) assms by (simp add: inserted_def radix_ok_def same_label_def)
    moreover have "\<not> refused p H t" using False no by (simp add: refused_def)
    ultimately show ?thesis using m run by (auto simp: h inserted_def)
  qed
qed

lemma radix_search_rep:
  assumes "radix_ok t"
  shows "radix_search path t
      = (case first_match (routes t) path of None \<Rightarrow> None | Some (h, caps) \<Rightarrow> Some (Some h, map_of caps))"
proof -
  have "finds (first_match (routes t) path) (search_node t path Map.empty) Map.empty"
    using search_spec(1) [of t Map.empty path] assms by (simp add: radix_ok_def)
  then show ?thesis
    by (cases "first_match (routes t) path") (auto simp: radix_search_def finds_Some)
qed

text \<open>
  C30: \<open>RadixTree::Insert\<close> refines the update of a finite map from token sequences to handlers.
  It throws exactly for a relative pattern, an empty handler, a malformed pattern, or one that
  meets a registered route at a parameter with only the type or only the name in common, always
  \<open>invalid_argument\<close>; then no node of the tree has changed.  Otherwise exactly the route of the
  pattern is set, all other routes stay, and the tree invariant is kept.
\<close>

theorem radix_insert_correct:
  assumes "radix_ok t"
  shows "if refused p H t then \<exists>msg. radix_insert p H t = (Inl (InvalidArgument msg), t)
    else \<exists>t'. radix_insert p H t = (Inr (), t') \<and> radix_ok t'
      \<and> (\<forall>us f. (us, f) \<in> set (routes t') \<longleftrightarrow> (if us = tokens p then Some f = H else (us, f) \<in> set (routes t)))"
  using assms by (rule radix_insert_rep)

theorem radix_insert_correct_witness:
  "\<exists>t'. radix_insert ''/u/<int:id>'' (Some (7 :: nat)) radix_empty = (Inr (), t')
     \<and> (\<forall>us f. (us, f) \<in> set (routes t')
          \<longleftrightarrow> us = [Chr CHR ''/'', Chr CHR ''u'', Chr CHR ''/'', Par IntParam ''id''] \<and> f = 7)"
proof -
  have "tokens ''/u/<int:id>'' = [Chr CHR ''/'', Chr CHR ''u'', Chr CHR ''/'', Par IntParam ''id'']"
    by (simp add: split_spec_def spec_type_def)
  moreover have "\<not> refused ''/u/<int:id>'' (Some 7) (radix_empty :: nat radix)"
    by (simp add: refused_def split_spec_def is_alnum_def is_digit_def conflicting_def radix_empty_def)
  ultimately show ?thesis
    using radix_insert_correct [OF radix_ok_empty, of "''/u/<int:id>''" "Some (7 :: nat)"]
    by (auto simp: radix_empty_def)
qed

text \<open>
  C31: \<open>RadixTree::Search\<close> terminates and is the first match among the registered routes in the
  order of preference (static children before parameters, else the order of registration), with
  exactly the captured parameters of that route, whatever was tried and undone before; it finds
  nothing exactly when no route matches.
\<close>

theorem radix_search_correct:
  assumes "radix_ok t"
  shows "radix_search path t
      = (case first_match (routes t) path of None \<Rightarrow> None | Some (h, caps) \<Rightarrow> Some (Some h, map_of caps))
    \<and> (radix_search path t = None \<longleftrightarrow> (\<forall>(ts, h) \<in> set (routes t). match_tokens ts path = None))
    \<and> (\<forall>h ps. radix_search path t = Some (h, ps) \<longrightarrow>
        (\<exists>ts caps g. h = Some g \<and> (ts, g) \<in> set (routes t) \<and> match_tokens ts path = Some caps \<and> ps = map_of caps))"
proof -
  note eq = radix_search_rep [OF assms, of path]
  show ?thesis
  proof (cases "first_match (routes t) path")
    case None
    then show ?thesis using eq first_match_None [of "routes t" path] by auto
  next
    case (Some hc)
    obtain h caps where hc: "hc = (h, caps)" by fastforce
    obtain ts where ts: "(ts, h) \<in> set (routes t)" "match_tokens ts path = Some caps"
      using first_match_in [of "routes t" path h caps] Some hc by auto
    then show ?thesis using eq Some hc by fastforce
  qed
qed

theorem radix_search_correct_witness:
  "radix_search ''/u/42'' (snd (radix_insert ''/u/<int:id>'' (Some (7 :: nat)) radix_empty)) = Some (Some 7, [''id'' \<mapsto> ''42''])"
proof -
  let ?t = "snd (radix_insert ''/u/<int:id>'' (Some (7 :: nat)) radix_empty)"
  have t: "?t = RNode [] [RNode ''/u/'' [RNode [] [] (Some 7) IntParam ''id'' False] None NoParam [] False] None NoParam [] False"
    by (simp add: radix_insert_def split_spec_def spec_type_def is_alnum_def is_digit_def radix_empty_def)
  have "radix_ok ?t"
    by (simp add: t radix_ok_def wf_kids_def is_param_def own_tokens_def fresh_names_def)
  moreover have "first_match (routes ?t) ''/u/42'' = Some (7, [(''id'', ''42'')])"
    by (simp add: t is_param_def own_tokens_def is_digit_def)
  ultimately show ?thesis using radix_search_correct [of ?t "''/u/42''"] by simp
qed

lemma update_same: "map_of al k = Some v \<Longrightarrow> AList.update k v al = al"
  by (induction al) auto

lemma tree_of_ok:
  assumes "router_ok R"
  shows "radix_ok (case map_of (trees R) m of None \<Rightarrow> radix_empty | Some t \<Rightarrow> t)"
  using assms radix_ok_empty by (auto simp: router_ok_def split: option.splits)

text \<open>The routes of a method, and what a registration does to them.\<close>

definition method_routes :: "('m, 'h) router \<Rightarrow> 'm \<Rightarrow> 'h route list" where
  "method_routes R m = (case map_of (trees R) m of None \<Rightarrow> [] | Some t \<Rightarrow> routes t)"

lemma router_match_routes:
  assumes "router_ok R"
  shows "router_match m target R =
    (case first_match (method_routes R m) (takeWhile (\<lambda>c. c \<noteq> CHR ''?'') target) of
       None \<Rightarrow> None | Some (h, caps) \<Rightarrow> Some (Some h, map_of caps))"
proof -
  have path: "(case cut_at CHR ''?'' target of None \<Rightarrow> target | Some (q, _) \<Rightarrow> q) = takeWhile (\<lambda>c. c \<noteq> CHR ''?'') target"
    by (induction target) (auto split: option.splits)
  show ?thesis
  proof (cases "map_of (trees R) m")
    case (Some t)
    with assms have "radix_ok t" by (auto simp: router_ok_def)
    from radix_search_rep [OF this] Some show ?thesis
      by (simp add: router_match_def method_routes_def path)
  qed (simp add: router_match_def method_routes_def)
qed

lemma add_route_routes:
  assumes "router_ok R"
  shows "case add_route m p H R of
      (Inl e, R') \<Rightarrow> R' = R
    | (Inr _, R') \<Rightarrow> router_ok R' \<and> H \<noteq> None \<and>
        (\<forall>m' us f. (us, f) \<in> set (method_routes R' m') \<longleftrightarrow>
          (if m' = m \<and> us = tokens p then H = Some f else (us, f) \<in> set (method_routes R m')))"
proof (cases "frozen R")
  case True
  then show ?thesis by (simp add: add_route_def)
next
  case False
  let ?t = "case map_of (trees R) m of None \<Rightarrow> radix_empty | Some t \<Rightarrow> t"
  note ins = radix_insert_rep [OF tree_of_ok [OF assms, of m], of p H]
  have old: "set (method_routes R m) = set (routes ?t)"
    by (simp add: method_routes_def radix_empty_def split: option.split)
  show ?thesis
  proof (cases "refused p H ?t")
    case True
    with ins obtain msg where "radix_insert p H ?t = (Inl (InvalidArgument msg), ?t)" by auto
    then show ?thesis using False
      by (auto simp: add_route_def update_same split: option.splits)
  next
    case no: False
    with ins obtain t' where t': "radix_insert p H ?t = (Inr (), t')" "radix_ok t'"
      "\<forall>us f. (us, f) \<in> set (routes t') \<longleftrightarrow> (if us = tokens p then Some f = H else (us, f) \<in> set (routes ?t))" by auto
    let ?R = "R\<lparr>trees := AList.update m t' (trees R)\<rparr>"
    have run: "add_route m p H R = (Inr (), ?R)"
      using t'(1) False by (auto simp: add_route_def split: option.splits)
    have trees: "map_of (trees ?R) = (map_of (trees R))(m \<mapsto> t')" by (simp add: AList.update_conv')
    have "router_ok ?R" using assms t'(2) unfolding router_ok_def trees by auto
    moreover have "method_routes ?R m = routes t'" "\<And>m'. m' \<noteq> m \<Longrightarrow> method_routes ?R m' = method_routes R m'"
      unfolding method_routes_def trees by simp_all
    then have "(us, f) \<in> set (method_routes ?R m') \<longleftrightarrow>
        (if m' = m \<and> us = tokens p then H = Some f else (us, f) \<in> set (method_routes R m'))" for m' us f
      using t'(3) old by (cases "m' = m") (simp_all, metis)
    moreover have "H \<noteq> None"
      using no by (simp add: refused_def)
    ultimately show ?thesis
      unfolding run by simp
  qed
qed

text \<open>
  A registration on a frozen router throws \<open>logic_error\<close>, a refused one \<open>invalid_argument\<close>,
  and both leave the router unchanged.  After a successful one a target of the same method whose
  path, up to the query string, matches the new pattern is dispatched to a handler, and what
  every other method dispatches is unchanged.
\<close>

theorem add_route_dispatch:
  assumes "router_ok R"
  shows "case add_route m p H R of
      (Inl e, R') \<Rightarrow> R' = R \<and> (if frozen R then \<exists>msg. e = LogicError msg else \<exists>msg. e = InvalidArgument msg)
    | (Inr _, R') \<Rightarrow> \<not> frozen R \<and> router_ok R'
        \<and> (\<forall>path caps. CHR ''?'' \<notin> set path \<longrightarrow> match_tokens (tokens p) path = Some caps \<longrightarrow>
             router_match m path R' \<noteq> None \<and> (\<forall>q. router_match m (path @ CHR ''?'' # q) R' = router_match m path R'))
        \<and> (\<forall>m'. m' \<noteq> m \<longrightarrow> (\<forall>target. router_match m' target R' = router_match m' target R))"
proof (cases "frozen R")
  case True
  then show ?thesis by (simp add: add_route_def)
next
  case False
  let ?t = "case map_of (trees R) m of None \<Rightarrow> radix_empty | Some t \<Rightarrow> t"
  note ins = radix_insert_rep [OF tree_of_ok [OF assms, of m], of p H]
  show ?thesis
  proof (cases "refused p H ?t")
    case True
    with ins obtain msg where "radix_insert p H ?t = (Inl (InvalidArgument msg), ?t)" by auto
    then show ?thesis using False
      by (auto simp: add_route_def update_same split: option.splits)
  next
    case no: False
    with ins obtain t' where t': "radix_insert p H ?t = (Inr (), t')" "radix_ok t'"
      "\<forall>us f. (us, f) \<in> set (routes t') \<longleftrightarrow> (if us = tokens p then Some f = H else (us, f) \<in> set (routes ?t))" by auto
    let ?R = "R\<lparr>trees := AList.update m t' (trees R)\<rparr>"
    have run: "add_route m p H R = (Inr (), ?R)"
      using t'(1) False by (auto simp: add_route_def split: option.splits)
    have trees: "map_of (trees ?R) = (map_of (trees R))(m \<mapsto> t')" by (simp add: AList.update_conv')
    have "router_ok ?R" using assms t'(2) unfolding router_ok_def trees by auto
    moreover have "router_match m' target ?R = router_match m' target R" if "m' \<noteq> m" for m' target
      using that unfolding router_match_def trees by simp
    moreover have "router_match m path ?R \<noteq> None \<and> (\<forall>q. router_match m (path @ CHR ''?'' # q) ?R = router_match m path ?R)"
      if path: "CHR ''?'' \<notin> set path" "match_tokens (tokens p) path = Some caps" for path caps
    proof -
      have cut: "cut_at CHR ''?'' path = None" "cut_at CHR ''?'' (path @ CHR ''?'' # q) = Some (path, q)" for q
        using path(1) by (induction path) auto
      obtain h where "H = Some h" using no by (auto simp: refused_def)
      then have "(tokens p, h) \<in> set (routes t')" using t'(3) by simp
      then have "first_match (routes t') path \<noteq> None" using path(2) by (rule match_found)
      then have "radix_search path t' \<noteq> None" by (auto simp: radix_search_rep [OF t'(2)])
      then show ?thesis unfolding router_match_def trees cut by simp
    qed
    ultimately show ?thesis unfolding run prod.case sum.case using False by blast
  qed
qed

theorem add_route_dispatch_witness:
  "router_match (0 :: nat) ''/u/42?x=1'' (snd (add_route 0 ''/u/<int:id>'' (Some (7 :: nat)) router_new)) \<noteq> None"
proof -
  let ?R = "\<lparr>trees = [(0 :: nat, RNode [] [RNode ''/u/'' [RNode [] [] (Some (7 :: nat)) IntParam ''id'' False] None NoParam [] False] None NoParam [] False)],
          frozen = False\<rparr>"
  have run: "add_route 0 ''/u/<int:id>'' (Some 7) router_new = (Inr (), ?R)"
    by (simp add: add_route_def router_new_def radix_insert_def split_spec_def spec_type_def is_alnum_def is_digit_def radix_empty_def)
  have caps: "match_tokens (tokens ''/u/<int:id>'') ''/u/42'' = Some [(''id'', ''42'')]"
    by (simp add: split_spec_def spec_type_def is_digit_def)
  have "router_ok (router_new :: (nat, nat) router)" by (simp add: router_ok_def router_new_def)
  from add_route_dispatch [where R = router_new and m = "0 :: nat" and p = "''/u/<int:id>''" and H = "Some (7 :: nat)", OF this]
  have "\<forall>path caps. CHR ''?'' \<notin> set path \<longrightarrow> match_tokens (tokens ''/u/<int:id>'') path = Some caps \<longrightarrow>
      router_match 0 path ?R \<noteq> None \<and> (\<forall>q. router_match 0 (path @ CHR ''?'' # q) ?R = router_match 0 path ?R)"
    unfolding run prod.case sum.case by blast
  note all = this [rule_format, OF _ caps]
  have "router_match 0 (''/u/42'' @ CHR ''?'' # ''x=1'') ?R = router_match 0 ''/u/42'' ?R" by (rule all [THEN conjunct2, rule_format]) simp
  moreover have "router_match 0 ''/u/42'' ?R \<noteq> None" by (rule all [THEN conjunct1]) simp
  ultimately show ?thesis unfolding run by simp
qed

end
