(* ===== verification/Applications.thy ===== *)
theory Applications
  imports Prelude
begin

text \<open>
  The lifecycle of \<open>Application\<close> (\<open>Wan/Web/Application/Application.hpp\<close>), with any number of
  threads that call \<open>Start\<close>, \<open>Stop\<close>, \<open>Wait\<close> or the destructor at the same time.  One step of a
  thread is one section under \<open>MemberLifecycleMutex\<close> or one call of the server; the server is
  not modelled, so each of its calls may return or throw any exception (the argument \<open>out\<close>).  The
  call is the step that is taken when it returns; a call that blocks, also one made under the mutex,
  is a step that is never taken, while the model still lets the other threads go on.  The model thus
  has every run of the program and more: what it shows is safety in every interleaving, and it says
  nothing on whether a call ends.
\<close>

section \<open>Configuration\<close>

record app_config =
  drain_timeout :: int
  read_timeout :: int
  write_timeout :: int
  keep_alive_timeout :: int
  max_body_size :: "64 word"
  max_header_size :: "64 word"
  max_connections :: "64 word"
  keep_alive_enabled :: bool
  max_keepalive_requests :: "64 word"

text \<open>\<open>limit\<close> is the range of the steady clock in seconds.\<close>

definition timer_representable :: "int \<Rightarrow> int \<Rightarrow> bool" where
  "timer_representable limit d \<longleftrightarrow> 0 \<le> d \<and> d \<le> limit"

definition validate_configuration :: "int \<Rightarrow> app_config \<Rightarrow> unit res" where
  "validate_configuration limit c =
     (if drain_timeout c < 0 \<or> read_timeout c < 0 \<or> write_timeout c < 0 \<or> keep_alive_timeout c < 0
         \<or> \<not> timer_representable limit (drain_timeout c) \<or> \<not> timer_representable limit (read_timeout c)
         \<or> \<not> timer_representable limit (write_timeout c) \<or> \<not> timer_representable limit (keep_alive_timeout c)
      then Inl (InvalidArgument ''application timeouts are outside the timer range'')
      else if max_body_size c = 0 \<or> max_header_size c = 0 \<or> max_connections c = 0
         \<or> keep_alive_enabled c \<and> max_keepalive_requests c = 0
      then Inl (InvalidArgument ''application resource limits must be positive'')
      else Inr ())"

section \<open>Steps of one thread\<close>

datatype app_state = Created | Starting | Running | Stopping | Stopped | Failed

text \<open>\<open>server_starts\<close> counts the calls of \<open>Server::Start\<close>.\<close>

record app =
  state :: app_state
  failure :: "exn option"
  server_starts :: nat

datatype op = OpStart | OpStop | OpWait

datatype pc =
    CallStart | StartLocked | StartCaught exn
  | CallStop | StopForce | StopGraceful | StopCaught exn | StopForceThrow exn
  | CallWait | WaitKnown exn | WaitServer | WaitCaught exn | WaitFinish
  | Returned op | Threw op exn

definition app_new :: app where
  "app_new = \<lparr>state = Created, failure = None, server_starts = 0\<rparr>"

fun finished :: "pc \<Rightarrow> bool" where
  "finished (Returned _) = True"
| "finished (Threw _ _) = True"
| "finished _ = False"

fun start_step :: "unit res \<Rightarrow> exn option \<Rightarrow> pc \<Rightarrow> app \<Rightarrow> app \<times> pc" where
  "start_step valid out CallStart a =
     (if state a = Running then (a, Returned OpStart)
      else if state a \<noteq> Created
      then (a, Threw OpStart (LogicError ''application cannot start from its current state''))
      else (a\<lparr>state := Starting\<rparr>, StartLocked))"
| "start_step valid out StartLocked a =
     (case valid of
        Inl e \<Rightarrow> (a, StartCaught e)
      | Inr _ \<Rightarrow>
          if state a = Stopping then (a\<lparr>state := Stopped\<rparr>, Returned OpStart)
          else if state a \<noteq> Starting
          then (a, StartCaught (LogicError ''application start was superseded by another lifecycle operation''))
          else (case out of
              None \<Rightarrow> (a\<lparr>server_starts := Suc (server_starts a), state := Running\<rparr>, Returned OpStart)
            | Some e \<Rightarrow> (a\<lparr>server_starts := Suc (server_starts a)\<rparr>, StartCaught e)))"
| "start_step valid out (StartCaught e) a = (a\<lparr>failure := Some e, state := Failed\<rparr>, Threw OpStart e)"
| "start_step valid out p a = (a, p)"

fun stop_step :: "exn option \<Rightarrow> pc \<Rightarrow> app \<Rightarrow> app \<times> pc" where
  "stop_step out CallStop a =
     (if state a = Created then (a\<lparr>state := Stopped\<rparr>, Returned OpStop)
      else if state a = Stopped \<or> state a = Stopping then (a, Returned OpStop)
      else if state a \<noteq> Failed then (a\<lparr>state := Stopping\<rparr>, StopGraceful)
      else (a, StopForce))"
| "stop_step out StopForce a = (case out of None \<Rightarrow> (a, Returned OpStop) | Some e \<Rightarrow> (a, Threw OpStop e))"
| "stop_step out StopGraceful a = (case out of None \<Rightarrow> (a, Returned OpStop) | Some e \<Rightarrow> (a, StopCaught e))"
| "stop_step out (StopCaught e) a = (a\<lparr>failure := Some e, state := Failed\<rparr>, StopForceThrow e)"
| "stop_step out (StopForceThrow e) a =
     (case out of None \<Rightarrow> (a, Threw OpStop e) | Some e' \<Rightarrow> (a, Threw OpStop e'))"
| "stop_step out p a = (a, p)"

fun wait_step :: "exn option \<Rightarrow> pc \<Rightarrow> app \<Rightarrow> app \<times> pc" where
  "wait_step out CallWait a =
     (if state a = Created then (a\<lparr>state := Stopped\<rparr>, Returned OpWait)
      else if state a = Stopped then (a, Returned OpWait)
      else if state a = Failed then
        (case failure a of Some e \<Rightarrow> (a, WaitKnown e) | None \<Rightarrow> (a, WaitServer))
      else (a, WaitServer))"
| "wait_step out (WaitKnown e) a = (a, Threw OpWait e)"
| "wait_step out WaitServer a = (case out of None \<Rightarrow> (a, WaitFinish) | Some e \<Rightarrow> (a, WaitCaught e))"
| "wait_step out (WaitCaught e) a = (a\<lparr>failure := Some e, state := Failed\<rparr>, Threw OpWait e)"
| "wait_step out WaitFinish a =
     (if state a = Starting \<or> state a = Running \<or> state a = Stopping
      then (a\<lparr>state := Stopped\<rparr>, Returned OpWait) else (a, Returned OpWait))"
| "wait_step out p a = (a, p)"

fun op_of :: "pc \<Rightarrow> op" where
  "op_of CallStart = OpStart" | "op_of StartLocked = OpStart" | "op_of (StartCaught _) = OpStart"
| "op_of CallStop = OpStop" | "op_of StopForce = OpStop" | "op_of StopGraceful = OpStop"
| "op_of (StopCaught _) = OpStop" | "op_of (StopForceThrow _) = OpStop"
| "op_of CallWait = OpWait" | "op_of (WaitKnown _) = OpWait" | "op_of WaitServer = OpWait"
| "op_of (WaitCaught _) = OpWait" | "op_of WaitFinish = OpWait"
| "op_of (Returned o') = o'" | "op_of (Threw o' _) = o'"

definition thread_step :: "unit res \<Rightarrow> exn option \<Rightarrow> pc \<Rightarrow> app \<Rightarrow> app \<times> pc" where
  "thread_step valid out p a =
     (case op_of p of
        OpStart \<Rightarrow> start_step valid out p a
      | OpStop \<Rightarrow> stop_step out p a
      | OpWait \<Rightarrow> wait_step out p a)"

section \<open>All threads\<close>

text \<open>A thread that runs the destructor (flag \<open>True\<close>) calls \<open>Stop\<close>, then \<open>Wait\<close> unless \<open>Stop\<close> threw.\<close>

type_synonym thread = "pc \<times> bool"

inductive app_step :: "unit res \<Rightarrow> app \<times> thread list \<Rightarrow> app \<times> thread list \<Rightarrow> bool" for valid where
  run: "i < length ts \<Longrightarrow> ts ! i = (p, d) \<Longrightarrow> \<not> finished p \<Longrightarrow> thread_step valid out p a = (a', p')
    \<Longrightarrow> app_step valid (a, ts) (a', ts[i := (p', d)])"
| destroy: "i < length ts \<Longrightarrow> ts ! i = (Returned OpStop, True)
    \<Longrightarrow> app_step valid (a, ts) (a, ts[i := (CallWait, True)])"

text \<open>A thread about to begin; the destructor begins with \<open>Stop\<close>.\<close>

definition entering :: "thread \<Rightarrow> bool" where
  "entering t \<longleftrightarrow> t \<in> {(CallStart, False), (CallStop, False), (CallWait, False), (CallStop, True)}"

definition reachable :: "unit res \<Rightarrow> thread list \<Rightarrow> app \<times> thread list \<Rightarrow> bool" where
  "reachable valid ts s \<longleftrightarrow> (\<forall>t \<in> set ts. entering t) \<and> (app_step valid)\<^sup>*\<^sup>* (app_new, ts) s"

section \<open>Invariant\<close>

text \<open>What the state of the application tells about a thread at some point of its operation.\<close>

fun pc_ok :: "app_state \<Rightarrow> pc \<Rightarrow> bool" where
  "pc_ok s CallStart = True" | "pc_ok s StartLocked = (s \<noteq> Created \<and> s \<noteq> Running)"
| "pc_ok s (StartCaught _) = (s \<noteq> Created \<and> s \<noteq> Running)"
| "pc_ok s CallStop = True" | "pc_ok s StopForce = (s = Failed)"
| "pc_ok s StopGraceful = (s \<in> {Stopping, Stopped, Failed})"
| "pc_ok s (StopCaught _) = (s \<in> {Stopping, Stopped, Failed})"
| "pc_ok s (StopForceThrow _) = (s = Failed)"
| "pc_ok s CallWait = True" | "pc_ok s (WaitKnown _) = (s = Failed)" | "pc_ok s WaitServer = (s \<noteq> Created)"
| "pc_ok s (WaitCaught _) = (s \<noteq> Created)" | "pc_ok s WaitFinish = (s \<noteq> Created)"
| "pc_ok s (Returned OpStart) = (s \<noteq> Created \<and> s \<noteq> Starting)"
| "pc_ok s (Returned OpStop) = (s \<in> {Stopping, Stopped, Failed})"
| "pc_ok s (Returned OpWait) = (s \<in> {Stopped, Failed})"
| "pc_ok s (Threw OpStart _) = (s \<noteq> Created)"
| "pc_ok s (Threw OpStop _) = (s = Failed)" | "pc_ok s (Threw OpWait _) = (s = Failed)"

definition locked :: "thread list \<Rightarrow> nat" where
  "locked ts = length (filter (\<lambda>t. fst t = StartLocked) ts)"

definition caught :: "thread list \<Rightarrow> nat" where
  "caught ts = length (filter (\<lambda>t. \<exists>e. fst t = StartCaught e) ts)"

text \<open>\<open>l\<close> threads are between the two locks of \<open>Start\<close>, \<open>c\<close> threads are in its handler.\<close>

definition app_ok :: "unit res \<Rightarrow> app \<Rightarrow> nat \<Rightarrow> nat \<Rightarrow> bool" where
  "app_ok valid a l c \<longleftrightarrow>
     (state a = Failed \<longrightarrow> failure a \<noteq> None)
     \<and> server_starts a + l \<le> 1 \<and> l + c \<le> 1
     \<and> (state a = Created \<longrightarrow> server_starts a = 0 \<and> l = 0 \<and> c = 0)
     \<and> (state a = Starting \<longrightarrow> l + c = 1)
     \<and> (state a = Running \<longrightarrow> server_starts a = 1 \<and> l = 0 \<and> c = 0)
     \<and> (server_starts a = 1 \<longrightarrow> valid = Inr ())"

definition app_inv :: "unit res \<Rightarrow> app \<times> thread list \<Rightarrow> bool" where
  "app_inv valid s \<longleftrightarrow> (case s of (a, ts) \<Rightarrow>
     app_ok valid a (locked ts) (caught ts) \<and> (\<forall>t \<in> set ts. pc_ok (state a) (fst t)))"

lemma count_update:
  "i < length ts \<Longrightarrow> length (filter P (ts[i := t])) + (if P (ts ! i) then 1 else 0)
     = length (filter P ts) + (if P t then 1 else 0)"
proof -
  assume i: "i < length ts"
  then have "\<exists>as b bs. ts = as @ b # bs \<and> i = length as"
    using id_take_nth_drop [OF i] by (intro exI [of _ "take i ts"] exI) auto
  then show ?thesis by auto
qed

lemma count_pos: "x \<in> set xs \<Longrightarrow> P x \<Longrightarrow> 0 < length (filter P xs)"
  by (induction xs) auto

text \<open>The state only moves forward.\<close>

fun moves :: "app_state \<Rightarrow> app_state \<Rightarrow> bool" where
  "moves Created s \<longleftrightarrow> s \<in> {Starting, Stopped}"
| "moves Starting s \<longleftrightarrow> s \<in> {Running, Stopping, Stopped, Failed}"
| "moves Running s \<longleftrightarrow> s \<in> {Stopping, Stopped, Failed}"
| "moves Stopping s \<longleftrightarrow> s \<in> {Stopped, Failed}"
| "moves Stopped s \<longleftrightarrow> s = Failed"
| "moves Failed s \<longleftrightarrow> False"

lemma pc_ok_moves:
  assumes "pc_ok s p" and "moves s s'" and "s' = Running \<Longrightarrow> p \<noteq> StartLocked \<and> (\<forall>e. p \<noteq> StartCaught e)"
  shows "pc_ok s' p"
proof (cases p)
  case (Returned q)
  then show ?thesis using assms by (cases q; cases s) auto
next
  case (Threw q e)
  then show ?thesis using assms by (cases q; cases s) auto
qed (use assms in \<open>cases s; auto\<close>)+

lemma thread_step_moves:
  assumes "thread_step valid out p a = (a', p')" and "pc_ok (state a) p"
  shows "state a' = state a \<or> moves (state a) (state a')"
proof (cases "state a")
  case Created
  then show ?thesis using assms
    by (cases p; cases "op_of p") (auto simp: thread_step_def split: if_splits option.splits sum.splits)
next
  case Failed
  then show ?thesis using assms
    by (cases p; cases "op_of p") (auto simp: thread_step_def split: if_splits option.splits sum.splits)
qed (use assms in \<open>cases p; cases "op_of p"; auto simp: thread_step_def split: if_splits option.splits sum.splits\<close>)+

definition is_locked :: "pc \<Rightarrow> nat" where
  "is_locked p = (if p = StartLocked then 1 else 0)"

definition is_caught :: "pc \<Rightarrow> nat" where
  "is_caught p = (if \<exists>e. p = StartCaught e then 1 else 0)"

lemma is_locked_simps [simp]: "is_locked StartLocked = 1" "p \<noteq> StartLocked \<Longrightarrow> is_locked p = 0"
  by (simp_all add: is_locked_def)

lemma is_caught_simps [simp]: "is_caught (StartCaught e) = 1" "(\<And>e. p \<noteq> StartCaught e) \<Longrightarrow> is_caught p = 0"
  by (simp_all add: is_caught_def)

lemma app_ok_failed [simp]: "app_ok valid a l c \<Longrightarrow> app_ok valid (a\<lparr>failure := Some e, state := Failed\<rparr>) l c"
  by (simp add: app_ok_def)

lemma app_ok_stop [simp]: "app_ok valid a l c \<Longrightarrow> s = Stopping \<or> s = Stopped \<Longrightarrow> app_ok valid (a\<lparr>state := s\<rparr>) l c"
  by (elim disjE) (simp_all add: app_ok_def)

lemma app_ok_start: "app_ok valid a l c \<Longrightarrow> state a = Created \<Longrightarrow> app_ok valid (a\<lparr>state := Starting\<rparr>) 1 0"
  by (simp add: app_ok_def)

lemma app_ok_less: "app_ok valid a l c \<Longrightarrow> l' + c' = l + c \<Longrightarrow> l' \<le> l \<Longrightarrow> app_ok valid a l' c'"
  unfolding app_ok_def by (cases "state a") auto

lemma app_ok_leave: "app_ok valid a l c \<Longrightarrow> l' \<le> l \<Longrightarrow> c' \<le> c \<Longrightarrow> state a \<noteq> Starting \<Longrightarrow> app_ok valid a l' c'"
  by (auto simp: app_ok_def)

lemma app_ok_server:
  "app_ok valid a l c \<Longrightarrow> l = 1 \<Longrightarrow> valid = Inr () \<Longrightarrow> state a = Starting
    \<Longrightarrow> app_ok valid (a\<lparr>server_starts := Suc (server_starts a), state := Running\<rparr>) 0 0
      \<and> app_ok valid (a\<lparr>server_starts := Suc (server_starts a)\<rparr>) 0 1"
  by (simp add: app_ok_def)

lemma app_ok_bounds: "app_ok valid a l c \<Longrightarrow> l + c \<le> 1 \<and> (state a = Created \<longrightarrow> l = 0 \<and> c = 0)"
  by (simp add: app_ok_def)

lemma start_step_ok:
  assumes step: "start_step valid out p a = (a', p')" and ok: "app_ok valid a l c" and pc: "pc_ok (state a) p"
    and op: "op_of p = OpStart" "\<not> finished p"
    and l: "l' + is_locked p = l + is_locked p'" "c' + is_caught p = c + is_caught p'"
  shows "app_ok valid a' l' c' \<and> pc_ok (state a') p'"
proof -
  note bounds = app_ok_bounds [OF ok]
  consider (call) "p = CallStart" | (locked) "p = StartLocked" | (caught) e where "p = StartCaught e"
    using op by (cases p) auto
  then show ?thesis
  proof cases
    case call
    show ?thesis
    proof (cases "state a = Created")
      case True
      with call step l bounds have "a' = a\<lparr>state := Starting\<rparr>" "p' = StartLocked" "l' = 1" "c' = 0" by auto
      with app_ok_start [OF ok True] show ?thesis by simp
    next
      case False
      with call step l have "a' = a" "l' = l" "c' = c" by (auto split: if_splits)
      with ok False call step show ?thesis by (auto split: if_splits)
    qed
  next
    case locked
    then have "is_locked p' = 0" using step by (auto split: sum.splits if_splits option.splits)
    then have ll: "l = 1" "c = 0" using l bounds locked by auto
    show ?thesis
    proof (cases "valid = Inr () \<and> state a = Starting")
      case True
      with locked step l ll app_ok_server [OF ok ll(1)] show ?thesis by (cases out) auto
    next
      case False
      consider (stop) "valid = Inr ()" "state a = Stopping" | (no) "valid \<noteq> Inr () \<or> state a \<noteq> Stopping" by blast
      then show ?thesis
      proof cases
        case stop
        with locked step l ll have "a' = a\<lparr>state := Stopped\<rparr>" "p' = Returned OpStart" "l' = 0" "c' = 0" by auto
        with app_ok_leave [OF ok, of 0 0] stop show ?thesis by (auto simp: ll)
      next
        case no
        with locked step False have "a' = a" "\<exists>e. p' = StartCaught e" by (auto split: sum.splits if_splits)
        with l ll locked app_ok_less [OF ok, of 0 1] pc show ?thesis by auto
      qed
    qed
  next
    case caught
    with step l have "a' = a\<lparr>failure := Some e, state := Failed\<rparr>" "p' = Threw OpStart e" "l' = l" "c' \<le> c" by auto
    with app_ok_leave [OF app_ok_failed [OF ok], of l c' e] show ?thesis by simp
  qed
qed

lemma stop_step_ok:
  assumes step: "stop_step out p a = (a', p')" and ok: "app_ok valid a l c" and pc: "pc_ok (state a) p"
    and op: "op_of p = OpStop" "\<not> finished p"
  shows "app_ok valid a' l c \<and> pc_ok (state a') p' \<and> is_locked p' = 0 \<and> is_caught p' = 0"
proof -
  consider "p = CallStop" | "p = StopForce" | "p = StopGraceful" | e where "p = StopCaught e" | e where "p = StopForceThrow e"
    using op by (cases p) auto
  then show ?thesis
  proof cases
    case 1
    with step ok show ?thesis by (cases "state a") auto
  next
    case 4
    with step ok show ?thesis by auto
  qed (use step ok pc in \<open>cases out; auto\<close>)+
qed

lemma wait_step_ok:
  assumes step: "wait_step out p a = (a', p')" and ok: "app_ok valid a l c" and pc: "pc_ok (state a) p"
    and op: "op_of p = OpWait" "\<not> finished p"
  shows "app_ok valid a' l c \<and> pc_ok (state a') p' \<and> is_locked p' = 0 \<and> is_caught p' = 0"
proof -
  consider "p = CallWait" | e where "p = WaitKnown e" | "p = WaitServer" | e where "p = WaitCaught e" | "p = WaitFinish"
    using op by (cases p) auto
  then show ?thesis
  proof cases
    case 1
    with step ok show ?thesis by (cases "state a"; cases "failure a") auto
  next
    case 5
    with step ok pc show ?thesis by (cases "state a") auto
  qed (use step ok pc in \<open>cases out; auto\<close>)+
qed

lemma thread_step_ok:
  assumes step: "thread_step valid out p a = (a', p')" and ok: "app_ok valid a l c" "pc_ok (state a) p" "\<not> finished p"
    and l: "l' + is_locked p = l + is_locked p'" "c' + is_caught p = c + is_caught p'"
  shows "app_ok valid a' l' c' \<and> pc_ok (state a') p'"
proof (cases "op_of p")
  case OpStart
  then show ?thesis using step start_step_ok [OF _ ok(1,2) _ ok(3) l] by (simp add: thread_step_def)
next
  case OpStop
  then have "is_locked p = 0" "is_caught p = 0" by (cases p; simp)+
  then show ?thesis using OpStop step stop_step_ok [OF _ ok(1,2) _ ok(3)] l by (simp add: thread_step_def)
next
  case OpWait
  then have "is_locked p = 0" "is_caught p = 0" by (cases p; simp)+
  then show ?thesis using OpWait step wait_step_ok [OF _ ok(1,2) _ ok(3)] l by (simp add: thread_step_def)
qed

lemma inv_step:
  assumes "app_step valid (a, ts) (a', ts')" and "app_inv valid (a, ts)"
  shows "app_inv valid (a', ts')"
  using assms(1)
proof cases
  case (run i p d out p')
  let ?t = "(p', d)"
  from run have i: "i < length ts" "ts ! i = (p, d)" "(p, d) \<in> set ts" by (auto dest: nth_mem)
  have inv: "app_ok valid a (locked ts) (caught ts)" "\<forall>t \<in> set ts. pc_ok (state a) (fst t)"
    using assms(2) by (auto simp: app_inv_def)
  have ok: "pc_ok (state a) p" using inv(2) i(3) by force
  have "locked ts' + is_locked p = locked ts + is_locked p'" "caught ts' + is_caught p = caught ts + is_caught p'"
    using count_update [OF i(1), of "\<lambda>t. fst t = StartLocked" ?t]
      count_update [OF i(1), of "\<lambda>t. \<exists>e. fst t = StartCaught e" ?t] i(2) run(1)
    by (simp_all add: locked_def caught_def is_locked_def is_caught_def)
  from thread_step_ok [OF run(5) inv(1) ok run(4) this]
  have new: "app_ok valid a' (locked ts') (caught ts')" "pc_ok (state a') p'" by auto
  have "pc_ok (state a') (fst t)" if t: "t \<in> set ts'" for t
  proof (cases "t = ?t")
    case False
    then have "t \<in> set ts" using t run(1) set_update_subset_insert [of ts i ?t] by auto
    then have old: "pc_ok (state a) (fst t)" using inv(2) by blast
    from thread_step_moves [OF run(5) ok] show ?thesis
    proof
      assume "moves (state a) (state a')"
      then show ?thesis
      proof (rule pc_ok_moves [OF old])
        assume "state a' = Running"
        with new have "locked ts' = 0" "caught ts' = 0" by (auto simp: app_ok_def)
        then show "fst t \<noteq> StartLocked \<and> (\<forall>e. fst t \<noteq> StartCaught e)"
          using t by (auto simp: locked_def caught_def filter_empty_conv)
      qed
    qed (use old in simp)
  qed (use new in simp)
  with new show ?thesis by (simp add: app_inv_def)
next
  case (destroy i)
  have "locked ts' = locked ts" "caught ts' = caught ts"
    using count_update [OF destroy(3), of "\<lambda>t. fst t = StartLocked" "(CallWait, True)"]
      count_update [OF destroy(3), of "\<lambda>t. \<exists>e. fst t = StartCaught e" "(CallWait, True)"] destroy(2,4)
    by (simp_all add: locked_def caught_def)
  moreover have "\<forall>t \<in> set ts'. pc_ok (state a) (fst t)"
    using assms(2) set_update_subset_insert [of ts i "(CallWait, True)"] destroy(2) by (auto simp: app_inv_def)
  ultimately show ?thesis using assms(2) destroy(1) by (simp add: app_inv_def)
qed

lemma inv_init: "\<forall>t \<in> set ts. entering t \<Longrightarrow> app_inv valid (app_new, ts)"
proof -
  assume e: "\<forall>t \<in> set ts. entering t"
  have first: "fst t \<noteq> StartLocked \<and> (\<forall>e. fst t \<noteq> StartCaught e) \<and> pc_ok Created (fst t)" if "entering t" for t
    using that by (auto simp: entering_def)
  then have "\<forall>t \<in> set ts. fst t \<noteq> StartLocked \<and> (\<forall>e. fst t \<noteq> StartCaught e)" using e by blast
  then have "locked ts = 0" "caught ts = 0" by (simp_all add: locked_def caught_def filter_empty_conv)
  moreover have "\<forall>t \<in> set ts. pc_ok Created (fst t)" using e first by blast
  ultimately show ?thesis by (simp add: app_inv_def app_ok_def app_new_def)
qed

lemma inv_reachable: "reachable valid ts s \<Longrightarrow> app_inv valid s"
proof -
  assume r: "reachable valid ts s"
  then have "(app_step valid)\<^sup>*\<^sup>* (app_new, ts) s" by (simp add: reachable_def)
  then show ?thesis
  proof induction
    case base
    then show ?case using r inv_init by (simp add: reachable_def)
  next
    case (step s s')
    then show ?case using inv_step by (cases s; cases s') blast
  qed
qed

section \<open>Properties\<close>

lemma valid_configuration:
  "validate_configuration limit cfg = Inr () \<Longrightarrow>
     drain_timeout cfg \<in> {0..limit} \<and> read_timeout cfg \<in> {0..limit}
        \<and> write_timeout cfg \<in> {0..limit} \<and> keep_alive_timeout cfg \<in> {0..limit}
        \<and> max_body_size cfg \<noteq> 0 \<and> max_header_size cfg \<noteq> 0 \<and> max_connections cfg \<noteq> 0
        \<and> (keep_alive_enabled cfg \<longrightarrow> max_keepalive_requests cfg \<noteq> 0)"
  by (auto simp: validate_configuration_def timer_representable_def split: if_splits)

text \<open>
  C32: in every interleaving of the lifecycle operations, whatever the server calls return or
  throw: the server is started at most once and only with a valid configuration; the application
  runs only after that; it stays in \<open>Starting\<close> only while a thread is inside \<open>Start\<close>; a failure
  is always recorded; after \<open>Stop\<close> returned it never runs again, and after \<open>Wait\<close> returned it is
  stopped or failed; and one more step moves the state only forward.
\<close>

theorem app_lifecycle_safe:
  assumes "reachable (validate_configuration limit cfg) ts0 (a, ts)"
  shows "server_starts a \<le> 1
    \<and> (server_starts a = 1 \<longrightarrow> drain_timeout cfg \<in> {0..limit} \<and> read_timeout cfg \<in> {0..limit}
        \<and> write_timeout cfg \<in> {0..limit} \<and> keep_alive_timeout cfg \<in> {0..limit}
        \<and> max_body_size cfg \<noteq> 0 \<and> max_header_size cfg \<noteq> 0 \<and> max_connections cfg \<noteq> 0
        \<and> (keep_alive_enabled cfg \<longrightarrow> max_keepalive_requests cfg \<noteq> 0))
    \<and> (state a = Running \<longrightarrow> server_starts a = 1)
    \<and> (state a = Starting \<longrightarrow> (\<exists>t \<in> set ts. fst t = StartLocked \<or> (\<exists>e. fst t = StartCaught e)))
    \<and> (state a = Failed \<longrightarrow> failure a \<noteq> None)
    \<and> (\<forall>t \<in> set ts. fst t = Returned OpStop \<longrightarrow> state a \<in> {Stopping, Stopped, Failed})
    \<and> (\<forall>t \<in> set ts. fst t = Returned OpWait \<longrightarrow> state a \<in> {Stopped, Failed})
    \<and> (\<forall>a' ts'. app_step (validate_configuration limit cfg) (a, ts) (a', ts') \<longrightarrow> state a' = state a \<or> moves (state a) (state a'))"
proof (intro conjI)
  from inv_reachable [OF assms] have ok: "app_ok (validate_configuration limit cfg) a (locked ts) (caught ts)"
    and pc: "\<forall>t \<in> set ts. pc_ok (state a) (fst t)" by (auto simp: app_inv_def)
  show "server_starts a = 1 \<longrightarrow> drain_timeout cfg \<in> {0..limit} \<and> read_timeout cfg \<in> {0..limit}
        \<and> write_timeout cfg \<in> {0..limit} \<and> keep_alive_timeout cfg \<in> {0..limit}
        \<and> max_body_size cfg \<noteq> 0 \<and> max_header_size cfg \<noteq> 0 \<and> max_connections cfg \<noteq> 0
        \<and> (keep_alive_enabled cfg \<longrightarrow> max_keepalive_requests cfg \<noteq> 0)"
  proof
    assume "server_starts a = 1"
    with ok have "validate_configuration limit cfg = Inr ()" by (simp add: app_ok_def)
    then show "drain_timeout cfg \<in> {0..limit} \<and> read_timeout cfg \<in> {0..limit}
        \<and> write_timeout cfg \<in> {0..limit} \<and> keep_alive_timeout cfg \<in> {0..limit}
        \<and> max_body_size cfg \<noteq> 0 \<and> max_header_size cfg \<noteq> 0 \<and> max_connections cfg \<noteq> 0
        \<and> (keep_alive_enabled cfg \<longrightarrow> max_keepalive_requests cfg \<noteq> 0)" by (rule valid_configuration)
  qed
  from ok show "server_starts a \<le> 1" "state a = Running \<longrightarrow> server_starts a = 1" "state a = Failed \<longrightarrow> failure a \<noteq> None"
    by (auto simp: app_ok_def)
  show "state a = Starting \<longrightarrow> (\<exists>t \<in> set ts. fst t = StartLocked \<or> (\<exists>e. fst t = StartCaught e))"
  proof
    assume "state a = Starting"
    with ok have "locked ts + caught ts = 1" by (simp add: app_ok_def)
    then show "\<exists>t \<in> set ts. fst t = StartLocked \<or> (\<exists>e. fst t = StartCaught e)"
      by (rule contrapos_pp) (simp add: locked_def caught_def filter_empty_conv)
  qed
  from pc show "\<forall>t \<in> set ts. fst t = Returned OpStop \<longrightarrow> state a \<in> {Stopping, Stopped, Failed}"
    "\<forall>t \<in> set ts. fst t = Returned OpWait \<longrightarrow> state a \<in> {Stopped, Failed}" by force+
  show "\<forall>a' ts'. app_step (validate_configuration limit cfg) (a, ts) (a', ts') \<longrightarrow> state a' = state a \<or> moves (state a) (state a')"
  proof (intro allI impI)
    fix a' ts' assume "app_step (validate_configuration limit cfg) (a, ts) (a', ts')"
    then show "state a' = state a \<or> moves (state a) (state a')"
    proof cases
      case (run i p d out p')
      then have "pc_ok (state a) p" using pc by (metis fst_conv nth_mem)
      then show ?thesis using thread_step_moves [OF run(5)] by simp
    qed simp
  qed
qed

lemma one_start_reachable:
  "reachable (Inr ()) [(CallStart, False)] (\<lparr>state = Running, failure = None, server_starts = 1\<rparr>, [(Returned OpStart, False)])"
proof -
  have 1: "app_step (Inr ()) (app_new, [(CallStart, False)]) (app_new\<lparr>state := Starting\<rparr>, [(StartLocked, False)])"
    using app_step.run [of 0 "[(CallStart, False)]" CallStart False "Inr ()" None app_new]
    by (simp add: thread_step_def app_new_def)
  have 2: "app_step (Inr ()) (app_new\<lparr>state := Starting\<rparr>, [(StartLocked, False)])
      (\<lparr>state = Running, failure = None, server_starts = 1\<rparr>, [(Returned OpStart, False)])"
    using app_step.run [of 0 "[(StartLocked, False)]" StartLocked False "Inr ()" None "app_new\<lparr>state := Starting\<rparr>"]
    by (simp add: thread_step_def app_new_def)
  show ?thesis unfolding reachable_def
    using converse_rtranclp_into_rtranclp [of "app_step (Inr ())", OF 1 r_into_rtranclp [of "app_step (Inr ())", OF 2]]
    by (simp add: entering_def)
qed

theorem app_lifecycle_safe_witness:
  "\<exists>cfg a ts. reachable (validate_configuration 9223372036 cfg) [(CallStart, False)] (a, ts) \<and> state a = Running
     \<and> drain_timeout cfg = 10 \<and> drain_timeout cfg \<in> {0..9223372036} \<and> server_starts a = 1"
proof -
  let ?cfg = "\<lparr>drain_timeout = 10, read_timeout = 30, write_timeout = 30, keep_alive_timeout = 30,
    max_body_size = 10485760, max_header_size = 65536, max_connections = 10000,
    keep_alive_enabled = True, max_keepalive_requests = 100\<rparr>"
  have "validate_configuration 9223372036 ?cfg = Inr ()" by (simp add: validate_configuration_def timer_representable_def)
  then have run: "reachable (validate_configuration 9223372036 ?cfg) [(CallStart, False)]
      (\<lparr>state = Running, failure = None, server_starts = 1\<rparr>, [(Returned OpStart, False)])"
    using one_start_reachable by simp
  have "drain_timeout ?cfg \<in> {0..9223372036}"
    by (rule app_lifecycle_safe [OF run, THEN conjunct2, THEN conjunct1, THEN mp, THEN conjunct1]) simp
  with run show ?thesis
    by (intro exI [of _ ?cfg] exI [of _ "\<lparr>state = Running, failure = None, server_starts = 1\<rparr>"]
        exI [of _ "[(Returned OpStart, False)]"]) simp
qed

end
