(* ===== verification/Contexts.thy ===== *)
theory Contexts
  imports Prelude
begin

text \<open>
  The request parsing and the cookies of \<open>Context\<close> (\<open>Wan/Web/Core/Context.hpp\<close>).  The target and the
  \<open>Cookie\<close> field of the request are inputs of the model, the \<open>Set-Cookie\<close> fields of the response
  its output; the other calls of the HTTP library are not modelled.  Positions are those of
  \<open>std::string_view\<close>: \<open>find\<close> gives an index or nothing, and the counts of \<open>substr\<close> are 64-bit
  differences that wrap.
\<close>

section \<open>Positions in a string\<close>

fun find_char :: "char \<Rightarrow> string \<Rightarrow> nat option" where
  "find_char c [] = None"
| "find_char c (d # ds) = (if d = c then Some 0 else map_option Suc (find_char c ds))"

definition substr :: "nat \<Rightarrow> 64 word \<Rightarrow> string \<Rightarrow> string" where
  "substr i n s = take (unat n) (drop i s)"

text \<open>The count \<open>end - begin - 1\<close> of the sources.\<close>

definition count_between :: "nat \<Rightarrow> nat \<Rightarrow> 64 word" where
  "count_between i j = of_nat j - of_nat i - 1"

lemma find_char_Some: "find_char c s = Some i \<Longrightarrow> s = take i s @ c # drop (Suc i) s \<and> c \<notin> set (take i s) \<and> i < length s"
  by (induction c s arbitrary: i rule: find_char.induct) (auto split: if_splits)

lemma find_char_append: "c \<notin> set a \<Longrightarrow> find_char c (a @ c # b) = Some (length a)"
  by (induction a) auto

lemma find_char_skip: "c \<notin> set a \<Longrightarrow> find_char c (a @ b) = map_option ((+) (length a)) (find_char c b)"
  by (cases "find_char c b"; induction a) auto

lemma find_char_None: "find_char c s = None \<longleftrightarrow> c \<notin> set s"
  by (induction s) auto

section \<open>Query strings\<close>

definition hex_value :: "char \<Rightarrow> nat option" where
  "hex_value c =
     (let n = of_char c :: nat in
      if 48 \<le> n \<and> n \<le> 57 then Some (n - 48)
      else if 97 \<le> n \<and> n \<le> 102 then Some (n - 97 + 10)
      else if 65 \<le> n \<and> n \<le> 70 then Some (n - 65 + 10)
      else None)"

fun decode_query_component :: "string \<Rightarrow> string" where
  "decode_query_component [] = []"
| "decode_query_component (c # cs) =
     (if c = CHR ''+'' then CHR '' '' # decode_query_component cs
      else if c = CHR ''%'' \<and> 2 \<le> length cs then
        (case (hex_value (cs ! 0), hex_value (cs ! 1)) of
           (Some h, Some l) \<Rightarrow> char_of (16 * h + l) # decode_query_component (drop 2 cs)
         | _ \<Rightarrow> c # decode_query_component cs)
      else c # decode_query_component cs)"

type_synonym fields = "string \<Rightarrow> string option"

text \<open>The loop of \<open>ParseQuery\<close> after the question mark.\<close>

function query_loop :: "string \<Rightarrow> fields \<Rightarrow> fields" where
  "query_loop q m =
     (if q = [] then m
      else
        let eq = find_char CHR ''='' q; amp = find_char CHR ''&'' q;
          send = (case amp of Some a \<Rightarrow> a | None \<Rightarrow> length q);
          (k, v) =
            (case eq of
               Some e \<Rightarrow>
                 if amp = None \<or> e < the amp
                 then (decode_query_component (take e q),
                       decode_query_component (substr (Suc e) (count_between e send) q))
                 else (decode_query_component (take send q), [])
             | None \<Rightarrow> (decode_query_component (take send q), []));
          m' = m(k \<mapsto> v)
        in (case amp of Some a \<Rightarrow> query_loop (drop (Suc a) q) m' | None \<Rightarrow> m'))"
  by pat_completeness auto
termination
  by (relation "measure (length \<circ> fst)") (auto dest: find_char_Some)

declare query_loop.simps [simp del]

definition parse_query :: "string \<Rightarrow> fields" where
  "parse_query target =
     (case find_char CHR ''?'' target of
        None \<Rightarrow> Map.empty
      | Some p \<Rightarrow> query_loop (drop (Suc p) target) Map.empty)"

section \<open>Cookies\<close>

text \<open>The loop of \<open>ParseCookies\<close> over the header value.\<close>

function cookie_loop :: "string \<Rightarrow> fields \<Rightarrow> fields" where
  "cookie_loop s m =
     (if s = [] then m
      else
        case find_char CHR ''='' s of
          None \<Rightarrow> m
        | Some e \<Rightarrow>
            let semi = find_char CHR '';'' s;
              vend = (case semi of Some p \<Rightarrow> p | None \<Rightarrow> length s);
              m' = m(take e s \<mapsto> substr (Suc e) (count_between e vend) s)
            in (case semi of
                  Some p \<Rightarrow> cookie_loop (dropWhile (\<lambda>c. c = CHR '' '') (drop (Suc p) s)) m'
                | None \<Rightarrow> m'))"
  by pat_completeness auto
termination
proof (relation "measure (length \<circ> fst)", goal_cases)
  case (2 s m e semi vend m' p)
  then have "p < length s" using find_char_Some by metis
  then show ?case
    using length_dropWhile_le [of "\<lambda>c. c = CHR '' ''" "drop (Suc p) s"] by auto
qed simp

declare cookie_loop.simps [simp del]

record cookie_options =
  max_age :: int
  path :: string
  domain :: string
  secure :: bool
  http_only :: bool
  same_site :: string

record http_context =
  target :: string
  cookie_field :: "string option"
  path_params :: fields
  query_params :: fields
  cookies :: fields
  cookies_parsed :: bool
  set_cookies :: "string list"

definition context_new :: "string \<Rightarrow> string option \<Rightarrow> http_context" where
  "context_new t c = \<lparr>target = t, cookie_field = c, path_params = Map.empty,
     query_params = parse_query t, cookies = Map.empty, cookies_parsed = False, set_cookies = []\<rparr>"

definition set_params :: "fields \<Rightarrow> http_context \<Rightarrow> http_context" where
  "set_params ps c = c\<lparr>path_params := ps\<rparr>"

text \<open>\<open>Param\<close>, \<open>Query\<close> and \<open>Cookie\<close> answer the empty string for a missing name.\<close>

definition field_or_empty :: "fields \<Rightarrow> string \<Rightarrow> string" where
  "field_or_empty m n = (case m n of Some v \<Rightarrow> v | None \<Rightarrow> [])"

definition param :: "string \<Rightarrow> http_context \<Rightarrow> string" where
  "param n c = field_or_empty (path_params c) n"

definition has_param :: "string \<Rightarrow> http_context \<Rightarrow> bool" where
  "has_param n c \<longleftrightarrow> path_params c n \<noteq> None"

definition query :: "string \<Rightarrow> http_context \<Rightarrow> string" where
  "query n c = field_or_empty (query_params c) n"

definition has_query :: "string \<Rightarrow> http_context \<Rightarrow> bool" where
  "has_query n c \<longleftrightarrow> query_params c n \<noteq> None"

definition parse_cookies :: "http_context \<Rightarrow> http_context" where
  "parse_cookies c =
     (if cookies_parsed c then c
      else let c' = c\<lparr>cookies_parsed := True\<rparr> in
        case cookie_field c of
          None \<Rightarrow> c'
        | Some s \<Rightarrow> c'\<lparr>cookies := cookie_loop s (cookies c')\<rparr>)"

definition cookie :: "string \<Rightarrow> http_context \<Rightarrow> string \<times> http_context" where
  "cookie n c = (let c' = parse_cookies c in (field_or_empty (cookies c') n, c'))"

definition has_cookie :: "string \<Rightarrow> http_context \<Rightarrow> bool \<times> http_context" where
  "has_cookie n c = (let c' = parse_cookies c in (cookies c' n \<noteq> None, c'))"

definition has_forbidden :: "string \<Rightarrow> string \<Rightarrow> bool" where
  "has_forbidden text forbidden \<longleftrightarrow> (\<exists>c \<in> set text. c \<in> set forbidden)"

definition has_control :: "string \<Rightarrow> bool" where
  "has_control text \<longleftrightarrow> (\<exists>c \<in> set text. (of_char c :: nat) < 32 \<or> (of_char c :: nat) = 127)"

abbreviation crlf :: string where
  "crlf \<equiv> [CHR 0x0D, CHR 0x0A]"

definition invalid_cookie :: "string \<Rightarrow> string \<Rightarrow> cookie_options \<Rightarrow> bool" where
  "invalid_cookie n v o' \<longleftrightarrow> n = [] \<or> has_forbidden n (''=;,'' @ crlf) \<or> has_forbidden v ('';'' @ crlf)
     \<or> has_forbidden (path o') ('';'' @ crlf) \<or> has_forbidden (domain o') ('';,'' @ crlf)
     \<or> has_forbidden (same_site o') ('';,'' @ crlf)
     \<or> has_control n \<or> has_control v \<or> has_control (path o') \<or> has_control (domain o') \<or> has_control (same_site o')"

text \<open>The attributes that follow the pair, each after a semicolon and a space.\<close>

definition cookie_attributes :: "cookie_options \<Rightarrow> string list" where
  "cookie_attributes o' =
     (if max_age o' \<noteq> 0 then [''Max-Age='' @ int_text (max_age o')] else [])
     @ (if path o' \<noteq> [] then [''Path='' @ path o'] else [])
     @ (if domain o' \<noteq> [] then [''Domain='' @ domain o'] else [])
     @ (if secure o' then [''Secure''] else [])
     @ (if http_only o' then [''HttpOnly''] else [])
     @ (if same_site o' \<noteq> [] then [''SameSite='' @ same_site o'] else [])"

definition cookie_string :: "string \<Rightarrow> string \<Rightarrow> cookie_options \<Rightarrow> string" where
  "cookie_string n v o' = n @ ''='' @ v @ concat (map (\<lambda>a. ''; '' @ a) (cookie_attributes o'))"

definition set_cookie :: "string \<Rightarrow> string \<Rightarrow> cookie_options \<Rightarrow> http_context \<Rightarrow> unit res \<times> http_context" where
  "set_cookie n v o' c =
     (if invalid_cookie n v o' then (Inl (InvalidArgument ''invalid cookie component''), c)
      else (Inr (), c\<lparr>set_cookies := set_cookies c @ [cookie_string n v o']\<rparr>))"

end
