(* ===== verification/ContextLaws.thy ===== *)
theory ContextLaws
  imports Contexts
begin

text \<open>
  Round trips of \<open>Context\<close>: every query string a client renders from names and values, whatever it
  escapes beyond the reserved characters, is read back as these names and values; every cookie
  \<open>SetCookie\<close> accepts is one header line with exactly the requested attributes, and the pair the
  client sends back is read back.
\<close>

section \<open>Counts\<close>

lemma substr_between:
  assumes "e < j" and "j \<le> length s" and "length s < 2 ^ 64"
  shows "substr (Suc e) (count_between e j) s = take (j - Suc e) (drop (Suc e) s)"
proof -
  have "count_between e j = of_nat (j - Suc e)" using assms(1) by (simp add: count_between_def of_nat_diff)
  moreover have "j - Suc e < 2 ^ 64" using assms by linarith
  ultimately have "unat (count_between e j) = j - Suc e" by (simp add: unat_of_nat)
  then show ?thesis by (simp add: substr_def)
qed

section \<open>Queries\<close>

definition hex_digit :: "nat \<Rightarrow> char" where
  "hex_digit n = char_of (if n < 10 then 48 + n else 87 + n)"

definition encode_char :: "(char \<Rightarrow> bool) \<Rightarrow> char \<Rightarrow> string" where
  "encode_char keep c =
     (if keep c then [c] else [CHR ''%'', hex_digit (of_char c div 16), hex_digit (of_char c mod 16)])"

definition encode :: "(char \<Rightarrow> bool) \<Rightarrow> string \<Rightarrow> string" where
  "encode keep s = concat (map (encode_char keep) s)"

fun render_query :: "(char \<Rightarrow> bool) \<Rightarrow> (string \<times> string) list \<Rightarrow> string" where
  "render_query keep [] = []"
| "render_query keep [(k, v)] = encode keep k @ CHR ''='' # encode keep v"
| "render_query keep ((k, v) # kv # kvs) =
     encode keep k @ CHR ''='' # encode keep v @ CHR ''&'' # render_query keep (kv # kvs)"

text \<open>The characters a client must escape in a name or value.\<close>

definition keeps_plain :: "(char \<Rightarrow> bool) \<Rightarrow> bool" where
  "keeps_plain keep \<longleftrightarrow> \<not> keep CHR ''%'' \<and> \<not> keep CHR ''+'' \<and> \<not> keep CHR ''&'' \<and> \<not> keep CHR ''=''"

lemma hex_digit_code: "n < 16 \<Longrightarrow> of_char (hex_digit n) = (if n < 10 then 48 + n else 87 + n)"
  by (simp add: hex_digit_def)

lemma hex_value_digit: "n < 16 \<Longrightarrow> hex_value (hex_digit n) = Some n"
  by (auto simp: hex_value_def hex_digit_code Let_def)

lemma hex_digit_plain: "n < 16 \<Longrightarrow> hex_digit n \<notin> {CHR ''&'', CHR ''=''}"
  using hex_digit_code [of n] by (auto split: if_splits)

lemma char_nat: "of_char c < (256 :: nat)"
proof -
  have "of_char c mod 256 < (256 :: nat)" by (rule mod_less_divisor) simp
  then show ?thesis by simp
qed

lemma char_nibbles: "of_char c div 16 < (16 :: nat)" "of_char c mod 16 < (16 :: nat)"
  using char_nat [of c] by (simp_all add: less_mult_imp_div_less)

lemma decode_encode:
  assumes "keeps_plain keep"
  shows "decode_query_component (encode keep s) = s"
proof (induction s)
  case (Cons c s)
  show ?case
  proof (cases "keep c")
    case True
    then show ?thesis using assms Cons by (auto simp: encode_def encode_char_def keeps_plain_def)
  next
    case False
    let ?n = "of_char c :: nat"
    note n = char_nibbles [of c]
    have "char_of (16 * (?n div 16) + ?n mod 16) = c" by simp
    then show ?thesis using False Cons n by (simp add: encode_def encode_char_def hex_value_digit)
  qed
qed (simp add: encode_def)

lemma encode_plain:
  assumes "keeps_plain keep"
  shows "CHR ''&'' \<notin> set (encode keep s)" "CHR ''='' \<notin> set (encode keep s)"
proof -
  have "c \<notin> {CHR ''&'', CHR ''=''}" if "c \<in> set (encode_char keep d)" for c d
    using that assms hex_digit_plain [OF char_nibbles(1) [of d]] hex_digit_plain [OF char_nibbles(2) [of d]]
    by (auto simp: encode_char_def keeps_plain_def split: if_splits)
  then show "CHR ''&'' \<notin> set (encode keep s)" "CHR ''='' \<notin> set (encode keep s)"
    by (auto simp: encode_def)
qed

lemma query_step:
  assumes k: "CHR ''='' \<notin> set k" "CHR ''&'' \<notin> set k" and v: "CHR ''&'' \<notin> set v"
    and len: "length (k @ CHR ''='' # v) < 2 ^ 64"
  shows "query_loop (k @ CHR ''='' # v) m = m(decode_query_component k \<mapsto> decode_query_component v)"
    and "length (k @ CHR ''='' # v @ CHR ''&'' # rest) < 2 ^ 64
      \<Longrightarrow> query_loop (k @ CHR ''='' # v @ CHR ''&'' # rest) m
        = query_loop rest (m(decode_query_component k \<mapsto> decode_query_component v))"
proof -
  let ?q = "k @ CHR ''='' # v"
  have eq: "find_char CHR ''='' ?q = Some (length k)" using k by (simp add: find_char_append)
  have amp: "find_char CHR ''&'' ?q = None" using k v by (simp add: find_char_None)
  have "substr (Suc (length k)) (count_between (length k) (length ?q)) ?q = v"
    using substr_between [of "length k" "length ?q" ?q] len by simp
  then show "query_loop ?q m = m(decode_query_component k \<mapsto> decode_query_component v)"
    by (subst query_loop.simps) (simp add: eq amp Let_def)
next
  assume len: "length (k @ CHR ''='' # v @ CHR ''&'' # rest) < 2 ^ 64"
  let ?q = "k @ CHR ''='' # v @ CHR ''&'' # rest"
  have eq: "find_char CHR ''='' ?q = Some (length k)" using k by (simp add: find_char_append)
  have amp: "find_char CHR ''&'' ?q = Some (Suc (length k + length v))"
    using k v find_char_append [of "CHR ''&''" "k @ CHR ''='' # v" rest] by simp
  have "substr (Suc (length k)) (count_between (length k) (Suc (length k + length v))) ?q = v"
    using substr_between [of "length k" "Suc (length k + length v)" ?q] len by simp
  then show "query_loop ?q m = query_loop rest (m(decode_query_component k \<mapsto> decode_query_component v))"
    by (subst query_loop.simps) (simp add: eq amp Let_def)
qed

lemma query_loop_render:
  shows "keeps_plain keep \<Longrightarrow> length (render_query keep kvs) < 2 ^ 64 \<Longrightarrow> query_loop (render_query keep kvs) m = m ++ map_of (rev kvs)"
proof (induction keep kvs arbitrary: m rule: render_query.induct)
  case (1 keep)
  then show ?case by (subst query_loop.simps) simp
next
  case (2 keep k v)
  have upd: "m ++ map_of (rev [(k, v)]) = m(k \<mapsto> v)" by (auto simp: map_add_def)
  have "query_loop (encode keep k @ CHR ''='' # encode keep v) m
      = m(decode_query_component (encode keep k) \<mapsto> decode_query_component (encode keep v))"
    by (rule query_step(1)) (use encode_plain [OF 2(1)] 2(2) in simp_all)
  then show ?case unfolding upd render_query.simps decode_encode [OF 2(1)] .
next
  case (3 keep k v kv kvs)
  have upd: "m ++ map_of (rev ((k, v) # kv # kvs)) = m(k \<mapsto> v) ++ map_of (rev (kv # kvs))"
    by (auto simp: map_add_def fun_eq_iff split: option.splits)
  have "query_loop (encode keep k @ CHR ''='' # encode keep v @ CHR ''&'' # render_query keep (kv # kvs)) m
      = query_loop (render_query keep (kv # kvs))
          (m(decode_query_component (encode keep k) \<mapsto> decode_query_component (encode keep v)))"
    by (rule query_step(2)) (use encode_plain [OF 3(2)] 3(3) in simp_all)
  moreover have "length (render_query keep (kv # kvs)) < 2 ^ 64" using 3(3) by simp
  ultimately show ?case unfolding upd render_query.simps decode_encode [OF 3(2)] using 3(1) [OF 3(2)] by simp
qed

text \<open>
  C36: the query parameters of a request are read back from its target: for every list of names and
  values, rendered with \<open>%HH\<close> escapes of at least the reserved characters, parsing gives exactly
  these names, each with its last value, for every text up to the 64-bit size limit.
\<close>

theorem query_roundtrip:
  assumes "keeps_plain keep" and "CHR ''?'' \<notin> set p" and "length (render_query keep kvs) < 2 ^ 64"
  shows "query_params (context_new (p @ CHR ''?'' # render_query keep kvs) c) = map_of (rev kvs)
    \<and> query n (context_new (p @ CHR ''?'' # render_query keep kvs) c)
        = (case map_of (rev kvs) n of None \<Rightarrow> [] | Some v \<Rightarrow> v)
    \<and> (has_query n (context_new (p @ CHR ''?'' # render_query keep kvs) c) \<longleftrightarrow> n \<in> fst ` set kvs)"
proof -
  have "parse_query (p @ CHR ''?'' # render_query keep kvs) = map_of (rev kvs)"
    using assms(2,3) query_loop_render [OF assms(1), of kvs Map.empty]
    by (simp add: parse_query_def find_char_append)
  moreover have "map_of (rev kvs) n \<noteq> None \<longleftrightarrow> n \<in> fst ` set kvs" by (simp add: map_of_eq_None_iff)
  ultimately show ?thesis by (simp add: context_new_def query_def has_query_def field_or_empty_def)
qed

theorem query_roundtrip_witness:
  "query_params (context_new (''/s'' @ CHR ''?'' # render_query (\<lambda>c. False) [(''q'', ''a&b''), (''q'', ''1+1=2'')]) None)
     = [''q'' \<mapsto> ''1+1=2'']"
  using query_roundtrip [of "\<lambda>c. False" "''/s''" "[(''q'', ''a&b''), (''q'', ''1+1=2'')]" None]
  by (simp add: keeps_plain_def encode_def encode_char_def)

section \<open>Cookies\<close>

text \<open>The header a client sends for its cookies, and the pieces of a header between semicolons.\<close>

fun cookie_header :: "(string \<times> string) list \<Rightarrow> string" where
  "cookie_header [] = []"
| "cookie_header [(n, v)] = n @ CHR ''='' # v"
| "cookie_header ((n, v) # nv # nvs) = n @ CHR ''='' # v @ '';'' @ '' '' @ cookie_header (nv # nvs)"

fun pieces :: "string \<Rightarrow> string list" where
  "pieces [] = [[]]"
| "pieces (c # cs) = (if c = CHR '';'' then [] # pieces cs
     else (case pieces cs of [] \<Rightarrow> [[c]] | p # ps \<Rightarrow> (c # p) # ps))"

lemma cookie_step:
  assumes n: "CHR ''='' \<notin> set n" "CHR '';'' \<notin> set n" and v: "CHR '';'' \<notin> set v" and ne: "n \<noteq> []"
    and len: "length (n @ CHR ''='' # v) < 2 ^ 64"
  shows "cookie_loop (n @ CHR ''='' # v) m = m(n \<mapsto> v)"
    and "length (n @ CHR ''='' # v @ '';'' @ '' '' @ rest) < 2 ^ 64 \<Longrightarrow> rest \<noteq> [] \<Longrightarrow> hd rest \<noteq> CHR '' ''
      \<Longrightarrow> cookie_loop (n @ CHR ''='' # v @ '';'' @ '' '' @ rest) m = cookie_loop rest (m(n \<mapsto> v))"
proof -
  let ?q = "n @ CHR ''='' # v"
  have eq: "find_char CHR ''='' ?q = Some (length n)" using n by (simp add: find_char_append)
  have semi: "find_char CHR '';'' ?q = None" using n v by (simp add: find_char_None)
  have "substr (Suc (length n)) (count_between (length n) (length ?q)) ?q = v"
    using substr_between [of "length n" "length ?q" ?q] len by simp
  then show "cookie_loop ?q m = m(n \<mapsto> v)"
    by (subst cookie_loop.simps) (simp add: eq semi Let_def)
next
  assume len: "length (n @ CHR ''='' # v @ '';'' @ '' '' @ rest) < 2 ^ 64" and rest: "rest \<noteq> []" "hd rest \<noteq> CHR '' ''"
  let ?q = "n @ CHR ''='' # v @ '';'' @ '' '' @ rest"
  have eq: "find_char CHR ''='' ?q = Some (length n)" using n by (simp add: find_char_append)
  have semi: "find_char CHR '';'' ?q = Some (Suc (length n + length v))"
    using n v find_char_append [of "CHR '';''" "n @ CHR ''='' # v" "'' '' @ rest"] by simp
  have "substr (Suc (length n)) (count_between (length n) (Suc (length n + length v))) ?q = v"
    using substr_between [of "length n" "Suc (length n + length v)" ?q] len by simp
  moreover have "dropWhile (\<lambda>c. c = CHR '' '') rest = rest" using rest by (cases rest) auto
  ultimately show "cookie_loop ?q m = cookie_loop rest (m(n \<mapsto> v))"
    by (subst cookie_loop.simps) (simp add: eq [simplified] semi [simplified] Let_def)
qed

lemma cookie_loop_header:
  "\<forall>(n, v) \<in> set nvs. n \<noteq> [] \<and> hd n \<noteq> CHR '' '' \<and> CHR ''='' \<notin> set n \<and> CHR '';'' \<notin> set n \<and> CHR '';'' \<notin> set v
    \<Longrightarrow> length (cookie_header nvs) < 2 ^ 64 \<Longrightarrow> cookie_loop (cookie_header nvs) m = m ++ map_of (rev nvs)"
proof (induction nvs arbitrary: m rule: cookie_header.induct)
  case 1
  then show ?case by (subst cookie_loop.simps) simp
next
  case (2 n v)
  have upd: "m ++ map_of (rev [(n, v)]) = m(n \<mapsto> v)" by (auto simp: map_add_def)
  have "cookie_loop (n @ CHR ''='' # v) m = m(n \<mapsto> v)"
    by (rule cookie_step(1)) (use 2 in simp_all)
  then show ?case unfolding upd cookie_header.simps .
next
  case (3 n v nv nvs)
  have upd: "m ++ map_of (rev ((n, v) # nv # nvs)) = m(n \<mapsto> v) ++ map_of (rev (nv # nvs))"
    by (auto simp: map_add_def fun_eq_iff split: option.splits)
  obtain n' v' where nv: "nv = (n', v')" by fastforce
  have "cookie_header (nv # nvs) \<noteq> [] \<and> hd (cookie_header (nv # nvs)) \<noteq> CHR '' ''"
    using 3(2) by (cases nvs) (auto simp: nv)
  then have "cookie_loop (n @ CHR ''='' # v @ '';'' @ '' '' @ cookie_header (nv # nvs)) m
      = cookie_loop (cookie_header (nv # nvs)) (m(n \<mapsto> v))"
    by (intro cookie_step(2)) (use 3(2,3) in auto)
  moreover have "length (cookie_header (nv # nvs)) < 2 ^ 64" using 3(3) by simp
  ultimately show ?case unfolding upd cookie_header.simps using 3(1,2) by simp
qed

lemma pieces_text: "CHR '';'' \<notin> set a \<Longrightarrow> pieces (a @ CHR '';'' # b) = a # pieces b"
  by (induction a) auto

lemma pieces_last: "CHR '';'' \<notin> set a \<Longrightarrow> pieces a = [a]"
  by (induction a) auto

lemma pieces_concat:
  "CHR '';'' \<notin> set a \<Longrightarrow> \<forall>b \<in> set bs. CHR '';'' \<notin> set b
    \<Longrightarrow> pieces (a @ concat (map (\<lambda>b. ''; '' @ b) bs)) = a # map ((#) CHR '' '') bs"
proof (induction bs arbitrary: a)
  case (Cons b bs)
  then show ?case
    using pieces_text [of a "'' '' @ b @ concat (map (\<lambda>b. ''; '' @ b) bs)"] Cons.IH [of "'' '' @ b"] by simp
qed (simp add: pieces_last)

lemma digit_plain: "digit_char c \<Longrightarrow> c \<noteq> CHR '';'' \<and> \<not> ((of_char c :: nat) < 32 \<or> (of_char c :: nat) = 127)"
  by (auto simp: digit_char_def)

lemma has_control_simps [simp]:
  "\<not> has_control []"
  "has_control (c # s) \<longleftrightarrow> (of_char c :: nat) < 32 \<or> (of_char c :: nat) = 127 \<or> has_control s"
  "has_control (a @ b) \<longleftrightarrow> has_control a \<or> has_control b"
  by (auto simp: has_control_def)

lemma nat_text_plain: "CHR '';'' \<notin> set (nat_text n) \<and> \<not> has_control (nat_text n)"
proof -
  have "c \<noteq> CHR '';'' \<and> \<not> ((of_char c :: nat) < 32 \<or> (of_char c :: nat) = 127)" if "c \<in> set (nat_text n)" for c
    using nat_text_digits [of n] that digit_plain by blast
  then show ?thesis unfolding has_control_def by blast
qed

lemma int_text_plain: "CHR '';'' \<notin> set (int_text i) \<and> \<not> has_control (int_text i)"
  by (simp add: int_text_def nat_text_plain)

lemma has_forbidden_simps [simp]:
  "\<not> has_forbidden s []" "has_forbidden s (x # xs) \<longleftrightarrow> x \<in> set s \<or> has_forbidden s xs"
  by (auto simp: has_forbidden_def)

lemma valid_cookie_parts:
  assumes "\<not> invalid_cookie n v opts"
  shows "n \<noteq> []" "CHR ''='' \<notin> set n" "CHR '';'' \<notin> set n" "CHR '';'' \<notin> set v" "\<not> has_control n" "\<not> has_control v"
    "CHR '';'' \<notin> set (path opts) \<and> \<not> has_control (path opts)"
    "CHR '';'' \<notin> set (domain opts) \<and> \<not> has_control (domain opts)"
    "CHR '';'' \<notin> set (same_site opts) \<and> \<not> has_control (same_site opts)"
  using assms by (simp_all add: invalid_cookie_def)

lemma attributes_plain:
  assumes "\<not> invalid_cookie n v opts" and "a \<in> set (cookie_attributes opts)"
  shows "CHR '';'' \<notin> set a \<and> \<not> has_control a"
proof -
  note valid_cookie_parts [OF assms(1)]
  moreover have "a = ''Max-Age='' @ int_text (max_age opts) \<or> a = ''Path='' @ path opts \<or> a = ''Domain='' @ domain opts
      \<or> a = ''Secure'' \<or> a = ''HttpOnly'' \<or> a = ''SameSite='' @ same_site opts"
    using assms(2) by (auto simp: cookie_attributes_def split: if_splits)
  ultimately show ?thesis using int_text_plain [of "max_age opts"] by (elim disjE) simp_all
qed

text \<open>
  How a client reads a \<open>Set-Cookie\<close> field: the piece before the first semicolon is the pair, each
  further piece an attribute, split at its first equals sign, with the spaces before its name dropped.
\<close>

definition split_equals :: "string \<Rightarrow> string \<times> string" where
  "split_equals p = (takeWhile (\<lambda>c. c \<noteq> CHR ''='') p, drop 1 (dropWhile (\<lambda>c. c \<noteq> CHR ''='') p))"

definition read_attributes :: "string \<Rightarrow> (string \<times> string) list" where
  "read_attributes s = map (\<lambda>p. split_equals (dropWhile (\<lambda>c. c = CHR '' '') p)) (tl (pieces s))"

definition read_number :: "string \<Rightarrow> int" where
  "read_number t = (if hd t = CHR ''-'' then - int (foldl (\<lambda>n c. 10 * n + (of_char c - 48)) 0 (tl t))
     else int (foldl (\<lambda>n c. 10 * n + (of_char c - 48)) 0 t))"

definition text_option :: "string \<Rightarrow> string option" where
  "text_option t = (if t = [] then None else Some t)"

lemma read_number_text: "read_number (int_text i) = i"
proof -
  have "hd (nat_text n) \<noteq> CHR ''-''" for n
    using nat_text_digits [of n] nat_text_nonempty [of n] by (cases "nat_text n") (auto simp: digit_char_def)
  then have "read_number (nat_text n) = int n" for n
    using nat_text_nonempty [of n] by (simp add: read_number_def foldl_digits)
  then show ?thesis
    by (simp add: int_text_def) (simp add: read_number_def foldl_digits)
qed

lemma split_equals_pair: "CHR ''='' \<notin> set n \<Longrightarrow> split_equals (n @ CHR ''='' # v) = (n, v)"
  by (induction n) (auto simp: split_equals_def)

lemma read_attributes_written:
  assumes "pieces s = p # map ((#) CHR '' '') (cookie_attributes opts)"
  shows "read_attributes s =
     (if max_age opts \<noteq> 0 then [(''Max-Age'', int_text (max_age opts))] else [])
     @ (if path opts \<noteq> [] then [(''Path'', path opts)] else [])
     @ (if domain opts \<noteq> [] then [(''Domain'', domain opts)] else [])
     @ (if secure opts then [(''Secure'', [])] else [])
     @ (if http_only opts then [(''HttpOnly'', [])] else [])
     @ (if same_site opts \<noteq> [] then [(''SameSite'', same_site opts)] else [])"
  by (simp add: read_attributes_def assms cookie_attributes_def split_equals_def if_distrib [of "map _"]
      cong: if_cong)

lemma set_cookie_written:
  assumes "\<not> invalid_cookie n v opts"
  shows "\<not> has_control (cookie_string n v opts)"
    and "pieces (cookie_string n v opts) = (n @ CHR ''='' # v) # map ((#) CHR '' '') (cookie_attributes opts)"
proof -
  have nv: "CHR '';'' \<notin> set (n @ CHR ''='' # v)" "\<not> has_control n" "\<not> has_control v"
    using valid_cookie_parts [OF assms] by auto
  note attr = attributes_plain [OF assms]
  have "\<not> has_control (concat (map (\<lambda>a. ''; '' @ a) as))" if "\<forall>a \<in> set as. \<not> has_control a" for as
    using that by (induction as) auto
  then show "\<not> has_control (cookie_string n v opts)"
    using nv attr by (simp add: cookie_string_def)
  show "pieces (cookie_string n v opts) = (n @ CHR ''='' # v) # map ((#) CHR '' '') (cookie_attributes opts)"
    using pieces_concat [OF nv(1), of "cookie_attributes opts"] attr by (simp add: cookie_string_def)
qed

text \<open>
  C37: a response cookie cannot inject anything: \<open>SetCookie\<close> throws \<open>invalid_argument\<close> and changes
  nothing, or adds one \<open>Set-Cookie\<close> field without control characters, in which a client that
  splits it at its semicolons and equals signs reads exactly the name, the value and the options
  asked for: no attribute twice and none but the six, \<open>Max-Age\<close> exactly when it is not zero,
  \<open>Path\<close>, \<open>Domain\<close> and \<open>SameSite\<close> exactly when they are not empty, \<open>Secure\<close> and \<open>HttpOnly\<close>
  exactly when they are set.  When a client sends accepted pairs whose names do not begin with a
  space back in a \<open>Cookie\<close> header, each cookie reads as its last value.
\<close>

theorem set_cookie_correct:
  assumes "\<forall>(n, v) \<in> set nvs. fst (set_cookie n v opts c) = Inr () \<and> hd n \<noteq> CHR '' ''"
    and "length (cookie_header nvs) < 2 ^ 64"
  shows "(case set_cookie n v opts c of
        (Inl e, c') \<Rightarrow> c' = c \<and> (\<exists>msg. e = InvalidArgument msg)
      | (Inr _, c') \<Rightarrow> \<exists>s. c' = c\<lparr>set_cookies := set_cookies c @ [s]\<rparr> \<and> \<not> has_control s
          \<and> split_equals (hd (pieces s)) = (n, v)
          \<and> distinct (map fst (read_attributes s))
          \<and> fst ` set (read_attributes s)
              \<subseteq> {''Max-Age'', ''Path'', ''Domain'', ''Secure'', ''HttpOnly'', ''SameSite''}
          \<and> map_option read_number (map_of (read_attributes s) ''Max-Age'')
              = (if max_age opts = 0 then None else Some (max_age opts))
          \<and> map_of (read_attributes s) ''Path'' = text_option (path opts)
          \<and> map_of (read_attributes s) ''Domain'' = text_option (domain opts)
          \<and> map_of (read_attributes s) ''SameSite'' = text_option (same_site opts)
          \<and> map_of (read_attributes s) ''Secure'' = (if secure opts then Some [] else None)
          \<and> map_of (read_attributes s) ''HttpOnly'' = (if http_only opts then Some [] else None))
    \<and> cookies (parse_cookies (context_new t (Some (cookie_header nvs)))) = map_of (rev nvs)"
    (is "?written \<and> ?read")
proof (rule conjI)
  show ?written
  proof (cases "invalid_cookie n v opts")
    case False
    note written = set_cookie_written [OF False]
    have "CHR ''='' \<notin> set n"
      using valid_cookie_parts [OF False] by blast
    then show ?thesis
      using False written
      by (auto simp: set_cookie_def read_attributes_written [OF written(2)] split_equals_pair text_option_def
        read_number_text)
  qed (simp add: set_cookie_def)
  have "n \<noteq> [] \<and> hd n \<noteq> CHR '' '' \<and> CHR ''='' \<notin> set n \<and> CHR '';'' \<notin> set n \<and> CHR '';'' \<notin> set v" if "(n, v) \<in> set nvs" for n v
  proof -
    have "fst (set_cookie n v opts c) = Inr () \<and> hd n \<noteq> CHR '' ''" using assms(1) that by blast
    then have "\<not> invalid_cookie n v opts" "hd n \<noteq> CHR '' ''" by (simp_all add: set_cookie_def split: if_splits)
    then show ?thesis using valid_cookie_parts by blast
  qed
  then have "cookie_loop (cookie_header nvs) Map.empty = Map.empty ++ map_of (rev nvs)"
    using assms(2) by (intro cookie_loop_header) auto
  then show ?read
    by (simp add: parse_cookies_def context_new_def Let_def)
qed

theorem set_cookie_correct_witness:
  "let opts = \<lparr>max_age = 5, path = ''/'', domain = [], secure = True, http_only = True, same_site = ''Lax''\<rparr>;
       s = ''id=7; Max-Age=5; Path=/; Secure; HttpOnly; SameSite=Lax'' in
   set_cookies (snd (set_cookie ''id'' ''7'' opts (context_new ''/'' None))) = [s] \<and>
   map_of (read_attributes s) ''Secure'' = Some [] \<and>
   cookies (parse_cookies (context_new ''/'' (Some ''id=7; theme=a=b''))) = [''id'' \<mapsto> ''7'', ''theme'' \<mapsto> ''a=b'']"
proof -
  let ?opts = "\<lparr>max_age = 5, path = ''/'', domain = [], secure = True, http_only = True, same_site = ''Lax''\<rparr>"
  have "int_text 5 = ''5''"
    by code_simp
  then have "cookie_string ''id'' ''7'' ?opts = ''id=7; Max-Age=5; Path=/; Secure; HttpOnly; SameSite=Lax''"
    by (simp add: cookie_string_def cookie_attributes_def)
  then show ?thesis
    using set_cookie_correct [of "[(''id'', ''7''), (''theme'', ''a=b'')]" ?opts
      "context_new ''/'' None" "''id''" "''7''" "''/''"]
    by (auto simp: set_cookie_def invalid_cookie_def has_forbidden_def context_new_def Let_def)
qed

text \<open>
  A cookie without an equals sign is not read as its own piece: the name runs on over the
  semicolon and the count of the value wraps, so a cookie appears that the client did not send.
\<close>

lemma cookie_without_equals:
  "cookie_loop ''a; b=c'' Map.empty = [''a; b'' \<mapsto> ''c'', ''b'' \<mapsto> ''c'']"
proof -
  have "unat (count_between 4 1) = 18446744073709551612" by (simp add: count_between_def)
  then show ?thesis
    by (simp add: cookie_loop.simps [of "''a; b=c''"] cookie_loop.simps [of "''b=c''"] substr_def Let_def count_between_def)
qed

end
