(* ===== verification/BinaryTrees.thy ===== *)
theory BinaryTrees
  imports RBTreeLaws
begin

text \<open>
  \<open>BinaryTree\<close> of \<open>Wan/Container/Tree.hpp\<close>, the unbalanced search tree.  A node pointer is a
  subtree; the nodes passed on the way down are a context, as in RBTrees.  \<open>lt\<close> is the functor \<open>FunctionPolicy\<close>.  The node type is
  shared with the AVL tree, whose nodes carry more than the value; there \<open>key\<close> reads the key.
\<close>

datatype 'd btree = Tip | Bin "'d btree" 'd "'d btree"

datatype 'd bframe = BLeft 'd "'d btree" | BRight "'d btree" 'd

type_synonym 'd bcursor = "'d btree \<times> 'd bframe list"

fun bin_fill :: "'d bframe \<Rightarrow> 'd btree \<Rightarrow> 'd btree" where
  "bin_fill (BLeft d r) t = Bin t d r"
| "bin_fill (BRight l d) t = Bin l d t"

fun bin_plug :: "'d bframe list \<Rightarrow> 'd btree \<Rightarrow> 'd btree" where
  "bin_plug [] t = t"
| "bin_plug (f # ctx) t = bin_plug ctx (bin_fill f t)"

fun bin_values :: "'d btree \<Rightarrow> 'd list" where
  "bin_values Tip = []"
| "bin_values (Bin l d r) = bin_values l @ d # bin_values r"

section \<open>Traversals\<close>

fun bin_push_left :: "'d btree \<Rightarrow> 'd btree list \<Rightarrow> 'd btree list" where
  "bin_push_left Tip st = st"
| "bin_push_left (Bin l d r) st = bin_push_left l (Bin l d r # st)"

definition bin_weight :: "'d btree list \<Rightarrow> nat" where
  "bin_weight st = sum_list (map (\<lambda>t. case t of Tip \<Rightarrow> 1 | Bin l d r \<Rightarrow> Suc (size r)) st)"

lemma bin_weight_push_left: "bin_weight (bin_push_left t st) = size t + bin_weight st"
  by (induction t arbitrary: st) (simp_all add: bin_weight_def)

text \<open>The loop of \<open>InteriorMiddleOrderTraversal\<close>; the values it prints, and the count it keeps.\<close>

function bin_middle_order :: "'d btree list \<Rightarrow> 'd list" where
  "bin_middle_order [] = []"
| "bin_middle_order (Tip # st) = bin_middle_order st"
| "bin_middle_order (Bin l d r # st) = d # bin_middle_order (bin_push_left r st)"
  by pat_completeness auto
termination
  by (relation "measure bin_weight") (auto simp: bin_weight_push_left, auto simp: bin_weight_def)

definition bin_middle_order_traversal :: "'d btree \<Rightarrow> 'd list" where
  "bin_middle_order_traversal t = bin_middle_order (bin_push_left t [])"

function bin_count :: "'d btree list \<Rightarrow> nat \<Rightarrow> nat" where
  "bin_count [] n = n"
| "bin_count (Tip # st) n = bin_count st n"
| "bin_count (Bin l d r # st) n = bin_count (bin_push_left r st) (Suc n)"
  by pat_completeness auto
termination
  by (relation "measure (\<lambda>(st, n). bin_weight st)")
    (auto simp: bin_weight_push_left, auto simp: bin_weight_def)

definition bin_size :: "'d btree \<Rightarrow> nat" where
  "bin_size t = bin_count (bin_push_left t []) 0"

definition bin_push_child :: "'d btree \<Rightarrow> 'd btree list \<Rightarrow> 'd btree list" where
  "bin_push_child t st = (case t of Tip \<Rightarrow> st | Bin _ _ _ \<Rightarrow> t # st)"

function bin_pre_order :: "'d btree list \<Rightarrow> 'd list" where
  "bin_pre_order [] = []"
| "bin_pre_order (Tip # st) = bin_pre_order st"
| "bin_pre_order (Bin l d r # st) = d # bin_pre_order (bin_push_child l (bin_push_child r st))"
  by pat_completeness auto
termination
  by (relation "measure (\<lambda>st. sum_list (map (\<lambda>t. Suc (2 * size t)) st))")
    (auto simp: bin_push_child_def split: btree.splits)

definition bin_pre_order_traversal :: "'d btree \<Rightarrow> 'd list" where
  "bin_pre_order_traversal t = bin_pre_order (bin_push_child t [])"

text \<open>The freeing loop: rotates until the root has no left child, then frees the root.\<close>

fun bin_left_size :: "'d btree \<Rightarrow> nat" where
  "bin_left_size Tip = 0"
| "bin_left_size (Bin l d r) = size l"

function bin_clear :: "'d btree \<Rightarrow> 'd list" where
  "bin_clear Tip = []"
| "bin_clear (Bin Tip d r) = d # bin_clear r"
| "bin_clear (Bin (Bin a d b) d' c) = bin_clear (Bin a d (Bin b d' c))"
  by pat_completeness auto
termination by (relation "measures [size, bin_left_size]") auto

section \<open>Search, insertion and removal\<close>

text \<open>
  The descent: \<open>Inl\<close> the node found equivalent, \<open>Inr\<close> the context of the null link reached.  The
  comparison made again to choose the link of the new node gives the side taken here.
\<close>

fun bin_descend :: "('d \<Rightarrow> 'k) \<Rightarrow> ('k \<Rightarrow> 'k \<Rightarrow> bool) \<Rightarrow> 'k \<Rightarrow> 'd btree \<Rightarrow> 'd bframe list
    \<Rightarrow> 'd bcursor + 'd bframe list" where
  "bin_descend key lt k Tip ctx = Inr ctx"
| "bin_descend key lt k (Bin l d r) ctx =
     (if \<not> lt k (key d) \<and> \<not> lt (key d) k then Inl (Bin l d r, ctx)
      else if lt k (key d) then bin_descend key lt k l (BLeft d r # ctx)
      else bin_descend key lt k r (BRight l d # ctx))"

definition bst_push :: "('v \<Rightarrow> 'v \<Rightarrow> bool) \<Rightarrow> 'v \<Rightarrow> 'v btree \<Rightarrow> 'v btree \<times> bool" where
  "bst_push lt x t =
     (case bin_descend id lt x t [] of
        Inl _ \<Rightarrow> (t, False)
      | Inr ctx \<Rightarrow> (bin_plug ctx (Bin Tip x Tip), True))"

definition bst_find :: "('v \<Rightarrow> 'v \<Rightarrow> bool) \<Rightarrow> 'v \<Rightarrow> 'v btree \<Rightarrow> 'v bcursor option" where
  "bst_find lt x t = (case bin_descend id lt x t [] of Inl cur \<Rightarrow> Some cur | Inr _ \<Rightarrow> None)"

fun bin_leftmost :: "'d btree \<Rightarrow> 'd bframe list \<Rightarrow> 'd bcursor" where
  "bin_leftmost (Bin (Bin a d b) d' c) ctx = bin_leftmost (Bin a d b) (BLeft d' c # ctx)"
| "bin_leftmost t ctx = (t, ctx)"

fun bin_rightmost :: "'d btree \<Rightarrow> 'd bframe list \<Rightarrow> 'd bcursor" where
  "bin_rightmost (Bin a d (Bin b d' c)) ctx = bin_rightmost (Bin b d' c) (BRight a d # ctx)"
| "bin_rightmost t ctx = (t, ctx)"

text \<open>
  \<open>Pop\<close>: a node with two children takes the value of the leftmost node of its right subtree, and
  that node is unlinked instead.
\<close>

definition bst_pop :: "('v \<Rightarrow> 'v \<Rightarrow> bool) \<Rightarrow> 'v \<Rightarrow> 'v btree \<Rightarrow> 'v btree" where
  "bst_pop lt x t =
     (case bst_find lt x t of
        Some (Bin l d r, ctx) \<Rightarrow>
          (if l = Tip then bin_plug ctx r
           else if r = Tip then bin_plug ctx l
           else
             (case bin_leftmost r [] of
                (Bin _ d' r', path) \<Rightarrow> bin_plug (path @ BRight l d' # ctx) r'
              | (Tip, path) \<Rightarrow> t))
      | _ \<Rightarrow> t)"

datatype tree_fault = InsertFind

definition bst_insert :: "('v \<Rightarrow> 'v \<Rightarrow> bool) \<Rightarrow> 'v \<Rightarrow> 'v \<Rightarrow> 'v btree \<Rightarrow> tree_fault + 'v btree" where
  "bst_insert lt anchor x t =
     (case bst_find lt anchor t of None \<Rightarrow> Inl InsertFind | Some _ \<Rightarrow> Inr (fst (bst_push lt x t)))"

definition bst_of_list :: "('v \<Rightarrow> 'v \<Rightarrow> bool) \<Rightarrow> 'v list \<Rightarrow> 'v btree" where
  "bst_of_list lt xs = foldl (\<lambda>t x. fst (bst_push lt x t)) Tip xs"

text \<open>The moves leave the source empty: the pair is the target and the source.\<close>

definition bst_move :: "'v btree \<Rightarrow> 'v btree \<times> 'v btree" where
  "bst_move t = (t, Tip)"

end
