(* ===== verification/AvlTrees.thy ===== *)
theory AvlTrees
  imports BinaryTrees
begin

text \<open>
  \<open>BalanceTree\<close> of \<open>Wan/Container/Tree.hpp\<close>, the AVL tree.  A node carries its pair, the height of
  its subtree and its balance factor, the two as the code stores them and not recomputed from the
  shape, so a forgotten update shows.  Heights are machine ints in the code; a tree high enough
  to overflow one has more than \<open>2 ^ 2 ^ 29\<close> nodes.  \<open>key\<close> reads \<open>MemberData.First\<close>.  Following
  a link of a null node is the outcome \<open>None\<close>.
\<close>

datatype 'v anode = ANode (adata: 'v) (aheight: int) (abalance: int)

type_synonym 'v avl_tree = "'v anode btree"

fun height_of :: "'v avl_tree \<Rightarrow> int" where
  "height_of Tip = 0"
| "height_of (Bin l d r) = aheight d"

text \<open>\<open>UpdateHeightAndBalance\<close>.\<close>

fun update_node :: "'v avl_tree \<Rightarrow> 'v avl_tree" where
  "update_node Tip = Tip"
| "update_node (Bin l d r) =
     Bin l (ANode (adata d) (max (height_of l) (height_of r) + 1) (height_of r - height_of l)) r"

fun balance_of :: "'v avl_tree \<Rightarrow> int option" where
  "balance_of Tip = None"
| "balance_of (Bin l d r) = Some (abalance d)"

section \<open>Rotations and rebalancing\<close>

fun rotate_left :: "'v avl_tree \<Rightarrow> 'v avl_tree option" where
  "rotate_left (Bin a d (Bin b p c)) = Some (update_node (Bin (update_node (Bin a d b)) p c))"
| "rotate_left _ = None"

fun rotate_right :: "'v avl_tree \<Rightarrow> 'v avl_tree option" where
  "rotate_right (Bin (Bin a p b) d c) = Some (update_node (Bin a p (update_node (Bin b d c))))"
| "rotate_right _ = None"

text \<open>One round of the loop of \<open>RebalanceFrom\<close>: the subtree that replaces the one of \<open>Node\<close>.\<close>

definition rebalance_node :: "'v avl_tree \<Rightarrow> 'v avl_tree option" where
  "rebalance_node t =
     (case update_node t of
        Tip \<Rightarrow> None
      | Bin l d r \<Rightarrow>
          if abalance d < -1 then
            (case balance_of l of
               None \<Rightarrow> None
             | Some b \<Rightarrow>
                 (case if b > 0 then rotate_left l else Some l of
                    None \<Rightarrow> None
                  | Some l' \<Rightarrow> rotate_right (Bin l' d r)))
          else if abalance d > 1 then
            (case balance_of r of
               None \<Rightarrow> None
             | Some b \<Rightarrow>
                 (case if b < 0 then rotate_right r else Some r of
                    None \<Rightarrow> None
                  | Some r' \<Rightarrow> rotate_left (Bin l d r')))
          else Some (Bin l d r))"

text \<open>\<open>RebalanceFrom\<close> on the cursor \<open>Node\<close>; it climbs to the root and the whole tree is the result.\<close>

fun rebalance_climb :: "'v avl_tree \<Rightarrow> 'v anode bframe list \<Rightarrow> 'v avl_tree option" where
  "rebalance_climb t [] = rebalance_node t"
| "rebalance_climb t (f # ctx) =
     (case rebalance_node t of None \<Rightarrow> None | Some t' \<Rightarrow> rebalance_climb (bin_fill f t') ctx)"

definition rebalance_from :: "'v avl_tree \<Rightarrow> 'v anode bframe list \<Rightarrow> 'v avl_tree option" where
  "rebalance_from t ctx = (case t of Tip \<Rightarrow> Some (bin_plug ctx Tip) | Bin _ _ _ \<Rightarrow> rebalance_climb t ctx)"

section \<open>Operations\<close>

definition new_anode :: "'v \<Rightarrow> 'v anode" where
  "new_anode x = ANode x 1 0"

text \<open>The parent of a link, with the subtree put there, or the subtree itself when it is the root.\<close>

fun parent_of :: "'d btree \<Rightarrow> 'd bframe list \<Rightarrow> 'd bcursor" where
  "parent_of t [] = (t, [])"
| "parent_of t (f # ctx) = (bin_fill f t, ctx)"

text \<open>\<open>Insert\<close>; the new node is a leaf, and rebalancing starts from its parent, if it has one.\<close>

definition avl_insert :: "('v \<Rightarrow> 'k) \<Rightarrow> ('k \<Rightarrow> 'k \<Rightarrow> bool) \<Rightarrow> 'v \<Rightarrow> 'v avl_tree
    \<Rightarrow> ('v avl_tree \<times> bool) option" where
  "avl_insert key lt x t =
     (case bin_descend (key \<circ> adata) lt (key x) t [] of
        Inl _ \<Rightarrow> Some (t, False)
      | Inr [] \<Rightarrow> Some (Bin Tip (new_anode x) Tip, True)
      | Inr (f # ctx) \<Rightarrow>
          map_option (\<lambda>t'. (t', True)) (rebalance_from (bin_fill f (Bin Tip (new_anode x) Tip)) ctx))"

fun avl_search :: "('v \<Rightarrow> 'k) \<Rightarrow> ('k \<Rightarrow> 'k \<Rightarrow> bool) \<Rightarrow> 'k \<Rightarrow> 'v avl_tree \<Rightarrow> 'v anode bframe list
    \<Rightarrow> 'v anode bcursor option" where
  "avl_search key lt k Tip ctx = None"
| "avl_search key lt k (Bin l d r) ctx =
     (if \<not> lt (key (adata d)) k \<and> \<not> lt k (key (adata d)) then Some (Bin l d r, ctx)
      else if lt (key (adata d)) k then avl_search key lt k r (BRight l d # ctx)
      else avl_search key lt k l (BLeft d r # ctx))"

definition avl_find :: "('v \<Rightarrow> 'k) \<Rightarrow> ('k \<Rightarrow> 'k \<Rightarrow> bool) \<Rightarrow> 'k \<Rightarrow> 'v avl_tree
    \<Rightarrow> 'v anode bcursor option" where
  "avl_find key lt k t = avl_search key lt k t []"

text \<open>
  \<open>Pop\<close> from the found node on: the cursor \<open>RebalanceStart\<close> after the relinking.  The successor of
  a node with two children takes its place, with the node's own children, before rebalancing
  starts at the successor's old parent, or at the successor if that was the removed node.
\<close>

fun avl_unlink :: "'v avl_tree \<Rightarrow> 'v anode bframe list \<Rightarrow> 'v anode bcursor" where
  "avl_unlink Tip ctx = (Tip, ctx)"
| "avl_unlink (Bin l d r) ctx =
     (if l = Tip then parent_of r ctx
      else if r = Tip then parent_of l ctx
      else
        (case bin_leftmost r [] of
           (Bin _ s sr, []) \<Rightarrow> (update_node (Bin l s sr), ctx)
         | (Bin _ s sr, f # path) \<Rightarrow>
             (case update_node (Bin l s r) of
                Bin _ s' _ \<Rightarrow> (bin_fill f sr, path @ BRight l s' # ctx)
              | Tip \<Rightarrow> (Tip, ctx))
         | (Tip, path) \<Rightarrow> (Tip, ctx)))"

definition avl_pop :: "('v \<Rightarrow> 'k) \<Rightarrow> ('k \<Rightarrow> 'k \<Rightarrow> bool) \<Rightarrow> 'k \<Rightarrow> 'v avl_tree \<Rightarrow> 'v avl_tree option" where
  "avl_pop key lt k t =
     (case avl_find key lt k t of
        None \<Rightarrow> Some t
      | Some (n, ctx) \<Rightarrow> (case avl_unlink n ctx of (start, ctx') \<Rightarrow> rebalance_from start ctx'))"

definition avl_empty :: "'v avl_tree \<Rightarrow> bool" where
  "avl_empty t \<longleftrightarrow> (case t of Tip \<Rightarrow> True | Bin _ _ _ \<Rightarrow> False)"

definition avl_singleton :: "'v \<Rightarrow> 'v avl_tree" where
  "avl_singleton x = Bin Tip (new_anode x) Tip"

section \<open>Traversals\<close>

definition avl_middle_order :: "'v avl_tree \<Rightarrow> 'v list" where
  "avl_middle_order t = map adata (bin_middle_order (bin_push_left t []))"

definition avl_pre_order :: "'v avl_tree \<Rightarrow> 'v list" where
  "avl_pre_order t = map adata (bin_pre_order (bin_push_child t []))"

function avl_count :: "'v avl_tree list \<Rightarrow> nat \<Rightarrow> nat" where
  "avl_count [] n = n"
| "avl_count (Tip # st) n = avl_count st n"
| "avl_count (Bin l d r # st) n = avl_count (bin_push_child l (bin_push_child r st)) (Suc n)"
  by pat_completeness auto
termination
  by (relation "measure (\<lambda>(st, n). sum_list (map (\<lambda>t. Suc (2 * size t)) st))")
    (auto simp: bin_push_child_def split: btree.splits)

definition avl_size :: "'v avl_tree \<Rightarrow> nat" where
  "avl_size t = avl_count (bin_push_child t []) 0"

definition avl_clear :: "'v avl_tree \<Rightarrow> 'v list" where
  "avl_clear t = map adata (bin_clear t)"

section \<open>Iterators\<close>

text \<open>An iterator is a node pointer, null at the end; stepping the end iterator is not allowed.\<close>

definition avl_begin :: "'v avl_tree \<Rightarrow> 'v anode bcursor option" where
  "avl_begin t = (case t of Tip \<Rightarrow> None | Bin _ _ _ \<Rightarrow> Some (bin_leftmost t []))"

definition avl_rbegin :: "'v avl_tree \<Rightarrow> 'v anode bcursor option" where
  "avl_rbegin t = (case t of Tip \<Rightarrow> None | Bin _ _ _ \<Rightarrow> Some (bin_rightmost t []))"

fun bin_climb_right :: "'d btree \<Rightarrow> 'd bframe list \<Rightarrow> 'd bcursor option" where
  "bin_climb_right t [] = None"
| "bin_climb_right t (BRight l d # ctx) = bin_climb_right (Bin l d t) ctx"
| "bin_climb_right t (BLeft d r # ctx) = Some (Bin t d r, ctx)"

fun bin_climb_left :: "'d btree \<Rightarrow> 'd bframe list \<Rightarrow> 'd bcursor option" where
  "bin_climb_left t [] = None"
| "bin_climb_left t (BLeft d r # ctx) = bin_climb_left (Bin t d r) ctx"
| "bin_climb_left t (BRight l d # ctx) = Some (Bin l d t, ctx)"

fun avl_next :: "'v anode bcursor option \<Rightarrow> 'v anode bcursor option" where
  "avl_next (Some (Bin l d r, ctx)) =
     (case r of Tip \<Rightarrow> bin_climb_right (Bin l d r) ctx | Bin _ _ _ \<Rightarrow> Some (bin_leftmost r (BRight l d # ctx)))"
| "avl_next _ = None"

fun avl_prev :: "'v anode bcursor option \<Rightarrow> 'v anode bcursor option" where
  "avl_prev (Some (Bin l d r, ctx)) =
     (case l of Tip \<Rightarrow> bin_climb_left (Bin l d r) ctx | Bin _ _ _ \<Rightarrow> Some (bin_rightmost l (BLeft d r # ctx)))"
| "avl_prev _ = None"

text \<open>
  The reverse iterator: \<open>++\<close> and \<open>--\<close> in front, and behind, where they return the old position.
\<close>

definition rev_incr :: "'v anode bcursor option \<Rightarrow> 'v anode bcursor option" where
  "rev_incr it = avl_prev it"

definition rev_decr :: "'v anode bcursor option \<Rightarrow> 'v anode bcursor option" where
  "rev_decr it = avl_next it"

definition rev_post_incr :: "'v anode bcursor option
    \<Rightarrow> 'v anode bcursor option \<times> 'v anode bcursor option" where
  "rev_post_incr it = (it, rev_decr it)"

definition rev_post_decr :: "'v anode bcursor option
    \<Rightarrow> 'v anode bcursor option \<times> 'v anode bcursor option" where
  "rev_post_decr it = (it, rev_incr it)"

end
