(* ===== verification/TreeLaws.thy ===== *)
theory TreeLaws
  imports AvlTrees
begin

text \<open>
  The laws of the unbalanced and of the AVL tree.  \<open>bare\<close> forgets the node type: with every
  colour black, a tree here is a tree of RBTrees, and its search lemmas carry over.
\<close>

section \<open>Values around a cursor\<close>

fun bare :: "'d btree \<Rightarrow> 'd rbt" where
  "bare Tip = Leaf"
| "bare (Bin l d r) = Node (bare l) Black d (bare r)"

fun bare_frame :: "'d bframe \<Rightarrow> 'd frame" where
  "bare_frame (BLeft d r) = LeftOf Black d (bare r)"
| "bare_frame (BRight l d) = RightOf (bare l) Black d"

definition bin_before :: "'d bframe list \<Rightarrow> 'd list" where
  "bin_before ctx = before (map bare_frame ctx)"

definition bin_behind :: "'d bframe list \<Rightarrow> 'd list" where
  "bin_behind ctx = behind (map bare_frame ctx)"

lemma bare_inj [simp]: "bare t = bare u \<longleftrightarrow> t = u"
proof (induction t arbitrary: u)
  case Tip
  then show ?case by (cases u) simp_all
next
  case (Bin l d r)
  then show ?case by (cases u) simp_all
qed

lemma bare_inorder [simp]: "inorder (bare t) = bin_values t"
  by (induction t) simp_all

lemma bare_plug: "bare (bin_plug ctx t) = plug (map bare_frame ctx) (bare t)"
proof (induction ctx arbitrary: t)
  case (Cons f ctx)
  then show ?case by (cases f) simp_all
qed simp

lemma bin_before_simps [simp]:
  "bin_before [] = []" "bin_before (BLeft d r # ctx) = bin_before ctx"
  "bin_before (BRight l d # ctx) = bin_before ctx @ bin_values l @ [d]"
  "bin_before (c1 @ c2) = bin_before c2 @ bin_before c1"
  by (simp_all add: bin_before_def)

lemma bin_behind_simps [simp]:
  "bin_behind [] = []" "bin_behind (BLeft d r # ctx) = d # bin_values r @ bin_behind ctx"
  "bin_behind (BRight l d # ctx) = bin_behind ctx"
  "bin_behind (c1 @ c2) = bin_behind c1 @ bin_behind c2"
  by (simp_all add: bin_behind_def)

lemma bin_plug_append [simp]: "bin_plug (c1 @ c2) t = bin_plug c2 (bin_plug c1 t)"
  by (induction c1 arbitrary: t) simp_all

lemma bin_values_plug [simp]: "bin_values (bin_plug ctx t) = bin_before ctx @ bin_values t @ bin_behind ctx"
  by (simp add: bin_before_def bin_behind_def bare_plug flip: bare_inorder)

lemma bin_values_fill [simp]: "bin_values (bin_fill f t) = bin_before [f] @ bin_values t @ bin_behind [f]"
  using bin_values_plug [of "[f]" t] by simp

lemma bin_cons_values:
  "bin_before (f # ctx) = bin_before ctx @ bin_before [f]" "bin_behind (f # ctx) = bin_behind [f] @ bin_behind ctx"
  by (cases f; simp)+

context strict_weak_order
begin

lemma descend_bare:
  "descend key lt k (bare t) (map bare_frame ctx) =
     (case bin_descend key lt k t ctx of
        Inl (n, ctx') \<Rightarrow> Inl (bare n, map bare_frame ctx') | Inr ctx' \<Rightarrow> Inr (map bare_frame ctx'))"
proof (induction t arbitrary: ctx)
  case (Bin l d r)
  show ?case
    using Bin.IH(1) [of "BLeft d r # ctx"] Bin.IH(2) [of "BRight l d # ctx"] asym [of k "key d"]
    by (auto simp del: split_paired_All)
qed simp

lemma bin_found:
  assumes "bin_descend key lt k t [] = Inl (n, ctx)"
  shows "bin_plug ctx n = t" and "\<exists>l d r. n = Bin l d r \<and> same_key lt (key d) k"
proof -
  have "descend key lt k (bare t) [] = Inl (bare n, map bare_frame ctx)"
    using descend_bare [of key k t "[]"] assms by simp
  from descend_found [OF this] show "bin_plug ctx n = t" "\<exists>l d r. n = Bin l d r \<and> same_key lt (key d) k"
    by (simp_all flip: bare_plug) (cases n; simp)
qed

lemma bin_missing:
  assumes "bin_descend key lt k t [] = Inr ctx" and "key_sorted key lt (bin_values t)"
  shows "bin_plug ctx Tip = t" and "bin_values t = bin_before ctx @ bin_behind ctx"
    and "\<forall>y \<in> set (bin_before ctx). lt (key y) k" and "\<forall>y \<in> set (bin_behind ctx). lt k (key y)"
proof -
  have "descend key lt k (bare t) [] = Inr (map bare_frame ctx)"
    using descend_bare [of key k t "[]"] assms by simp
  from descend_missing_root [OF this] assms(2)
  have "plug (map bare_frame ctx) Leaf = bare t" and l: "\<forall>y \<in> set (bin_before ctx). lt (key y) k"
    "\<forall>y \<in> set (bin_behind ctx). lt k (key y)" by (simp_all add: bin_before_def bin_behind_def)
  then have "bare (bin_plug ctx Tip) = bare t" by (simp add: bare_plug)
  then show t: "bin_plug ctx Tip = t" by simp
  show "bin_values t = bin_before ctx @ bin_behind ctx" by (simp flip: t)
  show "\<forall>y \<in> set (bin_before ctx). lt (key y) k" "\<forall>y \<in> set (bin_behind ctx). lt k (key y)" using l .
qed

end

lemma key_sorted_map: "key_sorted (key \<circ> f) lt xs \<longleftrightarrow> key_sorted key lt (map f xs)"
  by (simp add: key_sorted_def sorted_wrt_map)

section \<open>The unbalanced tree\<close>

lemma bin_leftmost_shape:
  "t \<noteq> Tip \<Longrightarrow> \<exists>d r path. bin_leftmost t ctx = (Bin Tip d r, path @ ctx) \<and> bin_before path = []
    \<and> bin_plug path (Bin Tip d r) = t"
proof (induction t ctx rule: bin_leftmost.induct)
  case (1 a d b d' c ctx)
  then obtain e r path where "bin_leftmost (Bin a d b) (BLeft d' c # ctx) = (Bin Tip e r, path @ BLeft d' c # ctx)"
    "bin_before path = []" "bin_plug path (Bin Tip e r) = Bin a d b" by auto
  then show ?case by (intro exI [of _ e] exI [of _ r] exI [of _ "path @ [BLeft d' c]"]) simp
qed auto

lemma bst_pop_node:
  assumes "bst_find lt x t = Some (Bin l d r, ctx)"
  shows "bin_values (bst_pop lt x t) = bin_before ctx @ bin_values l @ bin_values r @ bin_behind ctx"
proof -
  consider "l = Tip" | "l \<noteq> Tip" "r = Tip" | "l \<noteq> Tip" "r \<noteq> Tip" by blast
  then show ?thesis
  proof cases
    case 3
    from bin_leftmost_shape [OF 3(2), of "[]"] obtain e s path where
      p: "bin_leftmost r [] = (Bin Tip e s, path)" "bin_before path = []" "bin_plug path (Bin Tip e s) = r"
      by auto
    have "bin_values r = e # bin_values s @ bin_behind path"
      using bin_values_plug [of path "Bin Tip e s"] p by simp
    with p 3 assms show ?thesis by (simp add: bst_pop_def)
  qed (use assms in \<open>simp_all add: bst_pop_def\<close>)
qed

text \<open>Inserting and removing around a split of the values, whatever tree carries them.\<close>

context strict_weak_order
begin

lemma sorted_gap:
  assumes "key_sorted key lt (us @ vs)"
    and us: "\<forall>y \<in> set us. lt (key y) (key x)" and vs: "\<forall>y \<in> set vs. lt (key x) (key y)"
  shows "seq_insert key lt x (us @ vs) = us @ x # vs" and "key_sorted key lt (us @ x # vs)"
    and "\<not> has_key key lt (key x) (us @ vs)"
proof -
  note m = missing_split [OF us vs]
  show no: "\<not> has_key key lt (key x) (us @ vs)" by (rule m(1))
  show "seq_insert key lt x (us @ vs) = us @ x # vs" using no m(2,3) by (simp only: seq_insert_def if_False)
  have "lt (key y) (key z)" if "y \<in> set us" "z \<in> set vs" for y z using that us vs trans by blast
  with assms show "key_sorted key lt (us @ x # vs)" by (auto simp: key_sorted_def sorted_wrt_append)
qed

lemma sorted_removed: "key_sorted key lt xs \<Longrightarrow> key_sorted key lt (seq_remove key lt k xs)"
  by (simp add: key_sorted_def seq_remove_def sorted_wrt_filter)

lemma removed_absent: "\<not> has_key key lt k xs \<Longrightarrow> seq_remove key lt k xs = xs"
  by (auto simp: seq_remove_def has_key_def filter_id_conv)

lemma bin_found_values:
  assumes "bin_descend key lt k t [] = Inl (Bin l d r, ctx)"
  shows "bin_values t = (bin_before ctx @ bin_values l) @ d # (bin_values r @ bin_behind ctx)"
  using bin_values_plug [of ctx "Bin l d r"] bin_found(1) [OF assms] by simp

lemma bst_push_spec:
  assumes srt: "key_sorted id lt (bin_values t)"
  shows "bin_values (fst (bst_push lt x t)) = seq_insert id lt x (bin_values t)
    \<and> (snd (bst_push lt x t) \<longleftrightarrow> \<not> has_key id lt x (bin_values t))
    \<and> key_sorted id lt (bin_values (fst (bst_push lt x t)))"
proof (cases "bin_descend id lt x t []")
  case (Inl cur)
  obtain n ctx where cur: "cur = (n, ctx)" by fastforce
  from bin_found(2) [OF Inl [unfolded cur]] obtain l d r where n: "n = Bin l d r" "same_key lt d x" by auto
  have "has_key id lt x (bin_values t)"
    unfolding has_key_def bin_found_values [OF Inl [unfolded cur n(1)]] using n(2) by auto
  with Inl srt show ?thesis by (simp add: bst_push_def seq_insert_def)
next
  case (Inr ctx)
  note d = bin_missing [OF Inr srt]
  from sorted_gap [of id "bin_before ctx" "bin_behind ctx" x] d(3,4) srt
  show ?thesis by (simp add: bst_push_def Inr d(2))
qed

lemma bst_find_spec:
  assumes srt: "key_sorted id lt (bin_values t)"
  shows "case bst_find lt x t of
      Some (n, ctx) \<Rightarrow> bin_plug ctx n = t \<and> (\<exists>l d r. n = Bin l d r \<and> same_key lt d x)
    | None \<Rightarrow> \<not> has_key id lt x (bin_values t)"
proof (cases "bin_descend id lt x t []")
  case (Inl cur)
  obtain n ctx where cur: "cur = (n, ctx)" by fastforce
  from bin_found [OF Inl [unfolded cur]] show ?thesis by (simp add: bst_find_def Inl cur)
next
  case (Inr ctx)
  note d = bin_missing [OF Inr srt]
  from missing_split(1) [where key = id and us = "bin_before ctx" and vs = "bin_behind ctx"] d(3,4)
  show ?thesis by (simp add: bst_find_def Inr d(2))
qed

lemma bst_pop_spec:
  assumes srt: "key_sorted id lt (bin_values t)"
  shows "bin_values (bst_pop lt x t) = seq_remove id lt x (bin_values t)"
proof (cases "bst_find lt x t")
  case None
  with bst_find_spec [OF srt, of x] removed_absent [of id x "bin_values t"]
  show ?thesis by (simp add: bst_pop_def)
next
  case (Some cur)
  obtain n ctx where cur: "cur = (n, ctx)" by fastforce
  from bst_find_spec [OF srt, of x] Some cur obtain l d r where
    n: "n = Bin l d r" "bin_plug ctx (Bin l d r) = t" "same_key lt d x" by auto
  have v: "bin_values t = (bin_before ctx @ bin_values l) @ d # (bin_values r @ bin_behind ctx)"
    using n(2) bin_values_plug [of ctx "Bin l d r"] by simp
  from seq_remove_split(1) [of id "bin_before ctx @ bin_values l" d "bin_values r @ bin_behind ctx" x]
    bst_pop_node [of lt x t l d r ctx] Some cur n srt
  show ?thesis by (simp add: v)
qed

end

lemma bin_clear_values: "bin_clear t = bin_values t"
  by (induction t rule: bin_clear.induct) simp_all

lemma bin_middle_stack: "bin_middle_order (bin_push_left t st) = bin_values t @ bin_middle_order st"
  by (induction t arbitrary: st) simp_all

lemma bin_count_middle: "bin_count st n = n + length (bin_middle_order st)"
  by (induction st n rule: bin_count.induct) simp_all

fun bin_preorder :: "'d btree \<Rightarrow> 'd list" where
  "bin_preorder Tip = []"
| "bin_preorder (Bin l d r) = d # bin_preorder l @ bin_preorder r"

lemma bin_push_child_simps [simp]:
  "bin_push_child Tip st = st" "bin_push_child (Bin l d r) st = Bin l d r # st"
  by (simp_all add: bin_push_child_def)

lemma concat_push_child:
  "f Tip = [] \<Longrightarrow> concat (map f (bin_push_child t st)) = f t @ concat (map f st)"
  by (cases t) simp_all

lemma bin_pre_order_stack: "bin_pre_order st = concat (map bin_preorder st)"
  by (induction st rule: bin_pre_order.induct) (simp_all add: concat_push_child)

lemma avl_count_stack: "avl_count st n = n + length (concat (map bin_values st))"
  by (induction st n rule: avl_count.induct) (simp_all add: concat_push_child)

lemma bin_loops:
  "bin_middle_order_traversal t = bin_values t" "bin_size t = length (bin_values t)"
  "bin_pre_order_traversal t = bin_preorder t"
  by (simp_all add: bin_middle_order_traversal_def bin_size_def bin_pre_order_traversal_def
      bin_middle_stack bin_count_middle bin_pre_order_stack concat_push_child)

section \<open>Properties\<close>

text \<open>
  A \<open>BinaryTree\<close> whose values are in order under a strict weak order stays in order; \<open>Push\<close> is the
  sorted insertion and says whether the value was new, \<open>Pop\<close> removes exactly the equivalent
  value, \<open>Find\<close> returns a node of the tree with an equivalent value or null when there is none,
  and \<open>Insert\<close> fails exactly when the anchor is missing and is a \<open>Push\<close> otherwise.
\<close>

theorem bst_correct:
  assumes "strict_weak_order lt" and "key_sorted id lt (bin_values t)"
  shows "bin_values (fst (bst_push lt x t)) = seq_insert id lt x (bin_values t)
    \<and> (snd (bst_push lt x t) \<longleftrightarrow> \<not> has_key id lt x (bin_values t))
    \<and> key_sorted id lt (bin_values (fst (bst_push lt x t)))
    \<and> bin_values (bst_pop lt x t) = seq_remove id lt x (bin_values t)
    \<and> key_sorted id lt (bin_values (bst_pop lt x t))
    \<and> (case bst_find lt x t of
         Some (n, ctx) \<Rightarrow> bin_plug ctx n = t \<and> (\<exists>l d r. n = Bin l d r \<and> same_key lt d x)
       | None \<Rightarrow> \<not> has_key id lt x (bin_values t))
    \<and> bst_insert lt a x t =
        (if has_key id lt a (bin_values t) then Inr (fst (bst_push lt x t)) else Inl InsertFind)"
proof -
  note bst_push = strict_weak_order.bst_push_spec [OF assms, of x]
  note bst_pop = strict_weak_order.bst_pop_spec [OF assms, of x]
  have "key_sorted id lt (bin_values (bst_pop lt x t))"
    unfolding bst_pop by (rule strict_weak_order.sorted_removed [OF assms])
  note find = strict_weak_order.bst_find_spec [OF assms]
  have "bst_insert lt a x t =
      (if has_key id lt a (bin_values t) then Inr (fst (bst_push lt x t)) else Inl InsertFind)"
    using find [of a] by (auto simp: bst_insert_def has_key_def split: option.splits)
  then show ?thesis using bst_push bst_pop find [of x] \<open>key_sorted id lt (bin_values (bst_pop lt x t))\<close> by blast
qed

theorem bst_correct_witness:
  "bin_values (fst (bst_push less_cmp (2 :: int) (Bin Tip 1 (Bin Tip 3 Tip)))) = [1, 2, 3]"
proof -
  have "key_sorted id less_cmp (bin_values (Bin Tip (1 :: int) (Bin Tip 3 Tip)))"
    by (simp add: key_sorted_def less_cmp_def)
  from bst_correct [OF less_order.strict_weak_order_axioms this, of 2 0]
  show ?thesis by (auto simp: has_key_def seq_insert_def same_key_def less_cmp_def)
qed

text \<open>
  The loops of both trees over an explicit stack print the values in order and in pre-order,
  \<open>Size()\<close> is their number, and \<open>Clear\<close>, which rotates the tree as it goes, frees each node once.
\<close>

theorem tree_loops_correct:
  "bin_middle_order_traversal t = bin_values t \<and> bin_pre_order_traversal t = bin_preorder t
    \<and> bin_size t = length (bin_values t) \<and> bin_clear t = bin_values t
    \<and> avl_middle_order u = map adata (bin_values u) \<and> avl_pre_order u = map adata (bin_preorder u)
    \<and> avl_size u = length (bin_values u) \<and> avl_clear u = map adata (bin_values u)"
  by (simp add: bin_loops avl_middle_order_def avl_pre_order_def avl_clear_def bin_clear_values avl_size_def
      bin_middle_stack bin_pre_order_stack avl_count_stack concat_push_child)

end
