(* ===== verification/AvlLaws.thy ===== *)
theory AvlLaws
  imports TreeLaws
begin

text \<open>
  The AVL invariant, that every operation of \<open>BalanceTree\<close> keeps it, and what the operations do to
  the sequence of pairs.  \<open>seats h ctx\<close> says that a subtree whose height is at most one away from \<open>h\<close>
  can be put into the context and rebalanced from there up.
\<close>

section \<open>Balance\<close>

fun avl :: "'v avl_tree \<Rightarrow> bool" where
  "avl Tip \<longleftrightarrow> True"
| "avl (Bin l d r) \<longleftrightarrow> avl l \<and> avl r \<and> aheight d = max (height_of l) (height_of r) + 1
     \<and> abalance d = height_of r - height_of l \<and> \<bar>height_of r - height_of l\<bar> \<le> 1"

fun seats :: "int \<Rightarrow> 'v anode bframe list \<Rightarrow> bool" where
  "seats h [] \<longleftrightarrow> True"
| "seats h (BLeft d r # ctx) \<longleftrightarrow> avl r \<and> \<bar>height_of r - h\<bar> \<le> 1 \<and> seats (max h (height_of r) + 1) ctx"
| "seats h (BRight l d # ctx) \<longleftrightarrow> avl l \<and> \<bar>height_of l - h\<bar> \<le> 1 \<and> seats (max (height_of l) h + 1) ctx"

abbreviation avl_values :: "'v avl_tree \<Rightarrow> 'v list" where
  "avl_values t \<equiv> map adata (bin_values t)"

lemma avl_height_nonneg: "avl t \<Longrightarrow> 0 \<le> height_of t \<and> (height_of t = 0 \<longleftrightarrow> t = Tip)"
  by (induction t) auto

lemma avl_unplug: "avl (bin_plug ctx t) \<Longrightarrow> avl t \<and> seats (height_of t) ctx"
proof (induction ctx arbitrary: t)
  case (Cons f ctx)
  from Cons.IH [of "bin_fill f t"] Cons.prems have *: "avl (bin_fill f t)" "seats (height_of (bin_fill f t)) ctx"
    by simp_all
  then show ?case by (cases f) (auto simp: abs_le_iff)
qed simp

text \<open>
  What one round may leave: a balanced subtree with the same values, whose height is that of the
  higher child plus one, or, after a rotation, possibly only that of the higher child.
\<close>

definition round_ok :: "'v avl_tree \<Rightarrow> 'v list \<Rightarrow> int \<Rightarrow> int \<Rightarrow> bool" where
  "round_ok t xs hl hr \<longleftrightarrow> avl t \<and> avl_values t = xs \<and> t \<noteq> Tip
     \<and> (height_of t = max hl hr + 1 \<or> \<bar>hl - hr\<bar> = 2 \<and> height_of t = max hl hr)"

lemma rebalance_even:
  assumes "avl l" and "avl r" and "\<bar>height_of l - height_of r\<bar> \<le> 1"
  shows "\<exists>t. rebalance_node (Bin l d r) = Some t
    \<and> round_ok t (avl_values l @ adata d # avl_values r) (height_of l) (height_of r)"
  using assms by (auto simp: rebalance_node_def round_ok_def abs_le_iff)

lemma rebalance_left_high:
  assumes l: "avl l" and r: "avl r" and high: "height_of l = height_of r + 2"
  shows "\<exists>t. rebalance_node (Bin l d r) = Some t
    \<and> round_ok t (avl_values l @ adata d # avl_values r) (height_of l) (height_of r)"
proof -
  have "l \<noteq> Tip" using high avl_height_nonneg [OF r] by auto
  then obtain a p b where lp: "l = Bin a p b" by (cases l) auto
  from l lp have ab: "avl a" "avl b" "height_of l = max (height_of a) (height_of b) + 1"
    "abalance p = height_of b - height_of a" "\<bar>height_of b - height_of a\<bar> \<le> 1" by auto
  show ?thesis
  proof (cases "height_of b > height_of a")
    case False
    with l r ab high lp show ?thesis
      by (auto simp: rebalance_node_def round_ok_def abs_le_iff)
  next
    case True
    then have "b \<noteq> Tip" using avl_height_nonneg [OF ab(1)] avl_height_nonneg [OF ab(2)] by auto
    then obtain b1 q b2 where bq: "b = Bin b1 q b2" by (cases b) auto
    from ab bq have b12: "avl b1" "avl b2" "height_of b = max (height_of b1) (height_of b2) + 1"
      "\<bar>height_of b2 - height_of b1\<bar> \<le> 1" by auto
    show ?thesis using True l r ab high lp bq b12
      by (auto simp: rebalance_node_def round_ok_def abs_le_iff)
  qed
qed

lemma rebalance_right_high:
  assumes l: "avl l" and r: "avl r" and high: "height_of r = height_of l + 2"
  shows "\<exists>t. rebalance_node (Bin l d r) = Some t
    \<and> round_ok t (avl_values l @ adata d # avl_values r) (height_of l) (height_of r)"
proof -
  have "r \<noteq> Tip" using high avl_height_nonneg [OF l] by auto
  then obtain a p b where rp: "r = Bin a p b" by (cases r) auto
  from r rp have ab: "avl a" "avl b" "height_of r = max (height_of a) (height_of b) + 1"
    "abalance p = height_of b - height_of a" "\<bar>height_of b - height_of a\<bar> \<le> 1" by auto
  show ?thesis
  proof (cases "height_of a > height_of b")
    case False
    with l r ab high rp show ?thesis
      by (auto simp: rebalance_node_def round_ok_def abs_le_iff)
  next
    case True
    then have "a \<noteq> Tip" using avl_height_nonneg [OF ab(1)] avl_height_nonneg [OF ab(2)] by auto
    then obtain a1 q a2 where aq: "a = Bin a1 q a2" by (cases a) auto
    from ab aq have a12: "avl a1" "avl a2" "height_of a = max (height_of a1) (height_of a2) + 1"
      "\<bar>height_of a2 - height_of a1\<bar> \<le> 1" by auto
    show ?thesis using True l r ab high rp aq a12
      by (auto simp: rebalance_node_def round_ok_def abs_le_iff)
  qed
qed

lemma rebalance_node_ok:
  assumes "avl l" and "avl r" and "\<bar>height_of l - height_of r\<bar> \<le> 2"
  shows "\<exists>t. rebalance_node (Bin l d r) = Some t
    \<and> round_ok t (avl_values l @ adata d # avl_values r) (height_of l) (height_of r)"
proof -
  consider "\<bar>height_of l - height_of r\<bar> \<le> 1" | "height_of l = height_of r + 2"
    | "height_of r = height_of l + 2" using assms(3) by linarith
  then show ?thesis
  proof cases
    case 1
    then show ?thesis by (rule rebalance_even [OF assms(1,2)])
  next
    case 2
    then show ?thesis by (rule rebalance_left_high [OF assms(1,2)])
  next
    case 3
    then show ?thesis by (rule rebalance_right_high [OF assms(1,2)])
  qed
qed

text \<open>The climb from a node whose children are balanced, into a context for the height \<open>h\<close>.\<close>

lemma rebalance_climb_ok:
  assumes "avl l" and "avl r" and "\<bar>height_of l - height_of r\<bar> \<le> 2" and "seats h ctx"
    and "\<bar>max (height_of l) (height_of r) + 1 - h\<bar> \<le> 1"
    and "\<bar>height_of l - height_of r\<bar> = 2 \<Longrightarrow> \<bar>max (height_of l) (height_of r) - h\<bar> \<le> 1"
  shows "\<exists>t. rebalance_climb (Bin l d r) ctx = Some t \<and> avl t
    \<and> avl_values t = map adata (bin_before ctx) @ avl_values l @ adata d # avl_values r @ map adata (bin_behind ctx)"
  using assms
proof (induction ctx arbitrary: l d r h)
  case Nil
  from rebalance_node_ok [OF Nil(1-3), of d] show ?case by (auto simp: round_ok_def)
next
  case (Cons f ctx)
  from rebalance_node_ok [OF Cons.prems(1-3), of d] obtain t where
    t: "rebalance_node (Bin l d r) = Some t"
    and ok: "round_ok t (avl_values l @ adata d # avl_values r) (height_of l) (height_of r)" by blast
  then have near: "\<bar>height_of t - h\<bar> \<le> 1" and tv: "avl t" "avl_values t = avl_values l @ adata d # avl_values r"
    using Cons.prems(5,6) by (auto simp: round_ok_def)
  show ?case
  proof (cases f)
    case (BLeft e s)
    with Cons.prems(4) have s: "avl s" "\<bar>height_of s - h\<bar> \<le> 1" "seats (max h (height_of s) + 1) ctx" by auto
    have "\<bar>height_of t - height_of s\<bar> \<le> 2"
      "\<bar>max (height_of t) (height_of s) + 1 - (max h (height_of s) + 1)\<bar> \<le> 1"
      "\<bar>height_of t - height_of s\<bar> = 2 \<Longrightarrow> \<bar>max (height_of t) (height_of s) - (max h (height_of s) + 1)\<bar> \<le> 1"
      using near s(2) by linarith+
    from Cons.IH [OF tv(1) s(1) this(1) s(3) this(2,3), of e] t BLeft tv(2) show ?thesis by simp
  next
    case (BRight s e)
    with Cons.prems(4) have s: "avl s" "\<bar>height_of s - h\<bar> \<le> 1" "seats (max (height_of s) h + 1) ctx" by auto
    have "\<bar>height_of s - height_of t\<bar> \<le> 2"
      "\<bar>max (height_of s) (height_of t) + 1 - (max (height_of s) h + 1)\<bar> \<le> 1"
      "\<bar>height_of s - height_of t\<bar> = 2 \<Longrightarrow> \<bar>max (height_of s) (height_of t) - (max (height_of s) h + 1)\<bar> \<le> 1"
      using near s(2) by linarith+
    from Cons.IH [OF s(1) tv(1) this(1) s(3) this(2,3), of e] t BRight tv(2) show ?thesis by simp
  qed
qed

text \<open>A subtree at most one away from the height its context is for, put there by its parent.\<close>

lemma rebalance_parent_ok:
  assumes "avl u" and "seats h (f # ctx)" and "\<bar>height_of u - h\<bar> \<le> 1"
  shows "\<exists>t. rebalance_from (bin_fill f u) ctx = Some t \<and> avl t
    \<and> avl_values t = map adata (bin_before (f # ctx)) @ avl_values u @ map adata (bin_behind (f # ctx))"
proof (cases f)
  case (BLeft e s)
  with assms(2) have s: "avl s" "\<bar>height_of s - h\<bar> \<le> 1" "seats (max h (height_of s) + 1) ctx" by auto
  have "\<bar>height_of u - height_of s\<bar> \<le> 2"
    "\<bar>max (height_of u) (height_of s) + 1 - (max h (height_of s) + 1)\<bar> \<le> 1"
    "\<bar>height_of u - height_of s\<bar> = 2 \<Longrightarrow> \<bar>max (height_of u) (height_of s) - (max h (height_of s) + 1)\<bar> \<le> 1"
    using assms(3) s(2) by linarith+
  from rebalance_climb_ok [OF assms(1) s(1) this(1) s(3) this(2,3), of e] BLeft
  show ?thesis by (simp add: rebalance_from_def)
next
  case (BRight s e)
  with assms(2) have s: "avl s" "\<bar>height_of s - h\<bar> \<le> 1" "seats (max (height_of s) h + 1) ctx" by auto
  have "\<bar>height_of s - height_of u\<bar> \<le> 2"
    "\<bar>max (height_of s) (height_of u) + 1 - (max (height_of s) h + 1)\<bar> \<le> 1"
    "\<bar>height_of s - height_of u\<bar> = 2 \<Longrightarrow> \<bar>max (height_of s) (height_of u) - (max (height_of s) h + 1)\<bar> \<le> 1"
    using assms(3) s(2) by linarith+
  from rebalance_climb_ok [OF s(1) assms(1) this(1) s(3) this(2,3), of e] BRight
  show ?thesis by (simp add: rebalance_from_def)
qed

lemma rebalance_place_ok:
  assumes "avl u" and "seats h ctx" and "\<bar>height_of u - h\<bar> \<le> 1"
  shows "\<exists>t. rebalance_from (fst (parent_of u ctx)) (snd (parent_of u ctx)) = Some t \<and> avl t
    \<and> avl_values t = map adata (bin_before ctx) @ avl_values u @ map adata (bin_behind ctx)"
proof (cases ctx)
  case Nil
  show ?thesis
  proof (cases u)
    case Tip
    with Nil show ?thesis by (simp add: rebalance_from_def)
  next
    case (Bin l d r)
    from assms(1) Bin rebalance_climb_ok [of l r "height_of u" "[]" d] Nil
    show ?thesis by (auto simp: rebalance_from_def abs_le_iff)
  qed
next
  case (Cons f ctx')
  from rebalance_parent_ok [of u h f ctx'] assms Cons show ?thesis by simp
qed

section \<open>Operations\<close>

lemma seats_data: "seats h (p @ BRight l d # ctx) = seats h (p @ BRight l d' # ctx)"
proof (induction p arbitrary: h)
  case (Cons f p)
  then show ?case by (cases f) simp_all
qed simp

lemma avl_unlink_ok:
  assumes whole: "avl (bin_plug ctx (Bin l d r))"
  shows "\<exists>t. rebalance_from (fst (avl_unlink (Bin l d r) ctx)) (snd (avl_unlink (Bin l d r) ctx)) = Some t
    \<and> avl t \<and> avl_values t = map adata (bin_before ctx) @ avl_values l @ avl_values r @ map adata (bin_behind ctx)"
proof -
  from avl_unplug [OF whole] have n: "avl l" "avl r" "\<bar>height_of r - height_of l\<bar> \<le> 1"
    "aheight d = max (height_of l) (height_of r) + 1" and st: "seats (aheight d) ctx" by auto
  note nonneg = avl_height_nonneg [OF n(1)] avl_height_nonneg [OF n(2)]
  consider "l = Tip" | "l \<noteq> Tip" "r = Tip" | "l \<noteq> Tip" "r \<noteq> Tip" by blast
  then show ?thesis
  proof cases
    case 1
    with n nonneg have "\<bar>height_of r - aheight d\<bar> \<le> 1" by auto
    from rebalance_place_ok [OF n(2) st this] 1 show ?thesis by simp
  next
    case 2
    with n nonneg have "\<bar>height_of l - aheight d\<bar> \<le> 1" by auto
    from rebalance_place_ok [OF n(1) st this] 2 show ?thesis by simp
  next
    case 3
    from bin_leftmost_shape [OF 3(2), of "[]"] obtain s sr path where
      p: "bin_leftmost r [] = (Bin Tip s sr, path)" "bin_before path = []" "bin_plug path (Bin Tip s sr) = r"
      by auto
    have r: "bin_values r = s # bin_values sr @ bin_behind path"
      using bin_values_plug [of path "Bin Tip s sr"] p by simp
    show ?thesis
    proof (cases path)
      case Nil
      from this p(3) n(2) have sr: "avl sr" "height_of r = max 0 (height_of sr) + 1" by auto
      then have sr2: "height_of r = height_of sr + 1" using avl_height_nonneg [OF sr(1)] by simp
      have "\<bar>height_of l - height_of sr\<bar> \<le> 2"
        "\<bar>max (height_of l) (height_of sr) + 1 - aheight d\<bar> \<le> 1"
        "\<bar>height_of l - height_of sr\<bar> = 2 \<Longrightarrow> \<bar>max (height_of l) (height_of sr) - aheight d\<bar> \<le> 1"
        using n(3,4) sr2 by linarith+
      from rebalance_climb_ok [OF n(1) sr(1) this(1) st this(2,3),
            of "ANode (adata s) (max (height_of l) (height_of sr) + 1) (height_of sr - height_of l)"] p(1) 3 Nil r
      show ?thesis by (simp add: rebalance_from_def)
    next
      case (Cons f path')
      let ?s = "ANode (adata s) (max (height_of l) (height_of r) + 1) (height_of r - height_of l)"
      have "avl (bin_plug (path @ BRight l d # ctx) (Bin Tip s sr))" using whole p(3) by simp
      from avl_unplug [OF this] have sr: "avl sr" "aheight s = height_of sr + 1"
        "seats (aheight s) (path @ BRight l d # ctx)" using avl_height_nonneg [of sr] by auto
      from sr(3) have "seats (aheight s) (f # path' @ BRight l ?s # ctx)"
        using seats_data [of "aheight s" path l d ctx ?s] Cons by simp
      from rebalance_parent_ok [OF sr(1) this] sr(2) p(1,2) 3 Cons r bin_cons_values [of f path']
      show ?thesis by (auto simp: bin_cons_values(2) [of f "path' @ BRight l ?s # ctx"]
            bin_cons_values(1) [of f "path' @ BRight l ?s # ctx"])
    qed
  qed
qed

context strict_weak_order
begin

lemma avl_insert_spec:
  assumes a: "avl t" and srt: "key_sorted key lt (avl_values t)"
  shows "\<exists>t'. avl_insert key lt x t = Some (t', \<not> has_key key lt (key x) (avl_values t)) \<and> avl t'
    \<and> avl_values t' = seq_insert key lt x (avl_values t) \<and> key_sorted key lt (avl_values t')"
proof (cases "bin_descend (key \<circ> adata) lt (key x) t []")
  case (Inl cur)
  obtain n ctx where cur: "cur = (n, ctx)" by fastforce
  from bin_found(2) [OF Inl [unfolded cur]] obtain l d r where
    n: "n = Bin l d r" "same_key lt (key (adata d)) (key x)" by auto
  have "has_key key lt (key x) (avl_values t)"
    unfolding has_key_def bin_found_values [OF Inl [unfolded cur n(1)]] using n(2) by auto
  with Inl a srt show ?thesis by (simp add: avl_insert_def seq_insert_def)
next
  case (Inr ctx)
  from srt have srt': "key_sorted (key \<circ> adata) lt (bin_values t)" by (simp add: key_sorted_map)
  note d = bin_missing [OF Inr srt']
  let ?us = "map adata (bin_before ctx)" and ?vs = "map adata (bin_behind ctx)"
  have v: "avl_values t = ?us @ ?vs" by (simp add: d(2))
  have "\<forall>y \<in> set ?us. lt (key y) (key x)" "\<forall>y \<in> set ?vs. lt (key x) (key y)" using d(3,4) by auto
  note gap = sorted_gap [OF srt [unfolded v] this]
  show ?thesis
  proof (cases ctx)
    case Nil
    then show ?thesis using Inr gap v by (simp add: avl_insert_def new_anode_def)
  next
    case (Cons f ctx')
    have "seats 0 (f # ctx')" using avl_unplug [of ctx Tip] a d(1) Cons by simp
    from rebalance_parent_ok [of "Bin Tip (new_anode x) Tip", OF _ this]
    obtain t' where t': "rebalance_from (bin_fill f (Bin Tip (new_anode x) Tip)) ctx' = Some t'" "avl t'"
      "avl_values t' = ?us @ x # ?vs" using Cons by (auto simp: new_anode_def)
    with Inr Cons gap show ?thesis by (simp add: avl_insert_def v)
  qed
qed

lemma avl_search_found:
  "avl_search key lt k t ctx = Some (n, ctx')
    \<Longrightarrow> bin_plug ctx' n = bin_plug ctx t \<and> (\<exists>l d r. n = Bin l d r \<and> same_key lt (key (adata d)) k)"
proof (induction t arbitrary: ctx)
  case (Bin l d r)
  show ?case
  proof (cases "same_key lt (key (adata d)) k")
    case False
    with Bin.prems Bin.IH(1) [of "BLeft d r # ctx"] Bin.IH(2) [of "BRight l d # ctx"]
    show ?thesis by (simp add: same_key_def split: if_splits)
  next
    case True
    with Bin.prems have "n = Bin l d r" "ctx' = ctx" by (simp_all add: same_key_def)
    with True show ?thesis by simp
  qed
qed simp

lemma avl_search_missing:
  "avl_search key lt k t ctx = None \<Longrightarrow> key_sorted key lt (avl_values t) \<Longrightarrow> \<not> has_key key lt k (avl_values t)"
proof (induction t arbitrary: ctx)
  case (Bin l d r)
  from Bin.prems(2) have srt: "key_sorted key lt (avl_values l)" "key_sorted key lt (avl_values r)"
    "\<forall>y \<in> set (avl_values l). lt (key y) (key (adata d))" "\<forall>y \<in> set (avl_values r). lt (key (adata d)) (key y)"
    by (auto simp: key_sorted_def sorted_wrt_append)
  show ?case
  proof (cases "lt (key (adata d)) k")
    case True
    then have "\<not> has_key key lt k (avl_values r)" using Bin.prems(1) Bin.IH(2) srt(2) by auto
    moreover have "\<forall>y \<in> set (avl_values l). lt (key y) k" using srt(3) trans [OF _ True] by blast
    ultimately show ?thesis using True by (auto simp: has_key_def same_key_def)
  next
    case False
    then have less: "lt k (key (adata d))" using Bin.prems(1) by (auto split: if_splits)
    then have "\<not> has_key key lt k (avl_values l)" using Bin.prems(1) Bin.IH(1) srt(1) False by auto
    moreover have "\<forall>y \<in> set (avl_values r). lt k (key y)" using srt(4) trans [OF less] by blast
    ultimately show ?thesis using less by (auto simp: has_key_def same_key_def)
  qed
qed (simp add: has_key_def)

lemma avl_pop_spec:
  assumes a: "avl t" and srt: "key_sorted key lt (avl_values t)"
  shows "\<exists>t'. avl_pop key lt k t = Some t' \<and> avl t' \<and> avl_values t' = seq_remove key lt k (avl_values t)"
proof (cases "avl_find key lt k t")
  case None
  with avl_search_missing [of key k t "[]"] srt removed_absent [of key k "avl_values t"] a
  show ?thesis by (simp add: avl_pop_def avl_find_def)
next
  case (Some cur)
  obtain n ctx where cur: "cur = (n, ctx)" by fastforce
  from Some cur avl_search_found [of key k t "[]" n ctx] obtain l d r where
    n: "n = Bin l d r" "bin_plug ctx (Bin l d r) = t" "same_key lt (key (adata d)) k"
    by (auto simp: avl_find_def)
  let ?us = "map adata (bin_before ctx) @ avl_values l" and ?vs = "avl_values r @ map adata (bin_behind ctx)"
  have v: "avl_values t = ?us @ adata d # ?vs"
    using n(2) bin_values_plug [of ctx "Bin l d r"] by simp
  from avl_unlink_ok [of ctx l d r] a n(2) obtain t' where
    t': "rebalance_from (fst (avl_unlink n ctx)) (snd (avl_unlink n ctx)) = Some t'" "avl t'"
    "avl_values t' = ?us @ ?vs" unfolding n(1) by auto
  have "avl_pop key lt k t = Some t'" using t'(1) Some cur by (simp add: avl_pop_def case_prod_beta)
  moreover have "avl_values t' = seq_remove key lt k (avl_values t)"
    unfolding v seq_remove_split(1) [OF srt [unfolded v] n(3)] by (rule t'(3))
  ultimately show ?thesis using t'(2) by blast
qed

end

section \<open>Height\<close>

lemma avl_count_height: "avl t \<Longrightarrow> 2 ^ (nat (height_of t) div 2) \<le> length (bin_values t) + 1"
proof (induction t rule: measure_induct_rule [where f = size])
  case (less t)
  show ?case
  proof (cases t)
    case (Bin l d r)
    with less.prems have n: "avl l" "avl r" "aheight d = max (height_of l) (height_of r) + 1"
      "\<bar>height_of r - height_of l\<bar> \<le> 1" by auto
    note nonneg = avl_height_nonneg [OF n(1)] avl_height_nonneg [OF n(2)]
    let ?h = "nat (aheight d) div 2"
    have half: "(2::nat) ^ (?h - 1) \<le> length (bin_values u) + 1" if "u \<in> {l, r}" for u
    proof -
      have "avl u" "size u < size t" "nat (aheight d) \<le> nat (height_of u) + 2" using that Bin n nonneg by auto
      then have "?h - 1 \<le> nat (height_of u) div 2" by linarith
      then have "(2::nat) ^ (?h - 1) \<le> 2 ^ (nat (height_of u) div 2)" by (rule power_increasing) simp
      also have "\<dots> \<le> length (bin_values u) + 1" by (rule less.IH) fact+
      finally show ?thesis .
    qed
    show ?thesis
    proof (cases "?h = 0")
      case False
      then have "(2::nat) ^ ?h = 2 ^ (?h - 1) + 2 ^ (?h - 1)" by (cases ?h) simp_all
      with half [of l] half [of r] Bin show ?thesis by simp
    qed (use Bin in simp)
  qed simp
qed

section \<open>Iterators\<close>

fun from_bin :: "'d bcursor option \<Rightarrow> 'd list" where
  "from_bin (Some (Bin l d r, ctx)) = d # bin_values r @ bin_behind ctx"
| "from_bin _ = []"

definition at_bin :: "'d btree \<Rightarrow> 'd bcursor option \<Rightarrow> bool" where
  "at_bin t it \<longleftrightarrow> (case it of None \<Rightarrow> True | Some (n, ctx) \<Rightarrow> n \<noteq> Tip \<and> bin_plug ctx n = t)"

lemma bin_leftmost_at:
  "t \<noteq> Tip \<Longrightarrow> at_bin (bin_plug ctx t) (Some (bin_leftmost t ctx))
    \<and> from_bin (Some (bin_leftmost t ctx)) = bin_values t @ bin_behind ctx"
  by (induction t ctx rule: bin_leftmost.induct) (auto simp: at_bin_def)

lemma bin_climb_right_at:
  "at_bin (bin_plug ctx t) (bin_climb_right t ctx) \<and> from_bin (bin_climb_right t ctx) = bin_behind ctx"
  by (induction t ctx rule: bin_climb_right.induct) (auto simp: at_bin_def)

lemma avl_next_at:
  assumes "at_bin t it"
  shows "at_bin t (avl_next it) \<and> from_bin (avl_next it) = tl (from_bin it)"
proof (cases it rule: avl_next.cases)
  case (1 l d r ctx)
  with assms have t: "bin_plug ctx (Bin l d r) = t" by (simp add: at_bin_def)
  show ?thesis
  proof (cases r)
    case Tip
    with 1 t bin_climb_right_at [of ctx "Bin l d r"] show ?thesis by simp
  next
    case (Bin a e b)
    with 1 t bin_leftmost_at [of r "BRight l d # ctx"] show ?thesis by simp
  qed
qed (use assms in \<open>auto simp: at_bin_def\<close>)

lemma avl_begin_at: "at_bin t (avl_begin t) \<and> from_bin (avl_begin t) = bin_values t"
  using bin_leftmost_at [of t "[]"] by (auto simp: avl_begin_def at_bin_def split: btree.splits)

lemma avl_iterate_at:
  "at_bin t ((avl_next ^^ k) (avl_begin t)) \<and> from_bin ((avl_next ^^ k) (avl_begin t)) = drop k (bin_values t)"
proof (induction k)
  case 0
  then show ?case using avl_begin_at by simp
next
  case (Suc k)
  with avl_next_at [of t "(avl_next ^^ k) (avl_begin t)"] show ?case by (simp add: drop_Suc tl_drop)
qed

section \<open>Properties\<close>

text \<open>
  C38: under a strict weak order \<open>Push\<close> and \<open>Pop\<close> on an AVL tree in order never follow a null link;
  the result is again an AVL tree in order whose stored heights and balance factors are the real
  ones, with the pair inserted at its place unless its key is there, or with exactly the pair of
  the key removed; \<open>Find\<close> returns a node of the tree with the key or null when there is none; and
  a tree of \<open>n\<close> pairs is at most about \<open>2 log (n + 1)\<close> high.
\<close>

theorem avl_correct:
  assumes "strict_weak_order lt" and "avl t" and "key_sorted key lt (map adata (bin_values t))"
  shows "(\<exists>t'. avl_insert key lt x t = Some (t', \<not> has_key key lt (key x) (map adata (bin_values t)))
        \<and> avl t' \<and> map adata (bin_values t') = seq_insert key lt x (map adata (bin_values t))
        \<and> key_sorted key lt (map adata (bin_values t')))
    \<and> (\<exists>t'. avl_pop key lt k t = Some t' \<and> avl t'
        \<and> map adata (bin_values t') = seq_remove key lt k (map adata (bin_values t))
        \<and> key_sorted key lt (map adata (bin_values t')))
    \<and> (case avl_find key lt k t of
        Some (n, ctx) \<Rightarrow> bin_plug ctx n = t \<and> (\<exists>l d r. n = Bin l d r \<and> same_key lt (key (adata d)) k)
      | None \<Rightarrow> \<not> has_key key lt k (map adata (bin_values t)))
    \<and> 2 ^ (nat (height_of t) div 2) \<le> length (bin_values t) + 1"
proof -
  note insert = strict_weak_order.avl_insert_spec [OF assms, of x]
  obtain t' where t': "avl_pop key lt k t = Some t'" "avl t'"
    "map adata (bin_values t') = seq_remove key lt k (map adata (bin_values t))"
    using strict_weak_order.avl_pop_spec [OF assms, of k] by blast
  have srt: "key_sorted key lt (map adata (bin_values t'))"
    unfolding t'(3) by (rule strict_weak_order.sorted_removed [OF assms(1,3)])
  have find: "case avl_find key lt k t of
        Some (n, ctx) \<Rightarrow> bin_plug ctx n = t \<and> (\<exists>l d r. n = Bin l d r \<and> same_key lt (key (adata d)) k)
      | None \<Rightarrow> \<not> has_key key lt k (map adata (bin_values t))"
    using strict_weak_order.avl_search_found [OF assms(1), of key k t "[]"]
      strict_weak_order.avl_search_missing [OF assms(1), of key k t "[]"] assms(3)
    by (auto simp: avl_find_def split: option.splits)
  from insert t' srt find avl_count_height [OF assms(2)] show ?thesis by blast
qed

theorem avl_correct_witness:
  "\<exists>t. avl_insert id less_cmp (3 :: int) (Bin Tip (ANode 1 2 1) (Bin Tip (ANode 2 1 0) Tip)) = Some (t, True)
     \<and> avl t \<and> map adata (bin_values t) = [1, 2, 3]"
proof -
  let ?t = "Bin Tip (ANode 1 2 1) (Bin Tip (ANode (2 :: int) 1 0) Tip)"
  have "avl ?t" by simp
  moreover have "key_sorted id less_cmp (map adata (bin_values ?t))" by (simp add: key_sorted_def less_cmp_def)
  ultimately show ?thesis
    using avl_correct [OF less_order.strict_weak_order_axioms, of ?t id 3 0]
    by (auto simp: has_key_def seq_insert_def same_key_def less_cmp_def)
qed

text \<open>
  Iterating an AVL tree from \<open>Begin()\<close>, after \<open>k\<close> increments the iterator is a node of the tree
  that holds pair number \<open>k\<close>, or the end iterator once every pair was visited.
\<close>

theorem avl_iteration_correct:
  "case (avl_next ^^ k) (avl_begin t) of
     Some (n, ctx) \<Rightarrow> bin_plug ctx n = t \<and> k < length (bin_values t)
        \<and> (\<exists>l r. n = Bin l (bin_values t ! k) r)
   | None \<Rightarrow> length (bin_values t) \<le> k"
proof (cases "(avl_next ^^ k) (avl_begin t)")
  case None
  with avl_iterate_at [of t k] show ?thesis by simp
next
  case (Some cur)
  obtain n ctx where cur: "cur = (n, ctx)" by fastforce
  with avl_iterate_at [of t k] Some obtain l d r where n: "n = Bin l d r" "bin_plug ctx n = t"
    "d # bin_values r @ bin_behind ctx = drop k (bin_values t)"
    by (cases n) (auto simp: at_bin_def)
  then have "k < length (bin_values t)" by (metis drop_all list.distinct(1) not_le)
  moreover from this n(3) have "d = bin_values t ! k" by (metis hd_drop_conv_nth list.sel(1))
  ultimately show ?thesis using Some cur n by auto
qed

text \<open>
  The postfix increment of a reverse iterator goes the wrong way: on the last of two pairs, where
  the prefix increment moves to the first, it moves to the end.
\<close>

lemma reverse_post_increment:
  "let t = Bin (Bin Tip (ANode (1 :: int) 1 0) Tip) (ANode 2 2 (-1)) Tip
   in snd (rev_post_incr (avl_rbegin t)) = None
     \<and> rev_incr (avl_rbegin t) = Some (Bin Tip (ANode 1 1 0) Tip, [BLeft (ANode 2 2 (-1)) Tip])"
  by (simp add: rev_post_incr_def rev_incr_def rev_decr_def avl_rbegin_def)

end
