(* ===== verification/TreeCopies.thy ===== *)
theory TreeCopies
  imports AvlTrees
begin

text \<open>
  The copy constructors of \<open>BinaryTree\<close> and \<open>BalanceTree\<close> (\<open>Wan/Container/Tree.hpp\<close>) and of
  \<open>RedBlackTree\<close> (\<open>Wan/Container/Base.hpp\<close>).  A copy is built by storing the addresses of new nodes
  into links of older ones, so the model keeps addresses: a cell is what a node holds with its
  left and right links, and its address is its place in the list of cells.  \<open>tree_at\<close> says that
  the cells reached from a pointer are a given tree.
\<close>

type_synonym 'p cell = "'p \<times> nat option \<times> nat option"

record 'p build =
  top :: "nat option"
  cells :: "'p cell list"

datatype link = RootLink | LeftLink nat | RightLink nat

definition set_left :: "nat \<Rightarrow> nat \<Rightarrow> 'p cell list \<Rightarrow> 'p cell list" where
  "set_left p a cs = cs[p := (fst (cs ! p), Some a, snd (snd (cs ! p)))]"

definition set_right :: "nat \<Rightarrow> nat \<Rightarrow> 'p cell list \<Rightarrow> 'p cell list" where
  "set_right p a cs = cs[p := (fst (cs ! p), fst (snd (cs ! p)), Some a)]"

fun put_link :: "link \<Rightarrow> nat \<Rightarrow> 'p build \<Rightarrow> 'p build" where
  "put_link RootLink a b = b\<lparr>top := Some a\<rparr>"
| "put_link (LeftLink p) a b = b\<lparr>cells := set_left p a (cells b)\<rparr>"
| "put_link (RightLink p) a b = b\<lparr>cells := set_right p a (cells b)\<rparr>"

fun link_parent :: "link \<Rightarrow> nat option" where
  "link_parent RootLink = None"
| "link_parent (LeftLink p) = Some p"
| "link_parent (RightLink p) = Some p"

section \<open>BinaryTree\<close>

text \<open>
  A pending item is a source node and the link of the copy to be set.  \<open>pay\<close> is what the new node
  holds beside its links: the value, and in a tree with parent links the parent's address too.
\<close>

definition push_pending :: "'d btree \<Rightarrow> link \<Rightarrow> ('d btree \<times> link) list \<Rightarrow> ('d btree \<times> link) list" where
  "push_pending t lk st = (case t of Tip \<Rightarrow> st | Bin _ _ _ \<Rightarrow> (t, lk) # st)"

function copy_loop :: "(nat option \<Rightarrow> 'd \<Rightarrow> 'p) \<Rightarrow> ('d btree \<times> link) list \<Rightarrow> 'p build \<Rightarrow> 'p build" where
  "copy_loop pay [] b = b"
| "copy_loop pay ((Tip, lk) # st) b = copy_loop pay st b"
| "copy_loop pay ((Bin l d r, lk) # st) b =
     (let a = length (cells b);
          b' = put_link lk a (b\<lparr>cells := cells b @ [(pay (link_parent lk) d, None, None)]\<rparr>)
      in copy_loop pay (push_pending l (LeftLink a) (push_pending r (RightLink a) st)) b')"
  by pat_completeness auto
termination
  by (relation "measure (\<lambda>(pay, st, b). sum_list (map (\<lambda>(t, lk). Suc (2 * size t)) st))")
    (auto simp: push_pending_def split: btree.splits)

definition bst_copy :: "'v btree \<Rightarrow> 'v build" where
  "bst_copy t = copy_loop (\<lambda>_ d. d) (push_pending t RootLink []) \<lparr>top = None, cells = []\<rparr>"

section \<open>BalanceTree\<close>

text \<open>
  A pending item is a source node, with its context for the parent link, and the address of the
  copy of its parent; the source's parent tells which link to set.
\<close>

definition push_source :: "'d btree \<Rightarrow> 'd bframe list \<Rightarrow> nat \<Rightarrow> ('d bcursor \<times> nat) list
    \<Rightarrow> ('d bcursor \<times> nat) list" where
  "push_source t ctx p st = (case t of Tip \<Rightarrow> st | Bin _ _ _ \<Rightarrow> ((t, ctx), p) # st)"

fun is_left_child :: "'d bframe list \<Rightarrow> bool" where
  "is_left_child (BLeft d r # ctx) = True"
| "is_left_child _ = False"

function avl_copy_loop :: "('v anode bcursor \<times> nat) list \<Rightarrow> ('v anode \<times> nat option) build
    \<Rightarrow> ('v anode \<times> nat option) build" where
  "avl_copy_loop [] b = b"
| "avl_copy_loop (((Tip, ctx), p) # st) b = avl_copy_loop st b"
| "avl_copy_loop (((Bin l d r, ctx), p) # st) b =
     (let a = length (cells b);
          cs = cells b @ [((d, Some p), None, None)];
          cs' = (if is_left_child ctx then set_left p a cs else set_right p a cs)
      in avl_copy_loop (push_source l (BLeft d r # ctx) a (push_source r (BRight l d # ctx) a st))
           (b\<lparr>cells := cs'\<rparr>))"
  by pat_completeness auto
termination
  by (relation "measure (\<lambda>(st, b). sum_list (map (\<lambda>((t, ctx), p). Suc (2 * size t)) st))")
    (auto simp: push_source_def split: btree.splits)

definition avl_copy :: "'v avl_tree \<Rightarrow> ('v anode \<times> nat option) build" where
  "avl_copy t =
     (case t of
        Tip \<Rightarrow> \<lparr>top = None, cells = []\<rparr>
      | Bin l d r \<Rightarrow>
          avl_copy_loop (push_source l [BLeft d r] 0 (push_source r [BRight l d] 0 []))
            \<lparr>top = Some 0, cells = [((d, None), None, None)]\<rparr>)"

section \<open>RedBlackTree\<close>

text \<open>
  A pending item is a source node and the address of its copy; the copies of both children are
  made when the item is taken, the left one first, with their parent link and colour.
\<close>

type_synonym 'v rb_cells = "((color \<times> 'v) \<times> nat option) cell list"

fun copy_left :: "'v rbt \<Rightarrow> nat \<Rightarrow> ('v rbt \<times> nat) list \<times> 'v rb_cells
    \<Rightarrow> ('v rbt \<times> nat) list \<times> 'v rb_cells" where
  "copy_left Leaf p (st, cs) = (st, cs)"
| "copy_left (Node l c v r) p (st, cs) =
     ((Node l c v r, length cs) # st, set_left p (length cs) (cs @ [(((c, v), Some p), None, None)]))"

fun copy_right :: "'v rbt \<Rightarrow> nat \<Rightarrow> ('v rbt \<times> nat) list \<times> 'v rb_cells
    \<Rightarrow> ('v rbt \<times> nat) list \<times> 'v rb_cells" where
  "copy_right Leaf p (st, cs) = (st, cs)"
| "copy_right (Node l c v r) p (st, cs) =
     ((Node l c v r, length cs) # st, set_right p (length cs) (cs @ [(((c, v), Some p), None, None)]))"

definition rb_pending_weight :: "('v rbt \<times> nat) list \<Rightarrow> nat" where
  "rb_pending_weight st = sum_list (map (\<lambda>(t, p). Suc (2 * size t)) st)"

lemma rb_pending_weight_simps [simp]:
  "rb_pending_weight [] = 0" "rb_pending_weight ((t, p) # st) = Suc (2 * size t + rb_pending_weight st)"
  by (simp_all add: rb_pending_weight_def)

lemma rb_pending_weight_copy:
  "rb_pending_weight (fst (copy_left t p s)) = rb_pending_weight (fst s) + (if t = Leaf then 0 else Suc (2 * size t))"
  "rb_pending_weight (fst (copy_right t p s)) = rb_pending_weight (fst s) + (if t = Leaf then 0 else Suc (2 * size t))"
  by (cases s; cases t; simp)+

function rb_copy_loop :: "('v rbt \<times> nat) list \<Rightarrow> 'v rb_cells \<Rightarrow> 'v rb_cells" where
  "rb_copy_loop [] cs = cs"
| "rb_copy_loop ((Leaf, p) # st) cs = rb_copy_loop st cs"
| "rb_copy_loop ((Node l c v r, p) # st) cs =
     (let s = copy_right r p (copy_left l p (st, cs)) in rb_copy_loop (fst s) (snd s))"
  by pat_completeness auto
termination
  by (relation "measure (\<lambda>x. rb_pending_weight (fst x))") (auto simp: rb_pending_weight_copy)

definition rb_copy :: "'v rbt \<Rightarrow> ((color \<times> 'v) \<times> nat option) build" where
  "rb_copy t =
     (case t of
        Leaf \<Rightarrow> \<lparr>top = None, cells = []\<rparr>
      | Node l c v r \<Rightarrow>
          \<lparr>top = Some 0, cells = rb_copy_loop [(Node l c v r, 0)] [(((c, v), None), None, None)]\<rparr>)"

text \<open>
  \<open>Swap\<close> and the moves exchange or empty the roots, with the functors along: the pair is the tree
  assigned to and the source.  Assigning first clears the old tree; self-assignment does nothing.
\<close>

definition rb_swap :: "'v rbt \<times> 'f \<Rightarrow> 'v rbt \<times> 'f \<Rightarrow> ('v rbt \<times> 'f) \<times> ('v rbt \<times> 'f)" where
  "rb_swap t u = (u, t)"

definition rb_move :: "'v rbt \<times> 'f \<Rightarrow> ('v rbt \<times> 'f) \<times> ('v rbt \<times> 'f)" where
  "rb_move other = (case other of (root, functors) \<Rightarrow> ((root, functors), (Leaf, functors)))"

definition rb_move_assign :: "bool \<Rightarrow> 'v rbt \<times> 'f \<Rightarrow> 'v rbt \<times> 'f \<Rightarrow> ('v rbt \<times> 'f) \<times> ('v rbt \<times> 'f)" where
  "rb_move_assign same this other = (if same then (this, other) else rb_move other)"

section \<open>What a pointer reaches\<close>

fun tree_at :: "(nat option \<Rightarrow> 'd \<Rightarrow> 'p) \<Rightarrow> 'p cell list \<Rightarrow> nat option \<Rightarrow> nat option \<Rightarrow> 'd btree
    \<Rightarrow> nat set \<Rightarrow> bool" where
  "tree_at pay cs par ptr Tip A \<longleftrightarrow> ptr = None \<and> A = {}"
| "tree_at pay cs par ptr (Bin l d r) A \<longleftrightarrow>
     (\<exists>a pl pr B C. ptr = Some a \<and> a < length cs \<and> cs ! a = (pay par d, pl, pr)
        \<and> tree_at pay cs (Some a) pl l B \<and> tree_at pay cs (Some a) pr r C
        \<and> A = insert a (B \<union> C) \<and> a \<notin> B \<union> C \<and> B \<inter> C = {})"

text \<open>The coloured nodes of a red-black tree as a plain tree of colours and values.\<close>

fun rb_shape :: "'v rbt \<Rightarrow> (color \<times> 'v) btree" where
  "rb_shape Leaf = Tip"
| "rb_shape (Node l c v r) = Bin (rb_shape l) (c, v) (rb_shape r)"

lemma tree_at_frame:
  "tree_at pay cs par ptr t A \<Longrightarrow> \<forall>i \<in> A. i < length cs' \<and> cs' ! i = cs ! i \<Longrightarrow> tree_at pay cs' par ptr t A"
proof (induction t arbitrary: par ptr A)
  case (Bin l d r)
  then obtain a pl pr B C where a: "ptr = Some a" "a < length cs" "cs ! a = (pay par d, pl, pr)"
    "tree_at pay cs (Some a) pl l B" "tree_at pay cs (Some a) pr r C"
    "A = insert a (B \<union> C)" "a \<notin> B \<union> C" "B \<inter> C = {}" by auto
  then have "tree_at pay cs' (Some a) pl l B" "tree_at pay cs' (Some a) pr r C" using Bin by auto
  with a Bin.prems(2) show ?case by auto
qed simp

section \<open>The copies are right\<close>

definition ptr_to :: "'d btree \<Rightarrow> nat \<Rightarrow> nat option" where
  "ptr_to t a = (case t of Tip \<Rightarrow> None | Bin _ _ _ \<Rightarrow> Some a)"

lemma ptr_to_simps [simp]: "ptr_to Tip a = None" "ptr_to (Bin l d r) a = Some a"
  by (simp_all add: ptr_to_def)

lemma push_pending_simps [simp]:
  "push_pending Tip lk st = st" "push_pending (Bin l d r) lk st = (Bin l d r, lk) # st"
  by (simp_all add: push_pending_def)

lemma copy_loop_Tip_id: "copy_loop pay ((t, lk) # st) b = copy_loop pay (push_pending t lk st) b"
  by (cases t) simp_all

definition link_ok :: "link \<Rightarrow> nat \<Rightarrow> bool" where
  "link_ok lk n \<longleftrightarrow> (case link_parent lk of None \<Rightarrow> True | Some p \<Rightarrow> p < n)"

definition linked_to :: "'d btree \<Rightarrow> link \<Rightarrow> 'p build \<Rightarrow> 'p build" where
  "linked_to t lk b = (case t of Tip \<Rightarrow> b | Bin _ _ _ \<Rightarrow> put_link lk (length (cells b)) b)"

lemma set_link_extend:
  "link_ok lk (length (cells b)) \<Longrightarrow>
     put_link lk a (b\<lparr>cells := cells b @ cs\<rparr>) = (put_link lk a b)\<lparr>cells := cells (put_link lk a b) @ cs\<rparr>"
  by (cases lk) (simp_all add: link_ok_def set_left_def set_right_def nth_append list_update_append)

lemma length_set_link [simp]: "length (cells (put_link lk a b)) = length (cells b)"
  by (cases lk) (simp_all add: set_left_def set_right_def)

lemma linked_to_child:
  assumes "length (cells b) = n"
  shows "linked_to l (LeftLink n) (b\<lparr>cells := cells b @ [(x, None, None)]\<rparr>)
      = b\<lparr>cells := cells b @ [(x, ptr_to l (Suc n), None)]\<rparr>"
    and "linked_to r (RightLink n) (b\<lparr>cells := cells b @ (x, pl, None) # new\<rparr>)
      = b\<lparr>cells := cells b @ (x, pl, ptr_to r (Suc n + length new)) # new\<rparr>"
  unfolding assms [symmetric]
  by (cases l; simp add: linked_to_def set_left_def list_update_append)
    (cases r; simp add: linked_to_def set_right_def list_update_append)

lemma tree_at_extend:
  "tree_at pay cs par ptr t {a..<b} \<Longrightarrow> b \<le> length cs \<Longrightarrow> tree_at pay (cs @ new) par ptr t {a..<b}"
  by (erule tree_at_frame) (simp add: nth_append)

lemma tree_at_node:
  assumes "tree_at pay cs (Some n) pl l {Suc n..<m}" and "tree_at pay cs (Some n) pr r {m..<k}"
    and "cs ! n = (pay par d, pl, pr)" and "n < length cs" and "Suc n \<le> m" and "m \<le> k"
  shows "tree_at pay cs par (Some n) (Bin l d r) {n..<k}"
proof -
  have "{n..<k} = insert n ({Suc n..<m} \<union> {m..<k})" using assms(5,6) by auto
  moreover have "n \<notin> {Suc n..<m} \<union> {m..<k}" "{Suc n..<m} \<inter> {m..<k} = {}" using assms(5) by auto
  ultimately show ?thesis using assms(1-4) unfolding tree_at.simps by blast
qed

lemma copy_loop_subtree:
  "link_ok lk (length (cells b)) \<Longrightarrow> \<exists>new. length new = size t
     \<and> copy_loop pay (push_pending t lk st) b
       = copy_loop pay st ((linked_to t lk b)\<lparr>cells := cells (linked_to t lk b) @ new\<rparr>)
     \<and> (\<forall>pre. length pre = length (cells b) \<longrightarrow>
          tree_at pay (pre @ new) (link_parent lk) (ptr_to t (length (cells b))) t
            {length (cells b)..<length (cells b) + size t})"
proof (induction t arbitrary: lk st b)
  case Tip
  show ?case by (rule exI [of _ "[]"]) (simp add: linked_to_def)
next
  case (Bin l d r)
  let ?n = "length (cells b)" and ?x = "pay (link_parent lk) d"
  let ?B = "put_link lk ?n b"
  let ?b' = "?B\<lparr>cells := cells ?B @ [(?x, None, None)]\<rparr>"
  have len: "length (cells ?B) = ?n" by simp
  have "link_ok (LeftLink ?n) (length (cells ?b'))" by (simp add: link_ok_def)
  from Bin.IH(1) [OF this, of "push_pending r (RightLink ?n) st"] obtain newl where
    l: "length newl = size l"
    "copy_loop pay (push_pending l (LeftLink ?n) (push_pending r (RightLink ?n) st)) ?b'
      = copy_loop pay (push_pending r (RightLink ?n) st) (?B\<lparr>cells := cells ?B @ (?x, ptr_to l (Suc ?n), None) # newl\<rparr>)"
    and tl: "length pre = Suc ?n \<Longrightarrow>
      tree_at pay (pre @ newl) (Some ?n) (ptr_to l (Suc ?n)) l {Suc ?n..<Suc ?n + size l}" for pre
    by (auto simp: linked_to_child(1) [OF len])
  let ?b2 = "?B\<lparr>cells := cells ?B @ (?x, ptr_to l (Suc ?n), None) # newl\<rparr>"
  have "link_ok (RightLink ?n) (length (cells ?b2))" by (simp add: link_ok_def)
  from Bin.IH(2) [OF this, of st] l(1) obtain newr where
    r: "length newr = size r"
    "copy_loop pay (push_pending r (RightLink ?n) st) ?b2 = copy_loop pay st
      (?B\<lparr>cells := cells ?B @ (?x, ptr_to l (Suc ?n), ptr_to r (Suc ?n + size l)) # newl @ newr\<rparr>)"
    and tr: "length pre = Suc ?n + size l \<Longrightarrow> tree_at pay (pre @ newr) (Some ?n)
      (ptr_to r (Suc ?n + size l)) r {Suc ?n + size l..<Suc ?n + size l + size r}" for pre
    by (auto simp: linked_to_child(2) [OF len])
  let ?new = "(?x, ptr_to l (Suc ?n), ptr_to r (Suc ?n + size l)) # newl @ newr"
  have "copy_loop pay (push_pending (Bin l d r) lk st) b
      = copy_loop pay st (?B\<lparr>cells := cells ?B @ ?new\<rparr>)"
    using l(2) r(2) set_link_extend [OF Bin.prems] by (simp add: Let_def)
  moreover have "tree_at pay (pre @ ?new) (link_parent lk) (Some ?n) (Bin l d r) {?n..<?n + size (Bin l d r)}"
    if "length pre = ?n" for pre
  proof -
    let ?c = "(?x, ptr_to l (Suc ?n), ptr_to r (Suc ?n + size l))"
    have "tree_at pay ((pre @ [?c]) @ newl) (Some ?n) (ptr_to l (Suc ?n)) l {Suc ?n..<Suc ?n + size l}"
      using tl [of "pre @ [?c]"] that by simp
    from tree_at_extend [OF this, of newr] tr [of "pre @ [?c] @ newl"] that l(1)
    show ?thesis
      by (intro tree_at_node [of pay "pre @ ?new" ?n "ptr_to l (Suc ?n)" l "Suc ?n + size l"
            "ptr_to r (Suc ?n + size l)" r]) (simp_all add: nth_append add.assoc)
  qed
  ultimately show ?case using l(1) r(1) by (intro exI [of _ ?new]) (simp add: linked_to_def)
qed

lemma bst_copy_tree:
  "top (bst_copy t) = ptr_to t 0 \<and> length (cells (bst_copy t)) = size t
    \<and> tree_at (\<lambda>_ d. d) (cells (bst_copy t)) None (top (bst_copy t)) t {..<size t}"
proof -
  let ?b = "\<lparr>top = None, cells = []\<rparr> :: 'a build"
  from copy_loop_subtree [of RootLink ?b t "\<lambda>_ d. d" "[]"] obtain new where
    "length new = size t" "bst_copy t = (linked_to t RootLink ?b)\<lparr>cells := cells (linked_to t RootLink ?b) @ new\<rparr>"
    "tree_at (\<lambda>_ d. d) new None (ptr_to t 0) t {0..<size t}"
    by (auto simp: link_ok_def bst_copy_def)
  then show ?thesis by (cases t) (simp_all add: linked_to_def lessThan_atLeast0)
qed

text \<open>The AVL loop sets the same links.\<close>

definition source_link :: "'d bframe list \<Rightarrow> nat \<Rightarrow> link" where
  "source_link ctx p = (if is_left_child ctx then LeftLink p else RightLink p)"

lemma push_source_links:
  "map (\<lambda>((t, ctx), p). (t, source_link ctx p)) (push_source t ctx p st)
    = push_pending t (source_link ctx p) (map (\<lambda>((t, ctx), p). (t, source_link ctx p)) st)"
  by (cases t) (simp_all add: push_source_def)

lemma avl_copy_loop_links:
  "\<forall>(cur, p) \<in> set st. p < length (cells b) \<Longrightarrow>
    avl_copy_loop st b = copy_loop (\<lambda>p d. (d, p)) (map (\<lambda>((t, ctx), p). (t, source_link ctx p)) st) b"
proof (induction st b rule: avl_copy_loop.induct)
  case (3 l d r ctx p st b)
  let ?cs = "cells b @ [((d, Some p), None, None)]"
  let ?cs' = "if is_left_child ctx then set_left p (length (cells b)) ?cs else set_right p (length (cells b)) ?cs"
  have "put_link (source_link ctx p) (length (cells b)) (b\<lparr>cells := ?cs\<rparr>) = b\<lparr>cells := ?cs'\<rparr>"
    "link_parent (source_link ctx p) = Some p"
    by (simp_all add: source_link_def)
  moreover have "source_link (BLeft d r # ctx) a = LeftLink a" "source_link (BRight l d # ctx) a = RightLink a" for a
    by (simp_all add: source_link_def)
  moreover have len: "length ?cs' = Suc (length (cells b))" by (simp add: set_left_def set_right_def)
  have "\<forall>(cur, q) \<in> set (push_source l (BLeft d r # ctx) (length (cells b))
      (push_source r (BRight l d # ctx) (length (cells b)) st)). q < length (cells (b\<lparr>cells := ?cs'\<rparr>))"
    using 3(2) len by (auto simp: push_source_def split: btree.splits)
  note "3.IH" [OF refl refl refl this]
  ultimately show ?case by (simp add: push_source_links Let_def)
qed auto

lemma avl_copy_tree:
  "length (cells (avl_copy t)) = size t
    \<and> tree_at (\<lambda>p d. (d, p)) (cells (avl_copy t)) None (top (avl_copy t)) t {..<size t}"
proof (cases t)
  case (Bin l d r)
  let ?e = "\<lparr>top = None, cells = []\<rparr> :: ('a anode \<times> nat option) build"
  have "avl_copy t = copy_loop (\<lambda>p d. (d, p)) (push_pending t RootLink []) ?e"
    using avl_copy_loop_links [of "push_source l [BLeft d r] 0 (push_source r [BRight l d] 0 [])"
        "\<lparr>top = Some 0, cells = [((d, None), None, None)]\<rparr>"] Bin
    by (simp add: avl_copy_def push_source_links source_link_def)
      (auto simp: push_source_def split: btree.splits)
  with copy_loop_subtree [of RootLink ?e t "\<lambda>p d. (d, p)" "[]"] Bin show ?thesis
    by (auto simp: link_ok_def linked_to_def lessThan_atLeast0 simp del: tree_at.simps)
qed (simp add: avl_copy_def)

text \<open>The red-black loop: an item for a node, none for null, and the cell made for a child.\<close>

definition rb_item :: "'v rbt \<Rightarrow> nat \<Rightarrow> ('v rbt \<times> nat) list" where
  "rb_item t p = (case t of Leaf \<Rightarrow> [] | Node _ _ _ _ \<Rightarrow> [(t, p)])"

definition child_cell :: "'v rbt \<Rightarrow> nat \<Rightarrow> 'v rb_cells" where
  "child_cell t p = (case t of Leaf \<Rightarrow> [] | Node _ c v _ \<Rightarrow> [(((c, v), Some p), None, None)])"

definition rb_ptr :: "'v rbt \<Rightarrow> nat \<Rightarrow> nat option" where
  "rb_ptr t a = (case t of Leaf \<Rightarrow> None | Node _ _ _ _ \<Rightarrow> Some a)"

definition rb_own :: "'v rbt \<Rightarrow> nat \<Rightarrow> nat set" where
  "rb_own t a = (case t of Leaf \<Rightarrow> {} | Node _ _ _ _ \<Rightarrow> {a})"

lemmas rb_child_defs = rb_item_def child_cell_def rb_ptr_def rb_own_def

lemma copy_children:
  assumes "p < length cs" and "cs ! p = (x, None, None)"
  shows "copy_right r p (copy_left l p (st, cs)) =
    (rb_item r (length cs + length (child_cell l p)) @ rb_item l (length cs) @ st,
     cs[p := (x, rb_ptr l (length cs), rb_ptr r (length cs + length (child_cell l p)))]
       @ child_cell l p @ child_cell r p)"
proof -
  have "cs[p := (x, None, None)] = cs" using assms(2) list_update_id [of cs p] by simp
  with assms show ?thesis
    by (cases l; cases r; simp add: rb_child_defs set_left_def set_right_def nth_append list_update_append)
qed

text \<open>The cell of the copy of \<open>t\<close>, before its links are set.\<close>

definition fresh_copy :: "'v rbt \<Rightarrow> nat \<Rightarrow> nat option \<Rightarrow> 'v rb_cells \<Rightarrow> bool" where
  "fresh_copy t p par cs \<longleftrightarrow> (case t of Leaf \<Rightarrow> True
     | Node _ c v _ \<Rightarrow> p < length cs \<and> cs ! p = (((c, v), par), None, None))"

lemma rb_copy_subtree:
  "fresh_copy t p par cs \<Longrightarrow> \<exists>cs'. rb_copy_loop (rb_item t p @ st) cs = rb_copy_loop st cs'
     \<and> length cs' = length cs + (size t - 1) \<and> (\<forall>i < length cs. i \<notin> rb_own t p \<longrightarrow> cs' ! i = cs ! i)
     \<and> tree_at (\<lambda>q d. (d, q)) cs' par (rb_ptr t p) (rb_shape t) (rb_own t p \<union> {length cs..<length cs'})"
proof (induction t arbitrary: p par cs st)
  case Leaf
  show ?case by (rule exI [of _ cs]) (simp add: rb_child_defs)
next
  case (Node l c v r)
  let ?n = "length cs" and ?x = "((c, v), par)" and ?pay = "\<lambda>q d. (d, q)"
  let ?ar = "?n + length (child_cell l p)"
  let ?cs2 = "cs[p := (?x, rb_ptr l ?n, rb_ptr r ?ar)] @ child_cell l p @ child_cell r p"
  from Node.prems have p: "p < ?n" "cs ! p = (?x, None, None)" by (simp_all add: fresh_copy_def)
  have loop: "rb_copy_loop (rb_item (Node l c v r) p @ st) cs
      = rb_copy_loop (rb_item r ?ar @ rb_item l ?n @ st) ?cs2"
    using copy_children [OF p] by (simp add: rb_item_def [of "Node l c v r"])
  have "fresh_copy r ?ar (Some p) ?cs2"
    by (cases r) (simp_all add: fresh_copy_def child_cell_def nth_append)
  from Node.IH(2) [OF this, of "rb_item l ?n @ st"] obtain cs3 where
    r: "rb_copy_loop (rb_item r ?ar @ rb_item l ?n @ st) ?cs2 = rb_copy_loop (rb_item l ?n @ st) cs3"
    "length cs3 = length ?cs2 + (size r - 1)" "\<forall>i < length ?cs2. i \<notin> rb_own r ?ar \<longrightarrow> cs3 ! i = ?cs2 ! i"
    "tree_at ?pay cs3 (Some p) (rb_ptr r ?ar) (rb_shape r) (rb_own r ?ar \<union> {length ?cs2..<length cs3})"
    by blast
  have "fresh_copy l ?n (Some p) cs3"
    using r(2,3) by (cases l; cases r) (simp_all add: fresh_copy_def rb_child_defs nth_append)
  from Node.IH(1) [OF this, of st] obtain cs4 where
    l: "rb_copy_loop (rb_item l ?n @ st) cs3 = rb_copy_loop st cs4"
    "length cs4 = length cs3 + (size l - 1)" "\<forall>i < length cs3. i \<notin> rb_own l ?n \<longrightarrow> cs4 ! i = cs3 ! i"
    "tree_at ?pay cs4 (Some p) (rb_ptr l ?n) (rb_shape l) (rb_own l ?n \<union> {length cs3..<length cs4})"
    by blast
  have len: "length cs4 = ?n + size l + size r" "length cs3 \<le> length cs4" "?n \<le> length ?cs2" "length ?cs2 \<le> length cs3"
    using r(2) l(2) by (cases l; cases r; simp add: rb_child_defs)+
  have old: "cs4 ! i = ?cs2 ! i" if "i < ?n" for i
    using that r(2,3) l(3) by (cases l; cases r) (simp_all add: rb_child_defs)
  let ?B = "rb_own l ?n \<union> {length cs3..<length cs4}" and ?C = "rb_own r ?ar \<union> {length ?cs2..<length cs3}"
  have disj: "?B \<inter> ?C = {}" "p \<notin> ?B \<union> ?C" and all: "{?n..<length cs4} = ?B \<union> ?C"
    using p(1) r(2) l(2) by (cases l; cases r; auto simp: rb_child_defs)+
  have "tree_at ?pay cs4 (Some p) (rb_ptr r ?ar) (rb_shape r) ?C"
    using r(4) by (rule tree_at_frame) (use r(2) l(2,3) in \<open>cases l; cases r; auto simp: rb_child_defs\<close>)
  moreover have "cs4 ! p = (?x, rb_ptr l ?n, rb_ptr r ?ar)" "p < length cs4"
    using old [OF p(1)] p(1) len by (simp_all add: nth_append)
  ultimately have "tree_at ?pay cs4 par (Some p) (rb_shape (Node l c v r)) (insert p {?n..<length cs4})"
    using l(4) disj unfolding all rb_shape.simps tree_at.simps by blast
  moreover have "\<forall>i < ?n. i \<notin> {p} \<longrightarrow> cs4 ! i = cs ! i" using old by (simp add: nth_append)
  ultimately show ?case using loop r(1) l(1) len(1)
    by (intro exI [of _ cs4]) (simp add: rb_own_def [of "Node l c v r"] rb_ptr_def [of "Node l c v r"])
qed

lemma rb_copy_tree:
  "length (cells (rb_copy t)) = size t
    \<and> tree_at (\<lambda>q d. (d, q)) (cells (rb_copy t)) None (top (rb_copy t)) (rb_shape t) {..<size t}"
proof (cases t)
  case (Node l c v r)
  have "fresh_copy t 0 None [(((c, v), None), None, None)]" by (simp add: Node fresh_copy_def)
  from rb_copy_subtree [OF this, of "[]"] obtain cs' where
    c: "rb_copy_loop (rb_item t 0 @ []) [(((c, v), None), None, None)] = rb_copy_loop [] cs'"
    "length cs' = length [(((c, v), None :: nat option), None :: nat option, None :: nat option)] + (size t - 1)"
    "tree_at (\<lambda>q d. (d, q)) cs' None (rb_ptr t 0) (rb_shape t)
      (rb_own t 0 \<union> {length [(((c, v), None :: nat option), None :: nat option, None :: nat option)]..<length cs'})"
    by blast
  have eq: "top (rb_copy t) = rb_ptr t 0" "cells (rb_copy t) = cs'"
    using c(1) by (simp_all add: Node rb_copy_def rb_child_defs)
  have "size t > 0" by (simp add: Node)
  with c(2) have len: "length cs' = size t" by simp
  have "rb_own t 0 \<union> {length [(((c, v), None :: nat option), None :: nat option, None :: nat option)]..<length cs'}
      = {..<size t}"
    unfolding len using \<open>size t > 0\<close> by (auto simp: Node rb_own_def)
  with c(3) len show ?thesis unfolding eq by simp
qed (simp add: rb_copy_def)

section \<open>Properties\<close>

text \<open>
  Each copy constructor ends with a heap of exactly one new node per node of the source; from
  the new root the left and right links reach, over distinct addresses, a tree with the same
  shape, values, stored heights and colours, and in the AVL and red-black trees every parent link
  is the address of the parent.
\<close>

theorem tree_copies_correct:
  "length (cells (bst_copy t)) = size t
    \<and> tree_at (\<lambda>_ d. d) (cells (bst_copy t)) None (top (bst_copy t)) t {..<size t}
    \<and> length (cells (avl_copy u)) = size u
    \<and> tree_at (\<lambda>q d. (d, q)) (cells (avl_copy u)) None (top (avl_copy u)) u {..<size u}
    \<and> length (cells (rb_copy w)) = size w
    \<and> tree_at (\<lambda>q d. (d, q)) (cells (rb_copy w)) None (top (rb_copy w)) (rb_shape w) {..<size w}"
  using bst_copy_tree [of t] avl_copy_tree [of u] rb_copy_tree [of w] by blast

end
