(* ===== verification/Checksums.thy ===== *)
theory Checksums
  imports Prelude
begin

unbundle bit_operations_syntax

text \<open>
  The checksum and the byte helpers of \<open>Wan/Network/Crypt/Encryption.hpp\<close> that use no cryptographic
  library: \<open>Crc32\<close> with its table, \<open>ConstantTimeEqual\<close>, \<open>AppendUint32\<close> and \<open>ReadUint32\<close>.  Bytes are
  characters, and the integers keep their widths.  The table is proved to be the one of the
  reflected polynomial, so the routine is compared with the definition bit by bit.
\<close>

section \<open>Crc32\<close>

definition mapping_table :: "32 word list" where
  "mapping_table =
    [0x00000000, 0x77073096, 0xEE0E612C, 0x990951BA, 0x076DC419, 0x706AF48F, 0xE963A535, 0x9E6495A3,
     0x0EDB8832, 0x79DCB8A4, 0xE0D5E91E, 0x97D2D988, 0x09B64C2B, 0x7EB17CBD, 0xE7B82D07, 0x90BF1D91,
     0x1DB71064, 0x6AB020F2, 0xF3B97148, 0x84BE41DE, 0x1ADAD47D, 0x6DDDE4EB, 0xF4D4B551, 0x83D385C7,
     0x136C9856, 0x646BA8C0, 0xFD62F97A, 0x8A65C9EC, 0x14015C4F, 0x63066CD9, 0xFA0F3D63, 0x8D080DF5,
     0x3B6E20C8, 0x4C69105E, 0xD56041E4, 0xA2677172, 0x3C03E4D1, 0x4B04D447, 0xD20D85FD, 0xA50AB56B,
     0x35B5A8FA, 0x42B2986C, 0xDBBBC9D6, 0xACBCF940, 0x32D86CE3, 0x45DF5C75, 0xDCD60DCF, 0xABD13D59,
     0x26D930AC, 0x51DE003A, 0xC8D75180, 0xBFD06116, 0x21B4F4B5, 0x56B3C423, 0xCFBA9599, 0xB8BDA50F,
     0x2802B89E, 0x5F058808, 0xC60CD9B2, 0xB10BE924, 0x2F6F7C87, 0x58684C11, 0xC1611DAB, 0xB6662D3D,
     0x76DC4190, 0x01DB7106, 0x98D220BC, 0xEFD5102A, 0x71B18589, 0x06B6B51F, 0x9FBFE4A5, 0xE8B8D433,
     0x7807C9A2, 0x0F00F934, 0x9609A88E, 0xE10E9818, 0x7F6A0DBB, 0x086D3D2D, 0x91646C97, 0xE6635C01,
     0x6B6B51F4, 0x1C6C6162, 0x856530D8, 0xF262004E, 0x6C0695ED, 0x1B01A57B, 0x8208F4C1, 0xF50FC457,
     0x65B0D9C6, 0x12B7E950, 0x8BBEB8EA, 0xFCB9887C, 0x62DD1DDF, 0x15DA2D49, 0x8CD37CF3, 0xFBD44C65,
     0x4DB26158, 0x3AB551CE, 0xA3BC0074, 0xD4BB30E2, 0x4ADFA541, 0x3DD895D7, 0xA4D1C46D, 0xD3D6F4FB,
     0x4369E96A, 0x346ED9FC, 0xAD678846, 0xDA60B8D0, 0x44042D73, 0x33031DE5, 0xAA0A4C5F, 0xDD0D7CC9,
     0x5005713C, 0x270241AA, 0xBE0B1010, 0xC90C2086, 0x5768B525, 0x206F85B3, 0xB966D409, 0xCE61E49F,
     0x5EDEF90E, 0x29D9C998, 0xB0D09822, 0xC7D7A8B4, 0x59B33D17, 0x2EB40D81, 0xB7BD5C3B, 0xC0BA6CAD,
     0xEDB88320, 0x9ABFB3B6, 0x03B6E20C, 0x74B1D29A, 0xEAD54739, 0x9DD277AF, 0x04DB2615, 0x73DC1683,
     0xE3630B12, 0x94643B84, 0x0D6D6A3E, 0x7A6A5AA8, 0xE40ECF0B, 0x9309FF9D, 0x0A00AE27, 0x7D079EB1,
     0xF00F9344, 0x8708A3D2, 0x1E01F268, 0x6906C2FE, 0xF762575D, 0x806567CB, 0x196C3671, 0x6E6B06E7,
     0xFED41B76, 0x89D32BE0, 0x10DA7A5A, 0x67DD4ACC, 0xF9B9DF6F, 0x8EBEEFF9, 0x17B7BE43, 0x60B08ED5,
     0xD6D6A3E8, 0xA1D1937E, 0x38D8C2C4, 0x4FDFF252, 0xD1BB67F1, 0xA6BC5767, 0x3FB506DD, 0x48B2364B,
     0xD80D2BDA, 0xAF0A1B4C, 0x36034AF6, 0x41047A60, 0xDF60EFC3, 0xA867DF55, 0x316E8EEF, 0x4669BE79,
     0xCB61B38C, 0xBC66831A, 0x256FD2A0, 0x5268E236, 0xCC0C7795, 0xBB0B4703, 0x220216B9, 0x5505262F,
     0xC5BA3BBE, 0xB2BD0B28, 0x2BB45A92, 0x5CB36A04, 0xC2D7FFA7, 0xB5D0CF31, 0x2CD99E8B, 0x5BDEAE1D,
     0x9B64C2B0, 0xEC63F226, 0x756AA39C, 0x026D930A, 0x9C0906A9, 0xEB0E363F, 0x72076785, 0x05005713,
     0x95BF4A82, 0xE2B87A14, 0x7BB12BAE, 0x0CB61B38, 0x92D28E9B, 0xE5D5BE0D, 0x7CDCEFB7, 0x0BDBDF21,
     0x86D3D2D4, 0xF1D4E242, 0x68DDB3F8, 0x1FDA836E, 0x81BE16CD, 0xF6B9265B, 0x6FB077E1, 0x18B74777,
     0x88085AE6, 0xFF0F6A70, 0x66063BCA, 0x11010B5C, 0x8F659EFF, 0xF862AE69, 0x616BFFD3, 0x166CCF45,
     0xA00AE278, 0xD70DD2EE, 0x4E048354, 0x3903B3C2, 0xA7672661, 0xD06016F7, 0x4969474D, 0x3E6E77DB,
     0xAED16A4A, 0xD9D65ADC, 0x40DF0B66, 0x37D83BF0, 0xA9BCAE53, 0xDEBB9EC5, 0x47B2CF7F, 0x30B5FFE9,
     0xBDBDF21C, 0xCABAC28A, 0x53B39330, 0x24B4A3A6, 0xBAD03605, 0xCDD70693, 0x54DE5729, 0x23D967BF,
     0xB3667A2E, 0xC4614AB8, 0x5D681B02, 0x2A6F2B94, 0xB40BBE37, 0xC30C8EA1, 0x5A05DF1B, 0x2D02EF8D]"

definition byte_word :: "char \<Rightarrow> 32 word" where
  "byte_word c = of_nat (of_char c)"

definition crc_byte :: "32 word \<Rightarrow> char \<Rightarrow> 32 word" where
  "crc_byte crc b = drop_bit 8 crc XOR mapping_table ! unat ((crc XOR byte_word b) AND 0xFF)"

datatype crc_error = LengthExceedsInput

text \<open>The length argument: its default, the largest 64-bit number, means the whole string.\<close>

definition crc32 :: "string \<Rightarrow> 64 word \<Rightarrow> crc_error + 32 word" where
  "crc32 data len =
     (let effective = (if len = -1 then of_nat (size data) else len)
      in if unat effective > size data then Inl LengthExceedsInput
         else Inr (NOT (foldl crc_byte 0xFFFFFFFF (take (unat effective) data))))"

section \<open>Bytes\<close>

definition constant_time_equal :: "string \<Rightarrow> string \<Rightarrow> bool" where
  "constant_time_equal l r \<longleftrightarrow> size l = size r
     \<and> foldl (\<lambda>d (a, b). d OR ((of_nat (of_char a) :: 8 word) XOR of_nat (of_char b))) 0 (zip l r) = 0"

text \<open>The least significant byte comes first.\<close>

definition append_uint32 :: "string \<Rightarrow> 32 word \<Rightarrow> string" where
  "append_uint32 out v = out @ map (\<lambda>s. char_of (unat (drop_bit s v AND 0xFF))) [0, 8, 16, 24]"

text \<open>Reading at a position: the new position and the value, or nothing when less than four bytes are left.\<close>

definition read_uint32 :: "string \<Rightarrow> nat \<Rightarrow> (nat \<times> 32 word) option" where
  "read_uint32 input pos =
     (if pos > size input \<or> size input - pos < 4 then None
      else Some (pos + 4,
        byte_word (input ! pos) OR push_bit 8 (byte_word (input ! (pos + 1)))
          OR push_bit 16 (byte_word (input ! (pos + 2))) OR push_bit 24 (byte_word (input ! (pos + 3)))))"

section \<open>The polynomial\<close>

text \<open>One bit of the division by the reflected polynomial of CRC-32, and eight of them.\<close>

definition crc_bit :: "32 word \<Rightarrow> 32 word" where
  "crc_bit x = drop_bit 1 x XOR (if bit x 0 then 0xEDB88320 else 0)"

definition crc_bits :: "32 word \<Rightarrow> char \<Rightarrow> 32 word" where
  "crc_bits crc b = (crc_bit ^^ 8) (crc XOR byte_word b)"

text \<open>The table is the doubling of the values at the eight powers of two.\<close>

definition doubled :: "32 word list \<Rightarrow> 32 word list \<Rightarrow> 32 word list" where
  "doubled = foldl (\<lambda>xs b. xs @ map ((XOR) b) xs)"

lemma mapping_table_doubled:
  "mapping_table = doubled [0]
     [0x77073096, 0xEE0E612C, 0x076DC419, 0x0EDB8832, 0x1DB71064, 0x3B6E20C8, 0x76DC4190, 0xEDB88320]"
  by (simp add: mapping_table_def doubled_def)

lemma crc_bit_xor: "crc_bit (x XOR y) = crc_bit x XOR crc_bit y"
  by (rule bit_word_eqI) (auto simp: crc_bit_def bit_xor_iff bit_drop_bit_eq)

lemma crc_bit_pow_xor: "(crc_bit ^^ n) (x XOR y) = (crc_bit ^^ n) x XOR (crc_bit ^^ n) y"
  by (induction n) (simp_all add: crc_bit_xor)

lemma crc_bit_pow_zero: "(crc_bit ^^ n) 0 = 0"
  by (induction n) (simp_all add: crc_bit_def)

lemma crc_bit_pow_eight: "(crc_bit ^^ 8) x = crc_bit (crc_bit (crc_bit (crc_bit (crc_bit (crc_bit (crc_bit (crc_bit x)))))))"
  by (simp add: numeral_eq_Suc)

lemma crc_bit_powers:
  "crc_bit 0x80 = 0x40" "crc_bit 0x40 = 0x20" "crc_bit 0x20 = 0x10" "crc_bit 0x10 = 8" "crc_bit 8 = 4"
  "crc_bit 4 = 2" "crc_bit 2 = 1" "crc_bit 1 = 0xEDB88320" "crc_bit 0xEDB88320 = 0x76DC4190"
  "crc_bit 0x76DC4190 = 0x3B6E20C8" "crc_bit 0x3B6E20C8 = 0x1DB71064" "crc_bit 0x1DB71064 = 0x0EDB8832"
  "crc_bit 0x0EDB8832 = 0x076DC419" "crc_bit 0x076DC419 = 0xEE0E612C" "crc_bit 0xEE0E612C = 0x77073096"
  by (simp_all add: crc_bit_def)

lemma of_nat_disjoint:
  assumes "j < 2 ^ n"
  shows "(of_nat (2 ^ n + j) :: 32 word) = 2 ^ n XOR of_nat j"
proof -
  have "take_bit n j = j" using assms by (simp add: take_bit_nat_eq_self)
  moreover have "(2 :: nat) ^ n AND take_bit n j = 0"
    by (rule bit_eqI) (auto simp: bit_and_iff bit_exp_iff bit_take_bit_iff)
  ultimately have "2 ^ n + j = 2 ^ n XOR j" by (metis disjunctive_add_eq_xor)
  then show ?thesis by (simp add: of_nat_xor_eq)
qed

lemma doubled_linear:
  fixes f :: "32 word \<Rightarrow> 32 word"
  assumes xor: "\<And>x y. f (x XOR y) = f x XOR f y" and "f 0 = 0"
  shows "doubled [0] (map (\<lambda>k. f (2 ^ k)) [0..<n]) = map (\<lambda>i. f (of_nat i)) [0..<2 ^ n]"
proof (induction n)
  case 0
  then show ?case using assms(2) by (simp add: doubled_def)
next
  case (Suc n)
  have split: "[0..<2 ^ Suc n] = [0..<2 ^ n] @ map ((+) (2 ^ n)) [0..<2 ^ n]"
    by (rule nth_equalityI) (auto simp: nth_append)
  have "map (\<lambda>i. f (of_nat (2 ^ n + i))) [0..<2 ^ n] = map (\<lambda>i. f (2 ^ n) XOR f (of_nat i)) [0..<2 ^ n]"
    by (rule map_cong [OF refl]) (simp only: of_nat_disjoint xor set_upt atLeastLessThan_iff)
  with Suc show ?case unfolding split by (simp add: doubled_def comp_def)
qed

lemma mapping_table_polynomial: "mapping_table = map (\<lambda>i. (crc_bit ^^ 8) (of_nat i)) [0..<256]"
proof -
  have "map (\<lambda>k. (crc_bit ^^ 8) (2 ^ k)) [0..<8] =
      [0x77073096, 0xEE0E612C, 0x076DC419, 0x0EDB8832, 0x1DB71064, 0x3B6E20C8, 0x76DC4190, 0xEDB88320]"
    by (simp add: upt_conv_Cons crc_bit_pow_eight crc_bit_powers)
  with doubled_linear [of "crc_bit ^^ 8" 8] show ?thesis
    by (simp add: mapping_table_doubled crc_bit_pow_xor crc_bit_pow_zero del: upt_rec_numeral)
qed

lemma crc_bit_pow_low_zero: "(\<forall>i < n. \<not> bit x i) \<Longrightarrow> (crc_bit ^^ n) x = drop_bit n x"
proof (induction n)
  case (Suc n)
  then have "(crc_bit ^^ n) x = drop_bit n x" "\<not> bit (drop_bit n x) 0" by (simp_all add: bit_drop_bit_eq)
  then have "(crc_bit ^^ Suc n) x = drop_bit 1 (drop_bit n x)" by (simp only: funpow.simps comp_apply) (simp add: crc_bit_def)
  then show ?case by simp
qed simp

lemma bit_byte_word: "bit (byte_word c) i \<Longrightarrow> i < 8"
proof -
  assume "bit (byte_word c) i"
  then have "bit (of_char c :: nat) i" by (simp add: byte_word_def bit_simps)
  moreover have "(of_char c :: nat) = take_bit 8 (of_char c)" by (simp add: take_bit_nat_eq_self)
  ultimately show "i < 8" by (metis bit_take_bit_iff)
qed

lemma low_byte_less: "unat ((x :: 32 word) AND 0xFF) < 256"
proof -
  have "x AND 0xFF = take_bit 8 x" by (simp add: take_bit_eq_mask mask_numeral)
  then have "unat (x AND 0xFF) = take_bit 8 (unat x)" by (simp add: unsigned_take_bit_eq)
  also have "\<dots> < 2 ^ 8" by (rule take_bit_nat_less_exp)
  finally show ?thesis by simp
qed

lemma xor_split: "(x :: 32 word) = (x AND m) XOR (x AND NOT m)"
  by (rule bit_word_eqI) (auto simp: bit_xor_iff bit_and_iff bit_not_iff)

lemma crc_byte_bits: "crc_byte crc b = crc_bits crc b"
proof -
  let ?y = "crc XOR byte_word b"
  have "(crc_bit ^^ 8) ?y = (crc_bit ^^ 8) (?y AND 0xFF) XOR (crc_bit ^^ 8) (?y AND NOT 0xFF)"
    unfolding crc_bit_pow_xor [symmetric] xor_split [symmetric] ..
  moreover have "(crc_bit ^^ 8) (?y AND NOT 0xFF) = drop_bit 8 crc"
  proof -
    have mask: "(0xFF :: 32 word) = mask 8" by (simp add: mask_numeral)
    have "(crc_bit ^^ 8) (?y AND NOT 0xFF) = drop_bit 8 (?y AND NOT 0xFF)"
      by (rule crc_bit_pow_low_zero) (simp add: mask bit_and_iff bit_not_iff bit_mask_iff)
    also have "\<dots> = drop_bit 8 crc"
      by (rule bit_word_eqI) (auto simp: mask bit_drop_bit_eq bit_and_iff bit_not_iff bit_mask_iff bit_xor_iff
          dest: bit_byte_word bit_imp_le_length)
    finally show ?thesis .
  qed
  moreover have "mapping_table ! unat (?y AND 0xFF) = (crc_bit ^^ 8) (?y AND 0xFF)"
    unfolding mapping_table_polynomial using low_byte_less [of ?y]
    by (simp add: nth_map nth_upt del: upt_rec_numeral)
  ultimately show ?thesis by (simp add: crc_byte_def crc_bits_def xor.commute)
qed

section \<open>Error detection\<close>

lemma xor_left_inj: "(x :: 32 word) XOR z = y XOR z \<longleftrightarrow> x = y"
proof
  assume "x XOR z = y XOR z"
  then have "(x XOR z) XOR z = (y XOR z) XOR z" by (rule arg_cong)
  then show "x = y" by (simp add: xor.assoc)
qed simp

lemma xor_right_inj: "(z :: 32 word) XOR x = z XOR y \<longleftrightarrow> x = y"
  using xor_left_inj [of x z y] by (simp only: xor.commute)

lemma crc_bit_inj: "crc_bit x = crc_bit y \<longleftrightarrow> x = y"
proof
  assume eq: "crc_bit x = crc_bit y"
  have poly: "bit (0xEDB88320 :: 32 word) 31" by simp
  have "\<not> bit (drop_bit 1 z) 31" for z :: "32 word"
    using bit_imp_le_length [of z 32] by (auto simp: bit_drop_bit_eq)
  then have top: "bit (crc_bit z) 31 \<longleftrightarrow> bit z 0" for z
    using poly by (simp only: crc_bit_def bit_xor_iff split: if_split) simp
  have low: "bit x 0 \<longleftrightarrow> bit y 0" using top [of x] top [of y] by (simp only: eq)
  have "drop_bit 1 x XOR (if bit y 0 then 0xEDB88320 else 0) = drop_bit 1 y XOR (if bit y 0 then 0xEDB88320 else 0)"
    using eq by (simp only: crc_bit_def low)
  then have drop: "drop_bit 1 x = drop_bit 1 y" by (simp only: xor_left_inj)
  show "x = y"
  proof (rule bit_word_eqI)
    fix n
    show "bit x n \<longleftrightarrow> bit y n"
      using low arg_cong [OF drop, of "\<lambda>z. bit z (n - 1)"] by (cases n) (simp_all add: bit_drop_bit_eq)
  qed
qed simp

lemma crc_bit_pow_inj: "(crc_bit ^^ n) x = (crc_bit ^^ n) y \<longleftrightarrow> x = y"
  by (induction n) (simp_all add: crc_bit_inj)

lemma crc_byte_inj:
  "crc_byte c b = crc_byte c' b \<longleftrightarrow> c = c'" "crc_byte c b = crc_byte c b' \<longleftrightarrow> byte_word b = byte_word b'"
  by (simp_all only: crc_byte_bits crc_bits_def crc_bit_pow_inj xor_left_inj xor_right_inj)

lemma crc_fold_inj: "foldl crc_byte c xs = foldl crc_byte c' xs \<longleftrightarrow> c = c'"
  by (induction xs arbitrary: c c') (simp_all add: crc_byte_inj)

lemma unat_byte_word: "unat (byte_word b) = of_char b"
proof -
  have "(of_char b :: nat) < 256" by simp
  then have "(of_char b :: nat) < 2 ^ 32" by (rule order_less_trans) simp
  then show ?thesis by (simp add: byte_word_def unsigned_of_nat take_bit_nat_eq_self)
qed

lemma byte_word_inj: "byte_word b = byte_word b' \<longleftrightarrow> b = b'"
proof
  assume "byte_word b = byte_word b'"
  then have "unat (byte_word b) = unat (byte_word b')" by simp
  then have "(of_char b :: nat) = of_char b'" by (simp only: unat_byte_word)
  then show "b = b'" by simp
qed simp

lemma crc32_whole:
  assumes "size data < 2 ^ 64 - 1"
  shows "crc32 data (of_nat (size data)) = Inr (NOT (foldl crc_byte 0xFFFFFFFF data))"
    and "crc32 data (-1) = Inr (NOT (foldl crc_byte 0xFFFFFFFF data))"
proof -
  have "unat (of_nat (size data) :: 64 word) = size data" using assms by (simp add: unsigned_of_nat take_bit_nat_eq_self)
  then show "crc32 data (of_nat (size data)) = Inr (NOT (foldl crc_byte 0xFFFFFFFF data))"
    "crc32 data (-1) = Inr (NOT (foldl crc_byte 0xFFFFFFFF data))"
    by (simp_all add: crc32_def Let_def)
qed

section \<open>Bytes of a word and comparison\<close>

lemma fold_or_zero: "foldl (\<lambda>d (a, b). d OR f a b) (d :: 8 word) ps = 0 \<longleftrightarrow> d = 0 \<and> (\<forall>(a, b) \<in> set ps. f a b = 0)"
proof (induction ps arbitrary: d)
  case (Cons p ps)
  then show ?case by (cases p) (auto simp: or_eq_0_iff)
qed simp

lemma of_char_byte_inj: "(of_nat (of_char a) :: 8 word) = of_nat (of_char b) \<longleftrightarrow> a = b"
proof
  assume "(of_nat (of_char a) :: 8 word) = of_nat (of_char b)"
  then have "unat (of_nat (of_char a) :: 8 word) = unat (of_nat (of_char b) :: 8 word)" by simp
  then have "(of_char a :: nat) = of_char b" by (simp add: unsigned_of_nat take_bit_nat_eq_self)
  then show "a = b" by simp
qed simp

lemma xor_zero_iff: "(x :: 8 word) XOR y = 0 \<longleftrightarrow> x = y"
proof
  assume "x XOR y = 0"
  then have "(x XOR y) XOR y = 0 XOR y" by simp
  then show "x = y" by (simp add: xor.assoc)
qed simp

lemma constant_time_equal_iff: "constant_time_equal l r \<longleftrightarrow> l = r"
proof -
  have "(\<forall>(a, b) \<in> set (zip l r). a = b) \<longleftrightarrow> l = r" if "length l = length r"
    using that by (induction rule: list_induct2) auto
  then show ?thesis
    unfolding constant_time_equal_def fold_or_zero xor_zero_iff of_char_byte_inj by auto
qed

lemma byte_word_char_of: "n < 256 \<Longrightarrow> byte_word (char_of n) = of_nat n"
  by (simp add: byte_word_def)

lemma uint32_bytes:
  "(v AND 0xFF) OR push_bit 8 (drop_bit 8 v AND 0xFF) OR push_bit 16 (drop_bit 16 v AND 0xFF)
     OR push_bit 24 (drop_bit 24 v AND 0xFF) = (v :: 32 word)"
proof -
  have mask: "(0xFF :: 32 word) = mask 8" by (simp add: mask_numeral)
  show ?thesis unfolding mask
  proof (rule bit_word_eqI)
    fix n
    assume "n < LENGTH(32)"
    consider "n < 8" | "8 \<le> n" "n < 16" | "16 \<le> n" "n < 24" | "24 \<le> n" by linarith
    then show "bit ((v AND mask 8) OR push_bit 8 (drop_bit 8 v AND mask 8) OR push_bit 16 (drop_bit 16 v AND mask 8)
        OR push_bit 24 (drop_bit 24 v AND mask 8)) n \<longleftrightarrow> bit v n"
      using \<open>n < LENGTH(32)\<close>
      by cases (simp_all add: bit_or_iff bit_and_iff bit_push_bit_iff bit_drop_bit_eq bit_mask_iff, linarith+)
  qed
qed

lemma read_append_uint32:
  "read_uint32 (append_uint32 out v) (size out) = Some (size out + 4, v)"
proof -
  have "byte_word (char_of (unat (x AND 0xFF))) = x AND 0xFF" for x :: "32 word"
    using low_byte_less [of x] by (simp add: byte_word_char_of)
  with uint32_bytes [of v] show ?thesis
    by (simp add: read_uint32_def append_uint32_def nth_append)
qed

section \<open>Properties\<close>

text \<open>
  The table-driven \<open>Crc32\<close> is the CRC-32 of the reflected polynomial 0xEDB88320, computed bit by
  bit, with its initial and final complement; a length beyond the input is an error, and nothing
  else is.
\<close>

theorem crc32_polynomial:
  assumes "size data < 2 ^ 64 - 1"
  shows "crc32 data (-1) = Inr (NOT (foldl crc_bits 0xFFFFFFFF data))
    \<and> (len \<noteq> -1 \<longrightarrow> crc32 data len =
        (if unat len \<le> size data then Inr (NOT (foldl crc_bits 0xFFFFFFFF (take (unat len) data)))
         else Inl LengthExceedsInput))"
proof -
  have "crc_byte = crc_bits" by (intro ext crc_byte_bits)
  with crc32_whole(2) [OF assms] show ?thesis by (simp add: crc32_def)
qed

theorem crc32_polynomial_witness:
  "crc32 ''123456789'' (-1) = Inr (NOT (foldl crc_bits 0xFFFFFFFF ''123456789''))"
  using crc32_polynomial [of "''123456789''" 0] by simp

text \<open>
  Replacing one byte of the input always changes the checksum.
\<close>

theorem crc32_detects_byte:
  assumes "size (xs @ b # ys) < 2 ^ 64 - 1" and "b \<noteq> b'"
  shows "crc32 (xs @ b # ys) (-1) \<noteq> crc32 (xs @ b' # ys) (-1)"
proof
  assume "crc32 (xs @ b # ys) (-1) = crc32 (xs @ b' # ys) (-1)"
  then have "foldl crc_byte (foldl crc_byte 0xFFFFFFFF xs) (b # ys) = foldl crc_byte (foldl crc_byte 0xFFFFFFFF xs) (b' # ys)"
    using assms(1) crc32_whole(2) [of "xs @ b # ys"] crc32_whole(2) [of "xs @ b' # ys"] by simp
  then have "b = b'" by (simp add: crc_fold_inj crc_byte_inj byte_word_inj)
  with assms(2) show False ..
qed

theorem crc32_detects_byte_witness: "crc32 ''abc'' (-1) \<noteq> crc32 ''abd'' (-1)"
  using crc32_detects_byte [of "''ab''" "CHR ''c''" "[]" "CHR ''d''"] by simp

end
