(* ===== verification/Protocols.thy ===== *)
theory Protocols
  imports Checksums Contexts "HOL-Library.AList" "HOL-Library.Char_ord" "HOL-Library.List_Lexorder"
begin

text \<open>
  The message protocol of \<open>Wan/Network/Agreement\<close>: the header base class (\<open>Assist.hpp\<close>), the request and
  response headers with their text form, and the messages of a header and a body (\<open>Protocol.hpp\<close>).
  An \<open>unordered_map\<close> of fields is a list of pairs with distinct keys; its order is never observed,
  since \<open>ToString\<close> sorts the keys.  A time point counts the
  ticks of \<open>std::chrono::system_clock\<close>, nanoseconds, while the text carries milliseconds.  The
  MD5 and SHA-256 digests of the cryptographic library are parameters that give their
  hexadecimal text, and the time of the call is the parameter \<open>now\<close>, in milliseconds.  The JSON
  conversions are not modelled.
\<close>

section \<open>Assist.hpp\<close>

datatype checksum_type = ChecksumCrc32 | ChecksumMd5 | ChecksumSha256 | ChecksumCustom

datatype protocol_type = JsonRpc | WebSocket | CustomTcp | BinaryStream | UserDefined

record proto_header =
  version :: "32 word"
  checksum_value :: "32 word"
  content_length :: "64 word"
  checksum_type :: checksum_type
  headers :: "(string \<times> string) list"
  protocol_type :: protocol_type

datatype invalid_argument = InvalidMethod | InvalidTarget | InvalidUserAgent | InvalidStatusCode
  | InvalidStatusMessage | InvalidServer | InvalidHeader

definition has_any :: "string \<Rightarrow> string \<Rightarrow> bool" where
  "has_any cs s \<longleftrightarrow> (\<exists>c \<in> set s. c \<in> set cs)"

abbreviation CRLF :: string where
  "CRLF \<equiv> [CHR 0x0D, CHR 0x0A]"

definition set_header :: "string \<Rightarrow> string \<Rightarrow> 'z proto_header_scheme \<Rightarrow> invalid_argument + 'z proto_header_scheme" where
  "set_header k v h =
     (if k = [] \<or> k = ''User-Agent'' \<or> k = ''Timestamp'' \<or> k = ''Server''
         \<or> has_any (CHR '':'' # CRLF) k \<or> has_any CRLF v
      then Inl InvalidHeader
      else Inr (h\<lparr>headers := AList.update k v (headers h)\<rparr>))"

definition remove_header :: "string \<Rightarrow> 'z proto_header_scheme \<Rightarrow> 'z proto_header_scheme \<times> bool" where
  "remove_header k h = (h\<lparr>headers := AList.delete k (headers h)\<rparr>, k \<in> fst ` set (headers h))"

definition clear_headers :: "'z proto_header_scheme \<Rightarrow> 'z proto_header_scheme" where
  "clear_headers h = h\<lparr>headers := []\<rparr>"

definition get_header :: "string \<Rightarrow> 'z proto_header_scheme \<Rightarrow> string option" where
  "get_header k h = map_of (headers h) k"

text \<open>\<open>std::from_chars\<close> to base 16 on the first eight characters: the digits up to the first other one.\<close>

definition first_hex :: "string \<Rightarrow> 32 word" where
  "first_hex s = of_nat (foldl (\<lambda>n c. 16 * n + (case hex_value c of None \<Rightarrow> 0 | Some d \<Rightarrow> d)) 0
     (takeWhile (\<lambda>c. hex_value c \<noteq> None) (take 8 s)))"

definition calculate_check_code :: "(string \<Rightarrow> string) \<Rightarrow> (string \<Rightarrow> string) \<Rightarrow> checksum_type \<Rightarrow> string \<Rightarrow> crc_error + 32 word" where
  "calculate_check_code md5 sha256 ct data =
     (case ct of
        ChecksumCrc32 \<Rightarrow> crc32 data (of_nat (size data))
      | ChecksumMd5 \<Rightarrow> Inr (first_hex (md5 data))
      | ChecksumSha256 \<Rightarrow> Inr (first_hex (sha256 data))
      | ChecksumCustom \<Rightarrow> Inr 0)"

definition calculate_and_set_checksum :: "(string \<Rightarrow> string) \<Rightarrow> (string \<Rightarrow> string) \<Rightarrow> string
    \<Rightarrow> 'z proto_header_scheme \<Rightarrow> crc_error + 'z proto_header_scheme" where
  "calculate_and_set_checksum md5 sha256 content h =
     (case calculate_check_code md5 sha256 (checksum_type h) content of
        Inl e \<Rightarrow> Inl e
      | Inr c \<Rightarrow> Inr (h\<lparr>content_length := of_nat (size content), checksum_value := c\<rparr>))"

definition verify_integrity :: "(string \<Rightarrow> string) \<Rightarrow> (string \<Rightarrow> string) \<Rightarrow> string
    \<Rightarrow> 'z proto_header_scheme \<Rightarrow> crc_error + bool" where
  "verify_integrity md5 sha256 content h =
     (if of_nat (size content) \<noteq> content_length h then Inr False
      else case calculate_check_code md5 sha256 (checksum_type h) content of
          Inl e \<Rightarrow> Inl e
        | Inr c \<Rightarrow> Inr (c = checksum_value h))"

section \<open>Request and response headers\<close>

text \<open>
  \<open>duration_cast<milliseconds>\<close> of a time point, which cuts towards zero, and the time point of a
  number of milliseconds.
\<close>

definition ticks_per_ms :: int where
  "ticks_per_ms = 1000000"

definition to_ms :: "int \<Rightarrow> int" where
  "to_ms t = (if t < 0 then - (- t div ticks_per_ms) else t div ticks_per_ms)"

definition from_ms :: "int \<Rightarrow> int" where
  "from_ms m = m * ticks_per_ms"

record request_header = proto_header +
  req_method :: string
  target :: string
  user_agent :: string
  request_time :: int

record response_header = proto_header +
  server :: string
  status_code :: "16 word"
  status_message :: string
  response_time :: int

definition set_method :: "string \<Rightarrow> request_header \<Rightarrow> invalid_argument + request_header" where
  "set_method m h =
     (if m = [] \<or> size m > 10 \<or> has_any ([CHR '' '', CHR 0x09] @ CRLF) m then Inl InvalidMethod
      else Inr (h\<lparr>req_method := m\<rparr>))"

definition set_target :: "string \<Rightarrow> request_header \<Rightarrow> invalid_argument + request_header" where
  "set_target t h =
     (if t = [] \<or> size t > 2048 \<or> has_any CRLF t then Inl InvalidTarget else Inr (h\<lparr>target := t\<rparr>))"

definition set_user_agent :: "string \<Rightarrow> request_header \<Rightarrow> invalid_argument + request_header" where
  "set_user_agent u h =
     (if size u > 512 \<or> has_any CRLF u then Inl InvalidUserAgent else Inr (h\<lparr>user_agent := u\<rparr>))"

definition set_status_code :: "16 word \<Rightarrow> response_header \<Rightarrow> invalid_argument + response_header" where
  "set_status_code c h =
     (if c < 100 \<or> c > 599 then Inl InvalidStatusCode else Inr (h\<lparr>status_code := c\<rparr>))"

definition set_status_message :: "string \<Rightarrow> response_header \<Rightarrow> invalid_argument + response_header" where
  "set_status_message m h =
     (if m = [] \<or> size m > 256 \<or> has_any CRLF m then Inl InvalidStatusMessage
      else Inr (h\<lparr>status_message := m\<rparr>))"

definition set_server :: "string \<Rightarrow> response_header \<Rightarrow> invalid_argument + response_header" where
  "set_server s h =
     (if size s > 512 \<or> has_any CRLF s then Inl InvalidServer else Inr (h\<lparr>server := s\<rparr>))"

subsection \<open>Text form\<close>

definition checksum_code :: "checksum_type \<Rightarrow> nat" where
  "checksum_code ct = (case ct of ChecksumCrc32 \<Rightarrow> 0 | ChecksumMd5 \<Rightarrow> 1 | ChecksumSha256 \<Rightarrow> 2 | ChecksumCustom \<Rightarrow> 3)"

definition field_line :: "string \<times> string \<Rightarrow> string" where
  "field_line = (\<lambda>(k, v). k @ '': '' @ v @ CRLF)"

definition serialize_headers :: "(string \<times> string) list \<Rightarrow> string" where
  "serialize_headers hs = concat (map field_line (sort_key fst hs))"

definition request_to_string :: "request_header \<Rightarrow> string" where
  "request_to_string h =
     req_method h @ '' '' @ target h @ '' '' @ nat_text (unat (version h)) @ '' ''
     @ nat_text (checksum_code (checksum_type h)) @ '' '' @ nat_text (unat (checksum_value h)) @ '' ''
     @ nat_text (unat (content_length h)) @ CRLF
     @ (if user_agent h = [] then [] else field_line (''User-Agent'', user_agent h))
     @ field_line (''Timestamp'', int_text (to_ms (request_time h)))
     @ serialize_headers (headers h) @ CRLF"

definition response_to_string :: "response_header \<Rightarrow> string" where
  "response_to_string h =
     nat_text (unat (version h)) @ '' '' @ nat_text (unat (status_code h)) @ '' '' @ status_message h @ '' ''
     @ nat_text (checksum_code (checksum_type h)) @ '' '' @ nat_text (unat (checksum_value h)) @ '' ''
     @ nat_text (unat (content_length h)) @ CRLF
     @ (if server h = [] then [] else field_line (''Server'', server h))
     @ field_line (''Timestamp'', int_text (to_ms (response_time h)))
     @ serialize_headers (headers h) @ CRLF"

subsection \<open>Parsing\<close>

text \<open>\<open>find\<close> of a string view: the first place where the pattern occurs.\<close>

fun find_sub :: "string \<Rightarrow> string \<Rightarrow> nat option" where
  "find_sub p [] = (if p = [] then Some 0 else None)"
| "find_sub p (c # cs) = (if take (size p) (c # cs) = p then Some 0 else map_option Suc (find_sub p cs))"

text \<open>The line up to the next \<open>\\r\\n\<close>, and what follows that.\<close>

definition cut_line :: "string \<Rightarrow> (string \<times> string) option" where
  "cut_line s = map_option (\<lambda>i. (take i s, drop (i + 2) s)) (find_sub CRLF s)"

text \<open>The nonempty pieces between blanks, at most ten.\<close>

fun split_blank :: "string \<Rightarrow> string \<Rightarrow> string list" where
  "split_blank w [] = [w]"
| "split_blank w (c # cs) = (if c = CHR '' '' then w # split_blank [] cs else split_blank (w @ [c]) cs)"

definition line_parts :: "string \<Rightarrow> string list" where
  "line_parts s = take 10 (filter (\<lambda>w. w \<noteq> []) (split_blank [] s))"

text \<open>\<open>SafeParse\<close>: an unsigned number below the bound, and a signed 64-bit one.\<close>

definition digits_value :: "string \<Rightarrow> nat option" where
  "digits_value s =
     (if s \<noteq> [] \<and> list_all digit_char s then Some (foldl (\<lambda>n c. 10 * n + (of_char c - 48)) 0 s) else None)"

definition safe_parse :: "nat \<Rightarrow> string \<Rightarrow> nat option" where
  "safe_parse bound s =
     (if s = [] \<or> size s > 20 then None
      else case digits_value s of None \<Rightarrow> None | Some n \<Rightarrow> if n < bound then Some n else None)"

definition safe_parse_int :: "string \<Rightarrow> int option" where
  "safe_parse_int s =
     (if s = [] \<or> size s > 20 then None
      else if hd s = CHR ''-'' then
        (case digits_value (tl s) of None \<Rightarrow> None | Some n \<Rightarrow> if n \<le> 2 ^ 63 then Some (- int n) else None)
      else
        (case digits_value s of None \<Rightarrow> None | Some n \<Rightarrow> if n < 2 ^ 63 then Some (int n) else None))"

definition checksum_of_code :: "nat \<Rightarrow> checksum_type option" where
  "checksum_of_code n =
     (if n = 0 then Some ChecksumCrc32 else if n = 1 then Some ChecksumMd5
      else if n = 2 then Some ChecksumSha256 else if n = 3 then Some ChecksumCustom else None)"

definition blank :: "char \<Rightarrow> bool" where
  "blank c \<longleftrightarrow> c = CHR '' '' \<or> c = CHR 0x09"

definition safe_trim :: "string \<Rightarrow> string option" where
  "safe_trim s = (if size s > 8192 then None else Some (rev (dropWhile blank (rev (dropWhile blank s)))))"

text \<open>What the loop over the field lines has collected: the fields, the special field and the timestamp.\<close>

record parsed =
  temp_headers :: "(string \<times> string) list"
  temp_special :: "string option"
  temp_time :: "int option"

text \<open>One field line; \<open>special\<close> is the name of the field kept apart, \<open>User-Agent\<close> or \<open>Server\<close>.\<close>

definition store_field :: "string \<Rightarrow> int \<Rightarrow> string \<Rightarrow> string \<Rightarrow> parsed \<Rightarrow> parsed option" where
  "store_field special now k v p =
     (if k = special then
        (if temp_special p \<noteq> None \<or> size v > 512 then None else Some (p\<lparr>temp_special := Some v\<rparr>))
      else if k = ''Timestamp'' then
        (if temp_time p \<noteq> None then None
         else case safe_parse_int v of
             None \<Rightarrow> None
           | Some ts \<Rightarrow> if ts < 0 \<or> ts > now + 86400000 then None else Some (p\<lparr>temp_time := Some (from_ms ts)\<rparr>))
      else if size (temp_headers p) \<ge> 90 then None
      else Some (p\<lparr>temp_headers := AList.update k v (temp_headers p)\<rparr>))"

definition parse_field :: "string \<Rightarrow> int \<Rightarrow> string \<Rightarrow> parsed \<Rightarrow> parsed option" where
  "parse_field special now line p =
     (case find_char (CHR '':'') line of
        None \<Rightarrow> None
      | Some colon \<Rightarrow>
          if colon = 0 \<or> colon \<ge> size line - 1 then None
          else case (safe_trim (take colon line), safe_trim (drop (colon + 1) line)) of
              (Some k, Some v) \<Rightarrow>
                if k = [] \<or> size k > 256 \<or> size v > 8192 \<or> has_any (CRLF @ '':'') k \<or> has_any CRLF v then None
                else store_field special now k v p
            | _ \<Rightarrow> None)"

text \<open>
  The loop, with the number of lines it may still read: the fields, whether the empty line was
  seen, and the rest of the text.
\<close>

fun field_loop :: "string \<Rightarrow> int \<Rightarrow> nat \<Rightarrow> string \<Rightarrow> parsed \<Rightarrow> (parsed \<times> bool \<times> string) option" where
  "field_loop special now 0 s p = Some (p, False, s)"
| "field_loop special now (Suc n) s p =
     (if s = [] then Some (p, False, s)
      else case cut_line s of
          None \<Rightarrow> None
        | Some (line, rest) \<Rightarrow>
            if size line > 8192 then None
            else if line = [] then Some (p, True, rest)
            else case parse_field special now line p of
                None \<Rightarrow> None
              | Some p' \<Rightarrow> field_loop special now n rest p')"

definition parse_fields :: "string \<Rightarrow> int \<Rightarrow> string \<Rightarrow> (parsed \<times> int) option" where
  "parse_fields special now s =
     (case field_loop special now 100 s \<lparr>temp_headers = [], temp_special = None, temp_time = None\<rparr> of
        None \<Rightarrow> None
      | Some (p, terminated, rest) \<Rightarrow>
          (case temp_time p of
             None \<Rightarrow> None
           | Some ts \<Rightarrow> if \<not> terminated \<or> rest \<noteq> [] then None else Some (p, ts)))"

definition max_protocol_message_size :: nat where
  "max_protocol_message_size = 1024 * 1024"

text \<open>\<open>RequestHeader::FromString\<close>: the new header, or nothing, and then the old one is unchanged.\<close>

definition request_from_string :: "int \<Rightarrow> string \<Rightarrow> request_header \<Rightarrow> request_header option" where
  "request_from_string now data h =
     (if size data < 10 \<or> size data > max_protocol_message_size then None
      else case cut_line data of
          None \<Rightarrow> None
        | Some (line, rest) \<Rightarrow>
            (case line_parts line of
               [m, t, v, c, cv, cl] \<Rightarrow>
                 if size m > 10 \<or> size t > 2048 then None
                 else (case (safe_parse (2 ^ 32) v, safe_parse 256 c, safe_parse (2 ^ 32) cv, safe_parse (2 ^ 64) cl) of
                     (Some v', Some c', Some cv', Some cl') \<Rightarrow>
                       (case (checksum_of_code c', parse_fields ''User-Agent'' now rest) of
                          (Some ct, Some (p, ts)) \<Rightarrow>
                            Some (h\<lparr>headers := temp_headers p, req_method := m, target := t,
                              user_agent := (case temp_special p of None \<Rightarrow> [] | Some u \<Rightarrow> u), version := of_nat v',
                              checksum_value := of_nat cv', content_length := of_nat cl',
                              checksum_type := ct, request_time := ts\<rparr>)
                        | _ \<Rightarrow> None)
                   | _ \<Rightarrow> None)
             | _ \<Rightarrow> None))"

definition response_from_string :: "int \<Rightarrow> string \<Rightarrow> response_header \<Rightarrow> response_header option" where
  "response_from_string now data h =
     (if size data < 10 \<or> size data > max_protocol_message_size then None
      else case cut_line data of
          None \<Rightarrow> None
        | Some (line, rest) \<Rightarrow>
            (case line_parts line of
               [v, sc, msg, c, cv, cl] \<Rightarrow>
                 (case (safe_parse (2 ^ 32) v, safe_parse (2 ^ 16) sc) of
                    (Some v', Some sc') \<Rightarrow>
                      if sc' < 100 \<or> sc' > 599 \<or> size msg > 256 then None
                      else (case (safe_parse 256 c, safe_parse (2 ^ 32) cv, safe_parse (2 ^ 64) cl) of
                          (Some c', Some cv', Some cl') \<Rightarrow>
                            (case (checksum_of_code c', parse_fields ''Server'' now rest) of
                               (Some ct, Some (p, ts)) \<Rightarrow>
                                 Some (h\<lparr>headers := temp_headers p, status_message := msg,
                                   server := (case temp_special p of None \<Rightarrow> [] | Some u \<Rightarrow> u), version := of_nat v',
                                   status_code := of_nat sc', checksum_value := of_nat cv',
                                   content_length := of_nat cl', checksum_type := ct, response_time := ts\<rparr>)
                             | _ \<Rightarrow> None)
                        | _ \<Rightarrow> None)
                  | _ \<Rightarrow> None)
             | _ \<Rightarrow> None))"

section \<open>Messages\<close>

text \<open>
  \<open>Request\<close> and \<open>Response\<close>: a header, a body and the cached text.  The operations on the header
  are those of its type, given by the two functions \<open>show\<close> and \<open>parse\<close>.
\<close>

record 'h message =
  header :: 'h
  body :: string
  cached_full :: string
  cache_valid :: bool

definition message_of :: "'h \<Rightarrow> string \<Rightarrow> 'h message" where
  "message_of h b = \<lparr>header = h, body = b, cached_full = [], cache_valid = False\<rparr>"

definition set_message :: "string \<Rightarrow> 'h message \<Rightarrow> 'h message" where
  "set_message b m = m\<lparr>body := b, cache_valid := False\<rparr>"

text \<open>A write through the mutable reference returned by \<open>Header()\<close>.\<close>

definition edit_header :: "('h \<Rightarrow> 'h) \<Rightarrow> 'h message \<Rightarrow> 'h message" where
  "edit_header f m = m\<lparr>header := f (header m), cache_valid := False\<rparr>"

text \<open>
  The move hands over the cache and leaves the source, whose strings are whatever moving leaves
  (\<open>rest\<close>), with an invalid one; the pair is the target and the source.
\<close>

definition move_message :: "'h message \<Rightarrow> 'h message \<Rightarrow> 'h message \<times> 'h message" where
  "move_message m rest = (m, rest\<lparr>cache_valid := False\<rparr>)"

definition copy_message :: "'h message \<Rightarrow> 'h message" where
  "copy_message m = message_of (header m) (body m)"

definition message_to_string :: "(string \<Rightarrow> 'h \<Rightarrow> crc_error + 'h) \<Rightarrow> ('h \<Rightarrow> string) \<Rightarrow> 'h message
    \<Rightarrow> crc_error + 'h message \<times> string" where
  "message_to_string sum_of show m =
     (if cache_valid m then Inr (m, cached_full m)
      else case sum_of (body m) (header m) of
          Inl e \<Rightarrow> Inl e
        | Inr h \<Rightarrow>
            (let text = show h @ body m
             in Inr (m\<lparr>header := h, cached_full := text, cache_valid := True\<rparr>, text)))"

text \<open>The header text handed on ends with the line break of the last field, \<open>MemberHeaderend + 2\<close>.\<close>

definition message_from_string :: "(string \<Rightarrow> 'h \<Rightarrow> 'h option) \<Rightarrow> (string \<Rightarrow> 'h \<Rightarrow> crc_error + bool)
    \<Rightarrow> string \<Rightarrow> 'h message \<Rightarrow> crc_error + 'h message option" where
  "message_from_string parse verify data m =
     (case find_sub (CRLF @ CRLF) data of
        None \<Rightarrow> Inr None
      | Some e \<Rightarrow>
          (case parse (take (e + 2) data) (header m) of
             None \<Rightarrow> Inr None
           | Some h \<Rightarrow>
               (let content = drop (e + 4) data
                in case verify content h of
                     Inl err \<Rightarrow> Inl err
                   | Inr False \<Rightarrow> Inr None
                   | Inr True \<Rightarrow> Inr (Some (m\<lparr>header := h, body := content, cache_valid := False\<rparr>)))))"

definition message_verify :: "(string \<Rightarrow> 'h \<Rightarrow> crc_error + bool) \<Rightarrow> 'h message \<Rightarrow> crc_error + bool" where
  "message_verify verify m = verify (body m) (header m)"

definition message_empty :: "'h message \<Rightarrow> bool" where
  "message_empty m \<longleftrightarrow> body m = []"

definition message_equal :: "('h \<Rightarrow> string) \<Rightarrow> 'h message \<Rightarrow> 'h message \<Rightarrow> bool" where
  "message_equal show m m' \<longleftrightarrow> show (header m) = show (header m') \<and> body m = body m'"

text \<open>The constructor from a status code and a message, and the response shortcuts.\<close>

definition response_of :: "response_header \<Rightarrow> 16 word \<Rightarrow> string \<Rightarrow> string \<Rightarrow> invalid_argument + response_header message" where
  "response_of blank_header code msg b =
     (case set_status_code code blank_header of
        Inl e \<Rightarrow> Inl e
      | Inr h \<Rightarrow> (case set_status_message msg h of Inl e \<Rightarrow> Inl e | Inr h' \<Rightarrow> Inr (message_of h' b)))"

definition create_success :: "response_header \<Rightarrow> string \<Rightarrow> string \<Rightarrow> invalid_argument + response_header message" where
  "create_success blank_header b srv =
     (case response_of blank_header 200 ''OK'' b of
        Inl e \<Rightarrow> Inl e
      | Inr m \<Rightarrow>
          if srv = [] then Inr m
          else (case set_server srv (header m) of Inl e \<Rightarrow> Inl e | Inr h \<Rightarrow> Inr (m\<lparr>header := h\<rparr>)))"

definition create_not_found :: "response_header \<Rightarrow> string \<Rightarrow> invalid_argument + response_header message" where
  "create_not_found blank_header b = response_of blank_header 404 ''not found'' b"

definition create_internal_error :: "response_header \<Rightarrow> string \<Rightarrow> invalid_argument + response_header message" where
  "create_internal_error blank_header b = response_of blank_header 500 ''internal server error'' b"

end
