(* ===== verification/ProtocolLaws.thy ===== *)
theory ProtocolLaws
  imports Protocols
begin

text \<open>
  What the protocol guarantees and what it does not: the text of a header is parsed back under
  the limits the parser enforces, the checksum detects a changed byte, and a message is never
  parsed from any text.
\<close>

section \<open>Finding and cutting\<close>

lemma find_sub_first:
  "find_sub p s = Some i \<Longrightarrow> take (size p) (drop i s) = p \<and> (\<forall>j < i. take (size p) (drop j s) \<noteq> p)"
proof (induction p s arbitrary: i rule: find_sub.induct)
  case (2 p c cs)
  show ?case
  proof (cases "take (size p) (c # cs) = p")
    case True
    with 2 show ?thesis by simp
  next
    case False
    with 2 obtain k where k: "find_sub p cs = Some k" "i = Suc k" by auto
    with 2(1) [OF False k(1)] False show ?thesis by (auto simp: less_Suc_eq_0_disj)
  qed
qed (simp split: if_splits)

lemma find_line: "CHR 0x0D \<notin> set line \<Longrightarrow> find_sub CRLF (line @ CRLF @ rest) = Some (length line)"
  by (induction line) auto

lemma cut_line_text: "CHR 0x0D \<notin> set line \<Longrightarrow> cut_line (line @ CRLF @ rest) = Some (line, rest)"
  using find_line [of line rest] by (simp add: cut_line_def)

lemma cut_line_Some: "cut_line s = Some (line, rest) \<Longrightarrow> s = line @ CRLF @ rest"
proof -
  assume "cut_line s = Some (line, rest)"
  then obtain i where i: "find_sub CRLF s = Some i" "line = take i s" "rest = drop (i + 2) s"
    by (auto simp: cut_line_def)
  from find_sub_first [OF i(1)] have "take 2 (drop i s) = CRLF" by (simp add: numeral_2_eq_2)
  then have "drop i s = CRLF @ drop 2 (drop i s)" by (metis append_take_drop_id)
  with i(2,3) show ?thesis by (metis append_take_drop_id drop_drop add.commute)
qed

section \<open>Numbers\<close>

lemma digits_value_nat_text: "digits_value (nat_text n) = Some n"
  using nat_text_digits [of n] by (simp add: digits_value_def nat_text_nonempty list_all_iff foldl_digits)

lemma size_nat_text: "n < 10 ^ Suc k \<Longrightarrow> size (nat_text n) \<le> Suc k"
proof (induction k arbitrary: n)
  case 0
  then show ?case by (subst nat_text.simps) simp
next
  case (Suc k)
  then have "n div 10 < 10 ^ Suc k" by (simp add: div_less_iff_less_mult)
  from Suc.IH [OF this] show ?case by (subst nat_text.simps) simp
qed

lemma safe_parse_nat_text: "n < bound \<Longrightarrow> bound \<le> 10 ^ 20 \<Longrightarrow> safe_parse bound (nat_text n) = Some n"
  using size_nat_text [of n 19] by (simp add: safe_parse_def nat_text_nonempty digits_value_nat_text)

lemma nat_text_hd: "hd (nat_text n) \<noteq> CHR ''-''"
proof -
  have "digit_char (hd (nat_text n))" using nat_text_digits [of n] nat_text_nonempty [of n] by simp
  then show ?thesis by (auto simp: digit_char_def)
qed

lemma safe_parse_int_text: "0 \<le> i \<Longrightarrow> i < 2 ^ 63 \<Longrightarrow> safe_parse_int (int_text i) = Some i"
proof -
  assume i: "0 \<le> i" "i < 2 ^ 63"
  then have "nat i < 2 ^ 63" by (simp add: nat_less_iff)
  with size_nat_text [of "nat i" 19] have "size (nat_text (nat i)) \<le> 20" by simp
  with i \<open>nat i < 2 ^ 63\<close> nat_text_hd [of "nat i"] show ?thesis
    by (simp add: safe_parse_int_def int_text_def nat_text_nonempty digits_value_nat_text)
qed

lemma decimal_plain: "digit_char c \<Longrightarrow> c \<noteq> CHR '' '' \<and> c \<noteq> CHR 0x0D \<and> c \<noteq> CHR 0x0A \<and> c \<noteq> CHR 0x09"
  by (auto simp: digit_char_def)

lemma number_plain:
  "CHR '' '' \<notin> set (nat_text n)" "CHR 0x0D \<notin> set (nat_text n)" "CHR 0x0A \<notin> set (nat_text n)" "CHR 0x09 \<notin> set (nat_text n)"
  using nat_text_digits [of n] decimal_plain by blast+

section \<open>The first line\<close>

lemma split_blank_word: "CHR '' '' \<notin> set a \<Longrightarrow> split_blank w (a @ CHR '' '' # b) = (w @ a) # split_blank [] b"
  by (induction a arbitrary: w) auto

lemma split_blank_last: "CHR '' '' \<notin> set a \<Longrightarrow> split_blank w a = [w @ a]"
  by (induction a arbitrary: w) auto

lemma line_parts_six:
  assumes "\<forall>w \<in> {a, b, c, d, e, f}. w \<noteq> [] \<and> CHR '' '' \<notin> set w"
  shows "line_parts (a @ '' '' @ b @ '' '' @ c @ '' '' @ d @ '' '' @ e @ '' '' @ f) = [a, b, c, d, e, f]"
  using assms by (simp add: line_parts_def split_blank_word split_blank_last)

section \<open>Field lines\<close>

definition trimmed :: "string \<Rightarrow> bool" where
  "trimmed s \<longleftrightarrow> s = [] \<or> \<not> blank (hd s) \<and> \<not> blank (last s)"

lemma trim_id: "trimmed s \<Longrightarrow> rev (dropWhile blank (rev s)) = s"
  by (cases s rule: rev_cases) (auto simp: trimmed_def)

lemma dropWhile_trimmed: "trimmed s \<Longrightarrow> dropWhile blank s = s"
  by (cases s) (auto simp: trimmed_def)

lemma safe_trim_id: "trimmed s \<Longrightarrow> size s \<le> 8192 \<Longrightarrow> safe_trim s = Some s"
  by (simp add: safe_trim_def dropWhile_trimmed trim_id)

lemma safe_trim_blank: "trimmed s \<Longrightarrow> size s < 8192 \<Longrightarrow> safe_trim (CHR '' '' # s) = Some s"
  by (simp add: safe_trim_def blank_def [of "CHR '' ''"] dropWhile_trimmed trim_id)

text \<open>A field that its line gives back.\<close>

definition line_ok :: "string \<times> string \<Rightarrow> bool" where
  "line_ok = (\<lambda>(k, v). k \<noteq> [] \<and> size k \<le> 256 \<and> trimmed k \<and> \<not> has_any (CRLF @ '':'') k
     \<and> trimmed v \<and> \<not> has_any CRLF v \<and> size k + size v + 2 \<le> 8192)"

lemma has_any_iff: "has_any cs s \<longleftrightarrow> set cs \<inter> set s \<noteq> {}"
  by (auto simp: has_any_def)

lemma parse_field_line:
  assumes "line_ok (k, v)"
  shows "parse_field special now (k @ '': '' @ v) p = store_field special now k v p"
proof -
  from assms have k: "CHR '':'' \<notin> set k" "k \<noteq> []" by (auto simp: line_ok_def has_any_iff)
  have "find_char (CHR '':'') (k @ '': '' @ v) = Some (length k)" using find_char_append [OF k(1)] by simp
  with assms k(2) show ?thesis
    by (simp add: parse_field_def line_ok_def safe_trim_id safe_trim_blank)
qed

fun store_all :: "string \<Rightarrow> int \<Rightarrow> (string \<times> string) list \<Rightarrow> parsed \<Rightarrow> parsed option" where
  "store_all special now [] p = Some p"
| "store_all special now (f # fs) p =
     (case store_field special now (fst f) (snd f) p of None \<Rightarrow> None | Some p' \<Rightarrow> store_all special now fs p')"

lemma store_all_append:
  "store_all special now (fs @ gs) p = (case store_all special now fs p of None \<Rightarrow> None | Some p' \<Rightarrow> store_all special now gs p')"
  by (induction fs arbitrary: p) (simp_all split: option.splits)

lemma field_loop_lines:
  "\<forall>f \<in> set fs. line_ok f \<Longrightarrow>
    field_loop special now (length fs + Suc n) (concat (map field_line fs) @ CRLF @ rest) p
      = map_option (\<lambda>p'. (p', True, rest)) (store_all special now fs p)"
proof (induction fs arbitrary: p)
  case Nil
  then show ?case using cut_line_text [of "[]" rest] by simp
next
  case (Cons f fs)
  obtain k v where f: "f = (k, v)" by fastforce
  with Cons.prems have ok: "line_ok (k, v)" by simp
  let ?line = "k @ '': '' @ v" and ?tail = "concat (map field_line fs) @ CRLF @ rest"
  have "CHR 0x0D \<notin> set ?line" using ok by (auto simp: line_ok_def has_any_iff)
  from cut_line_text [OF this, of ?tail]
  have cut: "cut_line (field_line f @ ?tail) = Some (?line, ?tail)" by (simp add: f field_line_def)
  have "field_line f @ ?tail \<noteq> []" "?line \<noteq> []" "size ?line \<le> 8192"
    using ok by (auto simp: field_line_def f line_ok_def)
  with cut Cons.IH Cons.prems show ?case
    by (simp add: parse_field_line [OF ok, simplified] f split: option.splits)
qed

section \<open>The text of a header is parsed back\<close>

lemma update_fresh: "k \<notin> fst ` set hs \<Longrightarrow> AList.update k v hs = hs @ [(k, v)]"
  by (induction hs) auto

lemma store_all_plain:
  "distinct (map fst (temp_headers p @ fs)) \<Longrightarrow> length (temp_headers p) + length fs \<le> 90
    \<Longrightarrow> \<forall>f \<in> set fs. fst f \<noteq> special \<and> fst f \<noteq> ''Timestamp''
    \<Longrightarrow> store_all special now fs p = Some (p\<lparr>temp_headers := temp_headers p @ fs\<rparr>)"
proof (induction fs arbitrary: p)
  case (Cons f fs)
  obtain k v where f: "f = (k, v)" by fastforce
  with Cons.prems have "k \<notin> fst ` set (temp_headers p)" "k \<noteq> special" "k \<noteq> ''Timestamp''" by auto
  then have "store_field special now k v p = Some (p\<lparr>temp_headers := temp_headers p @ [(k, v)]\<rparr>)"
    using Cons.prems(2) by (simp add: store_field_def update_fresh)
  with Cons f show ?case by simp
qed simp

text \<open>
  What a header's fields must satisfy for its text to be parsed back at the time \<open>now\<close>: at most 90
  fields, all lines within the limits and free of surrounding blanks, none with a special name, and a
  timestamp not before 1970 and at most a day ahead.
\<close>

definition fields_ok :: "string \<Rightarrow> int \<Rightarrow> string \<Rightarrow> int \<Rightarrow> (string \<times> string) list \<Rightarrow> bool" where
  "fields_ok special now u ts hs \<longleftrightarrow> distinct (map fst hs) \<and> length hs \<le> 90
     \<and> (\<forall>f \<in> set hs. line_ok f \<and> fst f \<noteq> special \<and> fst f \<noteq> ''Timestamp'')
     \<and> trimmed u \<and> size u \<le> 512 \<and> \<not> has_any CRLF u
     \<and> 0 \<le> ts \<and> ts < 2 ^ 63 \<and> to_ms ts \<le> now + 86400000"

lemma int_text_line: "0 \<le> ts \<Longrightarrow> ts < 2 ^ 63 \<Longrightarrow> line_ok (''Timestamp'', int_text ts)"
proof -
  assume ts: "0 \<le> ts" "ts < 2 ^ 63"
  then have "nat ts < 2 ^ 63" by (simp add: nat_less_iff)
  with size_nat_text [of "nat ts" 19] have size: "size (nat_text (nat ts)) \<le> 20" by simp
  have "\<not> blank c" if "digit_char c" for c using decimal_plain [OF that] by (simp add: blank_def)
  moreover have "hd (nat_text (nat ts)) \<in> set (nat_text (nat ts))" "last (nat_text (nat ts)) \<in> set (nat_text (nat ts))"
    using nat_text_nonempty by simp_all
  ultimately have "trimmed (nat_text (nat ts))" using nat_text_digits [of "nat ts"] by (simp add: trimmed_def)
  with ts size number_plain [of "nat ts"] show ?thesis
    by (simp add: line_ok_def int_text_def has_any_iff trimmed_def blank_def)
qed

text \<open>The part of a time point that the text carries.\<close>

definition whole_ms :: "int \<Rightarrow> int" where
  "whole_ms t = t - t mod 1000000"

lemma to_ms_range: "0 \<le> ts \<Longrightarrow> ts < 2 ^ 63 \<Longrightarrow> 0 \<le> to_ms ts" "0 \<le> ts \<Longrightarrow> ts < 2 ^ 63 \<Longrightarrow> to_ms ts < 2 ^ 63"
  by (simp_all add: to_ms_def ticks_per_ms_def)

lemma from_to_ms: "0 \<le> ts \<Longrightarrow> from_ms (to_ms ts) = whole_ms ts"
  by (simp add: from_ms_def to_ms_def whole_ms_def ticks_per_ms_def minus_mod_eq_div_mult)

lemma parse_fields_text:
  assumes ok: "fields_ok special now u ts hs" and special: "line_ok (special, [])" "size special + 514 \<le> 8192"
    "special \<noteq> ''Timestamp''"
  shows "parse_fields special now
      ((if u = [] then [] else field_line (special, u)) @ field_line (''Timestamp'', int_text (to_ms ts))
        @ serialize_headers hs @ CRLF)
    = Some (\<lparr>temp_headers = sort_key fst hs, temp_special = (if u = [] then None else Some u),
        temp_time = Some (whole_ms ts)\<rparr>, whole_ms ts)"
proof -
  let ?u = "if u = [] then [] else [(special, u)]"
  let ?fs = "?u @ [(''Timestamp'', int_text (to_ms ts))] @ sort_key fst hs"
  let ?p = "\<lparr>temp_headers = [], temp_special = None, temp_time = None\<rparr>"
  let ?q = "\<lparr>temp_headers = sort_key fst hs, temp_special = (if u = [] then None else Some u), temp_time = Some (whole_ms ts)\<rparr>"
  have form: "(if u = [] then [] else field_line (special, u)) @ field_line (''Timestamp'', int_text (to_ms ts))
      @ serialize_headers hs @ CRLF = concat (map field_line ?fs) @ CRLF @ []"
    by (simp add: serialize_headers_def)
  have "line_ok (special, u)" using ok special by (simp add: fields_ok_def line_ok_def)
  with ok int_text_line [OF to_ms_range [of ts]] have lines: "\<forall>f \<in> set ?fs. line_ok f" by (auto simp: fields_ok_def)
  have ms: "0 \<le> to_ms ts" "to_ms ts < 2 ^ 63" "from_ms (to_ms ts) = whole_ms ts"
    using ok to_ms_range [of ts] from_to_ms [of ts] by (simp_all add: fields_ok_def)
  have head: "store_all special now (?u @ [(''Timestamp'', int_text (to_ms ts))]) ?p
      = Some (?p\<lparr>temp_special := (if u = [] then None else Some u), temp_time := Some (whole_ms ts)\<rparr>)"
    using ok special(3) ms by (simp add: store_field_def fields_ok_def safe_parse_int_text)
  have "distinct (map fst (sort_key fst hs))" using ok by (simp add: fields_ok_def distinct_map)
  then have "store_all special now (sort_key fst hs)
      (?p\<lparr>temp_special := (if u = [] then None else Some u), temp_time := Some (whole_ms ts)\<rparr>) = Some ?q"
    using store_all_plain [of "?p\<lparr>temp_special := (if u = [] then None else Some u), temp_time := Some (whole_ms ts)\<rparr>"
        "sort_key fst hs"] ok by (simp add: fields_ok_def)
  with head have all: "store_all special now ?fs ?p = Some ?q"
    by (simp only: append.assoc [symmetric] store_all_append option.case)
  obtain n where n: "100 = length ?fs + Suc n"
  proof
    show "100 = length ?fs + Suc (99 - length ?fs)" using ok by (simp add: fields_ok_def)
  qed
  have "field_loop special now 100 (concat (map field_line ?fs) @ CRLF @ []) ?p = Some (?q, True, [])"
    unfolding n field_loop_lines [OF lines] all by simp
  then show ?thesis unfolding form parse_fields_def by simp
qed

lemma checksum_of_code_inverse: "checksum_of_code (checksum_code ct) = Some ct"
  by (cases ct) (simp_all add: checksum_of_code_def checksum_code_def)

lemma checksum_code_bound: "checksum_code ct < 256"
  by (cases ct) (simp_all add: checksum_code_def)

lemma safe_parse_word:
  "safe_parse (2 ^ 32) (nat_text (unat (a :: 32 word))) = Some (unat a)"
  "safe_parse (2 ^ 64) (nat_text (unat (b :: 64 word))) = Some (unat b)"
  "safe_parse (2 ^ 16) (nat_text (unat (c :: 16 word))) = Some (unat c)"
  "safe_parse 256 (nat_text (checksum_code ct)) = Some (checksum_code ct)"
proof -
  have "unat a < 2 ^ 32" "unat b < 2 ^ 64" "unat c < 2 ^ 16"
    using unsigned_less [of a] unsigned_less [of b] unsigned_less [of c] by simp_all
  with checksum_code_bound [of ct]
  show "safe_parse (2 ^ 32) (nat_text (unat a)) = Some (unat a)"
    "safe_parse (2 ^ 64) (nat_text (unat b)) = Some (unat b)"
    "safe_parse (2 ^ 16) (nat_text (unat c)) = Some (unat c)"
    "safe_parse 256 (nat_text (checksum_code ct)) = Some (checksum_code ct)"
    by (simp_all add: safe_parse_nat_text)
qed

definition request_ok :: "int \<Rightarrow> request_header \<Rightarrow> bool" where
  "request_ok now h \<longleftrightarrow> req_method h \<noteq> [] \<and> size (req_method h) \<le> 10 \<and> \<not> has_any (CHR '' '' # CRLF) (req_method h)
     \<and> target h \<noteq> [] \<and> size (target h) \<le> 2048 \<and> \<not> has_any (CHR '' '' # CRLF) (target h)
     \<and> fields_ok ''User-Agent'' now (user_agent h) (request_time h) (headers h)
     \<and> size (request_to_string h) \<le> max_protocol_message_size"

definition response_ok :: "int \<Rightarrow> response_header \<Rightarrow> bool" where
  "response_ok now h \<longleftrightarrow> status_message h \<noteq> [] \<and> size (status_message h) \<le> 256
     \<and> \<not> has_any (CHR '' '' # CRLF) (status_message h)
     \<and> 100 \<le> unat (status_code h) \<and> unat (status_code h) \<le> 599
     \<and> fields_ok ''Server'' now (server h) (response_time h) (headers h)
     \<and> size (response_to_string h) \<le> max_protocol_message_size"

lemma special_names:
  "line_ok (''User-Agent'', [])" "line_ok (''Server'', [])"
  by (simp_all add: line_ok_def trimmed_def blank_def has_any_def)

lemma six_words_size:
  assumes "a \<noteq> []" and "b \<noteq> []" and "c \<noteq> []" and "d \<noteq> []" and "e \<noteq> []" and "f \<noteq> []"
  shows "10 \<le> size (a @ '' '' @ b @ '' '' @ c @ '' '' @ d @ '' '' @ e @ '' '' @ f)"
proof -
  have "1 \<le> size a" "1 \<le> size b" "1 \<le> size c" "1 \<le> size d" "1 \<le> size e" "1 \<le> size f"
    using assms by (simp_all add: Suc_le_eq)
  then show ?thesis by simp
qed

lemma request_text_parsed:
  assumes ok: "request_ok now h"
  shows "request_from_string now (request_to_string h) h0
    = Some (h\<lparr>headers := sort_key fst (headers h), protocol_type := protocol_type h0,
        request_time := whole_ms (request_time h)\<rparr>)"
proof -
  let ?line = "req_method h @ '' '' @ target h @ '' '' @ nat_text (unat (version h)) @ '' ''
     @ nat_text (checksum_code (checksum_type h)) @ '' '' @ nat_text (unat (checksum_value h)) @ '' ''
     @ nat_text (unat (content_length h))"
  let ?rest = "(if user_agent h = [] then [] else field_line (''User-Agent'', user_agent h))
     @ field_line (''Timestamp'', int_text (to_ms (request_time h))) @ serialize_headers (headers h) @ CRLF"
  have form: "request_to_string h = ?line @ CRLF @ ?rest" by (simp add: request_to_string_def)
  have "CHR 0x0D \<notin> set ?line" using ok number_plain by (simp add: request_ok_def has_any_iff)
  from cut_line_text [OF this] have cut: "cut_line (request_to_string h) = Some (?line, ?rest)"
    unfolding form .
  have parts: "line_parts ?line = [req_method h, target h, nat_text (unat (version h)),
      nat_text (checksum_code (checksum_type h)), nat_text (unat (checksum_value h)), nat_text (unat (content_length h))]"
    by (rule line_parts_six) (use ok number_plain nat_text_nonempty in \<open>simp add: request_ok_def has_any_iff\<close>)
  have "10 \<le> size ?line"
    by (rule six_words_size) (use ok nat_text_nonempty in \<open>simp_all add: request_ok_def\<close>)
  then have size: "\<not> size (request_to_string h) < 10" unfolding form by (simp only: length_append)
  have fields: "parse_fields ''User-Agent'' now ?rest = Some (\<lparr>temp_headers = sort_key fst (headers h),
      temp_special = (if user_agent h = [] then None else Some (user_agent h)),
      temp_time = Some (whole_ms (request_time h))\<rparr>, whole_ms (request_time h))"
    by (rule parse_fields_text) (use ok special_names in \<open>simp_all add: request_ok_def\<close>)
  show ?thesis
    unfolding request_from_string_def cut option.case prod.case parts list.case safe_parse_word
      checksum_of_code_inverse fields
    using ok size by (simp add: request_ok_def)
qed

lemma response_text_parsed:
  assumes ok: "response_ok now h"
  shows "response_from_string now (response_to_string h) h0
    = Some (h\<lparr>headers := sort_key fst (headers h), protocol_type := protocol_type h0,
        response_time := whole_ms (response_time h)\<rparr>)"
proof -
  let ?line = "nat_text (unat (version h)) @ '' '' @ nat_text (unat (status_code h)) @ '' '' @ status_message h @ '' ''
     @ nat_text (checksum_code (checksum_type h)) @ '' '' @ nat_text (unat (checksum_value h)) @ '' ''
     @ nat_text (unat (content_length h))"
  let ?rest = "(if server h = [] then [] else field_line (''Server'', server h))
     @ field_line (''Timestamp'', int_text (to_ms (response_time h))) @ serialize_headers (headers h) @ CRLF"
  have form: "response_to_string h = ?line @ CRLF @ ?rest" by (simp add: response_to_string_def)
  have "CHR 0x0D \<notin> set ?line" using ok number_plain by (simp add: response_ok_def has_any_iff)
  from cut_line_text [OF this] have cut: "cut_line (response_to_string h) = Some (?line, ?rest)"
    unfolding form .
  have parts: "line_parts ?line = [nat_text (unat (version h)), nat_text (unat (status_code h)), status_message h,
      nat_text (checksum_code (checksum_type h)), nat_text (unat (checksum_value h)), nat_text (unat (content_length h))]"
    by (rule line_parts_six) (use ok number_plain nat_text_nonempty in \<open>simp add: response_ok_def has_any_iff\<close>)
  have "10 \<le> size ?line"
    by (rule six_words_size) (use ok nat_text_nonempty in \<open>simp_all add: response_ok_def\<close>)
  then have size: "\<not> size (response_to_string h) < 10" unfolding form by (simp only: length_append)
  have fields: "parse_fields ''Server'' now ?rest = Some (\<lparr>temp_headers = sort_key fst (headers h),
      temp_special = (if server h = [] then None else Some (server h)),
      temp_time = Some (whole_ms (response_time h))\<rparr>, whole_ms (response_time h))"
    by (rule parse_fields_text) (use ok special_names in \<open>simp_all add: response_ok_def\<close>)
  show ?thesis
    unfolding response_from_string_def cut option.case prod.case parts list.case safe_parse_word
      checksum_of_code_inverse fields
    using ok size by (simp add: response_ok_def)
qed

section \<open>Texts that are not parsed back\<close>

text \<open>A status message of several words makes more than six parts.\<close>

lemma line_parts_more:
  assumes "CHR '' '' \<notin> set a" "CHR '' '' \<notin> set b" "CHR '' '' \<notin> set m" "CHR '' '' \<notin> set d" "CHR '' '' \<notin> set e"
    "CHR '' '' \<notin> set f" and "a \<noteq> []" "b \<noteq> []" "m \<noteq> []" "d \<noteq> []" "e \<noteq> []" "f \<noteq> []"
    and "\<exists>c \<in> set ms. c \<noteq> CHR '' ''"
  shows "6 < length (line_parts (a @ '' '' @ b @ '' '' @ m @ '' '' @ ms @ '' '' @ d @ '' '' @ e @ '' '' @ f))"
proof -
  let ?words = "\<lambda>s. filter (\<lambda>w. w \<noteq> []) (split_blank [] s)"
  have cut: "split_blank w (s @ CHR '' '' # t) = split_blank w s @ split_blank [] t" for w s t
    by (induction w s rule: split_blank.induct) simp_all
  have some: "filter (\<lambda>w. w \<noteq> []) (split_blank w s) \<noteq> []" if "w \<noteq> [] \<or> (\<exists>c \<in> set s. c \<noteq> CHR '' '')" for w s
    using that by (induction w s rule: split_blank.induct) auto
  from some [of "[]" ms] assms(13) have "?words ms \<noteq> []" by blast
  then have "1 \<le> length (?words ms)" by (simp add: Suc_le_eq)
  moreover have "?words (a @ '' '' @ b @ '' '' @ m @ '' '' @ ms @ '' '' @ d @ '' '' @ e @ '' '' @ f)
      = [a, b, m] @ ?words ms @ [d, e, f]"
    using assms(1-12) by (simp add: cut split_blank_last)
  ultimately show ?thesis by (simp add: line_parts_def)
qed

lemma not_six_parts:
  "length ps \<noteq> 6 \<Longrightarrow> (case ps of [a, b, c, d, e, f] \<Rightarrow> g a b c d e f | _ \<Rightarrow> None) = None"
  by (auto split: list.split)

lemma response_words_rejected:
  assumes "status_message h = m @ CHR '' '' # ms" and "m \<noteq> []" and "CHR '' '' \<notin> set m"
    and "\<exists>c \<in> set ms. c \<noteq> CHR '' ''" and "CHR 0x0D \<notin> set (status_message h)"
  shows "response_from_string now (response_to_string h) h0 = None"
proof -
  let ?line = "nat_text (unat (version h)) @ '' '' @ nat_text (unat (status_code h)) @ '' '' @ m @ '' '' @ ms @ '' ''
     @ nat_text (checksum_code (checksum_type h)) @ '' '' @ nat_text (unat (checksum_value h)) @ '' ''
     @ nat_text (unat (content_length h))"
  have "6 < length (line_parts ?line)"
    using assms number_plain nat_text_nonempty by (intro line_parts_more) auto
  moreover have "CHR 0x0D \<notin> set ?line" using assms number_plain by simp
  from cut_line_text [OF this] obtain rest where "cut_line (response_to_string h) = Some (?line, rest)"
    using assms(1) by (simp add: response_to_string_def)
  ultimately obtain line where "cut_line (response_to_string h) = Some (line, rest)" "length (line_parts line) \<noteq> 6"
    by (metis less_irrefl)
  then show ?thesis by (simp add: response_from_string_def not_six_parts)
qed

section \<open>Messages\<close>

text \<open>A parsed header text has an empty line.\<close>

lemma field_loop_terminated:
  "field_loop special now n s p = Some (q, True, rest) \<Longrightarrow> \<exists>a b. CRLF @ s = a @ CRLF @ CRLF @ b"
proof (induction n arbitrary: s p)
  case (Suc n)
  from Suc.prems obtain line tail where cut: "cut_line s = Some (line, tail)"
    by (auto split: if_splits option.splits)
  from cut_line_Some [OF cut] have s: "s = line @ CRLF @ tail" .
  show ?case
  proof (cases "line = []")
    case True
    with s have "CRLF @ s = [] @ CRLF @ CRLF @ tail" by simp
    then show ?thesis by blast
  next
    case False
    with Suc.prems cut obtain p' where "field_loop special now n tail p' = Some (q, True, rest)"
      by (auto split: if_splits option.splits)
    from Suc.IH [OF this] obtain a b where "CRLF @ tail = a @ CRLF @ CRLF @ b" by blast
    with s have "CRLF @ s = (CRLF @ line @ a) @ CRLF @ CRLF @ b" by simp
    then show ?thesis by blast
  qed
qed simp

lemma parse_fields_blank_line:
  assumes "cut_line data = Some (line, rest)" and "parse_fields special now rest = Some r"
  shows "\<exists>a b. data = a @ CRLF @ CRLF @ b"
proof -
  from assms(2) obtain p n tail where "field_loop special now n rest
      \<lparr>temp_headers = [], temp_special = None, temp_time = None\<rparr> = Some (p, True, tail)"
    by (auto simp: parse_fields_def split: option.splits prod.splits if_splits)
  from field_loop_terminated [OF this] obtain a b where "CRLF @ rest = a @ CRLF @ CRLF @ b" by blast
  with cut_line_Some [OF assms(1)] have "data = (line @ a) @ CRLF @ CRLF @ b" by simp
  then show ?thesis by blast
qed

lemma request_blank_line: "request_from_string now data h = Some h' \<Longrightarrow> \<exists>a b. data = a @ CRLF @ CRLF @ b"
proof -
  assume "request_from_string now data h = Some h'"
  then obtain line rest r special where "cut_line data = Some (line, rest)" "parse_fields special now rest = Some r"
    unfolding request_from_string_def by (auto split: if_splits option.splits list.splits)
  then show ?thesis by (rule parse_fields_blank_line)
qed

lemma response_blank_line: "response_from_string now data h = Some h' \<Longrightarrow> \<exists>a b. data = a @ CRLF @ CRLF @ b"
proof -
  assume "response_from_string now data h = Some h'"
  then obtain line rest r special where "cut_line data = Some (line, rest)" "parse_fields special now rest = Some r"
    unfolding response_from_string_def by (auto split: if_splits option.splits list.splits)
  then show ?thesis by (rule parse_fields_blank_line)
qed

text \<open>The text cut out for the header ends before the empty line.\<close>

lemma header_text_no_blank_line:
  assumes "find_sub (CRLF @ CRLF) data = Some e"
  shows "take (e + 2) data \<noteq> a @ CRLF @ CRLF @ b"
proof
  assume eq: "take (e + 2) data = a @ CRLF @ CRLF @ b"
  then have "length (a @ CRLF @ CRLF @ b) \<le> e + 2" by (metis length_take min.cobounded2)
  then have less: "length a < e" by simp
  have "data = a @ (CRLF @ CRLF) @ (b @ drop (e + 2) data)"
    using append_take_drop_id [of "e + 2" data] unfolding eq by (simp only: append.assoc)
  then have "take (size (CRLF @ CRLF)) (drop (length a) data) = CRLF @ CRLF"
    by (metis append_eq_conv_conj)
  with find_sub_first [OF assms] less show False by blast
qed

lemma message_rejected:
  assumes "\<And>data h h'. parse data h = Some h' \<Longrightarrow> \<exists>a b. data = a @ CRLF @ CRLF @ b"
  shows "message_from_string parse verify data m = Inr None"
proof (cases "find_sub (CRLF @ CRLF) data")
  case (Some e)
  have "parse (take (e + 2) data) (header m) = None"
    using assms header_text_no_blank_line [OF Some] by (cases "parse (take (e + 2) data) (header m)") blast+
  with Some show ?thesis by (simp add: message_from_string_def)
qed (simp add: message_from_string_def)

lemma checked_header:
  assumes "checksum_type h = ChecksumCrc32" and "size content < 2 ^ 64 - 1"
    and "calculate_and_set_checksum md5 sha256 content h = Inr h'"
  shows "h' = h\<lparr>content_length := of_nat (size content),
    checksum_value := NOT (foldl crc_byte 0xFFFFFFFF content)\<rparr>"
  using assms crc32_whole(1) [of content]
  by (simp add: calculate_and_set_checksum_def calculate_check_code_def)

lemma word_size_inj:
  assumes "m < 2 ^ 64" and "n < 2 ^ 64"
  shows "(of_nat m :: 64 word) = of_nat n \<longleftrightarrow> m = n"
proof
  assume "(of_nat m :: 64 word) = of_nat n"
  then have "unat (of_nat m :: 64 word) = unat (of_nat n :: 64 word)" by (rule arg_cong)
  then show "m = n" using assms by (simp add: unsigned_of_nat take_bit_nat_eq_self)
qed simp

section \<open>Properties\<close>

text \<open>
  C39: the text of a request or response header within the parser's limits is parsed back: every
  part of the header is restored, with the fields in the order of their names and the timestamp
  cut to whole milliseconds, and only the protocol type, which the text does not carry, stays that
  of the target.
\<close>

theorem header_roundtrip:
  "(request_ok now h \<longrightarrow> request_from_string now (request_to_string h) h0
      = Some (h\<lparr>headers := sort_key fst (headers h), protocol_type := protocol_type h0,
          request_time := request_time h - request_time h mod 1000000\<rparr>))
    \<and> (response_ok now r \<longrightarrow> response_from_string now (response_to_string r) r0
      = Some (r\<lparr>headers := sort_key fst (headers r), protocol_type := protocol_type r0,
          response_time := response_time r - response_time r mod 1000000\<rparr>))"
  by (simp add: request_text_parsed response_text_parsed whole_ms_def)

definition demo_request :: request_header where
  "demo_request = \<lparr>version = 1, checksum_value = 7, content_length = 3, checksum_type = ChecksumCrc32,
     headers = [(''b'', ''2''), (''a'', ''1'')], protocol_type = CustomTcp, req_method = ''GET'', target = ''/x'',
     user_agent = ''me'', request_time = 5000042\<rparr>"

lemma demo_request_ok: "request_ok 0 demo_request"
proof -
  have sorted: "sort_key fst (headers demo_request) = [(''a'', ''1''), (''b'', ''2'')]"
    unfolding demo_request_def proto_header.select_convs by code_simp
  have one: "nat_text (Suc 0) = ''1''" "nat_text 7 = ''7''" "nat_text 3 = ''3''" "nat_text 5 = ''5''" "nat_text 0 = ''0''"
    by code_simp+
  have "size (request_to_string demo_request) \<le> max_protocol_message_size"
    unfolding request_to_string_def serialize_headers_def sorted
    by (simp add: demo_request_def one int_text_def field_line_def checksum_code_def max_protocol_message_size_def
        to_ms_def ticks_per_ms_def)
  then show ?thesis
    by (simp add: request_ok_def fields_ok_def line_ok_def trimmed_def blank_def has_any_def demo_request_def
        to_ms_def ticks_per_ms_def)
qed

theorem header_roundtrip_witness:
  "request_from_string 0 (request_to_string demo_request) demo_request
    = Some (demo_request\<lparr>headers := [(''a'', ''1''), (''b'', ''2'')], request_time := 5000000\<rparr>)"
proof -
  have "sort_key fst (headers demo_request) = [(''a'', ''1''), (''b'', ''2'')]"
    unfolding demo_request_def proto_header.select_convs by code_simp
  then show ?thesis
    using header_roundtrip [of 0 demo_request demo_request] demo_request_ok by (simp add: demo_request_def)
qed

text \<open>
  C40: \<open>Request::FromString\<close> and \<open>Response::FromString\<close> reject every text, also the one that \<open>ToString\<close> of
  the same message produced: the header text they cut out stops before the empty line that the
  header's parser requires.
\<close>

theorem message_never_parsed:
  "message_from_string (request_from_string now) verify data m = Inr None
    \<and> message_from_string (response_from_string now) verify' data' m' = Inr None"
  using message_rejected [of "request_from_string now"] message_rejected [of "response_from_string now"]
    request_blank_line response_blank_line by blast+

text \<open>
  After \<open>CalculateAndSetChecksum\<close> with CRC-32, \<open>VerifyIntegrity\<close> accepts the same body and
  rejects one of another length and one in which a single byte was changed.
\<close>

theorem integrity_detects:
  assumes "checksum_type h = ChecksumCrc32" and "size (xs @ b # ys) < 2 ^ 64 - 1"
    and "calculate_and_set_checksum md5 sha256 (xs @ b # ys) h = Inr h'"
  shows "verify_integrity md5 sha256 (xs @ b # ys) h' = Inr True
    \<and> (c \<noteq> b \<longrightarrow> verify_integrity md5 sha256 (xs @ c # ys) h' = Inr False)
    \<and> (size zs \<noteq> size (xs @ b # ys) \<and> size zs < 2 ^ 64 \<longrightarrow> verify_integrity md5 sha256 zs h' = Inr False)"
proof -
  note h' = checked_header [OF assms]
  have sum: "calculate_check_code md5 sha256 ChecksumCrc32 (xs @ a # ys)
      = Inr (NOT (foldl crc_byte 0xFFFFFFFF (xs @ a # ys)))" for a
    using crc32_whole(1) [of "xs @ a # ys"] assms(2) by (simp add: calculate_check_code_def)
  have "foldl crc_byte 0xFFFFFFFF (xs @ c # ys) \<noteq> foldl crc_byte 0xFFFFFFFF (xs @ b # ys)" if "c \<noteq> b"
    using that by (simp add: crc_fold_inj crc_byte_inj byte_word_inj)
  then have "verify_integrity md5 sha256 (xs @ c # ys) h' = Inr False" if "c \<noteq> b"
    using that assms(1) sum [of c] by (simp add: verify_integrity_def h')
  moreover have "verify_integrity md5 sha256 (xs @ b # ys) h' = Inr True"
    using assms(1) sum [of b] by (simp add: verify_integrity_def h')
  moreover have "(of_nat (size zs) :: 64 word) \<noteq> of_nat (size (xs @ b # ys))"
    if "size zs \<noteq> size (xs @ b # ys)" "size zs < 2 ^ 64"
    using that assms(2) word_size_inj [of "size zs" "size (xs @ b # ys)"] by linarith
  then have "verify_integrity md5 sha256 zs h' = Inr False"
    if "size zs \<noteq> size (xs @ b # ys)" "size zs < 2 ^ 64"
    using that unfolding verify_integrity_def h' by simp
  ultimately show ?thesis by blast
qed

theorem integrity_detects_witness:
  "\<exists>h. calculate_and_set_checksum id id ''ab'' demo_request = Inr h
     \<and> verify_integrity id id ''ab'' h = Inr True \<and> verify_integrity id id ''ac'' h = Inr False"
proof -
  have "crc32 ''ab'' (of_nat (size ''ab'')) = Inr (NOT (foldl crc_byte 0xFFFFFFFF ''ab''))"
    by (rule crc32_whole(1)) simp
  then obtain h where h: "calculate_and_set_checksum id id (''a'' @ CHR ''b'' # []) demo_request = Inr h"
    by (simp add: calculate_and_set_checksum_def calculate_check_code_def demo_request_def)
  have "checksum_type demo_request = ChecksumCrc32" "size (''a'' @ CHR ''b'' # []) < 2 ^ 64 - 1"
    by (simp_all add: demo_request_def)
  from integrity_detects [OF this h, of "CHR ''c''"] h show ?thesis by auto
qed

text \<open>
  The shortcuts \<open>CreateNotFound\<close> and \<open>CreateInternalError\<close> set a status message of several words,
  which makes more parts in the first line than the parser accepts.
\<close>

lemma not_found_rejected:
  assumes "create_not_found r b = Inr m"
  shows "response_from_string now (response_to_string (header m)) r0 = None"
proof -
  have "status_message (header m) = ''not'' @ CHR '' '' # ''found''"
    using assms by (auto simp: create_not_found_def response_of_def set_status_message_def set_status_code_def
        message_of_def split: if_splits)
  from response_words_rejected [OF this] this show ?thesis by simp
qed

end
