(* ===== verification/Strings.thy ===== *)
theory Strings
  imports Prelude
begin

text \<open>
  The byte string of \<open>Wan/Container/String.hpp\<close>, modelled down to its buffer.  A buffer is
  the list of its cells; a cell that \<open>new char[n]\<close> has not initialised is \<open>None\<close>, and a
  null \<open>MemberData\<close> is the buffer \<open>None\<close>.  Lengths and capacities are 64-bit words.  An
  operation fails with the exception it throws, or with the undefined behaviour it runs into: an
  access outside the buffer, through a null or freed pointer, or of an indeterminate value.  A
  \<open>const char *\<close> argument is null, text of its own (up to its terminator), or a position in
  the buffer of the string itself; a \<open>const char &\<close> argument is a value or an element of the
  string.  Every check of the class precedes its first write, so an exception leaves the object as
  it was.  Signedness of \<open>char\<close> is a parameter of the order.  The diagnostics that the catch
  blocks print before they rethrow are left out.
\<close>

section \<open>Buffers\<close>

datatype str_fail = Throws exn | OutOfBounds | NullAccess | FreedAccess | IndeterminateRead

type_synonym 'a sres = "str_fail + 'a"
type_synonym cell = "char option"

definition nul :: char where "nul = CHR 0x00"

record cstring =
  str_buf :: "cell list option"
  str_size :: "64 word"
  str_cap :: "64 word"

datatype carg = NullText | Chars string | OwnText nat
datatype cref = CharValue char | OwnChar nat

text \<open>\<open>memcpy\<close> and \<open>memmove\<close> between arrays; copying an indeterminate byte is allowed.\<close>

definition cells_get :: "cell list \<Rightarrow> nat \<Rightarrow> nat \<Rightarrow> cell list sres" where
  "cells_get b i n = (if length b < i + n then Inl OutOfBounds else Inr (take n (drop i b)))"

definition cells_put :: "cell list \<Rightarrow> nat \<Rightarrow> cell list \<Rightarrow> cell list sres" where
  "cells_put b i ys = (if length b < i + length ys then Inl OutOfBounds
                       else Inr (take i b @ ys @ drop (i + length ys) b))"

definition str_get :: "cstring \<Rightarrow> nat \<Rightarrow> nat \<Rightarrow> cell list sres" where
  "str_get s i n = (case str_buf s of None \<Rightarrow> Inl NullAccess | Some b \<Rightarrow> cells_get b i n)"

definition str_put :: "cstring \<Rightarrow> nat \<Rightarrow> cell list \<Rightarrow> cstring sres" where
  "str_put s i ys = (case str_buf s of None \<Rightarrow> Inl NullAccess
     | Some b \<Rightarrow> res_bind (cells_put b i ys) (\<lambda>b'. Inr (s\<lparr>str_buf := Some b'\<rparr>)))"

text \<open>Reading one character, as \<open>MemberData[i]\<close> does.\<close>

fun cell_value :: "cell list \<Rightarrow> char sres" where
  "cell_value [] = Inl OutOfBounds"
| "cell_value (None # xs) = Inl IndeterminateRead"
| "cell_value (Some c # xs) = Inr c"

definition str_load :: "cstring \<Rightarrow> nat \<Rightarrow> char sres" where
  "str_load s i = res_bind (str_get s i 1) cell_value"

text \<open>Reading a C string up to its terminator.\<close>

fun until_nul :: "cell list \<Rightarrow> string sres" where
  "until_nul [] = Inl OutOfBounds"
| "until_nul (None # xs) = Inl IndeterminateRead"
| "until_nul (Some c # xs) = (if c = nul then Inr [] else res_bind (until_nul xs) (\<lambda>t. Inr (c # t)))"

fun arg_text :: "cstring \<Rightarrow> carg \<Rightarrow> string option sres" where
  "arg_text s NullText = Inr None"
| "arg_text s (Chars cs) = res_bind (until_nul (map Some (cs @ [nul]))) (\<lambda>t. Inr (Some t))"
| "arg_text s (OwnText i) = (case str_buf s of None \<Rightarrow> Inl NullAccess
     | Some b \<Rightarrow> res_bind (until_nul (drop i b)) (\<lambda>t. Inr (Some t)))"

definition text_len :: "string \<Rightarrow> 64 word" where
  "text_len t = word_of_nat (length t)"

section \<open>Lengths and allocation\<close>

definition maximum_size :: "64 word" where
  "maximum_size = - 1 - 1"

definition checked_length_add :: "64 word \<Rightarrow> 64 word \<Rightarrow> 64 word sres" where
  "checked_length_add l r =
     (if maximum_size - l < r then Inl (Throws (LengthError ''String length exceeds max_size''))
      else Inr (l + r))"

text \<open>\<open>make_unique<char[]>\<close> zeroes the new array, \<open>new char[n]\<close> does not.\<close>

definition new_zeroed :: "64 word \<Rightarrow> cell list" where
  "new_zeroed n = replicate (unat n) (Some nul)"

definition new_chars :: "64 word \<Rightarrow> cell list" where
  "new_chars n = replicate (unat n) None"

definition allocate_resources :: "64 word \<Rightarrow> cstring \<Rightarrow> cstring sres" where
  "allocate_resources n s =
     (if maximum_size < n then Inl (Throws (LengthError ''String capacity exceeds max_size''))
      else if n \<le> str_cap s \<and> str_buf s \<noteq> None then Inr s
      else
        res_bind (if str_buf s = None then cells_put (new_zeroed (n + 1)) 0 [Some nul]
                  else res_bind (str_get s 0 (unat (str_size s + 1))) (\<lambda>xs.
                         cells_put (new_zeroed (n + 1)) 0 xs)) (\<lambda>tmp.
        res_bind (cells_put tmp (unat (str_size s)) [Some nul]) (\<lambda>tmp'.
          Inr (s\<lparr>str_buf := Some tmp', str_cap := n\<rparr>))))"

text \<open>\<open>MemberSize = n; MemberData[MemberSize] = 0\<close>, the end of most operations.\<close>

definition set_size :: "64 word \<Rightarrow> cstring \<Rightarrow> cstring sres" where
  "set_size n s = str_put (s\<lparr>str_size := n\<rparr>) (unat n) [Some nul]"

section \<open>Construction\<close>

definition str_from_text :: "carg \<Rightarrow> cstring sres" where
  "str_from_text a =
     res_bind (arg_text \<lparr>str_buf = None, str_size = 0, str_cap = 0\<rparr> a) (\<lambda>t.
       (let n = (case t of None \<Rightarrow> 0 | Some cs \<Rightarrow> text_len cs) in
        if maximum_size < n then Inl (Throws (LengthError ''String length exceeds max_size''))
        else case t of
          None \<Rightarrow> res_bind (cells_put (new_chars 1) 0 [Some nul]) (\<lambda>b.
                    Inr \<lparr>str_buf = Some b, str_size = n, str_cap = n\<rparr>)
        | Some cs \<Rightarrow>
            res_bind (cells_put (new_chars (n + 1)) 0 (map Some cs)) (\<lambda>b.
            res_bind (cells_put b (unat n) [Some nul]) (\<lambda>b'.
              Inr \<lparr>str_buf = Some b', str_size = n, str_cap = n\<rparr>))))"

definition str_default :: "cstring sres" where
  "str_default = str_from_text (Chars [])"

text \<open>\<open>String(char *&&)\<close> takes the caller's array, which may be longer than its text.\<close>

definition str_adopt :: "cell list option \<Rightarrow> cstring sres" where
  "str_adopt a =
     (case a of
        None \<Rightarrow> res_bind (cells_put (new_chars 1) 0 [Some nul]) (\<lambda>b.
                  Inr \<lparr>str_buf = Some b, str_size = 0, str_cap = 0\<rparr>)
      | Some b \<Rightarrow> res_bind (until_nul b) (\<lambda>cs.
          if maximum_size < text_len cs
          then Inl (Throws (LengthError ''String length exceeds max_size''))
          else Inr \<lparr>str_buf = Some b, str_size = text_len cs, str_cap = text_len cs\<rparr>))"

definition str_copy :: "cstring \<Rightarrow> cstring sres" where
  "str_copy s =
     res_bind (if str_buf s = None then cells_put (new_chars (str_cap s + 1)) 0 [Some nul]
               else res_bind (str_get s 0 (unat (str_size s + 1))) (\<lambda>xs.
                      cells_put (new_chars (str_cap s + 1)) 0 xs)) (\<lambda>b.
       Inr \<lparr>str_buf = Some b, str_size = str_size s, str_cap = str_cap s\<rparr>)"

definition str_null :: cstring where
  "str_null = \<lparr>str_buf = None, str_size = 0, str_cap = 0\<rparr>"

text \<open>The move constructor: the new string and what is left of the source.\<close>

definition str_move :: "cstring \<Rightarrow> cstring \<times> cstring" where
  "str_move s = (s, str_null)"

definition str_from_list :: "string \<Rightarrow> cstring sres" where
  "str_from_list cs =
     res_bind (cells_put (new_chars (text_len cs + 1)) 0 (map Some cs)) (\<lambda>b.
     res_bind (cells_put b (unat (text_len cs)) [Some nul]) (\<lambda>b'.
       Inr \<lparr>str_buf = Some b', str_size = text_len cs, str_cap = text_len cs\<rparr>))"

definition str_destroy :: "cstring \<Rightarrow> cstring" where
  "str_destroy s = str_null"

section \<open>Observation\<close>

definition str_empty :: "cstring \<Rightarrow> bool" where
  "str_empty s \<longleftrightarrow> str_size s = 0"

definition str_cstr :: "cstring \<Rightarrow> string sres" where
  "str_cstr s = (case str_buf s of None \<Rightarrow> Inr [] | Some b \<Rightarrow> until_nul b)"

definition str_back :: "cstring \<Rightarrow> char sres" where
  "str_back s = (if 0 < str_size s \<and> str_buf s \<noteq> None then str_load s (unat (str_size s - 1))
                 else Inr nul)"

definition str_front :: "cstring \<Rightarrow> char sres" where
  "str_front s = (if 0 < str_size s \<and> str_buf s \<noteq> None then str_load s 0 else Inr nul)"

definition str_at :: "cstring \<Rightarrow> 64 word \<Rightarrow> char sres" where
  "str_at s i = (if i < str_size s then str_load s (unat i)
                 else Inl (Throws (Fault ''string::operator[]const'')))"

text \<open>Assignment through the reference that the mutable \<open>operator[]\<close> returns.\<close>

definition str_write :: "64 word \<Rightarrow> char \<Rightarrow> cstring \<Rightarrow> cstring sres" where
  "str_write i c s = (if i < str_size s then str_put s (unat i) [Some c]
                      else Inl (Throws (Fault ''string::operator[]'')))"

text \<open>The forward iterators are pointers into the buffer, null for a null buffer.\<close>

definition str_begin :: "cstring \<Rightarrow> nat option" where
  "str_begin s = (if str_buf s = None then None else Some 0)"

definition str_end :: "cstring \<Rightarrow> nat option" where
  "str_end s = (if str_buf s = None then None else Some (unat (str_size s)))"

text \<open>The reverse iterators hold the position after the character they show.\<close>

definition str_rbegin :: "cstring \<Rightarrow> nat option" where
  "str_rbegin s = str_end s"

definition str_rend :: "cstring \<Rightarrow> nat option" where
  "str_rend s = str_begin s"

section \<open>Case\<close>

definition upper_char :: "char \<Rightarrow> char" where
  "upper_char c = (if (97::nat) \<le> of_char c \<and> of_char c \<le> (122::nat)
                   then char_of (of_char c - (32::nat)) else c)"

definition lower_char :: "char \<Rightarrow> char" where
  "lower_char c = (if (65::nat) \<le> of_char c \<and> of_char c \<le> (90::nat)
                   then char_of (of_char c + (32::nat)) else c)"

text \<open>The pointer loop over the first \<open>n\<close> cells.\<close>

fun cells_map :: "(char \<Rightarrow> char) \<Rightarrow> nat \<Rightarrow> cell list \<Rightarrow> cell list sres" where
  "cells_map f 0 xs = Inr xs"
| "cells_map f (Suc n) [] = Inl OutOfBounds"
| "cells_map f (Suc n) (None # xs) = Inl IndeterminateRead"
| "cells_map f (Suc n) (Some c # xs) = res_bind (cells_map f n xs) (\<lambda>ys. Inr (Some (f c) # ys))"

definition str_recase :: "(char \<Rightarrow> char) \<Rightarrow> cstring \<Rightarrow> cstring sres" where
  "str_recase f s = (case str_buf s of None \<Rightarrow> Inr s
     | Some b \<Rightarrow> res_bind (cells_map f (unat (str_size s)) b) (\<lambda>b'. Inr (s\<lparr>str_buf := Some b'\<rparr>)))"

definition str_uppercase :: "cstring \<Rightarrow> cstring sres" where
  "str_uppercase = str_recase upper_char"

definition str_lowercase :: "cstring \<Rightarrow> cstring sres" where
  "str_lowercase = str_recase lower_char"

section \<open>Insertion\<close>

definition str_prepend :: "carg \<Rightarrow> cstring \<Rightarrow> cstring sres" where
  "str_prepend a s =
     res_bind (arg_text s a) (\<lambda>t. case t of None \<Rightarrow> Inr s | Some p \<Rightarrow>
       if p = [] then Inr s
       else
         res_bind (checked_length_add (str_size s) (text_len p)) (\<lambda>new.
         res_bind (allocate_resources new s) (\<lambda>s1.
         res_bind (str_get s1 0 (unat (str_size s1 + 1))) (\<lambda>old.
         res_bind (str_put s1 (length p) old) (\<lambda>s2.
         res_bind (str_put s2 0 (map Some p)) (set_size new))))))"

definition str_insert :: "carg \<Rightarrow> 64 word \<Rightarrow> cstring \<Rightarrow> cstring sres" where
  "str_insert a start s =
     (if str_size s < start then Inl (Throws (Fault ''insert_sub_string''))
      else res_bind (arg_text s a) (\<lambda>t. case t of None \<Rightarrow> Inr s | Some p \<Rightarrow>
         res_bind (checked_length_add (str_size s) (text_len p)) (\<lambda>new.
         res_bind (allocate_resources new s) (\<lambda>s1.
         res_bind (str_get s1 (unat start) (unat (str_size s1 - start + 1))) (\<lambda>old.
         res_bind (str_put s1 (unat start + length p) old) (\<lambda>s2.
         res_bind (str_put s2 (unat start) (map Some p)) (set_size new)))))))"

text \<open>
  A reference to an element of the string dangles once the buffer has been replaced; the flag
  says whether it has.
\<close>

definition reallocates :: "64 word \<Rightarrow> cstring \<Rightarrow> bool" where
  "reallocates n s \<longleftrightarrow> \<not> (n \<le> str_cap s \<and> str_buf s \<noteq> None)"

fun ref_value :: "bool \<Rightarrow> cstring \<Rightarrow> cref \<Rightarrow> char sres" where
  "ref_value moved s (CharValue c) = Inr c"
| "ref_value moved s (OwnChar i) = (if moved then Inl FreedAccess else str_load s i)"

definition doubled_capacity :: "cstring \<Rightarrow> 64 word" where
  "doubled_capacity s = (if str_cap s = 0 then 2
     else if maximum_size div 2 < str_cap s then maximum_size else str_cap s * 2)"

definition str_push_char :: "cref \<Rightarrow> cstring \<Rightarrow> cstring sres" where
  "str_push_char r s =
     res_bind (checked_length_add (str_size s) 1) (\<lambda>new.
       let grow = str_cap s < new;
           want = max new (doubled_capacity s) in
       res_bind (if grow then allocate_resources want s else Inr s) (\<lambda>s1.
       res_bind (ref_value (grow \<and> reallocates want s) s1 r) (\<lambda>c.
       res_bind (str_put s1 (unat (str_size s1)) [Some c]) (set_size new))))"

datatype sref = Itself | Other cstring

fun sref_target :: "cstring \<Rightarrow> sref \<Rightarrow> cstring" where
  "sref_target s Itself = s"
| "sref_target s (Other t) = t"

definition str_push_string :: "sref \<Rightarrow> cstring \<Rightarrow> cstring sres" where
  "str_push_string r s =
     (if str_size (sref_target s r) = 0 then Inr s
      else
        res_bind (checked_length_add (str_size s) (str_size (sref_target s r))) (\<lambda>new.
        res_bind (allocate_resources new s) (\<lambda>s1.
        res_bind (case r of Itself \<Rightarrow> str_get s1 0 (unat (str_size s))
                  | Other t \<Rightarrow> str_get t 0 (unat (str_size t))) (\<lambda>xs.
        res_bind (str_put s1 (unat (str_size s)) xs) (set_size new)))))"

definition str_push_text :: "carg \<Rightarrow> cstring \<Rightarrow> cstring sres" where
  "str_push_text a s =
     res_bind (arg_text s a) (\<lambda>t. case t of None \<Rightarrow> Inr s | Some p \<Rightarrow>
       if text_len p = 0 then Inr s
       else
         res_bind (checked_length_add (str_size s) (text_len p)) (\<lambda>new.
         res_bind (allocate_resources new s) (\<lambda>s1.
         res_bind (str_put s1 (unat (str_size s1)) (map Some p)) (set_size new))))"

section \<open>Size and capacity\<close>

definition str_resize :: "64 word \<Rightarrow> cref \<Rightarrow> cstring \<Rightarrow> cstring sres" where
  "str_resize n r s =
     (if maximum_size < n then Inl (Throws (LengthError ''String size exceeds max_size''))
      else
        res_bind (if str_size s < n then
                    res_bind (allocate_resources n s) (\<lambda>s1.
                    res_bind (ref_value (reallocates n s) s1 r) (\<lambda>c.
                      str_put s1 (unat (str_size s)) (replicate (unat n - unat (str_size s)) (Some c))))
                  else Inr s) (\<lambda>s2.
        res_bind (if str_buf s2 = None then allocate_resources n s2 else Inr s2) (set_size n)))"

text \<open>\<open>Reserve\<close> returns the start of the buffer.\<close>

definition str_reserve :: "64 word \<Rightarrow> cstring \<Rightarrow> (nat option \<times> cstring) sres" where
  "str_reserve n s = res_bind (allocate_resources n s) (\<lambda>s'. Inr (str_begin s', s'))"

definition str_swap :: "cstring \<Rightarrow> cstring \<Rightarrow> cstring \<times> cstring" where
  "str_swap s t =
     (\<lparr>str_buf = str_buf t, str_size = str_size t, str_cap = str_cap t\<rparr>,
      \<lparr>str_buf = str_buf s, str_size = str_size s, str_cap = str_cap s\<rparr>)"

section \<open>Substrings\<close>

text \<open>The common end of the three substring functions: a new string that gets the characters.\<close>

definition sub_result :: "64 word \<Rightarrow> 64 word \<Rightarrow> cstring \<Rightarrow> cstring sres" where
  "sub_result start len s =
     res_bind str_default (\<lambda>r.
     res_bind (allocate_resources len r) (\<lambda>r1.
     res_bind (if 0 < len then res_bind (str_get s (unat start) (unat len)) (str_put r1 0)
               else Inr r1) (set_size len)))"

definition str_sub :: "64 word \<Rightarrow> cstring \<Rightarrow> cstring sres" where
  "str_sub start s = (if str_size s < start then Inl (Throws (Fault ''sub_string''))
                      else sub_result start (str_size s - start) s)"

definition str_sub_from :: "64 word \<Rightarrow> cstring \<Rightarrow> cstring sres" where
  "str_sub_from start s = (if str_size s < start then Inl (Throws (Fault ''sub_string_from''))
                           else sub_result start (str_size s - start) s)"

definition str_sub_range :: "64 word \<Rightarrow> 64 word \<Rightarrow> cstring \<Rightarrow> cstring sres" where
  "str_sub_range start fin s =
     (if str_size s < start \<or> str_size s < fin \<or> fin < start
      then Inl (Throws (Fault ''sub_string''))
      else sub_result start (fin - start) s)"

text \<open>
  A reverse iterator walks down from position \<open>lo + n\<close> to \<open>lo\<close>, showing the character before
  its position; each is appended to the result.
\<close>

fun reverse_loop :: "cstring \<Rightarrow> nat \<Rightarrow> nat \<Rightarrow> cstring \<Rightarrow> cstring sres" where
  "reverse_loop s lo 0 r = Inr r"
| "reverse_loop s lo (Suc n) r =
     res_bind (str_load s (lo + n)) (\<lambda>c. res_bind (str_push_char (CharValue c) r) (reverse_loop s lo n))"

definition str_reverse :: "cstring \<Rightarrow> cstring sres" where
  "str_reverse s =
     (if str_size s = 0 then Inl (Throws (Fault ''reserve''))
      else res_bind str_default (\<lambda>r.
        case (str_rbegin s, str_rend s) of
          (Some i, Some j) \<Rightarrow> reverse_loop s j (i - j) r
        | _ \<Rightarrow> Inl NullAccess))"

definition str_reverse_range :: "64 word \<Rightarrow> 64 word \<Rightarrow> cstring \<Rightarrow> cstring sres" where
  "str_reverse_range start fin s =
     (if str_size s < start \<or> str_size s < fin \<or> fin < start \<or> str_size s = 0
      then Inl (Throws (Fault ''reverse_sub_string''))
      else res_bind str_default (reverse_loop s (unat start) (unat fin - unat start)))"

section \<open>Assignment and concatenation\<close>

definition str_assign :: "sref \<Rightarrow> cstring \<Rightarrow> cstring sres" where
  "str_assign r s =
     (case r of Itself \<Rightarrow> Inr s
      | Other t \<Rightarrow>
          res_bind (if str_buf t = None then cells_put (new_chars (str_cap t + 1)) 0 [Some nul]
                    else res_bind (str_get t 0 (unat (str_size t + 1))) (\<lambda>xs.
                           cells_put (new_chars (str_cap t + 1)) 0 xs)) (\<lambda>b.
            Inr (s\<lparr>str_buf := Some b, str_cap := str_cap t, str_size := str_size t\<rparr>)))"

definition str_assign_text :: "carg \<Rightarrow> cstring \<Rightarrow> cstring sres" where
  "str_assign_text a s =
     res_bind (arg_text s a) (\<lambda>t.
       (let cs = (case t of None \<Rightarrow> [] | Some p \<Rightarrow> p);
            n = text_len cs in
        if maximum_size < n then Inl (Throws (LengthError ''String length exceeds max_size''))
        else
          res_bind (cells_put (new_chars (n + 1)) 0 (map Some cs)) (\<lambda>b.
          res_bind (cells_put b (unat n) [Some nul]) (\<lambda>b'.
            set_size n (s\<lparr>str_buf := Some b', str_cap := n\<rparr>)))))"

text \<open>Move assignment: the string assigned to and the source afterwards.\<close>

definition str_move_assign :: "sref \<Rightarrow> cstring \<Rightarrow> cstring \<times> cstring" where
  "str_move_assign r s = (case r of Itself \<Rightarrow> (s, s)
     | Other t \<Rightarrow> (s\<lparr>str_size := str_size t, str_cap := str_cap t, str_buf := str_buf t\<rparr>, str_null))"

definition str_plus_assign :: "sref \<Rightarrow> cstring \<Rightarrow> cstring sres" where
  "str_plus_assign = str_push_string"

definition str_plus :: "cstring \<Rightarrow> cstring \<Rightarrow> cstring sres" where
  "str_plus s t = res_bind (str_copy s) (str_plus_assign (Other t))"

section \<open>Comparison\<close>

fun first_difference :: "cstring \<Rightarrow> cstring \<Rightarrow> nat \<Rightarrow> nat \<Rightarrow> (char \<times> char) option sres" where
  "first_difference s t i 0 = Inr None"
| "first_difference s t i (Suc n) =
     res_bind (str_load s i) (\<lambda>x. res_bind (str_load t i) (\<lambda>y.
       if x \<noteq> y then Inr (Some (x, y)) else first_difference s t (Suc i) n))"

text \<open>The value of a \<open>char\<close>, by whether the platform's \<open>char\<close> is signed.\<close>

definition char_num :: "bool \<Rightarrow> char \<Rightarrow> int" where
  "char_num sg c = (if sg \<and> 128 \<le> (of_char c :: nat) then of_char c - 256 else of_char c)"

definition str_eq :: "cstring \<Rightarrow> cstring \<Rightarrow> bool sres" where
  "str_eq s t = (if str_size s \<noteq> str_size t then Inr False
     else res_bind (first_difference s t 0 (unat (str_size s))) (\<lambda>d. Inr (d = None)))"

definition str_less :: "bool \<Rightarrow> cstring \<Rightarrow> cstring \<Rightarrow> bool sres" where
  "str_less sg s t =
     (let m = (if str_size s < str_size t then str_size s else str_size t) in
      res_bind (first_difference s t 0 (unat m)) (\<lambda>d.
        case d of None \<Rightarrow> Inr (str_size s < str_size t)
        | Some (x, y) \<Rightarrow> Inr (char_num sg x < char_num sg y)))"

definition str_greater :: "bool \<Rightarrow> cstring \<Rightarrow> cstring \<Rightarrow> bool sres" where
  "str_greater sg s t =
     (let m = (if str_size s < str_size t then str_size s else str_size t) in
      res_bind (first_difference s t 0 (unat m)) (\<lambda>d.
        case d of None \<Rightarrow> Inr (str_size t < str_size s)
        | Some (x, y) \<Rightarrow> Inr (char_num sg y < char_num sg x)))"

section \<open>Streams\<close>

text \<open>What the loops print: the characters from position \<open>i\<close> on, or downwards to \<open>i\<close>.\<close>

fun out_loop :: "cstring \<Rightarrow> nat \<Rightarrow> nat \<Rightarrow> string sres" where
  "out_loop s i 0 = Inr []"
| "out_loop s i (Suc n) = res_bind (str_load s i) (\<lambda>c. res_bind (out_loop s (Suc i) n) (\<lambda>t. Inr (c # t)))"

fun reverse_out_loop :: "cstring \<Rightarrow> nat \<Rightarrow> nat \<Rightarrow> string sres" where
  "reverse_out_loop s i 0 = Inr []"
| "reverse_out_loop s i (Suc n) =
     res_bind (str_load s (i + n)) (\<lambda>c. res_bind (reverse_out_loop s i n) (\<lambda>t. Inr (c # t)))"

definition str_out :: "cstring \<Rightarrow> string sres" where
  "str_out s = (case (str_begin s, str_end s) of
     (Some i, Some j) \<Rightarrow> out_loop s i (j - i) | _ \<Rightarrow> Inr [])"

definition str_print :: "cstring \<Rightarrow> string sres" where
  "str_print s = res_bind (case str_buf s of None \<Rightarrow> Inl NullAccess | Some b \<Rightarrow> until_nul b)
                   (\<lambda>t. Inr (t @ [CHR 0x0A]))"

definition str_reverse_print :: "cstring \<Rightarrow> string sres" where
  "str_reverse_print s = res_bind (case (str_rbegin s, str_rend s) of
     (Some i, Some j) \<Rightarrow> reverse_out_loop s j (i - j) | _ \<Rightarrow> Inr []) (\<lambda>t. Inr (t @ [CHR 0x0A]))"

text \<open>
  \<open>operator>>\<close> appends up to the end of the line: the input left, the failure if any, and
  the string.
\<close>

fun str_in :: "string \<Rightarrow> cstring \<Rightarrow> string \<times> str_fail option \<times> cstring" where
  "str_in [] s = ([], None, s)"
| "str_in (c # cs) s = (if c = CHR 0x0A then (cs, None, s)
     else (case str_push_char (CharValue c) s of
             Inl f \<Rightarrow> (cs, Some f, s)
           | Inr s' \<Rightarrow> str_in cs s'))"

end
