(* ===== verification/StringLaws.thy ===== *)
theory StringLaws
  imports Strings
begin

text \<open>
  What the string operations do.  \<open>str_holds s t\<close> relates a string object to the text it
  stands for: its size, its terminator, its initialised cells and its capacity are consistent.
  The operations refine the functions on texts (\<open>text_apply\<close>), exceptions included.  With valid
  arguments (\<open>args_ok\<close>) they run into undefined behaviour in exactly one case (\<open>reads_freed\<close>): a growing
  \<open>PushBack\<close> or \<open>Resize\<close> invalidates a reference to an own character before it reads it.
\<close>

section \<open>The representation\<close>

definition str_holds :: "cstring \<Rightarrow> string \<Rightarrow> bool" where
  "str_holds s t \<longleftrightarrow> unat (str_size s) = length t \<and>
     (case str_buf s of
        None \<Rightarrow> t = [] \<and> str_cap s = 0
      | Some b \<Rightarrow> take (length t + 1) b = map Some t @ [Some nul] \<and> str_size s \<le> str_cap s \<and>
          str_cap s \<le> maximum_size \<and> unat (str_cap s) < length b)"

text \<open>The buffer of a string between the writes of an operation.\<close>

definition str_raw :: "cstring \<Rightarrow> cell list \<Rightarrow> bool" where
  "str_raw s b \<longleftrightarrow> str_buf s = Some b \<and> str_cap s \<le> maximum_size \<and> unat (str_cap s) < length b"

definition max_len :: nat where
  "max_len = 2 ^ 64 - 2"

lemma maximum_size_eq: "maximum_size = 18446744073709551614"
  by (simp add: maximum_size_def)

lemma unat_maximum: "unat maximum_size = max_len"
  by (simp add: maximum_size_eq max_len_def)

lemma le_maximum: "w \<le> maximum_size \<longleftrightarrow> unat w \<le> max_len"
  by (simp add: word_le_nat_alt unat_maximum)

lemma unat_text_len: "length t < 2 ^ 64 \<Longrightarrow> unat (text_len t) = length t"
  by (simp add: text_len_def unat_of_nat take_bit_nat_eq_self)

lemma unat_Suc_le: "unat (w :: 64 word) \<le> max_len \<Longrightarrow> unat (w + 1) = Suc (unat w)"
  by (simp add: unat_word_ariths max_len_def)

lemma checked_add_cases:
  assumes "l \<le> maximum_size"
  shows "checked_length_add l r =
           (if max_len < unat l + unat r then Inl (Throws (LengthError ''String length exceeds max_size''))
            else Inr (l + r))"
    and "unat l + unat r \<le> max_len \<Longrightarrow> unat (l + r) = unat l + unat r"
proof -
  have "unat (maximum_size - l) = max_len - unat l"
    using assms by (simp add: unat_sub_if' unat_maximum word_le_nat_alt)
  then show "checked_length_add l r =
           (if max_len < unat l + unat r then Inl (Throws (LengthError ''String length exceeds max_size''))
            else Inr (l + r))"
    using assms by (auto simp: checked_length_add_def word_less_nat_alt le_maximum)
  show "unat l + unat r \<le> max_len \<Longrightarrow> unat (l + r) = unat l + unat r"
    by (simp add: unat_plus_if' max_len_def)
qed

lemma str_holds_size: "str_holds s t \<Longrightarrow> unat (str_size s) = length t \<and> length t \<le> max_len"
  by (auto simp: str_holds_def le_maximum word_le_nat_alt unat_maximum split: option.splits)

lemma str_holds_le: "str_holds s t \<Longrightarrow> str_size s \<le> maximum_size"
  using str_holds_size by (simp add: le_maximum)

lemma str_holds_raw:
  assumes "str_holds s t" and "str_buf s = Some b"
  shows "str_raw s b" and "take (length t + 1) b = map Some t @ [Some nul]"
    and "take (length t) b = map Some t" and "length t < length b" and "str_size s \<le> str_cap s"
proof -
  show a: "str_raw s b" "take (length t + 1) b = map Some t @ [Some nul]" "str_size s \<le> str_cap s"
    using assms by (auto simp: str_holds_def str_raw_def)
  have "take (length t) (take (length t + 1) b) = map Some t"
    using a(2) by simp
  then show "take (length t) b = map Some t"
    by simp
  show "length t < length b"
    using assms by (auto simp: str_holds_def word_le_nat_alt)
qed

lemma str_holds_nth:
  assumes "str_holds s t" and "str_buf s = Some b"
  shows "i < length t \<Longrightarrow> b ! i = Some (t ! i)" and "b ! length t = Some nul"
proof -
  note r = str_holds_raw [OF assms]
  show "b ! i = Some (t ! i)" if "i < length t"
    using arg_cong [OF r(2), of "\<lambda>xs. xs ! i"] that by (simp add: nth_append)
  show "b ! length t = Some nul"
    using arg_cong [OF r(2), of "\<lambda>xs. xs ! length t"] r(4) by (simp add: nth_append)
qed

lemma str_null_holds: "str_holds str_null []"
  by (simp add: str_holds_def str_null_def)

section \<open>Buffers\<close>

lemma cells_put_ok:
  "i + length ys \<le> length b \<Longrightarrow> cells_put b i ys = Inr (take i b @ ys @ drop (i + length ys) b)"
  by (simp add: cells_put_def)

lemma str_put_ok:
  assumes "str_raw s b" and "i + length ys \<le> length b"
  shows "str_put s i ys = Inr (s\<lparr>str_buf := Some (take i b @ ys @ drop (i + length ys) b)\<rparr>)"
    and "str_raw (s\<lparr>str_buf := Some (take i b @ ys @ drop (i + length ys) b)\<rparr>)
           (take i b @ ys @ drop (i + length ys) b)"
  using assms by (auto simp: str_put_def str_raw_def cells_put_ok)

lemma set_size_ok:
  assumes "str_raw s b" and "take (length t) b = map Some t" and "unat n = length t" and "n \<le> str_cap s"
  shows "\<exists>s'. set_size n s = Inr s' \<and> str_holds s' t"
proof -
  have len: "length t < length b"
    using assms by (auto simp: str_raw_def word_le_nat_alt)
  show ?thesis
    using assms len
    by (auto simp: set_size_def str_put_def str_raw_def cells_put_ok str_holds_def)
qed

lemma str_get_ok:
  assumes "str_raw s b" and "i + n \<le> length b"
  shows "str_get s i n = Inr (take n (drop i b))"
  using assms by (simp add: str_get_def str_raw_def cells_get_def)

lemma str_load_holds:
  assumes "str_holds s t" and "i < length t"
  shows "str_load s i = Inr (t ! i)"
proof (cases "str_buf s")
  case None
  then show ?thesis
    using assms by (simp add: str_holds_def)
next
  case (Some b)
  note r = str_holds_raw [OF assms(1) Some]
  have "take 1 (drop i b) = [b ! i]"
    using assms(2) r(4) by (simp add: take_Suc_conv_app_nth)
  then show ?thesis
    using assms r str_holds_nth(1) [OF assms(1) Some assms(2)]
    by (simp add: str_load_def str_get_ok [OF r(1)])
qed

lemma until_nul_text: "until_nul (map Some t @ Some nul # xs) = Inr (takeWhile (\<lambda>c. c \<noteq> nul) t)"
  by (induction t) auto

lemma holds_split:
  assumes "str_holds s t" and "str_buf s = Some b"
  shows "b = map Some t @ Some nul # drop (length t + 1) b"
proof -
  have "b = take (length t + 1) b @ drop (length t + 1) b"
    by simp
  then show ?thesis
    by (subst (asm) str_holds_raw(2) [OF assms]) simp
qed

lemma until_nul_own:
  assumes "str_holds s t" and "str_buf s = Some b" and "i \<le> length t"
  shows "until_nul (drop i b) = Inr (takeWhile (\<lambda>c. c \<noteq> nul) (drop i t))"
proof -
  have "drop i b = map Some (drop i t) @ Some nul # drop (length t + 1) b"
    using assms(3) by (subst holds_split [OF assms(1,2)]) (simp add: drop_map)
  then show ?thesis
    by (simp only: until_nul_text)
qed

section \<open>Allocation\<close>

lemma allocate_ok:
  assumes h: "str_holds s t" and n: "n \<le> maximum_size"
  shows "\<exists>s' b. allocate_resources n s = Inr s' \<and> str_holds s' t \<and> str_buf s' = Some b \<and>
           n \<le> str_cap s' \<and> str_size s' = str_size s \<and> (\<not> reallocates n s \<longrightarrow> s' = s)"
proof (cases "reallocates n s")
  case False
  then show ?thesis
    using h n by (auto simp: allocate_resources_def reallocates_def)
next
  case True
  have len: "length (new_zeroed (n + 1)) = Suc (unat n)"
    using n by (simp add: new_zeroed_def unat_Suc_le le_maximum)
  note sz = str_holds_size [OF h]
  show ?thesis
  proof (cases "str_buf s")
    case None
    then have t: "t = []" "unat (str_size s) = 0"
      using h by (auto simp: str_holds_def)
    have "new_zeroed (n + 1) = Some nul # replicate (unat n) (Some nul)"
      using n by (simp add: new_zeroed_def unat_Suc_le le_maximum)
    then show ?thesis
      using None t len True n leD [OF n]
      by (auto simp: allocate_resources_def cells_put_ok str_holds_def word_le_nat_alt)
  next
    case (Some b)
    note r = str_holds_raw [OF h Some]
    have big: "length t \<le> unat n"
      using True Some r(5) sz by (simp add: reallocates_def word_le_nat_alt)
    have g: "str_get s 0 (unat (str_size s + 1)) = Inr (map Some t @ [Some nul])"
      using r(2,4) sz by (simp add: str_get_ok [OF r(1)] unat_Suc_le)
    show ?thesis
      using Some True n len big g sz leD [OF n]
      by (auto simp: allocate_resources_def reallocates_def cells_put_ok str_holds_def word_le_nat_alt le_maximum
            split: option.splits)
  qed
qed

lemma allocate_length_error:
  "\<not> n \<le> maximum_size \<Longrightarrow>
   allocate_resources n s = Inl (Throws (LengthError ''String capacity exceeds max_size''))"
  by (simp add: allocate_resources_def not_le)

section \<open>Insertion\<close>

text \<open>Opening a gap at \<open>i\<close> and filling it, on a buffer that has the room.\<close>

lemma gap_buffer:
  assumes "take (length t + 1) b = map Some t @ [Some nul]" and "i \<le> length t"
    and "length t + length p < length b"
  shows "take (length t - i + 1) (drop i b) = map Some (drop i t) @ [Some nul]"
    and "take (length t + length p)
           (map Some (take i t) @ map Some p @ map Some (drop i t) @ rest) = map Some (take i t @ p @ drop i t)"
    and "take i b = map Some (take i t)"
proof -
  have "take (length t - i + 1) (drop i b) = drop i (take (length t + 1) b)"
    using assms(2) by (simp add: take_drop)
  then show "take (length t - i + 1) (drop i b) = map Some (drop i t) @ [Some nul]"
    using assms(1,2) by (simp add: drop_map)
  show "take (length t + length p)
           (map Some (take i t) @ map Some p @ map Some (drop i t) @ rest) = map Some (take i t @ p @ drop i t)"
    using assms(2) by simp
  have "take i b = take i (take (length t + 1) b)"
    using assms(2) by simp
  also have "\<dots> = map Some (take i t)"
    using assms(2) by (subst assms(1)) (simp add: take_map)
  finally show "take i b = map Some (take i t)" .
qed

lemma splice_ok:
  assumes h: "str_holds s t" and b: "str_buf s = Some b" and i: "i \<le> length t"
    and room: "new \<le> str_cap s" and new: "unat new = length t + length p"
  shows "\<exists>s'. res_bind (str_get s i (length t - i + 1)) (\<lambda>old.
              res_bind (str_put s (i + length p) old) (\<lambda>s2.
              res_bind (str_put s2 i (map Some p)) (set_size new))) = Inr s' \<and>
              str_holds s' (take i t @ p @ drop i t)"
proof -
  note r = str_holds_raw [OF h b]
  have fit: "length t + length p < length b"
    using r(1) room new by (auto simp: str_raw_def word_le_nat_alt)
  note g = gap_buffer [OF r(2) i fit]
  let ?old = "map Some (drop i t) @ [Some nul]"
  let ?b1 = "take (i + length p) b @ ?old @ drop (i + length p + length ?old) b"
  let ?s1 = "s\<lparr>str_buf := Some ?b1\<rparr>"
  have get: "str_get s i (length t - i + 1) = Inr ?old"
    using str_get_ok [OF r(1), of i "length t - i + 1"] g(1) i r(4) by simp
  have p1: "str_put s (i + length p) ?old = Inr ?s1" "str_raw ?s1 ?b1"
    using str_put_ok [OF r(1), of "i + length p" ?old] i fit by simp_all
  let ?b2 = "take i ?b1 @ map Some p @ drop (i + length p) ?b1"
  let ?s2 = "?s1\<lparr>str_buf := Some ?b2\<rparr>"
  have p2: "str_put ?s1 i (map Some p) = Inr ?s2" "str_raw ?s2 ?b2"
    using str_put_ok [OF p1(2), of i "map Some p"] i fit by simp_all
  have tk: "take i ?b1 = map Some (take i t)"
    using g(3) fit i by simp
  have dr: "drop (i + length p) ?b1 = map Some (drop i t) @ Some nul # drop (i + length p + length ?old) b"
    using fit i by simp
  have txt_eq: "take (length (take i t @ p @ drop i t)) ?b2 = map Some (take i t @ p @ drop i t)"
    unfolding tk dr using g(2) i by simp
  have "\<exists>s'. set_size new ?s2 = Inr s' \<and> str_holds s' (take i t @ p @ drop i t)"
    using set_size_ok [OF p2(2) txt_eq, of new] new room i by simp
  then show ?thesis
    by (simp only: get p1(1) p2(1) res_bind.simps)
qed

text \<open>Writing characters over the terminator.\<close>

lemma append_ok:
  assumes h: "str_holds s t" and b: "str_buf s = Some b"
    and room: "new \<le> str_cap s" and new: "unat new = length t + length p"
  shows "\<exists>s'. res_bind (str_put s (length t) (map Some p)) (set_size new) = Inr s' \<and> str_holds s' (t @ p)"
proof -
  note r = str_holds_raw [OF h b]
  have fit: "length t + length p < length b"
    using r(1) room new by (auto simp: str_raw_def word_le_nat_alt)
  let ?b1 = "take (length t) b @ map Some p @ drop (length t + length p) b"
  let ?s1 = "s\<lparr>str_buf := Some ?b1\<rparr>"
  have p1: "str_put s (length t) (map Some p) = Inr ?s1" "str_raw ?s1 ?b1"
    using str_put_ok [OF r(1), of "length t" "map Some p"] fit by simp_all
  have txt_eq: "take (length (t @ p)) ?b1 = map Some (t @ p)"
    using r(3) by simp
  show ?thesis
    using set_size_ok [OF p1(2) txt_eq, of new] new room by (simp add: p1(1))
qed

section \<open>The text functions\<close>

text \<open>What the operations mean on texts.\<close>

datatype str_op =
    Upper
  | Lower
  | Prepend carg
  | InsertSub carg "64 word"
  | PushChar cref
  | PushString sref
  | PushText carg
  | Resize "64 word" cref
  | Reserve "64 word"
  | WriteAt "64 word" char
  | Assign sref
  | AssignText carg
  | MoveAssign sref

fun str_apply :: "str_op \<Rightarrow> cstring \<Rightarrow> cstring sres" where
  "str_apply Upper s = str_uppercase s"
| "str_apply Lower s = str_lowercase s"
| "str_apply (Prepend a) s = str_prepend a s"
| "str_apply (InsertSub a i) s = str_insert a i s"
| "str_apply (PushChar r) s = str_push_char r s"
| "str_apply (PushString r) s = str_push_string r s"
| "str_apply (PushText a) s = str_push_text a s"
| "str_apply (Resize n r) s = str_resize n r s"
| "str_apply (Reserve n) s = res_bind (str_reserve n s) (\<lambda>(p, s'). Inr s')"
| "str_apply (WriteAt i c) s = str_write i c s"
| "str_apply (Assign r) s = str_assign r s"
| "str_apply (AssignText a) s = str_assign_text a s"
| "str_apply (MoveAssign r) s = Inr (fst (str_move_assign r s))"

definition str_text :: "cstring \<Rightarrow> string" where
  "str_text s = (case str_buf s of None \<Rightarrow> []
     | Some b \<Rightarrow> map (\<lambda>x. case x of None \<Rightarrow> nul | Some c \<Rightarrow> c) (take (unat (str_size s)) b))"

fun text_arg :: "string \<Rightarrow> carg \<Rightarrow> string option" where
  "text_arg t NullText = None"
| "text_arg t (Chars cs) = Some (takeWhile (\<lambda>c. c \<noteq> nul) cs)"
| "text_arg t (OwnText i) = Some (takeWhile (\<lambda>c. c \<noteq> nul) (drop i t))"

fun text_ref :: "string \<Rightarrow> cref \<Rightarrow> char" where
  "text_ref t (CharValue c) = c"
| "text_ref t (OwnChar i) = t ! i"

fun text_sref :: "string \<Rightarrow> sref \<Rightarrow> string" where
  "text_sref t Itself = t"
| "text_sref t (Other u) = str_text u"

definition text_splice :: "string \<Rightarrow> nat \<Rightarrow> string \<Rightarrow> exn + string" where
  "text_splice t i p = (if max_len < length t + length p
     then Inl (LengthError ''String length exceeds max_size'') else Inr (take i t @ p @ drop i t))"

fun text_apply :: "str_op \<Rightarrow> string \<Rightarrow> exn + string" where
  "text_apply Upper t = Inr (map upper_char t)"
| "text_apply Lower t = Inr (map lower_char t)"
| "text_apply (Prepend a) t = (case text_arg t a of None \<Rightarrow> Inr t | Some p \<Rightarrow> text_splice t 0 p)"
| "text_apply (InsertSub a i) t = (if length t < unat i then Inl (Fault ''insert_sub_string'')
     else case text_arg t a of None \<Rightarrow> Inr t | Some p \<Rightarrow> text_splice t (unat i) p)"
| "text_apply (PushChar r) t = text_splice t (length t) [text_ref t r]"
| "text_apply (PushString r) t = text_splice t (length t) (text_sref t r)"
| "text_apply (PushText a) t = (case text_arg t a of None \<Rightarrow> Inr t | Some p \<Rightarrow> text_splice t (length t) p)"
| "text_apply (Resize n r) t = (if max_len < unat n then Inl (LengthError ''String size exceeds max_size'')
     else Inr (take (unat n) t @ replicate (unat n - length t) (text_ref t r)))"
| "text_apply (Reserve n) t = (if max_len < unat n then Inl (LengthError ''String capacity exceeds max_size'')
     else Inr t)"
| "text_apply (WriteAt i c) t = (if unat i < length t then Inr (t[unat i := c])
     else Inl (Fault ''string::operator[]''))"
| "text_apply (Assign r) t = Inr (text_sref t r)"
| "text_apply (AssignText a) t =
     (let p = (case text_arg t a of None \<Rightarrow> [] | Some p \<Rightarrow> p) in
      if max_len < length p then Inl (LengthError ''String length exceeds max_size'') else Inr p)"
| "text_apply (MoveAssign r) t = Inr (text_sref t r)"

text \<open>
  The valid arguments: a C string fits the address space or starts inside the string, another
  string is a well-formed object, and a reference to an own character is to one of its characters.
\<close>

fun carg_ok :: "cstring \<Rightarrow> carg \<Rightarrow> bool" where
  "carg_ok s NullText = True"
| "carg_ok s (Chars cs) = (length cs < 2 ^ 64)"
| "carg_ok s (OwnText i) = (str_buf s \<noteq> None \<and> i \<le> unat (str_size s))"

fun cref_ok :: "cstring \<Rightarrow> cref \<Rightarrow> bool" where
  "cref_ok s (CharValue c) = True"
| "cref_ok s (OwnChar i) = (i < unat (str_size s))"

fun sref_ok :: "sref \<Rightarrow> bool" where
  "sref_ok Itself = True"
| "sref_ok (Other u) = str_holds u (str_text u)"

fun args_ok :: "cstring \<Rightarrow> str_op \<Rightarrow> bool" where
  "args_ok s (Prepend a) = carg_ok s a"
| "args_ok s (InsertSub a i) = carg_ok s a"
| "args_ok s (PushChar r) = cref_ok s r"
| "args_ok s (PushString r) = sref_ok r"
| "args_ok s (PushText a) = carg_ok s a"
| "args_ok s (Resize n r) = cref_ok s r"
| "args_ok s (Assign r) = sref_ok r"
| "args_ok s (AssignText a) = carg_ok s a"
| "args_ok s (MoveAssign r) = sref_ok r"
| "args_ok s _ = True"

text \<open>
  The calls that read a freed buffer: \<open>PushBack\<close> and \<open>Resize\<close> take their character by
  reference, and read it after they have replaced the buffer.  A call with an element of the
  string itself that needs a new buffer, and is not refused for its length, reads the old one.
\<close>

fun reads_freed :: "cstring \<Rightarrow> str_op \<Rightarrow> bool" where
  "reads_freed s (PushChar (OwnChar i)) = (str_cap s \<le> str_size s \<and> str_size s < maximum_size)"
| "reads_freed s (Resize n (OwnChar i)) = (str_cap s < n \<and> n \<le> maximum_size)"
| "reads_freed s _ = False"

text \<open>An operation refines its text function.\<close>

definition refines :: "cstring sres \<Rightarrow> exn + string \<Rightarrow> bool" where
  "refines r a \<longleftrightarrow> (case a of Inl e \<Rightarrow> r = Inl (Throws e)
     | Inr t \<Rightarrow> \<exists>s. r = Inr s \<and> str_holds s t)"

lemma str_text_holds: "str_holds s t \<Longrightarrow> str_text s = t"
  by (cases "str_buf s")
     (auto simp: str_text_def str_holds_raw(3) str_holds_size comp_def, simp add: str_holds_def)

lemma str_holds_text: "str_holds s t \<Longrightarrow> str_holds s (str_text s)"
  by (simp add: str_text_holds)

lemma arg_text_ok:
  assumes "str_holds s t" and "carg_ok s a"
  shows "arg_text s a = Inr (text_arg t a)"
    and "text_arg t a = Some p \<Longrightarrow> length p < 2 ^ 64"
proof -
  show "arg_text s a = Inr (text_arg t a)"
  proof (cases a)
    case (OwnText i)
    then show ?thesis
      using assms until_nul_own [OF assms(1)] str_holds_size [OF assms(1)] by auto
  qed (auto simp: until_nul_text)
  show "length p < 2 ^ 64" if "text_arg t a = Some p"
    using that assms str_holds_size [OF assms(1)]
    by (cases a) (auto simp: max_len_def intro: le_less_trans [OF length_takeWhile_le])
qed

section \<open>Each operation refines its text function\<close>

text \<open>The common pattern: check the length, allocate, continue on the new buffer.\<close>

lemma grow_then:
  assumes h: "str_holds s t" and p: "unat len = length p"
    and rest: "\<And>s1 b. str_holds s1 t \<Longrightarrow> str_buf s1 = Some b \<Longrightarrow> str_size s + len \<le> str_cap s1 \<Longrightarrow>
      str_size s1 = str_size s \<Longrightarrow> unat (str_size s + len) = length t + length p \<Longrightarrow>
      \<exists>s'. f (str_size s + len) s1 = Inr s' \<and> str_holds s' (take i t @ p @ drop i t)"
  shows "refines (res_bind (checked_length_add (str_size s) len) (\<lambda>new.
                    res_bind (allocate_resources new s) (f new))) (text_splice t i p)"
proof -
  note c = checked_add_cases [OF str_holds_le [OF h], of len]
  note sz = str_holds_size [OF h]
  show ?thesis
  proof (cases "max_len < length t + length p")
    case True
    then show ?thesis
      using c(1) sz p by (simp add: refines_def text_splice_def)
  next
    case False
    then have new: "unat (str_size s + len) = length t + length p"
      using c(2) sz p by simp
    then obtain s1 b where a: "allocate_resources (str_size s + len) s = Inr s1" "str_holds s1 t"
      "str_buf s1 = Some b" "str_size s + len \<le> str_cap s1" "str_size s1 = str_size s"
      using allocate_ok [OF h, of "str_size s + len"] False by (auto simp: le_maximum)
    show ?thesis
      using rest [OF a(2-5) new] c(1) sz p False a(1) by (auto simp: refines_def text_splice_def)
  qed
qed

lemma refines_InrI: "str_holds s t \<Longrightarrow> refines (Inr s) (Inr t)"
  by (simp add: refines_def)

lemma text_splice_Nil: "str_holds s t \<Longrightarrow> text_splice t i [] = Inr t"
  using str_holds_size by (fastforce simp: text_splice_def)

lemma str_prepend_refines:
  assumes h: "str_holds s t" and a: "carg_ok s a"
  shows "refines (str_prepend a s) (text_apply (Prepend a) t)"
proof (cases "text_arg t a")
  case None
  then show ?thesis
    using h arg_text_ok [OF h a] by (simp add: str_prepend_def refines_def)
next
  case (Some p)
  note ar = arg_text_ok(1) [OF h a] unat_text_len [OF arg_text_ok(2) [OF h a Some]]
  show ?thesis
  proof (cases "p = []")
    case True
    then show ?thesis
      using ar Some h text_splice_Nil [OF h] by (simp add: str_prepend_def refines_def)
  next
    case False
    show ?thesis
      unfolding str_prepend_def ar Some res_bind.simps option.case text_apply.simps if_not_P [OF False]
    proof (rule grow_then [OF h ar(2)])
      fix s1 b
      assume "str_holds s1 t" "str_buf s1 = Some b" "str_size s + text_len p \<le> str_cap s1"
        "str_size s1 = str_size s" "unat (str_size s + text_len p) = length t + length p"
      moreover from this have "unat (str_size s1 + 1) = length t - 0 + 1"
        using str_holds_size [of s1 t] by (simp add: unat_Suc_le)
      ultimately show "\<exists>s'. res_bind (str_get s1 0 (unat (str_size s1 + 1))) (\<lambda>old.
          res_bind (str_put s1 (length p) old) (\<lambda>s2. res_bind (str_put s2 0 (map Some p))
            (set_size (str_size s + text_len p)))) = Inr s' \<and> str_holds s' (take 0 t @ p @ drop 0 t)"
        using splice_ok [of s1 t b 0 "str_size s + text_len p" p] by simp
    qed
  qed
qed

lemma str_insert_refines:
  assumes h: "str_holds s t" and a: "carg_ok s a"
  shows "refines (str_insert a i s) (text_apply (InsertSub a i) t)"
proof (cases "str_size s < i")
  case True
  then show ?thesis
    using str_holds_size [OF h] by (simp add: str_insert_def refines_def word_less_nat_alt)
next
  case False
  then have i: "unat i \<le> length t"
    using str_holds_size [OF h] by (simp add: word_less_nat_alt)
  show ?thesis
  proof (cases "text_arg t a")
    case None
    then show ?thesis
      using False h arg_text_ok [OF h a] i by (simp add: str_insert_def refines_def)
  next
    case (Some p)
    note ar = arg_text_ok(1) [OF h a] unat_text_len [OF arg_text_ok(2) [OF h a Some]]
    have "refines (res_bind (checked_length_add (str_size s) (text_len p)) (\<lambda>new.
         res_bind (allocate_resources new s) (\<lambda>s1.
         res_bind (str_get s1 (unat i) (unat (str_size s1 - i + 1))) (\<lambda>old.
         res_bind (str_put s1 (unat i + length p) old) (\<lambda>s2.
         res_bind (str_put s2 (unat i) (map Some p)) (set_size new)))))) (text_splice t (unat i) p)"
    proof (rule grow_then [OF h ar(2)])
      fix s1 b
      assume s1: "str_holds s1 t" "str_buf s1 = Some b" "str_size s + text_len p \<le> str_cap s1"
        "str_size s1 = str_size s" "unat (str_size s + text_len p) = length t + length p"
      have "unat (str_size s1 - i) = length t - unat i"
        using str_holds_size [OF s1(1)] i by (simp add: unat_sub word_le_nat_alt)
      then have "unat (str_size s1 - i + 1) = length t - unat i + 1"
        using str_holds_size [OF s1(1)] by (subst unat_Suc_le) auto
      then show "\<exists>s'. res_bind (str_get s1 (unat i) (unat (str_size s1 - i + 1))) (\<lambda>old.
          res_bind (str_put s1 (unat i + length p) old) (\<lambda>s2. res_bind (str_put s2 (unat i) (map Some p))
            (set_size (str_size s + text_len p)))) = Inr s' \<and>
          str_holds s' (take (unat i) t @ p @ drop (unat i) t)"
        using splice_ok [OF s1(1,2) i s1(3,5)] by simp
    qed
    then show ?thesis
      using ar(1) Some False i by (simp add: str_insert_def)
  qed
qed

lemma str_push_string_refines:
  assumes h: "str_holds s t" and r: "sref_ok r"
  shows "refines (str_push_string r s) (text_apply (PushString r) t)"
proof -
  define u where "u = text_sref t r"
  have u: "str_holds (sref_target s r) u"
    using h r by (cases r) (simp_all add: u_def)
  note su = str_holds_size [OF u]
  show ?thesis
  proof (cases "u = []")
    case True
    then have "str_size (sref_target s r) = 0"
      using su by (simp add: unat_eq_0)
    then show ?thesis
      using h True text_splice_Nil [OF h] by (simp add: str_push_string_def refines_def flip: u_def)
  next
    case False
    then have ne: "str_size (sref_target s r) \<noteq> 0"
      using su by auto
    have "refines (res_bind (checked_length_add (str_size s) (str_size (sref_target s r))) (\<lambda>new.
        res_bind (allocate_resources new s) (\<lambda>s1.
        res_bind (case r of Itself \<Rightarrow> str_get s1 0 (unat (str_size s))
                  | Other t \<Rightarrow> str_get t 0 (unat (str_size t))) (\<lambda>xs.
        res_bind (str_put s1 (unat (str_size s)) xs) (set_size new))))) (text_splice t (length t) u)"
    proof (rule grow_then [OF h])
      show "unat (str_size (sref_target s r)) = length u"
        using su by simp
      fix s1 b
      assume s1: "str_holds s1 t" "str_buf s1 = Some b"
        "str_size s + str_size (sref_target s r) \<le> str_cap s1" "str_size s1 = str_size s"
        "unat (str_size s + str_size (sref_target s r)) = length t + length u"
      have "(case r of Itself \<Rightarrow> str_get s1 0 (unat (str_size s))
             | Other t \<Rightarrow> str_get t 0 (unat (str_size t))) = Inr (map Some u)"
      proof (cases r)
        case Itself
        then show ?thesis
          using str_holds_raw [OF s1(1,2)] str_holds_size [OF h] su
          by (simp add: str_get_ok [of s1 b] u_def)
      next
        case (Other v)
        then obtain bv where bv: "str_buf v = Some bv"
          using u False by (cases "str_buf v") (auto simp: str_holds_def)
        then show ?thesis
          using str_holds_raw [of v u bv] u su Other by (simp add: str_get_ok [of v bv])
      qed
      then show "\<exists>s'. res_bind (case r of Itself \<Rightarrow> str_get s1 0 (unat (str_size s))
                  | Other t \<Rightarrow> str_get t 0 (unat (str_size t)))
          (\<lambda>xs. res_bind (str_put s1 (unat (str_size s)) xs)
            (set_size (str_size s + str_size (sref_target s r)))) = Inr s' \<and>
          str_holds s' (take (length t) t @ u @ drop (length t) t)"
        using append_ok [OF s1(1,2,3,5)] str_holds_size [OF h] by simp
    qed
    then show ?thesis
      using ne by (simp add: str_push_string_def flip: u_def)
  qed
qed

lemma str_push_text_refines:
  assumes h: "str_holds s t" and a: "carg_ok s a"
  shows "refines (str_push_text a s) (text_apply (PushText a) t)"
proof (cases "text_arg t a")
  case None
  then show ?thesis
    using h arg_text_ok [OF h a] by (simp add: str_push_text_def refines_def)
next
  case (Some p)
  note ar = arg_text_ok(1) [OF h a] unat_text_len [OF arg_text_ok(2) [OF h a Some]]
  show ?thesis
  proof (cases "text_len p = 0")
    case True
    then show ?thesis
      using ar Some h text_splice_Nil [OF h] by (simp add: str_push_text_def refines_def)
  next
    case False
    show ?thesis
      unfolding str_push_text_def ar Some res_bind.simps option.case text_apply.simps if_not_P [OF False]
    proof (rule grow_then [OF h ar(2)])
      fix s1 b
      assume s1: "str_holds s1 t" "str_buf s1 = Some b" "str_size s + text_len p \<le> str_cap s1"
        "str_size s1 = str_size s" "unat (str_size s + text_len p) = length t + length p"
      then show "\<exists>s'. res_bind (str_put s1 (unat (str_size s1)) (map Some p))
          (set_size (str_size s + text_len p)) = Inr s' \<and>
          str_holds s' (take (length t) t @ p @ drop (length t) t)"
        using append_ok [OF s1(1,2,3,5)] str_holds_size [OF h] by simp
    qed
  qed
qed

lemma doubled_capacity_le: "str_cap s \<le> maximum_size \<Longrightarrow> doubled_capacity s \<le> maximum_size"
proof -
  assume "str_cap s \<le> maximum_size"
  show ?thesis
  proof (cases "maximum_size div 2 < str_cap s")
    case False
    then have "unat (str_cap s) \<le> 9223372036854775807"
      by (simp add: maximum_size_eq word_less_nat_alt)
    then have "unat (str_cap s * 2) \<le> max_len"
      by (simp add: unat_word_ariths max_len_def)
    then show ?thesis
      using False by (simp add: doubled_capacity_def le_maximum) (simp add: max_len_def)
  qed (simp add: doubled_capacity_def maximum_size_eq)
qed

lemma str_holds_cap: "str_holds s t \<Longrightarrow> str_cap s \<le> maximum_size \<and> str_size s \<le> str_cap s"
  by (cases "str_buf s") (auto simp: str_holds_def unat_eq_0)

lemma str_push_char_refines:
  assumes h: "str_holds s t" and r: "cref_ok s r" and kept: "\<not> reads_freed s (PushChar r)"
  shows "refines (str_push_char r s) (text_apply (PushChar r) t)"
proof -
  note c = checked_add_cases [OF str_holds_le [OF h], of 1]
  note sz = str_holds_size [OF h]
  show ?thesis
  proof (cases "length t = max_len")
    case True
    then show ?thesis
      using c(1) sz by (simp add: refines_def text_splice_def str_push_char_def)
  next
    case False
    then have new: "unat (str_size s + 1) = length t + 1" "unat (str_size s) + 1 \<le> max_len"
      using c(2) sz by simp_all
    let ?want = "max (str_size s + 1) (doubled_capacity s)"
    have grow: "str_cap s < str_size s + 1 \<longleftrightarrow> str_cap s \<le> str_size s"
      using new sz by (auto simp: word_less_nat_alt word_le_nat_alt)
    have want: "?want \<le> maximum_size"
      using doubled_capacity_le [of s] str_holds_cap [OF h] new sz by (simp add: le_maximum max_def)
    have "\<exists>s1 b. (if str_cap s < str_size s + 1 then allocate_resources ?want s else Inr s) = Inr s1 \<and>
        str_holds s1 t \<and> str_buf s1 = Some b \<and> str_size s + 1 \<le> str_cap s1 \<and> str_size s1 = str_size s \<and>
        (\<not> str_cap s < str_size s + 1 \<longrightarrow> s1 = s)"
    proof (cases "str_cap s < str_size s + 1")
      case True
      then show ?thesis
        using allocate_ok [OF h want] by (auto intro: order_trans)
    next
      case False
      then have "str_buf s \<noteq> None"
        using h new by (cases "str_buf s") (auto simp: str_holds_def word_less_nat_alt)
      then show ?thesis
        using False h by auto
    qed
    then obtain s1 b where s1: "(if str_cap s < str_size s + 1 then allocate_resources ?want s else Inr s) = Inr s1"
      "str_holds s1 t" "str_buf s1 = Some b" "str_size s + 1 \<le> str_cap s1" "str_size s1 = str_size s"
      "\<not> str_cap s < str_size s + 1 \<Longrightarrow> s1 = s"
      by blast
    have rv: "ref_value (str_cap s < str_size s + 1 \<and> reallocates ?want s) s1 r = Inr (text_ref t r)"
      using r kept s1(2,6) sz new by (cases r) (auto simp: grow not_le str_load_holds word_less_nat_alt
        unat_maximum)
    show ?thesis
      using append_ok [OF s1(2,3,4), of "[text_ref t r]"] new sz s1(1,5) c(1)
      by (simp add: str_push_char_def Let_def rv refines_def text_splice_def)
  qed
qed

lemma str_reserve_refines:
  assumes h: "str_holds s t"
  shows "refines (res_bind (str_reserve n s) (\<lambda>(p, s'). Inr s')) (text_apply (Reserve n) t)"
proof (cases "n \<le> maximum_size")
  case True
  then show ?thesis
    using allocate_ok [OF h True] by (auto simp: str_reserve_def refines_def le_maximum)
next
  case False
  then show ?thesis
    by (simp add: str_reserve_def refines_def allocate_length_error) (simp add: le_maximum)
qed

lemma str_resize_refines:
  assumes h: "str_holds s t" and r: "cref_ok s r" and kept: "\<not> reads_freed s (Resize n r)"
  shows "refines (str_resize n r s) (text_apply (Resize n r) t)"
proof (cases "n \<le> maximum_size")
  case False
  then show ?thesis
    by (simp add: str_resize_def refines_def not_le) (simp add: le_maximum not_le [symmetric])
next
  case n: True
  note sz = str_holds_size [OF h]
  have nn: "\<not> maximum_size < n" "\<not> max_len < unat n"
    using n by (simp_all add: not_less le_maximum [symmetric])
  show ?thesis
  proof (cases "str_size s < n")
    case True
    then have lt: "length t < unat n"
      using sz by (simp add: word_less_nat_alt)
    obtain s1 b where s1: "allocate_resources n s = Inr s1" "str_holds s1 t" "str_buf s1 = Some b"
      "n \<le> str_cap s1" "str_size s1 = str_size s" "\<not> reallocates n s \<Longrightarrow> s1 = s"
      using allocate_ok [OF h n] by blast
    have buf: "str_buf s \<noteq> None" if "r = OwnChar i" for i
      using that r h by (cases "str_buf s") (auto simp: str_holds_def)
    have rv: "ref_value (reallocates n s) s1 r = Inr (text_ref t r)"
      using r kept n s1(2,6) sz buf by (cases r) (auto simp: str_load_holds reallocates_def not_less)
    let ?p = "replicate (unat n - length t) (text_ref t r)"
    note q = str_holds_raw [OF s1(2,3)]
    let ?b1 = "take (length t) b @ map Some ?p @ drop (length t + length ?p) b"
    let ?s1 = "s1\<lparr>str_buf := Some ?b1\<rparr>"
    have fit: "unat n < length b"
      using q(1) s1(4) by (auto simp: str_raw_def word_le_nat_alt)
    have p1: "str_put s1 (length t) (map Some ?p) = Inr ?s1" "str_raw ?s1 ?b1"
      using str_put_ok [OF q(1), of "length t" "map Some ?p"] fit lt by simp_all
    have txt_eq: "take (length (t @ ?p)) ?b1 = map Some (t @ ?p)"
      using q(3) lt by simp
    have "\<exists>s'. set_size n ?s1 = Inr s' \<and> str_holds s' (t @ ?p)"
      using set_size_ok [OF p1(2) txt_eq, of n] lt s1(4) by simp
    then show ?thesis
      using True nn lt sz p1(1) by (simp add: str_resize_def refines_def s1(1) rv)
  next
    case False
    then have le: "unat n \<le> length t"
      using sz by (simp add: word_less_nat_alt)
    obtain s2 b where s2: "(if str_buf s = None then allocate_resources n s else Inr s) = Inr s2"
      "str_holds s2 t" "str_buf s2 = Some b"
    proof (cases "str_buf s")
      case None
      then show ?thesis
        using that allocate_ok [OF h n] by auto
    qed (use that h in auto)
    note q = str_holds_raw [OF s2(2,3)]
    have "take (length (take (unat n) t)) b = map Some (take (unat n) t)"
      using arg_cong [OF q(3), of "take (unat n)"] le by (simp add: take_map min_def)
    moreover have "n \<le> str_cap s2"
      using q(5) str_holds_size [OF s2(2)] le by (simp add: word_le_nat_alt)
    ultimately have "\<exists>s'. set_size n s2 = Inr s' \<and> str_holds s' (take (unat n) t)"
      using set_size_ok [OF q(1), of "take (unat n) t" n] le by simp
    then show ?thesis
      using False nn le s2(1) by (simp add: str_resize_def refines_def)
  qed
qed

lemma str_write_refines:
  assumes h: "str_holds s t"
  shows "refines (str_write i c s) (text_apply (WriteAt i c) t)"
proof (cases "unat i < length t")
  case False
  then show ?thesis
    using str_holds_size [OF h] by (simp add: str_write_def refines_def word_less_nat_alt)
next
  case True
  then obtain b where b: "str_buf s = Some b"
    using h by (cases "str_buf s") (auto simp: str_holds_def)
  note r = str_holds_raw [OF h b]
  let ?b1 = "take (unat i) b @ [Some c] @ drop (unat i + 1) b"
  have upd: "?b1 = b[unat i := Some c]"
    using True r(4) by (simp add: upd_conv_take_nth_drop)
  have "take (length t + 1) (b[unat i := Some c]) = map Some (t[unat i := c]) @ [Some nul]"
    using r(2) True by (simp add: take_update_swap map_update list_update_append)
  moreover have "str_write i c s = Inr (s\<lparr>str_buf := Some (b[unat i := Some c])\<rparr>)"
    using True str_holds_size [OF h] str_put_ok(1) [OF r(1), of "unat i" "[Some c]"] r(4) upd
    by (simp add: str_write_def word_less_nat_alt)
  ultimately show ?thesis
    using True h b by (simp add: refines_def str_holds_def)
qed

text \<open>Writing a text of known length into a new array, with its terminator.\<close>

lemma fill_new:
  assumes "n \<le> maximum_size" and "length cs \<le> unat n"
  shows "\<exists>b. cells_put (new_chars (n + 1)) 0 (map Some cs @ [Some nul]) = Inr b \<and>
      take (length cs + 1) b = map Some cs @ [Some nul] \<and> length b = unat n + 1"
    and "\<exists>b b'. cells_put (new_chars (n + 1)) 0 (map Some cs) = Inr b \<and>
      cells_put b (length cs) [Some nul] = Inr b' \<and>
      take (length cs + 1) b' = map Some cs @ [Some nul] \<and> length b' = unat n + 1"
proof -
  have len: "length (new_chars (n + 1)) = unat n + 1"
    using assms(1) by (simp add: new_chars_def unat_Suc_le le_maximum)
  show "\<exists>b. cells_put (new_chars (n + 1)) 0 (map Some cs @ [Some nul]) = Inr b \<and>
      take (length cs + 1) b = map Some cs @ [Some nul] \<and> length b = unat n + 1"
    using len assms(2) by (simp add: cells_put_ok)
  show "\<exists>b b'. cells_put (new_chars (n + 1)) 0 (map Some cs) = Inr b \<and>
      cells_put b (length cs) [Some nul] = Inr b' \<and>
      take (length cs + 1) b' = map Some cs @ [Some nul] \<and> length b' = unat n + 1"
    using len assms(2) by (simp add: cells_put_ok)
qed

lemma copy_buffer:
  assumes "str_holds s t"
  shows "\<exists>b. (if str_buf s = None then cells_put (new_chars (str_cap s + 1)) 0 [Some nul]
               else res_bind (str_get s 0 (unat (str_size s + 1))) (\<lambda>xs.
                      cells_put (new_chars (str_cap s + 1)) 0 xs)) = Inr b \<and>
             take (length t + 1) b = map Some t @ [Some nul] \<and> length b = unat (str_cap s) + 1"
proof -
  have le: "str_cap s \<le> maximum_size" "length t \<le> unat (str_cap s)"
    using str_holds_cap [OF assms] str_holds_size [OF assms] by (auto simp: word_le_nat_alt)
  show ?thesis
  proof (cases "str_buf s")
    case None
    then have "t = []"
      using assms by (simp add: str_holds_def)
    then show ?thesis
      using None fill_new(1) [OF le] by simp
  next
    case (Some b)
    note r = str_holds_raw [OF assms Some]
    have "str_get s 0 (unat (str_size s + 1)) = Inr (map Some t @ [Some nul])"
      using r(2,4) str_holds_size [OF assms] by (simp add: str_get_ok [OF r(1)] unat_Suc_le)
    then show ?thesis
      using Some fill_new(1) [OF le] by simp
  qed
qed

lemma str_copy_holds:
  assumes "str_holds s t"
  shows "\<exists>s'. str_copy s = Inr s' \<and> str_holds s' t \<and> str_cap s' = str_cap s \<and> str_buf s' \<noteq> None"
  using copy_buffer [OF assms] str_holds_cap [OF assms] str_holds_size [OF assms]
  by (auto simp: str_copy_def str_holds_def)

lemma str_assign_refines:
  assumes h: "str_holds s t" and r: "sref_ok r"
  shows "refines (str_assign r s) (text_apply (Assign r) t)"
proof (cases r)
  case Itself
  then show ?thesis
    using h by (simp add: str_assign_def refines_def)
next
  case (Other u)
  then have u: "str_holds u (str_text u)"
    using r by simp
  show ?thesis
    using copy_buffer [OF u] str_holds_cap [OF u] str_holds_size [OF u] Other
    by (auto simp: str_assign_def refines_def str_holds_def)
qed

lemma str_move_assign_refines:
  assumes "str_holds s t" and "sref_ok r"
  shows "refines (Inr (fst (str_move_assign r s))) (text_apply (MoveAssign r) t)"
proof (cases r)
  case (Other u)
  have "str_move_assign r s = (u, str_null)"
    using Other by (simp add: str_move_assign_def)
  then show ?thesis
    using Other assms(2) by (simp add: refines_def)
qed (use assms(1) in \<open>simp add: str_move_assign_def refines_def\<close>)

lemma fits_text:
  assumes "length cs \<le> max_len"
  shows "text_len cs \<le> maximum_size" and "unat (text_len cs) = length cs"
  using assms by (simp_all add: le_maximum unat_text_len max_len_def)

lemma new_text_holds:
  assumes "length cs \<le> max_len"
  shows "\<exists>b b'. cells_put (new_chars (text_len cs + 1)) 0 (map Some cs) = Inr b \<and>
      cells_put b (unat (text_len cs)) [Some nul] = Inr b' \<and>
      str_holds \<lparr>str_buf = Some b', str_size = text_len cs, str_cap = text_len cs\<rparr> cs"
  using fill_new(2) [of "text_len cs" cs] fits_text [OF assms]
  by (auto simp: str_holds_def)

lemma too_long_text:
  assumes "max_len < length cs" and "length cs < 2 ^ 64"
  shows "maximum_size < text_len cs"
  using assms unat_text_len [of cs] by (simp add: word_less_nat_alt unat_maximum)

lemma str_assign_text_refines:
  assumes h: "str_holds s t" and a: "carg_ok s a"
  shows "refines (str_assign_text a s) (text_apply (AssignText a) t)"
proof -
  define p where "p = (case text_arg t a of None \<Rightarrow> [] | Some p \<Rightarrow> p)"
  have short: "length p < 2 ^ 64"
    using arg_text_ok(2) [OF h a] by (auto simp: p_def split: option.splits)
  show ?thesis
  proof (cases "max_len < length p")
    case True
    then show ?thesis
      using too_long_text [OF True short] arg_text_ok(1) [OF h a]
      by (simp add: str_assign_text_def refines_def flip: p_def)
  next
    case False
    then have le: "length p \<le> max_len"
      by simp
    obtain b b' where b: "cells_put (new_chars (text_len p + 1)) 0 (map Some p) = Inr b"
      "cells_put b (unat (text_len p)) [Some nul] = Inr b'"
      "str_holds \<lparr>str_buf = Some b', str_size = text_len p, str_cap = text_len p\<rparr> p"
      using new_text_holds [OF le] by blast
    let ?s = "s\<lparr>str_buf := Some b', str_cap := text_len p\<rparr>"
    have "str_raw ?s b'" and tk: "take (length p) b' = map Some p"
      using str_holds_raw(1,3) [OF b(3)] by (simp_all add: str_raw_def)
    then have "\<exists>s'. set_size (text_len p) ?s = Inr s' \<and> str_holds s' p"
      using set_size_ok [of ?s b' p "text_len p"] fits_text [OF le] by simp
    then show ?thesis
      using b(1,2) False fits_text(1) [OF le] leD [OF fits_text(1) [OF le]] arg_text_ok(1) [OF h a]
      by (simp add: str_assign_text_def refines_def Let_def flip: p_def)
  qed
qed

lemma cells_map_text:
  "cells_map f (length t) (map Some t @ xs) = Inr (map Some (map f t) @ xs)"
  by (induction t) auto

lemma str_recase_refines:
  assumes h: "str_holds s t"
  shows "refines (str_recase f s) (Inr (map f t))"
proof (cases "str_buf s")
  case None
  then show ?thesis
    using h by (simp add: str_recase_def refines_def str_holds_def)
next
  case (Some b)
  let ?b1 = "map Some (map f t) @ Some nul # drop (length t + 1) b"
  have "cells_map f (unat (str_size s)) b = Inr ?b1"
    using str_holds_size [OF h] by (subst holds_split [OF h Some]) (simp only: cells_map_text)
  moreover have "length ?b1 = length b"
    using str_holds_raw(4) [OF h Some] by simp
  ultimately show ?thesis
    using Some h by (auto simp: str_recase_def refines_def str_holds_def)
qed

lemma str_apply_refines:
  assumes "str_holds s t" and "args_ok s op" and "\<not> reads_freed s op"
  shows "refines (str_apply op s) (text_apply op t)"
  using assms
  by (cases op)
     (simp_all only: str_apply.simps args_ok.simps not_False_eq_True str_uppercase_def str_lowercase_def
        str_prepend_refines str_insert_refines str_push_char_refines str_push_string_refines
        str_push_text_refines str_resize_refines str_reserve_refines str_write_refines
        str_assign_refines str_assign_text_refines str_move_assign_refines,
      simp_all only: text_apply.simps str_recase_refines)

text \<open>
  Appending an own character by reference to a full string reads it from the buffer that the call
  has just freed; the same character passed by value is appended.
\<close>

lemma string_own_reference_freed:
  assumes h: "str_holds s t" and i: "i < length t" and full: "str_cap s = str_size s"
    and room: "length t < max_len"
  shows "str_push_char (OwnChar i) s = Inl FreedAccess \<and>
    refines (str_push_char (CharValue (t ! i)) s) (Inr (t @ [t ! i]))"
proof -
  note sz = str_holds_size [OF h]
  have add: "checked_length_add (str_size s) 1 = Inr (str_size s + 1)"
    and new: "unat (str_size s + 1) = length t + 1"
    using checked_add_cases [OF str_holds_le [OF h], of 1] sz room by simp_all
  let ?want = "max (str_size s + 1) (doubled_capacity s)"
  have grow: "str_cap s < str_size s + 1"
    using new sz by (simp add: full word_less_nat_alt)
  have want: "?want \<le> maximum_size"
    using doubled_capacity_le [of s] str_holds_cap [OF h] new room by (simp add: le_maximum max_def)
  then obtain s1 where s1: "allocate_resources ?want s = Inr s1"
    using allocate_ok [OF h] by blast
  have "reallocates ?want s"
    using grow by (auto simp: reallocates_def max_def not_le intro: less_le_trans)
  then have "str_push_char (OwnChar i) s = Inl FreedAccess"
    unfolding str_push_char_def add Let_def by (simp add: grow s1)
  moreover have "refines (str_push_char (CharValue (t ! i)) s) (Inr (t @ [t ! i]))"
    using str_push_char_refines [OF h, of "CharValue (t ! i)"] room by (simp add: text_splice_def)
  ultimately show ?thesis ..
qed

lemma resize_own_reference_freed:
  assumes h: "str_holds s t" and i: "i < length t" and grow: "str_cap s < n" and n: "n \<le> maximum_size"
  shows "str_resize n (OwnChar i) s = Inl FreedAccess"
proof -
  have "str_size s < n"
    using str_holds_cap [OF h] grow by (meson le_less_trans)
  moreover obtain s1 where "allocate_resources n s = Inr s1"
    using allocate_ok [OF h n] by blast
  moreover have "reallocates n s"
    using grow by (simp add: reallocates_def not_le)
  ultimately show ?thesis
    using n by (simp add: str_resize_def)
qed

lemma reads_freed_access:
  assumes h: "str_holds s t" and "args_ok s op" and "reads_freed s op"
  shows "str_apply op s = Inl FreedAccess"
proof -
  have "length t < max_len" if "str_size s < maximum_size"
    using that str_holds_size [OF h] by (simp add: word_less_nat_alt unat_maximum)
  then show ?thesis
    using assms str_holds_size [OF h] str_holds_cap [OF h] string_own_reference_freed [OF h]
      resize_own_reference_freed [OF h]
    by (elim reads_freed.elims) (auto simp: antisym)
qed

text \<open>\<open>StringPrint\<close> hands its pointer to the stream: null for a string that was moved from.\<close>

lemma str_print_holds:
  assumes h: "str_holds s t"
  shows "str_print s = (if str_buf s = None then Inl NullAccess
    else Inr (takeWhile (\<lambda>c. c \<noteq> nul) t @ [CHR 0x0A]))"
  using until_nul_own [OF h, of _ 0] by (cases "str_buf s") (simp_all add: str_print_def)

section \<open>Construction\<close>

lemma str_from_list_holds:
  assumes "length cs \<le> max_len"
  shows "\<exists>s. str_from_list cs = Inr s \<and> str_holds s cs"
  using new_text_holds [OF assms] by (auto simp: str_from_list_def)

lemma str_from_text_Chars:
  assumes "length cs < 2 ^ 64"
  shows "refines (str_from_text (Chars cs))
           (if max_len < length (takeWhile (\<lambda>c. c \<noteq> nul) cs)
            then Inl (LengthError ''String length exceeds max_size'')
            else Inr (takeWhile (\<lambda>c. c \<noteq> nul) cs))"
proof -
  define p where "p = takeWhile (\<lambda>c. c \<noteq> nul) cs"
  have arg: "arg_text s (Chars cs) = Inr (Some p)" for s
    by (simp add: until_nul_text p_def)
  have short: "length p < 2 ^ 64"
    using assms by (auto simp: p_def intro: le_less_trans [OF length_takeWhile_le])
  show ?thesis
  proof (cases "max_len < length p")
    case True
    then show ?thesis
      unfolding str_from_text_def arg p_def [symmetric]
      using too_long_text [OF True short] by (simp add: refines_def)
  next
    case False
    then have le: "length p \<le> max_len"
      by simp
    show ?thesis
      unfolding str_from_text_def arg p_def [symmetric]
      using new_text_holds [OF le] leD [OF fits_text(1) [OF le]] False
      by (auto simp: refines_def Let_def)
  qed
qed

lemma str_from_null_holds: "\<exists>s. str_from_text NullText = Inr s \<and> str_holds s []"
  by (simp add: str_from_text_def cells_put_def new_chars_def str_holds_def maximum_size_eq)

lemma str_default_holds: "\<exists>s. str_default = Inr s \<and> str_holds s []"
  using str_from_text_Chars [of "[]"] by (simp add: str_default_def refines_def max_len_def)

lemma str_adopt_holds:
  assumes "length t \<le> max_len" and "nul \<notin> set t"
  shows "\<exists>s. str_adopt (Some (map Some t @ Some nul # xs)) = Inr s \<and> str_holds s t"
proof -
  have "takeWhile (\<lambda>c. c \<noteq> nul) t = t"
    using assms(2) by auto
  then have "until_nul (map Some t @ Some nul # xs) = Inr t"
    by (simp only: until_nul_text)
  then show ?thesis
    using fits_text [OF assms(1)] leD [OF fits_text(1) [OF assms(1)]]
    by (simp add: str_adopt_def str_holds_def)
qed

section \<open>Substrings, reversal and concatenation\<close>

lemma sub_result_holds:
  assumes h: "str_holds s t" and fit: "unat start + unat len \<le> length t"
  shows "\<exists>r. sub_result start len s = Inr r \<and> str_holds r (take (unat len) (drop (unat start) t))"
proof -
  let ?u = "take (unat len) (drop (unat start) t)"
  obtain r where r: "str_default = Inr r" "str_holds r []"
    using str_default_holds by blast
  have "len \<le> maximum_size"
    using str_holds_size [OF h] fit by (simp add: le_maximum)
  then obtain r1 b1 where r1: "allocate_resources len r = Inr r1" "str_holds r1 []"
    "str_buf r1 = Some b1" "len \<le> str_cap r1"
    using allocate_ok [OF r(2)] by blast
  note raw = str_holds_raw(1) [OF r1(2,3)]
  have room: "unat len < length b1"
    using raw r1(4) by (auto simp: str_raw_def word_le_nat_alt)
  show ?thesis
  proof (cases "0 < len")
    case False
    then have "len = 0"
      by (simp add: word_gt_0)
    then show ?thesis
      using set_size_ok [OF raw, of "[]" 0] r1(1,4) unfolding sub_result_def r(1) by auto
  next
    case True
    have lu: "length ?u = unat len"
      using fit by simp
    obtain b where b: "str_buf s = Some b"
      using h fit True by (cases "str_buf s") (auto simp: str_holds_def word_less_nat_alt)
    note hs = str_holds_raw [OF h b]
    have "take (unat len) (drop (unat start) b) = take (unat len) (drop (unat start) (take (length t) b))"
      using fit by (simp add: drop_take min_def)
    also have "\<dots> = map Some ?u"
      by (simp only: hs(3) take_map drop_map)
    finally have get: "str_get s (unat start) (unat len) = Inr (map Some ?u)"
      using fit hs(4) str_get_ok [OF hs(1), of "unat start" "unat len"] by simp
    let ?b2 = "take 0 b1 @ map Some ?u @ drop (0 + length (map Some ?u)) b1"
    have put: "str_put r1 0 (map Some ?u) = Inr (r1\<lparr>str_buf := Some ?b2\<rparr>)" "str_raw (r1\<lparr>str_buf := Some ?b2\<rparr>) ?b2"
      using str_put_ok [OF raw, of 0 "map Some ?u"] room lu by simp_all
    have tk: "take (length ?u) ?b2 = map Some ?u"
      by simp
    have "\<exists>r'. set_size len (r1\<lparr>str_buf := Some ?b2\<rparr>) = Inr r' \<and> str_holds r' ?u"
      using set_size_ok [OF put(2) tk, of len] r1(4) lu by simp
    then show ?thesis
      unfolding sub_result_def r(1) r1(1) get if_P [OF True] res_bind.simps put(1) .
  qed
qed

lemma str_push_value:
  assumes "str_holds s t" and "length t < max_len"
  shows "\<exists>s'. str_push_char (CharValue c) s = Inr s' \<and> str_holds s' (t @ [c])"
  using str_push_char_refines [OF assms(1), of "CharValue c"] assms(2)
  by (simp add: refines_def text_splice_def)

lemma reverse_loop_holds:
  assumes h: "str_holds s t"
  shows "str_holds r u \<Longrightarrow> lo + n \<le> length t \<Longrightarrow> length u + n \<le> max_len \<Longrightarrow>
    \<exists>r'. reverse_loop s lo n r = Inr r' \<and> str_holds r' (u @ rev (take n (drop lo t)))"
proof (induction n arbitrary: r u)
  case (Suc n)
  have ld: "str_load s (lo + n) = Inr (t ! (lo + n))"
    using str_load_holds [OF h, of "lo + n"] Suc.prems(2) by simp
  obtain r1 where r1: "str_push_char (CharValue (t ! (lo + n))) r = Inr r1" "str_holds r1 (u @ [t ! (lo + n)])"
    using str_push_value [OF Suc.prems(1)] Suc.prems(3) by auto
  have "take (Suc n) (drop lo t) = take n (drop lo t) @ [t ! (lo + n)]"
    using Suc.prems(2) by (simp add: take_Suc_conv_app_nth)
  then show ?case
    using Suc.IH [OF r1(2)] Suc.prems(2,3) by (simp add: ld r1(1))
qed simp

lemma str_plus_holds:
  assumes "str_holds s t" and "str_holds u v" and "length t + length v \<le> max_len"
  shows "\<exists>r. str_plus s u = Inr r \<and> str_holds r (t @ v)"
proof -
  obtain s' where s': "str_copy s = Inr s'" "str_holds s' t"
    using str_copy_holds [OF assms(1)] by blast
  have "sref_ok (Other u)"
    using assms(2) by (simp add: str_text_holds)
  then show ?thesis
    using str_push_string_refines [OF s'(2), of "Other u"] assms(2,3) s'(1)
    by (simp add: str_plus_def str_plus_assign_def refines_def text_splice_def str_text_holds)
qed

section \<open>Comparison\<close>

lemma first_difference_text:
  assumes "str_holds s t" and "str_holds u v"
  shows "i + n \<le> length t \<Longrightarrow> i + n \<le> length v \<Longrightarrow>
    (first_difference s u i n = Inr None \<and> take n (drop i t) = take n (drop i v)) \<or>
    (\<exists>j < n. first_difference s u i n = Inr (Some (t ! (i + j), v ! (i + j))) \<and>
       t ! (i + j) \<noteq> v ! (i + j) \<and> take j (drop i t) = take j (drop i v))"
proof (induction n arbitrary: i)
  case (Suc n)
  have ld: "str_load s i = Inr (t ! i)" "str_load u i = Inr (v ! i)"
    using str_load_holds [OF assms(1), of i] str_load_holds [OF assms(2), of i] Suc.prems by simp_all
  have dr: "drop i t = t ! i # drop (Suc i) t" "drop i v = v ! i # drop (Suc i) v"
    using Suc.prems by (simp_all add: Cons_nth_drop_Suc)
  show ?case
  proof (cases "t ! i = v ! i")
    case False
    then show ?thesis
      by (intro disjI2 exI [of _ 0]) (simp add: ld)
  next
    case True
    have eq: "first_difference s u i (Suc n) = first_difference s u (Suc i) n"
      using True by (simp add: ld)
    from Suc.IH [of "Suc i"] Suc.prems consider
      "first_difference s u (Suc i) n = Inr None" "take n (drop (Suc i) t) = take n (drop (Suc i) v)"
      | j where "j < n" "first_difference s u (Suc i) n = Inr (Some (t ! (Suc i + j), v ! (Suc i + j)))"
        "t ! (Suc i + j) \<noteq> v ! (Suc i + j)" "take j (drop (Suc i) t) = take j (drop (Suc i) v)"
      by auto
    then show ?thesis
    proof cases
      case 1
      then show ?thesis
        unfolding eq by (intro disjI1) (simp add: dr True)
    next
      case (2 j)
      then show ?thesis
        unfolding eq by (intro disjI2 exI [of _ "Suc j"]) (simp add: dr True)
    qed
  qed
qed simp

text \<open>The lexicographic order on texts, by the numbers of their characters.\<close>

fun text_less :: "bool \<Rightarrow> string \<Rightarrow> string \<Rightarrow> bool" where
  "text_less sg [] v = (v \<noteq> [])"
| "text_less sg (x # t) [] = False"
| "text_less sg (x # t) (y # v) = (char_num sg x < char_num sg y \<or> x = y \<and> text_less sg t v)"

lemma text_less_prefix: "text_less sg (p @ t) (p @ v) = text_less sg t v"
  by (induction p) auto

lemma char_num_inj: "char_num sg x = char_num sg y \<longleftrightarrow> x = y"
proof
  assume eq: "char_num sg x = char_num sg y"
  have lt: "(of_char c :: nat) < 256" for c
    by (rule nat_of_char_less_256)
  have "(of_char c :: int) = int (of_char c)" for c
    by (simp add: of_nat_of_char)
  then have "(of_char x :: nat) = of_char y"
    using eq lt [of x] lt [of y]
    by (auto simp: char_num_def simp del: nat_of_char_less_256 split: if_splits)
  then show "x = y"
    by (simp add: of_char_eq_iff)
qed simp

lemma text_less_linear: "text_less sg t v \<or> t = v \<or> text_less sg v t"
proof (induction sg t v rule: text_less.induct)
  case (3 sg x t y v)
  then show ?case
    using char_num_inj [of sg x y] by (auto simp: neq_iff)
qed auto

lemma text_less_irrefl: "\<not> text_less sg t t"
  by (induction t) auto

lemma text_less_trans: "text_less sg t v \<Longrightarrow> text_less sg v w \<Longrightarrow> text_less sg t w"
proof (induction sg t v arbitrary: w rule: text_less.induct)
  case (1 sg v)
  then show ?case by (cases w) (cases v, auto)+
next
  case (3 sg x t y v)
  then show ?case by (cases w) (auto dest: order_less_trans)
qed auto

text \<open>Where the comparison loop stops, the two texts are split at the first difference.\<close>

lemma compare_split:
  assumes h: "str_holds s t" "str_holds u v" and m: "m = min (length t) (length v)"
  obtains "first_difference s u 0 m = Inr None" "take m t = take m v"
    | p x y t' v' where "first_difference s u 0 m = Inr (Some (x, y))" "x \<noteq> y"
      "t = p @ x # t'" "v = p @ y # v'"
proof -
  from first_difference_text [OF h, of 0 m] m consider
    "first_difference s u 0 m = Inr None" "take m t = take m v"
    | j where "j < m" "first_difference s u 0 m = Inr (Some (t ! j, v ! j))" "t ! j \<noteq> v ! j"
      "take j t = take j v"
    by auto
  then show thesis
  proof cases
    case (2 j)
    have "t = take j t @ t ! j # drop (Suc j) t" "v = take j t @ v ! j # drop (Suc j) v"
      using 2(1,4) m id_take_nth_drop [of j t] id_take_nth_drop [of j v] by simp_all
    then show thesis
      using that(2) 2(2,3) by blast
  qed (rule that(1))
qed

lemma str_eq_holds:
  assumes h: "str_holds s t" "str_holds u v"
  shows "str_eq s u = Inr (t = v)"
proof (cases "length t = length v")
  case False
  then show ?thesis
    using str_holds_size [OF h(1)] str_holds_size [OF h(2)] by (auto simp: str_eq_def)
next
  case True
  then have sz: "str_size s = str_size u" and m: "unat (str_size u) = min (length t) (length v)"
    using str_holds_size [OF h(1)] str_holds_size [OF h(2)] by (simp_all add: word_unat_eq_iff)
  show ?thesis
  proof (cases rule: compare_split [OF h m])
    case 1
    then show ?thesis
      using True m by (simp add: str_eq_def sz)
  next
    case (2 p x y t' v')
    then show ?thesis
      unfolding str_eq_def sz by simp
  qed
qed

lemma text_less_prefixes:
  assumes "take (min (length t) (length v)) t = take (min (length t) (length v)) v"
  shows "text_less sg t v \<longleftrightarrow> length t < length v"
proof (cases "length t < length v")
  case True
  then obtain w where "v = t @ w" "w \<noteq> []"
    using assms append_take_drop_id [of "length t" v] by (metis drop_eq_Nil leD min.absorb3 take_all_iff order_refl)
  then show ?thesis
    using text_less_prefix [of sg t "[]" w] by simp
next
  case False
  then obtain w where "t = v @ w"
    using assms append_take_drop_id [of "length v" t] by (metis min.absorb2 not_less take_all_iff order_refl)
  then show ?thesis
    using False text_less_prefix [of sg v w "[]"] by (cases w) simp_all
qed

lemma str_less_holds:
  assumes h: "str_holds s t" "str_holds u v"
  shows "str_less sg s u = Inr (text_less sg t v)" and "str_greater sg s u = Inr (text_less sg v t)"
proof -
  define m where "m = (if str_size s < str_size u then str_size s else str_size u)"
  have lt: "str_size s < str_size u \<longleftrightarrow> length t < length v" "str_size u < str_size s \<longleftrightarrow> length v < length t"
    using str_holds_size [OF h(1)] str_holds_size [OF h(2)] by (simp_all add: word_less_nat_alt)
  then have m: "unat m = min (length t) (length v)"
    using str_holds_size [OF h(1)] str_holds_size [OF h(2)] by (auto simp: m_def)
  show "str_less sg s u = Inr (text_less sg t v)"
    unfolding str_less_def Let_def m_def [symmetric]
  proof (cases rule: compare_split [OF h m])
    case 1
    then show "res_bind (first_difference s u 0 (unat m)) (\<lambda>d. case d of None \<Rightarrow> Inr (str_size s < str_size u)
        | Some (x, y) \<Rightarrow> Inr (char_num sg x < char_num sg y)) = Inr (text_less sg t v)"
      using text_less_prefixes [of t v] by (simp add: m lt)
  next
    case (2 p x y t' v')
    then show "res_bind (first_difference s u 0 (unat m)) (\<lambda>d. case d of None \<Rightarrow> Inr (str_size s < str_size u)
        | Some (x, y) \<Rightarrow> Inr (char_num sg x < char_num sg y)) = Inr (text_less sg t v)"
      by (simp add: text_less_prefix)
  qed
  show "str_greater sg s u = Inr (text_less sg v t)"
    unfolding str_greater_def Let_def m_def [symmetric]
  proof (cases rule: compare_split [OF h m])
    case 1
    then show "res_bind (first_difference s u 0 (unat m)) (\<lambda>d. case d of None \<Rightarrow> Inr (str_size u < str_size s)
        | Some (x, y) \<Rightarrow> Inr (char_num sg y < char_num sg x)) = Inr (text_less sg v t)"
      using text_less_prefixes [of v t] by (simp add: m lt min.commute)
  next
    case (2 p x y t' v')
    then show "res_bind (first_difference s u 0 (unat m)) (\<lambda>d. case d of None \<Rightarrow> Inr (str_size u < str_size s)
        | Some (x, y) \<Rightarrow> Inr (char_num sg y < char_num sg x)) = Inr (text_less sg v t)"
      by (simp add: text_less_prefix)
  qed
qed

section \<open>Streams\<close>

lemma out_loop_holds:
  "str_holds s t \<Longrightarrow> i + n \<le> length t \<Longrightarrow> out_loop s i n = Inr (take n (drop i t))"
proof (induction n arbitrary: i)
  case (Suc n)
  have "drop i t = t ! i # drop (Suc i) t"
    using Suc.prems by (simp add: Cons_nth_drop_Suc)
  then show ?case
    using Suc by (simp add: str_load_holds)
qed simp

lemma reverse_out_loop_holds:
  "str_holds s t \<Longrightarrow> i + n \<le> length t \<Longrightarrow> reverse_out_loop s i n = Inr (rev (take n (drop i t)))"
proof (induction n)
  case (Suc n)
  have "take (Suc n) (drop i t) = take n (drop i t) @ [t ! (i + n)]"
    using Suc.prems by (simp add: take_Suc_conv_app_nth)
  then show ?case
    using Suc by (simp add: str_load_holds)
qed simp

lemma str_out_holds:
  assumes "str_holds s t"
  shows "str_out s = Inr t" and "str_reverse_print s = Inr (rev t @ [CHR 0x0A])"
  using assms out_loop_holds [OF assms, of 0 "length t"] reverse_out_loop_holds [OF assms, of 0 "length t"]
    str_holds_size [OF assms]
  by (auto simp: str_out_def str_reverse_print_def str_begin_def str_end_def str_rbegin_def str_rend_def
      str_holds_def)

lemma str_cstr_holds: "str_holds s t \<Longrightarrow> str_cstr s = Inr (takeWhile (\<lambda>c. c \<noteq> nul) t)"
  using until_nul_own [of s t _ 0]
  by (cases "str_buf s") (simp_all add: str_cstr_def, simp add: str_holds_def)

lemma str_in_holds:
  "str_holds s t \<Longrightarrow> length t + length cs \<le> max_len \<Longrightarrow>
   \<exists>s'. str_in cs s = (drop 1 (dropWhile (\<lambda>c. c \<noteq> CHR 0x0A) cs), None, s') \<and>
        str_holds s' (t @ takeWhile (\<lambda>c. c \<noteq> CHR 0x0A) cs)"
proof (induction cs arbitrary: s t)
  case (Cons c cs)
  show ?case
  proof (cases "c = CHR 0x0A")
    case False
    obtain s1 where s1: "str_push_char (CharValue c) s = Inr s1" "str_holds s1 (t @ [c])"
      using str_push_value [OF Cons.prems(1)] Cons.prems(2) by auto
    then show ?thesis
      using Cons.IH [OF s1(2)] Cons.prems(2) False by simp
  qed (use Cons.prems in simp)
qed simp

section \<open>Reachable strings\<close>

text \<open>
  The strings a program can build: by the constructors, by copying or moving, and by operations
  with the arguments that \<open>args_ok\<close> describes.  An operation that throws leaves its string.
\<close>

inductive str_reachable :: "cstring \<Rightarrow> bool" where
  from_text: "\<lbrakk>carg_ok str_null a; str_from_text a = Inr s\<rbrakk> \<Longrightarrow> str_reachable s"
| from_list: "\<lbrakk>length cs \<le> max_len; str_from_list cs = Inr s\<rbrakk> \<Longrightarrow> str_reachable s"
| adopted: "\<lbrakk>length t \<le> max_len; nul \<notin> set t; str_adopt (Some (map Some t @ Some nul # xs)) = Inr s\<rbrakk>
    \<Longrightarrow> str_reachable s"
| copied: "\<lbrakk>str_reachable s; str_copy s = Inr s'\<rbrakk> \<Longrightarrow> str_reachable s'"
| moved_to: "str_reachable s \<Longrightarrow> str_reachable (fst (str_move s))"
| moved_from: "str_reachable s \<Longrightarrow> str_reachable (snd (str_move s))"
| operated: "\<lbrakk>str_reachable s; args_ok s op; str_apply op s = Inr s'\<rbrakk> \<Longrightarrow> str_reachable s'"

lemma str_reachable_holds: "str_reachable s \<Longrightarrow> str_holds s (str_text s)"
proof (induction rule: str_reachable.induct)
  case (from_text a s)
  then show ?case
  proof (cases a)
    case NullText
    then show ?thesis
      using from_text str_from_null_holds by (auto simp: str_text_holds)
  next
    case (Chars cs)
    then show ?thesis
      using from_text str_from_text_Chars [of cs]
      by (auto simp: refines_def str_text_holds split: if_splits)
  qed (simp add: str_null_def)
next
  case (from_list cs s)
  then show ?case
    using str_from_list_holds [of cs] by (auto simp: str_text_holds)
next
  case (adopted t xs s)
  then show ?case
    using str_adopt_holds [of t xs] by (auto simp: str_text_holds)
next
  case (copied s s')
  then show ?case
    using str_copy_holds [OF copied.IH] copied.hyps(2) by (auto intro: str_holds_text)
next
  case (operated s op s')
  then have "\<not> reads_freed s op"
    using reads_freed_access [OF operated.IH operated.hyps(2)] by auto
  then show ?case
    using str_apply_refines [OF operated.IH operated.hyps(2)]
      operated.hyps(3)
    by (auto simp: refines_def intro: str_holds_text split: sum.splits)
qed (simp_all add: str_move_def str_null_holds str_text_holds [OF str_null_holds])

section \<open>The properties\<close>

text \<open>
  C19: Every reachable string is well formed: its text fits its capacity, it is terminated, and its
  cells are initialised.  An operation with valid arguments runs into undefined behaviour in
  exactly one case, which \<open>reads_freed\<close> describes: \<open>PushBack\<close> or \<open>Resize\<close> with a
  reference to an element of the string itself, when a new buffer is needed, read the freed one.
  Every other operation succeeds or throws.  Reading the string is always defined, but for
  \<open>StringPrint\<close>, which passes a null pointer to the stream exactly when the string has no
  buffer because it was moved from.
\<close>

theorem string_type_safe:
  assumes "str_reachable s" and "args_ok s op"
  shows "str_holds s (str_text s) \<and>
    (case str_apply op s of
       Inl f \<Rightarrow> if reads_freed s op then f = FreedAccess else \<exists>e. f = Throws e
     | Inr s' \<Rightarrow> \<not> reads_freed s op \<and> str_holds s' (str_text s')) \<and>
    str_out s = Inr (str_text s) \<and> (\<exists>t. str_cstr s = Inr t) \<and> (\<exists>c. str_back s = Inr c) \<and>
    (\<exists>c. str_front s = Inr c) \<and> (\<exists>t. str_reverse_print s = Inr t) \<and>
    (if str_buf s = None then str_print s = Inl NullAccess else \<exists>t. str_print s = Inr t)"
proof -
  note h = str_reachable_holds [OF assms(1)]
  have "case str_apply op s of
       Inl f \<Rightarrow> if reads_freed s op then f = FreedAccess else \<exists>e. f = Throws e
     | Inr s' \<Rightarrow> \<not> reads_freed s op \<and> str_holds s' (str_text s')"
  proof (cases "reads_freed s op")
    case False
    then show ?thesis
      using str_apply_refines [OF h assms(2)]
      by (auto simp: refines_def intro: str_holds_text split: sum.splits)
  qed (simp add: reads_freed_access [OF h assms(2)])
  moreover have "\<exists>c. str_front s = Inr c"
    using str_load_holds [OF h, of 0] str_holds_size [OF h]
    by (auto simp: str_front_def word_less_nat_alt)
  moreover have "\<exists>c. str_back s = Inr c"
  proof (cases "0 < str_size s")
    case True
    then have "unat (str_size s - 1) < length (str_text s)"
      using str_holds_size [OF h] by (auto simp: unat_minus_one word_gt_0 simp flip: unat_eq_0)
    then show ?thesis
      using str_load_holds [OF h] by (simp add: str_back_def)
  qed (simp add: str_back_def)
  ultimately show ?thesis
    using h str_out_holds [OF h] str_cstr_holds [OF h] str_print_holds [OF h] by simp
qed

theorem string_type_safe_witness:
  "let s = \<lparr>str_buf = Some [Some (CHR ''a''), Some nul], str_size = 1, str_cap = 1\<rparr>
   in str_holds s (str_text s) \<and> reads_freed s (PushChar (OwnChar 0)) \<and>
    str_apply (PushChar (OwnChar 0)) s = Inl FreedAccess \<and>
    (\<exists>s'. str_apply (PushChar (CharValue (CHR ''b''))) s = Inr s' \<and> str_holds s' (str_text s'))"
proof -
  define s where "s = \<lparr>str_buf = Some [Some (CHR ''a''), Some nul], str_size = 1, str_cap = 1\<rparr>"
  have "str_from_list ''a'' = Inr s"
    unfolding s_def by code_simp
  then have r: "str_reachable s"
    by (intro from_list [of "''a''"]) (simp_all add: max_len_def)
  have "reads_freed s (PushChar (OwnChar 0))"
    by (simp add: s_def maximum_size_eq)
  then have "str_holds s (str_text s) \<and> reads_freed s (PushChar (OwnChar 0)) \<and>
      str_apply (PushChar (OwnChar 0)) s = Inl FreedAccess"
    using string_type_safe [OF r, of "PushChar (OwnChar 0)"]
    by (auto simp: s_def split: sum.splits)
  moreover have "str_apply (PushChar (CharValue (CHR ''b''))) s \<noteq> Inl (Throws e)" for e
    unfolding s_def by code_simp
  then have "\<exists>s'. str_apply (PushChar (CharValue (CHR ''b''))) s = Inr s' \<and> str_holds s' (str_text s')"
    using string_type_safe [OF r, of "PushChar (CharValue (CHR ''b''))"] by (auto split: sum.splits)
  ultimately show ?thesis
    unfolding Let_def s_def by blast
qed

text \<open>
  C20: Every operation refines its function on texts, exceptions included: which arguments are refused
  with which exception, and which text the string holds afterwards, also for arguments that point
  into the string itself.  The one exception, for the strings and arguments of
  \<open>reads_freed\<close>, is \<open>PushBack\<close> or \<open>Resize\<close> with an own element that needs a new
  buffer: the call reads freed memory.
\<close>

theorem string_refines_text:
  assumes "str_holds s t" and "args_ok s op"
  shows "if reads_freed s op then str_apply op s = Inl FreedAccess
    else refines (str_apply op s) (text_apply op t)"
  using str_apply_refines [OF assms] reads_freed_access [OF assms] by simp

theorem string_refines_text_witness:
  "refines (str_apply (InsertSub (OwnText 1) 1)
      \<lparr>str_buf = Some (map Some ''abc'' @ [Some nul]), str_size = 3, str_cap = 3\<rparr>) (Inr ''abcbc'') \<and>
   str_apply (Resize 4 (OwnChar 1))
      \<lparr>str_buf = Some (map Some ''abc'' @ [Some nul]), str_size = 3, str_cap = 3\<rparr> = Inl FreedAccess"
proof -
  let ?s = "\<lparr>str_buf = Some (map Some ''abc'' @ [Some nul]), str_size = 3, str_cap = 3\<rparr>"
  have "text_apply (InsertSub (OwnText 1) 1) ''abc'' = Inr ''abcbc''"
    by (simp add: text_splice_def max_len_def nul_def)
  then show ?thesis
    using string_refines_text [of ?s "''abc''" "InsertSub (OwnText 1) 1"]
      string_refines_text [of ?s "''abc''" "Resize 4 (OwnChar 1)"]
    by (simp add: str_holds_def maximum_size_eq)
qed

text \<open>
  The results of the functions that leave the string: substrings, reversals, concatenation,
  comparison and line input.
\<close>

theorem string_results_correct:
  assumes h: "str_holds s t" and h': "str_holds u v" and fits: "length t + length v \<le> max_len"
  shows "refines (str_sub i s)
      (if length t < unat i then Inl (Fault ''sub_string'') else Inr (drop (unat i) t)) \<and>
    refines (str_sub_from i s)
      (if length t < unat i then Inl (Fault ''sub_string_from'') else Inr (drop (unat i) t)) \<and>
    refines (str_sub_range i j s)
      (if length t < unat i \<or> length t < unat j \<or> unat j < unat i then Inl (Fault ''sub_string'')
       else Inr (take (unat j - unat i) (drop (unat i) t))) \<and>
    refines (str_reverse s) (if t = [] then Inl (Fault ''reserve'') else Inr (rev t)) \<and>
    refines (str_reverse_range i j s)
      (if length t < unat i \<or> length t < unat j \<or> unat j < unat i \<or> t = [] then Inl (Fault ''reverse_sub_string'')
       else Inr (rev (take (unat j - unat i) (drop (unat i) t)))) \<and>
    refines (str_plus s u) (Inr (t @ v)) \<and>
    str_eq s u = Inr (t = v) \<and> str_less sg s u = Inr (text_less sg t v) \<and>
    str_greater sg s u = Inr (text_less sg v t)"
proof -
  note sz = str_holds_size [OF h]
  have lt: "str_size s < w \<longleftrightarrow> length t < unat w" and lt': "j < i \<longleftrightarrow> unat j < unat i" for w
    using sz by (simp_all add: word_less_nat_alt)
  have zero: "str_size s = 0 \<longleftrightarrow> t = []"
    using sz by (simp flip: unat_eq_0)
  have sub: "refines (sub_result i (str_size s - i) s) (Inr (drop (unat i) t))" if "\<not> length t < unat i"
  proof -
    have "unat (str_size s - i) = length t - unat i"
      using that sz by (simp add: unat_sub word_le_nat_alt)
    then show ?thesis
      using sub_result_holds [OF h, of i "str_size s - i"] that by (auto simp: refines_def)
  qed
  have range: "refines (sub_result i (j - i) s) (Inr (take (unat j - unat i) (drop (unat i) t)))"
    if "\<not> length t < unat j" "\<not> unat j < unat i"
  proof -
    have "unat (j - i) = unat j - unat i"
      using that by (simp add: unat_sub word_le_nat_alt)
    then show ?thesis
      using sub_result_holds [OF h, of i "j - i"] that by (auto simp: refines_def)
  qed
  obtain d where d: "str_default = Inr d" "str_holds d []"
    using str_default_holds by blast
  have rev_t: "refines (reverse_loop s 0 (length t) d) (Inr (rev t))"
    using reverse_loop_holds [OF h d(2), of 0 "length t"] sz by (auto simp: refines_def)
  have rev_range: "refines (reverse_loop s (unat i) (unat j - unat i) d)
      (Inr (rev (take (unat j - unat i) (drop (unat i) t))))" if "\<not> length t < unat j" "\<not> unat j < unat i"
    using reverse_loop_holds [OF h d(2), of "unat i" "unat j - unat i"] sz that by (auto simp: refines_def)
  have buf: "str_buf s \<noteq> None" if "t \<noteq> []"
    using h that by (cases "str_buf s") (auto simp: str_holds_def)
  have "refines (str_sub i s)
      (if length t < unat i then Inl (Fault ''sub_string'') else Inr (drop (unat i) t))"
    using sub by (auto simp: str_sub_def lt refines_def)
  moreover have "refines (str_sub_from i s)
      (if length t < unat i then Inl (Fault ''sub_string_from'') else Inr (drop (unat i) t))"
    using sub by (auto simp: str_sub_from_def lt refines_def)
  moreover have "refines (str_sub_range i j s)
      (if length t < unat i \<or> length t < unat j \<or> unat j < unat i then Inl (Fault ''sub_string'')
       else Inr (take (unat j - unat i) (drop (unat i) t)))"
    using range by (auto simp: str_sub_range_def lt lt' refines_def)
  moreover have "refines (str_reverse s) (if t = [] then Inl (Fault ''reserve'') else Inr (rev t))"
    using rev_t buf sz zero
    by (cases "t = []") (auto simp: str_reverse_def zero refines_def d(1) str_rbegin_def str_rend_def
      str_begin_def str_end_def)
  moreover have "refines (str_reverse_range i j s)
      (if length t < unat i \<or> length t < unat j \<or> unat j < unat i \<or> t = [] then Inl (Fault ''reverse_sub_string'')
       else Inr (rev (take (unat j - unat i) (drop (unat i) t))))"
    using rev_range by (auto simp: str_reverse_range_def lt lt' zero refines_def d(1))
  moreover have "refines (str_plus s u) (Inr (t @ v))"
    using str_plus_holds [OF h h' fits] by (simp add: refines_def)
  ultimately show ?thesis
    using str_eq_holds [OF h h'] str_less_holds [OF h h'] by blast
qed

theorem string_results_correct_witness:
  "let s = \<lparr>str_buf = Some (map Some ''ab'' @ [Some nul]), str_size = 2, str_cap = 2\<rparr>
   in refines (str_reverse s) (Inr ''ba'') \<and> str_eq s s = Inr True"
  unfolding Let_def
  using string_results_correct [of "\<lparr>str_buf = Some (map Some ''ab'' @ [Some nul]), str_size = 2, str_cap = 2\<rparr>"
      "''ab''" "\<lparr>str_buf = Some (map Some ''ab'' @ [Some nul]), str_size = 2, str_cap = 2\<rparr>" "''ab''" 0 0 True]
  by (simp add: str_holds_def maximum_size_eq max_len_def)

text \<open>Printing a moved-from string passes its null pointer to the stream.\<close>

lemma str_print_moved_from: "str_print (snd (str_move s)) = Inl NullAccess"
  by (simp add: str_print_def str_move_def str_null_def)

end
