(* ===== verification/Lists.thy ===== *)
theory Lists
  imports Prelude
begin

text \<open>
  The doubly linked list of \<open>Wan/Container/List.hpp\<close> and the queue that
  \<open>Wan/Container/Queue.hpp\<close> builds on it.  The nodes live in a heap: a partial map from
  addresses, where address 0 is the null pointer and never allocated.  A node without an element is
  the sentinel (\<open>ListNodeBase\<close>).  Every access goes through the heap and fails when there is no
  node at the address, or when the element of a sentinel is asked for.  A list object is the address
  of its sentinel and its size; iterators carry the node and the sentinel of their list, as in the
  source.  The pointer loops are partial functions: \<open>None\<close> is a loop that does not end.
  Copies and moves of elements are pure, so the clean-up of failed constructions is not modelled.
\<close>

section \<open>The heap of nodes\<close>

datatype list_fail = ListThrows exn | BadNode | NoElement

type_synonym 'b lres = "list_fail + 'b"

record 'a lnode =
  ln_prev :: nat
  ln_next :: nat
  ln_data :: "'a option"

record 'a lheap =
  lcells :: "nat \<Rightarrow> 'a lnode option"
  lfresh :: nat

record llist =
  l_head :: nat
  l_size :: nat

record liter =
  it_node :: nat
  it_owner :: nat

definition load_node :: "'a lheap \<Rightarrow> nat \<Rightarrow> 'a lnode lres" where
  "load_node h a = (case lcells h a of None \<Rightarrow> Inl BadNode | Some n \<Rightarrow> Inr n)"

definition store_node :: "nat \<Rightarrow> 'a lnode \<Rightarrow> 'a lheap \<Rightarrow> 'a lheap" where
  "store_node a n h = h\<lparr>lcells := (lcells h)(a \<mapsto> n)\<rparr>"

definition set_next :: "nat \<Rightarrow> nat \<Rightarrow> 'a lheap \<Rightarrow> 'a lheap lres" where
  "set_next a v h = res_bind (load_node h a) (\<lambda>n. Inr (store_node a (n\<lparr>ln_next := v\<rparr>) h))"

definition set_prev :: "nat \<Rightarrow> nat \<Rightarrow> 'a lheap \<Rightarrow> 'a lheap lres" where
  "set_prev a v h = res_bind (load_node h a) (\<lambda>n. Inr (store_node a (n\<lparr>ln_prev := v\<rparr>) h))"

definition new_node :: "'a option \<Rightarrow> 'a lheap \<Rightarrow> nat \<times> 'a lheap" where
  "new_node x h = (lfresh h, store_node (lfresh h) \<lparr>ln_prev = 0, ln_next = 0, ln_data = x\<rparr> h
                              \<lparr>lfresh := Suc (lfresh h)\<rparr>)"

definition free_node :: "nat \<Rightarrow> 'a lheap \<Rightarrow> 'a lheap lres" where
  "free_node a h = res_bind (load_node h a) (\<lambda>n. Inr (h\<lparr>lcells := (lcells h)(a := None)\<rparr>))"

definition element :: "'a lnode \<Rightarrow> 'a lres" where
  "element n = (case ln_data n of None \<Rightarrow> Inl NoElement | Some x \<Rightarrow> Inr x)"

section \<open>Iterators\<close>

definition it_deref :: "'a lheap \<Rightarrow> liter \<Rightarrow> 'a lres" where
  "it_deref h it = res_bind (load_node h (it_node it)) element"

definition it_forward :: "'a lheap \<Rightarrow> liter \<Rightarrow> liter lres" where
  "it_forward h it = (if it_node it \<noteq> 0
     then res_bind (load_node h (it_node it)) (\<lambda>n. Inr (it\<lparr>it_node := ln_next n\<rparr>)) else Inr it)"

definition it_backward :: "'a lheap \<Rightarrow> liter \<Rightarrow> liter lres" where
  "it_backward h it = (if it_node it \<noteq> 0
     then res_bind (load_node h (it_node it)) (\<lambda>n. Inr (it\<lparr>it_node := ln_prev n\<rparr>)) else Inr it)"

text \<open>The postfix forms: the old iterator, returned, and the moved one.\<close>

definition it_forward_post :: "'a lheap \<Rightarrow> liter \<Rightarrow> (liter \<times> liter) lres" where
  "it_forward_post h it = res_bind (it_forward h it) (\<lambda>it'. Inr (it, it'))"

definition it_backward_post :: "'a lheap \<Rightarrow> liter \<Rightarrow> (liter \<times> liter) lres" where
  "it_backward_post h it = res_bind (it_backward h it) (\<lambda>it'. Inr (it, it'))"

definition it_eq :: "liter \<Rightarrow> liter \<Rightarrow> bool" where
  "it_eq i j \<longleftrightarrow> it_node i = it_node j \<and> it_owner i = it_owner j"

definition it_neq :: "liter \<Rightarrow> liter \<Rightarrow> bool" where
  "it_neq i j \<longleftrightarrow> it_node i \<noteq> it_node j \<or> it_owner i \<noteq> it_owner j"

text \<open>A reverse iterator is the forward iterator one element further.\<close>

definition rit_deref :: "'a lheap \<Rightarrow> liter \<Rightarrow> 'a lres" where
  "rit_deref h r = res_bind (it_backward h r) (it_deref h)"

definition rit_forward :: "'a lheap \<Rightarrow> liter \<Rightarrow> liter lres" where
  "rit_forward h r = it_backward h r"

definition rit_backward :: "'a lheap \<Rightarrow> liter \<Rightarrow> liter lres" where
  "rit_backward h r = it_forward h r"

definition rit_neq :: "liter \<Rightarrow> liter \<Rightarrow> bool" where
  "rit_neq r s \<longleftrightarrow> it_neq r s"

section \<open>Observation\<close>

definition create_head :: "'a lheap \<Rightarrow> (llist \<times> 'a lheap) lres" where
  "create_head h =
     (let (a, h1) = new_node None h in
      res_bind (set_prev a a h1) (\<lambda>h2. res_bind (set_next a a h2) (\<lambda>h3.
        Inr (\<lparr>l_head = a, l_size = 0\<rparr>, h3))))"

definition list_begin :: "'a lheap \<Rightarrow> llist \<Rightarrow> liter lres" where
  "list_begin h l = res_bind (load_node h (l_head l)) (\<lambda>n.
     Inr \<lparr>it_node = ln_next n, it_owner = l_head l\<rparr>)"

definition list_end :: "llist \<Rightarrow> liter" where
  "list_end l = \<lparr>it_node = l_head l, it_owner = l_head l\<rparr>"

definition list_rbegin :: "llist \<Rightarrow> liter" where
  "list_rbegin l = list_end l"

definition list_rend :: "'a lheap \<Rightarrow> llist \<Rightarrow> liter lres" where
  "list_rend h l = list_begin h l"

definition list_empty :: "'a lheap \<Rightarrow> llist \<Rightarrow> bool lres" where
  "list_empty h l = res_bind (load_node h (l_head l)) (\<lambda>n. Inr (ln_next n = l_head l))"

definition list_front :: "'a lheap \<Rightarrow> llist \<Rightarrow> 'a lres" where
  "list_front h l = res_bind (load_node h (l_head l)) (\<lambda>n. res_bind (load_node h (ln_next n)) element)"

definition list_back :: "'a lheap \<Rightarrow> llist \<Rightarrow> 'a lres" where
  "list_back h l = res_bind (load_node h (l_head l)) (\<lambda>n. res_bind (load_node h (ln_prev n)) element)"

section \<open>Insertion and removal\<close>

definition list_insert :: "liter \<Rightarrow> 'a \<Rightarrow> llist \<Rightarrow> 'a lheap \<Rightarrow> (liter \<times> llist \<times> 'a lheap) lres" where
  "list_insert it x l h =
     (if it_node it = 0 \<or> it_owner it \<noteq> l_head l
      then Inl (ListThrows (InvalidArgument ''list insertion iterator does not belong to this list''))
      else
        (let (a, h1) = new_node (Some x) h; c = it_node it in
         res_bind (load_node h1 c) (\<lambda>cur.
         res_bind (set_prev a (ln_prev cur) h1) (\<lambda>h2.
         res_bind (set_next a c h2) (\<lambda>h3.
         res_bind (load_node h3 a) (\<lambda>n.
         res_bind (set_next (ln_prev n) a h3) (\<lambda>h4.
         res_bind (set_prev c a h4) (\<lambda>h5.
           Inr (\<lparr>it_node = a, it_owner = l_head l\<rparr>, l\<lparr>l_size := l_size l + 1\<rparr>, h5)))))))))"

definition list_erase :: "liter \<Rightarrow> llist \<Rightarrow> 'a lheap \<Rightarrow> (liter \<times> llist \<times> 'a lheap) lres" where
  "list_erase it l h =
     (if it_owner it \<noteq> l_head l \<or> it_node it = 0
      then Inl (ListThrows (InvalidArgument ''list erase iterator does not belong to this list''))
      else if it_node it = l_head l then Inr (list_end l, l, h)
      else
        (let d = it_node it in
         res_bind (load_node h d) (\<lambda>n.
         res_bind (set_next (ln_prev n) (ln_next n) h) (\<lambda>h1.
         res_bind (load_node h1 d) (\<lambda>n1.
         res_bind (set_prev (ln_next n1) (ln_prev n1) h1) (\<lambda>h2.
         res_bind (free_node d h2) (\<lambda>h3.
           Inr (\<lparr>it_node = ln_next n, it_owner = l_head l\<rparr>, l\<lparr>l_size := l_size l - 1\<rparr>, h3))))))))"

definition list_push_back :: "'a \<Rightarrow> llist \<Rightarrow> 'a lheap \<Rightarrow> (llist \<times> 'a lheap) lres" where
  "list_push_back x l h = res_bind (list_insert (list_end l) x l h) (\<lambda>(it, st). Inr st)"

definition list_push_front :: "'a \<Rightarrow> llist \<Rightarrow> 'a lheap \<Rightarrow> (llist \<times> 'a lheap) lres" where
  "list_push_front x l h =
     res_bind (list_begin h l) (\<lambda>b. res_bind (list_insert b x l h) (\<lambda>(it, st). Inr st))"

definition list_pop_back :: "llist \<Rightarrow> 'a lheap \<Rightarrow> (llist \<times> 'a lheap) lres" where
  "list_pop_back l h =
     res_bind (list_empty h l) (\<lambda>e.
       if e then Inr (l, h)
       else res_bind (it_backward h (list_end l)) (\<lambda>b.
              res_bind (list_erase b l h) (\<lambda>(it, st). Inr st)))"

definition list_pop_front :: "llist \<Rightarrow> 'a lheap \<Rightarrow> (liter \<times> llist \<times> 'a lheap) lres" where
  "list_pop_front l h =
     res_bind (list_empty h l) (\<lambda>e.
       if e then Inr (list_end l, l, h)
       else
         res_bind (load_node h (l_head l)) (\<lambda>s.
         res_bind (load_node h (ln_next s)) (\<lambda>d.
         res_bind (set_next (l_head l) (ln_next d) h) (\<lambda>h1.
         res_bind (set_prev (ln_next d) (l_head l) h1) (\<lambda>h2.
         res_bind (free_node (ln_next s) h2) (\<lambda>h3.
           Inr (\<lparr>it_node = ln_next d, it_owner = l_head l\<rparr>, l\<lparr>l_size := l_size l - 1\<rparr>, h3)))))))"

fun pop_times :: "nat \<Rightarrow> llist \<Rightarrow> 'a lheap \<Rightarrow> (llist \<times> 'a lheap) lres" where
  "pop_times 0 l h = Inr (l, h)"
| "pop_times (Suc n) l h = res_bind (list_pop_back l h) (\<lambda>(l', h'). pop_times n l' h')"

fun push_times :: "nat \<Rightarrow> 'a \<Rightarrow> llist \<Rightarrow> 'a lheap \<Rightarrow> (llist \<times> 'a lheap) lres" where
  "push_times 0 x l h = Inr (l, h)"
| "push_times (Suc n) x l h = res_bind (list_push_back x l h) (\<lambda>(l', h'). push_times n x l' h')"

definition list_resize :: "nat \<Rightarrow> 'a \<Rightarrow> llist \<Rightarrow> 'a lheap \<Rightarrow> (llist \<times> 'a lheap) lres" where
  "list_resize n x l h = (if n \<le> l_size l then pop_times (l_size l - n) l h
                          else push_times (n - l_size l) x l h)"

fun push_list :: "'a list \<Rightarrow> llist \<Rightarrow> 'a lheap \<Rightarrow> (llist \<times> 'a lheap) lres" where
  "push_list [] l h = Inr (l, h)"
| "push_list (x # xs) l h = res_bind (list_push_back x l h) (\<lambda>(l', h'). push_list xs l' h')"


section \<open>Pointer loops\<close>

text \<open>The loop of \<open>Clear()\<close>: unlink and free the first node until the sentinel is reached.\<close>

partial_function (option) clear_loop :: "nat \<Rightarrow> nat \<Rightarrow> 'a lheap \<Rightarrow> 'a lheap lres option" where
  "clear_loop sen cur h =
     (if cur = sen then Some (Inr h)
      else case load_node h cur of Inl e \<Rightarrow> Some (Inl e)
      | Inr c \<Rightarrow> (case set_next sen (ln_next c) h of Inl e \<Rightarrow> Some (Inl e)
      | Inr h1 \<Rightarrow> (case free_node cur h1 of Inl e \<Rightarrow> Some (Inl e)
      | Inr h2 \<Rightarrow> (case load_node h2 sen of Inl e \<Rightarrow> Some (Inl e)
      | Inr n \<Rightarrow> clear_loop sen (ln_next n) h2))))"

definition list_clear :: "llist \<Rightarrow> 'a lheap \<Rightarrow> (llist \<times> 'a lheap) lres option" where
  "list_clear l h =
     (if l_head l = 0 then Some (Inr (l, h))
      else case load_node h (l_head l) of Inl e \<Rightarrow> Some (Inl e)
      | Inr n \<Rightarrow> (case clear_loop (l_head l) (ln_next n) h of None \<Rightarrow> None
      | Some r \<Rightarrow> Some (res_bind r (\<lambda>h1.
          res_bind (set_prev (l_head l) (l_head l) h1) (\<lambda>h2.
          res_bind (set_next (l_head l) (l_head l) h2) (\<lambda>h3.
            Inr (l\<lparr>l_size := 0\<rparr>, h3)))))))"

definition list_destroy :: "llist \<Rightarrow> 'a lheap \<Rightarrow> 'a lheap lres option" where
  "list_destroy l h =
     (if l_head l = 0 then Some (Inr h)
      else case list_clear l h of None \<Rightarrow> None
      | Some r \<Rightarrow> Some (res_bind r (\<lambda>(l', h'). free_node (l_head l') h')))"

text \<open>The loop that appends the elements between two iterators.\<close>

partial_function (option) append_range ::
    "liter \<Rightarrow> liter \<Rightarrow> llist \<Rightarrow> 'a lheap \<Rightarrow> (llist \<times> 'a lheap) lres option" where
  "append_range i j l h =
     (if \<not> it_neq i j then Some (Inr (l, h))
      else case it_deref h i of Inl e \<Rightarrow> Some (Inl e)
      | Inr x \<Rightarrow> (case list_push_back x l h of Inl e \<Rightarrow> Some (Inl e)
      | Inr st \<Rightarrow> (case it_forward (snd st) i of Inl e \<Rightarrow> Some (Inl e)
      | Inr i' \<Rightarrow> append_range i' j (fst st) (snd st))))"

definition append_from :: "liter lres \<Rightarrow> liter \<Rightarrow> (llist \<times> 'a lheap) lres \<Rightarrow> (llist \<times> 'a lheap) lres option" where
  "append_from b j r = (case (b, r) of
       (Inr i, Inr (l, h)) \<Rightarrow> append_range i j l h
     | (Inl e, _) \<Rightarrow> Some (Inl e)
     | (_, Inl e) \<Rightarrow> Some (Inl e))"

text \<open>The output loop writes each element and a space; \<open>shown\<close> is the text of an element.\<close>

partial_function (option) output_range ::
    "('a \<Rightarrow> string) \<Rightarrow> liter \<Rightarrow> liter \<Rightarrow> 'a lheap \<Rightarrow> string \<Rightarrow> string lres option" where
  "output_range shown i j h out =
     (if \<not> it_neq i j then Some (Inr out)
      else case it_deref h i of Inl e \<Rightarrow> Some (Inl e)
      | Inr x \<Rightarrow> (case it_forward h i of Inl e \<Rightarrow> Some (Inl e)
      | Inr i' \<Rightarrow> output_range shown i' j h (out @ shown x @ '' '')))"

definition list_output :: "('a \<Rightarrow> string) \<Rightarrow> llist \<Rightarrow> 'a lheap \<Rightarrow> string lres option" where
  "list_output shown l h = (case list_begin h l of Inl e \<Rightarrow> Some (Inl e)
     | Inr b \<Rightarrow> output_range shown b (list_end l) h [])"

section \<open>Construction and assignment\<close>

definition list_range :: "liter \<Rightarrow> liter \<Rightarrow> 'a lheap \<Rightarrow> (llist \<times> 'a lheap) lres option" where
  "list_range i j h =
     (if it_owner i = 0 \<or> it_owner i \<noteq> it_owner j
      then Some (Inl (ListThrows (InvalidArgument ''list range iterators must have the same owner'')))
      else append_from (Inr i) j (create_head h))"

definition list_of_list :: "'a list \<Rightarrow> 'a lheap \<Rightarrow> (llist \<times> 'a lheap) lres" where
  "list_of_list xs h = res_bind (create_head h) (\<lambda>(l, h'). push_list xs l h')"

definition list_copy :: "llist \<Rightarrow> 'a lheap \<Rightarrow> (llist \<times> 'a lheap) lres option" where
  "list_copy src h =
     (case create_head h of Inl e \<Rightarrow> Some (Inl e)
      | Inr (l, h1) \<Rightarrow> append_from (list_begin h1 src) (list_end src) (Inr (l, h1)))"

text \<open>Moving: the new list and what is left of the source.\<close>

definition list_move :: "llist \<Rightarrow> 'a lheap \<Rightarrow> (llist \<times> llist \<times> 'a lheap) lres" where
  "list_move src h = res_bind (create_head h) (\<lambda>(r, h'). Inr (src, r, h'))"

definition list_swap :: "llist \<Rightarrow> llist \<Rightarrow> llist \<times> llist" where
  "list_swap l m = (\<lparr>l_head = l_head m, l_size = l_size m\<rparr>, \<lparr>l_head = l_head l, l_size = l_size l\<rparr>)"

datatype lsource = SameList | OtherList llist

definition list_assign :: "lsource \<Rightarrow> llist \<Rightarrow> 'a lheap \<Rightarrow> (llist \<times> 'a lheap) lres option" where
  "list_assign src l h =
     (case src of SameList \<Rightarrow> Some (Inr (l, h))
      | OtherList m \<Rightarrow> (case list_copy m h of None \<Rightarrow> None
        | Some (Inl e) \<Rightarrow> Some (Inl e)
        | Some (Inr (c, h1)) \<Rightarrow>
            (let (l', c') = list_swap l c in
             case list_destroy c' h1 of None \<Rightarrow> None
             | Some r \<Rightarrow> Some (res_bind r (\<lambda>h2. Inr (l', h2))))))"

definition list_assign_list :: "'a list \<Rightarrow> llist \<Rightarrow> 'a lheap \<Rightarrow> (llist \<times> 'a lheap) lres option" where
  "list_assign_list xs l h = (case list_clear l h of None \<Rightarrow> None
     | Some r \<Rightarrow> Some (res_bind r (\<lambda>(l', h'). push_list xs l' h')))"

text \<open>Move assignment: the list assigned to, the source afterwards, and the heap.\<close>

definition list_move_assign :: "lsource \<Rightarrow> llist \<Rightarrow> 'a lheap \<Rightarrow> (llist \<times> llist \<times> 'a lheap) lres option" where
  "list_move_assign src l h =
     (case src of SameList \<Rightarrow> Some (Inr (l, l, h))
      | OtherList m \<Rightarrow> (case create_head h of Inl e \<Rightarrow> Some (Inl e)
        | Inr (r, h1) \<Rightarrow> (case list_clear l h1 of None \<Rightarrow> None
        | Some c \<Rightarrow> Some (res_bind c (\<lambda>(l', h2). res_bind (free_node (l_head l') h2) (\<lambda>h3.
            Inr (\<lparr>l_head = l_head m, l_size = l_size m\<rparr>, r, h3)))))))"

definition list_plus :: "llist \<Rightarrow> llist \<Rightarrow> 'a lheap \<Rightarrow> (llist \<times> 'a lheap) lres option" where
  "list_plus l m h =
     (case list_begin h l of Inl e \<Rightarrow> Some (Inl e)
      | Inr b \<Rightarrow> (case list_range b (list_end l) h of None \<Rightarrow> None
      | Some (Inl e) \<Rightarrow> Some (Inl e)
      | Some (Inr (r, h1)) \<Rightarrow> append_from (list_begin h1 m) (list_end m) (Inr (r, h1))))"

definition list_plus_assign :: "lsource \<Rightarrow> llist \<Rightarrow> 'a lheap \<Rightarrow> (llist \<times> 'a lheap) lres option" where
  "list_plus_assign src l h =
     (case src of
        OtherList m \<Rightarrow> append_from (list_begin h m) (list_end m) (Inr (l, h))
      | SameList \<Rightarrow> (case list_copy l h of None \<Rightarrow> None
        | Some (Inl e) \<Rightarrow> Some (Inl e)
        | Some (Inr (c, h1)) \<Rightarrow>
            (case append_from (list_begin h1 c) (list_end c) (Inr (l, h1)) of None \<Rightarrow> None
             | Some (Inl e) \<Rightarrow> Some (Inl e)
             | Some (Inr (l', h2)) \<Rightarrow> (case list_destroy c h2 of None \<Rightarrow> None
               | Some r \<Rightarrow> Some (res_bind r (\<lambda>h3. Inr (l', h3)))))))"

section \<open>The queue\<close>

text \<open>\<open>Queue\<close> holds one list; its copies and moves are assignments of that list to a new one.\<close>

definition queue_push :: "'a \<Rightarrow> llist \<Rightarrow> 'a lheap \<Rightarrow> (llist \<times> 'a lheap) lres" where
  "queue_push x q h = list_push_back x q h"

definition queue_pop :: "llist \<Rightarrow> 'a lheap \<Rightarrow> (llist \<times> 'a lheap) lres" where
  "queue_pop q h = res_bind (list_pop_front q h) (\<lambda>(it, st). Inr st)"

definition queue_size :: "llist \<Rightarrow> nat" where
  "queue_size q = l_size q"

definition queue_empty :: "'a lheap \<Rightarrow> llist \<Rightarrow> bool lres" where
  "queue_empty h q = list_empty h q"

definition queue_front :: "'a lheap \<Rightarrow> llist \<Rightarrow> 'a lres" where
  "queue_front h q = res_bind (queue_empty h q) (\<lambda>e.
     if e then Inl (ListThrows (OutOfRange ''Queue::Front called on an empty queue'')) else list_front h q)"

definition queue_back :: "'a lheap \<Rightarrow> llist \<Rightarrow> 'a lres" where
  "queue_back h q = res_bind (queue_empty h q) (\<lambda>e.
     if e then Inl (ListThrows (OutOfRange ''Queue::Back called on an empty queue'')) else list_back h q)"

definition queue_new :: "'a lheap \<Rightarrow> (llist \<times> 'a lheap) lres" where
  "queue_new h = create_head h"

definition queue_of_list :: "'a list \<Rightarrow> 'a lheap \<Rightarrow> (llist \<times> 'a lheap) lres" where
  "queue_of_list xs h = res_bind (queue_new h) (\<lambda>(q, h'). push_list xs q h')"

definition queue_of_value :: "'a \<Rightarrow> 'a lheap \<Rightarrow> (llist \<times> 'a lheap) lres" where
  "queue_of_value x h = res_bind (queue_new h) (\<lambda>(q, h'). list_push_back x q h')"

definition queue_copy :: "llist \<Rightarrow> 'a lheap \<Rightarrow> (llist \<times> 'a lheap) lres option" where
  "queue_copy src h = (case queue_new h of Inl e \<Rightarrow> Some (Inl e)
     | Inr (q, h1) \<Rightarrow> list_assign (OtherList src) q h1)"

definition queue_move :: "llist \<Rightarrow> 'a lheap \<Rightarrow> (llist \<times> llist \<times> 'a lheap) lres option" where
  "queue_move src h = (case queue_new h of Inl e \<Rightarrow> Some (Inl e)
     | Inr (q, h1) \<Rightarrow> list_move_assign (OtherList src) q h1)"

definition queue_assign :: "lsource \<Rightarrow> llist \<Rightarrow> 'a lheap \<Rightarrow> (llist \<times> 'a lheap) lres option" where
  "queue_assign src q h = list_assign src q h"

definition queue_move_assign :: "lsource \<Rightarrow> llist \<Rightarrow> 'a lheap \<Rightarrow> (llist \<times> llist \<times> 'a lheap) lres option" where
  "queue_move_assign src q h = list_move_assign src q h"

end
