(* ===== verification/ListLaws.thy ===== *)
theory ListLaws
  imports Lists
begin

text \<open>
  What the pointer operations of the doubly linked list do.  \<open>list_rep h l as xs\<close> says that the
  sentinel of \<open>l\<close> and the nodes \<open>as\<close> form a ring in the heap, linked consistently in both
  directions, that shows the elements \<open>xs\<close>.  Each operation is a function on \<open>xs\<close>; it
  changes no node of another list, the loops end, and removed nodes are freed.
\<close>

section \<open>Links\<close>

definition nx :: "'a lheap \<Rightarrow> nat \<Rightarrow> nat" where
  "nx h a = (case lcells h a of None \<Rightarrow> 0 | Some n \<Rightarrow> ln_next n)"

definition pv :: "'a lheap \<Rightarrow> nat \<Rightarrow> nat" where
  "pv h a = (case lcells h a of None \<Rightarrow> 0 | Some n \<Rightarrow> ln_prev n)"

definition el :: "'a lheap \<Rightarrow> nat \<Rightarrow> 'a option" where
  "el h a = (case lcells h a of None \<Rightarrow> None | Some n \<Rightarrow> ln_data n)"

definition heap_ok :: "'a lheap \<Rightarrow> bool" where
  "heap_ok h \<longleftrightarrow> lcells h 0 = None \<and> 0 < lfresh h \<and> (\<forall>a \<in> dom (lcells h). a < lfresh h)"

fun chain :: "'a lheap \<Rightarrow> nat list \<Rightarrow> bool" where
  "chain h (a # b # as) \<longleftrightarrow> nx h a = b \<and> pv h b = a \<and> chain h (b # as)"
| "chain h _ \<longleftrightarrow> True"

definition list_rep :: "'a lheap \<Rightarrow> llist \<Rightarrow> nat list \<Rightarrow> 'a list \<Rightarrow> bool" where
  "list_rep h l as xs \<longleftrightarrow>
     distinct (l_head l # as) \<and> set (l_head l # as) \<subseteq> dom (lcells h) \<and>
     chain h (l_head l # as @ [l_head l]) \<and>
     map (el h) as = map Some xs \<and> el h (l_head l) = None \<and> l_size l = length xs"

definition list_nodes :: "llist \<Rightarrow> nat list \<Rightarrow> nat set" where
  "list_nodes l as = set (l_head l # as)"

text \<open>Only nodes of \<open>A\<close> and new nodes may differ.\<close>

definition only_changes :: "nat set \<Rightarrow> 'a lheap \<Rightarrow> 'a lheap \<Rightarrow> bool" where
  "only_changes A h h' \<longleftrightarrow> lfresh h \<le> lfresh h' \<and>
     (\<forall>a. a \<notin> A \<and> a < lfresh h \<longrightarrow> lcells h' a = lcells h a)"

lemma only_changes_refl [simp]: "only_changes A h h"
  by (simp add: only_changes_def)

lemma only_changes_trans:
  "only_changes A h h1 \<Longrightarrow> only_changes B h1 h2 \<Longrightarrow> B \<inter> {..<lfresh h} \<subseteq> A \<Longrightarrow> only_changes A h h2"
  by (fastforce simp: only_changes_def)

lemma only_changes_mono: "only_changes {} h h' \<Longrightarrow> only_changes A h h'"
  by (simp add: only_changes_def)

lemma chain_join:
  "l1 \<noteq> [] \<Longrightarrow> l2 \<noteq> [] \<Longrightarrow> chain h (l1 @ l2) \<longleftrightarrow>
     chain h l1 \<and> nx h (last l1) = hd l2 \<and> pv h (hd l2) = last l1 \<and> chain h l2"
proof (induction l1)
  case (Cons a l1)
  then show ?case
    by (cases l1; cases l2) auto
qed simp

lemma chain_cong:
  "(\<And>a. a \<in> set (butlast as) \<Longrightarrow> nx h' a = nx h a) \<Longrightarrow> (\<And>a. a \<in> set (tl as) \<Longrightarrow> pv h' a = pv h a) \<Longrightarrow>
   chain h as \<Longrightarrow> chain h' as"
proof (induction as)
  case (Cons a as)
  show ?case
  proof (cases as)
    case (Cons b bs)
    have "chain h' as"
    proof (rule Cons.IH)
      show "pv h' c = pv h c" if "c \<in> set (tl as)" for c
        using that Cons.prems(2) [of c] by (cases as) auto
    qed (use Cons.prems Cons in auto)
    then show ?thesis
      using Cons.prems Cons by auto
  qed simp
qed simp

text \<open>The effect of the primitive writes on the links.\<close>

lemma load_node_dom: "a \<in> dom (lcells h) \<Longrightarrow> \<exists>n. load_node h a = Inr n \<and> ln_next n = nx h a \<and> ln_prev n = pv h a \<and> ln_data n = el h a"
  by (auto simp: load_node_def nx_def pv_def el_def)

lemma set_next_dom:
  assumes "a \<in> dom (lcells h)"
  obtains h' where "set_next a v h = Inr h'" "nx h' = (nx h)(a := v)" "pv h' = pv h" "el h' = el h"
    "dom (lcells h') = dom (lcells h)" "lfresh h' = lfresh h" "\<And>b. b \<noteq> a \<Longrightarrow> lcells h' b = lcells h b"
proof -
  from assms obtain n where n: "lcells h a = Some n" by auto
  show thesis
    by (rule that [of "store_node a (n\<lparr>ln_next := v\<rparr>) h"])
       (use n in \<open>auto simp: set_next_def load_node_def store_node_def nx_def pv_def el_def fun_eq_iff\<close>)
qed

lemma set_prev_dom:
  assumes "a \<in> dom (lcells h)"
  obtains h' where "set_prev a v h = Inr h'" "pv h' = (pv h)(a := v)" "nx h' = nx h" "el h' = el h"
    "dom (lcells h') = dom (lcells h)" "lfresh h' = lfresh h" "\<And>b. b \<noteq> a \<Longrightarrow> lcells h' b = lcells h b"
proof -
  from assms obtain n where n: "lcells h a = Some n" by auto
  show thesis
    by (rule that [of "store_node a (n\<lparr>ln_prev := v\<rparr>) h"])
       (use n in \<open>auto simp: set_prev_def load_node_def store_node_def nx_def pv_def el_def fun_eq_iff\<close>)
qed

lemma free_node_dom:
  assumes "a \<in> dom (lcells h)"
  obtains h' where "free_node a h = Inr h'" "\<And>b. b \<noteq> a \<Longrightarrow> nx h' b = nx h b"
    "\<And>b. b \<noteq> a \<Longrightarrow> pv h' b = pv h b" "\<And>b. b \<noteq> a \<Longrightarrow> el h' b = el h b"
    "dom (lcells h') = dom (lcells h) - {a}" "lfresh h' = lfresh h" "\<And>b. b \<noteq> a \<Longrightarrow> lcells h' b = lcells h b"
proof -
  from assms obtain n where n: "lcells h a = Some n" by auto
  show thesis
    by (rule that [of "h\<lparr>lcells := (lcells h)(a := None)\<rparr>"])
       (use n in \<open>auto simp: free_node_def load_node_def nx_def pv_def el_def\<close>)
qed

lemma new_node_ok:
  assumes "heap_ok h"
  obtains h' where "new_node x h = (lfresh h, h')" "nx h' = (nx h)(lfresh h := 0)" "pv h' = (pv h)(lfresh h := 0)"
    "el h' = (el h)(lfresh h := x)" "dom (lcells h') = insert (lfresh h) (dom (lcells h))"
    "lfresh h' = Suc (lfresh h)" "\<And>b. b \<noteq> lfresh h \<Longrightarrow> lcells h' b = lcells h b"
  by (rule that [of "snd (new_node x h)"])
     (auto simp: new_node_def store_node_def nx_def pv_def el_def fun_eq_iff)

lemma heap_ok_fresh: "heap_ok h \<Longrightarrow> lfresh h \<notin> dom (lcells h) \<and> lfresh h \<noteq> 0"
  by (auto simp: heap_ok_def)

lemma heap_ok_null: "heap_ok h \<Longrightarrow> a \<in> dom (lcells h) \<Longrightarrow> a \<noteq> 0 \<and> a < lfresh h"
  by (auto simp: heap_ok_def)

lemma heap_okI:
  "heap_ok h \<Longrightarrow> dom (lcells h') \<subseteq> insert (lfresh h) (dom (lcells h)) \<Longrightarrow> lfresh h' = Suc (lfresh h) \<Longrightarrow> heap_ok h'"
  "heap_ok h \<Longrightarrow> dom (lcells h') \<subseteq> dom (lcells h) \<Longrightarrow> lfresh h' = lfresh h \<Longrightarrow> heap_ok h'"
  by (fastforce simp: heap_ok_def dom_def)+

lemma list_rep_frame:
  assumes "list_rep h l as xs" and "\<And>a. a \<in> list_nodes l as \<Longrightarrow> lcells h' a = lcells h a"
  shows "list_rep h' l as xs"
proof -
  have eq: "nx h' a = nx h a" "pv h' a = pv h a" "el h' a = el h a" "a \<in> dom (lcells h) \<longleftrightarrow> a \<in> dom (lcells h')"
    if "a \<in> set (l_head l # as)" for a
    using assms(2) [of a] that by (auto simp: nx_def pv_def el_def list_nodes_def dom_def)
  have "chain h' (l_head l # as @ [l_head l])"
    by (rule chain_cong [of _ h' h]) (use assms(1) eq in \<open>auto simp: list_rep_def\<close>)
  moreover have "map (el h') as = map (el h) as"
    using eq by simp
  moreover have "set (l_head l # as) \<subseteq> dom (lcells h')"
    using assms(1) eq(4) unfolding list_rep_def by blast
  moreover have "el h' (l_head l) = el h (l_head l)"
    by (rule eq(3)) simp
  ultimately show ?thesis
    using assms(1) unfolding list_rep_def by metis
qed

lemma list_rep_changes:
  assumes "list_rep h l as xs" and "only_changes A h h'" and "A \<inter> list_nodes l as = {}" and "heap_ok h"
  shows "list_rep h' l as xs"
proof (rule list_rep_frame [OF assms(1)])
  fix a
  assume a: "a \<in> list_nodes l as"
  then have "a \<in> dom (lcells h)"
    using assms(1) by (auto simp: list_rep_def list_nodes_def)
  then show "lcells h' a = lcells h a"
    using assms(2,3) a heap_ok_null [OF assms(4)] by (auto simp: only_changes_def)
qed

section \<open>Insertion and removal\<close>

text \<open>The address that an iterator to position \<open>bs\<close> of the list has: its first node or the sentinel.\<close>

definition node_of :: "llist \<Rightarrow> nat list \<Rightarrow> nat" where
  "node_of l bs = hd (bs @ [l_head l])"

lemma last_notin_butlast: "distinct as \<Longrightarrow> as \<noteq> [] \<Longrightarrow> last as \<notin> set (butlast as)"
  by (induction as rule: rev_induct) auto

lemma insert_links:
  assumes ch: "chain h (s # as @ bs @ [s])" and d: "distinct (s # as @ bs)" and n: "n \<notin> set (s # as @ bs)"
    and c: "c = hd (bs @ [s])" and p: "p = last (s # as)"
    and nx': "\<And>a. nx h' a = (if a = p then n else if a = n then c else nx h a)"
    and pv': "\<And>a. pv h' a = (if a = c then n else if a = n then p else pv h a)"
  shows "chain h' (s # as @ n # bs @ [s])"
proof -
  have pn: "p \<in> set (s # as)" "c \<in> set (bs @ [s])" "p \<noteq> n" "c \<noteq> n"
    using n c p by (auto simp: hd_append split: if_splits)
  have l1: "chain h (s # as)" and l2: "chain h (bs @ [s])"
    using ch chain_join [of "s # as" "bs @ [s]" h] by simp_all
  have bl: "p \<notin> set (butlast (s # as))"
    unfolding p by (rule last_notin_butlast) (use d in auto)
  have pin: "p \<notin> set bs"
  proof -
    have "p \<in> set (s # as)"
      unfolding p by (rule last_in_set) simp
    then show ?thesis
      using d by auto
  qed
  have "chain h' (s # as)"
  proof (rule chain_cong [OF _ _ l1])
    show "nx h' a = nx h a" if "a \<in> set (butlast (s # as))" for a
      using that bl n in_set_butlastD [OF that] by (auto simp: nx')
    show "pv h' a = pv h a" if "a \<in> set (tl (s # as))" for a
      using that d n c by (cases bs) (auto simp: pv')
  qed
  moreover have "chain h' (bs @ [s])"
  proof (rule chain_cong [OF _ _ l2])
    show "nx h' a = nx h a" if "a \<in> set (butlast (bs @ [s]))" for a
      using that n pin by (auto simp: nx')
    show "pv h' a = pv h a" if "a \<in> set (tl (bs @ [s]))" for a
      using that d n c by (cases bs) (auto simp: pv')
  qed
  moreover have "nx h' p = n" "pv h' n = p" "nx h' n = c" "pv h' c = n"
    using pn by (auto simp: nx' pv')
  ultimately have "chain h' ((s # as) @ [n] @ (bs @ [s]))"
    using p c chain_join [of "s # as" "[n] @ bs @ [s]" h'] chain_join [of "[n]" "bs @ [s]" h'] by simp
  then show ?thesis
    by simp
qed

lemma list_insert_rep:
  assumes h: "heap_ok h" and rep: "list_rep h l (as @ bs) (xs @ ys)" and len: "length as = length xs"
  obtains h' where "list_insert \<lparr>it_node = node_of l bs, it_owner = l_head l\<rparr> x l h =
      Inr (\<lparr>it_node = lfresh h, it_owner = l_head l\<rparr>, l\<lparr>l_size := l_size l + 1\<rparr>, h')"
    "heap_ok h'" "list_rep h' (l\<lparr>l_size := l_size l + 1\<rparr>) (as @ lfresh h # bs) (xs @ x # ys)"
    "only_changes (list_nodes l (as @ bs)) h h'" "dom (lcells h') = insert (lfresh h) (dom (lcells h))"
proof -
  let ?s = "l_head l" and ?n = "lfresh h"
  let ?c = "node_of l bs" and ?p = "last (?s # as)"
  note r = rep [unfolded list_rep_def]
  note new = heap_ok_fresh [OF h]
  have c: "?c \<in> dom (lcells h)" "?c \<noteq> 0" "?c \<noteq> ?n"
    using r heap_ok_null [OF h] new by (cases bs; auto simp: node_of_def; fail)+
  have "?p \<in> set (?s # as @ bs)"
    using last_in_set [of "?s # as"] by auto
  then have p: "?p \<in> dom (lcells h)"
    using r by blast
  then have "?p \<noteq> ?n"
    using new by metis
  have pvc: "pv h ?c = ?p"
    using r chain_join [of "?s # as" "bs @ [?s]" h] by (simp add: node_of_def)
  obtain h1 where h1: "new_node (Some x) h = (?n, h1)" "nx h1 = (nx h)(?n := 0)" "pv h1 = (pv h)(?n := 0)"
    "el h1 = (el h)(?n := Some x)" "dom (lcells h1) = insert ?n (dom (lcells h))"
    "lfresh h1 = Suc ?n" "\<And>b. b \<noteq> ?n \<Longrightarrow> lcells h1 b = lcells h b"
    using new_node_ok [OF h] by metis
  obtain cn where cn: "load_node h1 ?c = Inr cn" "ln_prev cn = ?p"
    using load_node_dom [of ?c h1] c h1(3,5) pvc by auto
  obtain h2 where h2: "set_prev ?n ?p h1 = Inr h2" "pv h2 = (pv h1)(?n := ?p)" "nx h2 = nx h1" "el h2 = el h1"
    "dom (lcells h2) = dom (lcells h1)" "lfresh h2 = lfresh h1" "\<And>b. b \<noteq> ?n \<Longrightarrow> lcells h2 b = lcells h1 b"
    using set_prev_dom [of ?n h1 ?p] h1(5) by blast
  obtain h3 where h3: "set_next ?n ?c h2 = Inr h3" "nx h3 = (nx h2)(?n := ?c)" "pv h3 = pv h2" "el h3 = el h2"
    "dom (lcells h3) = dom (lcells h2)" "lfresh h3 = lfresh h2" "\<And>b. b \<noteq> ?n \<Longrightarrow> lcells h3 b = lcells h2 b"
    using set_next_dom [of ?n h2 ?c] h1(5) h2(5) by blast
  obtain nn where nn: "load_node h3 ?n = Inr nn" "ln_prev nn = ?p"
    using load_node_dom [of ?n h3] h1(5) h2(2,5) h3(3,5) by auto
  obtain h4 where h4: "set_next ?p ?n h3 = Inr h4" "nx h4 = (nx h3)(?p := ?n)" "pv h4 = pv h3" "el h4 = el h3"
    "dom (lcells h4) = dom (lcells h3)" "lfresh h4 = lfresh h3" "\<And>b. b \<noteq> ?p \<Longrightarrow> lcells h4 b = lcells h3 b"
    using set_next_dom [of ?p h3 ?n] p h1(5) h2(5) h3(5) by blast
  obtain h5 where h5: "set_prev ?c ?n h4 = Inr h5" "pv h5 = (pv h4)(?c := ?n)" "nx h5 = nx h4" "el h5 = el h4"
    "dom (lcells h5) = dom (lcells h4)" "lfresh h5 = lfresh h4" "\<And>b. b \<noteq> ?c \<Longrightarrow> lcells h5 b = lcells h4 b"
    using set_prev_dom [of ?c h4 ?n] c h1(5) h2(5) h3(5) h4(5) by blast
  show thesis
  proof
    show "list_insert \<lparr>it_node = ?c, it_owner = ?s\<rparr> x l h =
        Inr (\<lparr>it_node = ?n, it_owner = ?s\<rparr>, l\<lparr>l_size := l_size l + 1\<rparr>, h5)"
      using c(2)
      by (simp add: list_insert_def Let_def h1(1) cn h2(1) h3(1) nn h4(1) h5(1) del: last.simps)
    show dom: "dom (lcells h5) = insert ?n (dom (lcells h))"
      by (simp add: h5(5) h4(5) h3(5) h2(5) h1(5))
    have fr: "lfresh h5 = Suc ?n"
      by (simp add: h5(6) h4(6) h3(6) h2(6) h1(6))
    show "heap_ok h5"
      using heap_okI(1) [OF h, of h5] dom fr by simp
    have ns: "?n \<notin> set (?s # as @ bs)"
      using r new by auto
    have "chain h5 (?s # as @ ?n # bs @ [?s])"
      by (rule insert_links [of h ?s as bs ?n ?c ?p])
         (use r ns c p in \<open>auto simp: node_of_def h5(2,3) h4(2,3) h3(2,3) h2(2,3) h1(2,3)\<close>)
    moreover have el: "el h5 = (el h)(?n := Some x)"
      by (simp add: h5(4) h4(4) h3(4) h2(4) h1(4))
    moreover have "map (el h5) (as @ ?n # bs) = map Some (xs @ x # ys)"
    proof -
      have "map (el h) as = map Some xs" "map (el h) bs = map Some ys"
        using r len by (simp_all add: map_eq_append_conv append_eq_append_conv)
      moreover have "map (el h5) as = map (el h) as" "map (el h5) bs = map (el h) bs"
        using ns by (auto simp: el)
      ultimately show ?thesis
        by (simp add: el)
    qed
    ultimately show "list_rep h5 (l\<lparr>l_size := l_size l + 1\<rparr>) (as @ ?n # bs) (xs @ x # ys)"
      using r ns dom by (auto simp: list_rep_def)
    show "only_changes (list_nodes l (as @ bs)) h h5"
      unfolding only_changes_def
    proof (intro conjI allI impI)
      fix a
      assume a: "a \<notin> list_nodes l (as @ bs) \<and> a < lfresh h"
      then have "a \<noteq> ?c" "a \<noteq> ?p" "a \<noteq> ?n"
        using last_in_set [of "?s # as"] by (cases bs; auto simp: node_of_def list_nodes_def split: if_splits; fail)+
      then show "lcells h5 a = lcells h a"
        by (simp add: h5(7) h4(7) h3(7) h2(7) h1(7))
    qed (simp add: fr)
  qed
qed

lemma unlink_links:
  assumes ch: "chain h (s # as @ c # bs @ [s])" and d: "distinct (s # as @ c # bs)"
    and p: "p = last (s # as)" and q: "q = hd (bs @ [s])"
    and nx': "\<And>a. a \<noteq> c \<Longrightarrow> nx h' a = (if a = p then q else nx h a)"
    and pv': "\<And>a. a \<noteq> c \<Longrightarrow> pv h' a = (if a = q then p else pv h a)"
  shows "chain h' (s # as @ bs @ [s])"
proof -
  have l1: "chain h (s # as)" and l2: "chain h (bs @ [s])"
    using ch chain_join [of "s # as" "c # bs @ [s]" h] chain_join [of "[c]" "bs @ [s]" h] by simp_all
  have bl: "p \<notin> set (butlast (s # as))"
    unfolding p by (rule last_notin_butlast) (use d in auto)
  have pin: "p \<notin> set bs" "p \<noteq> c"
  proof -
    have "p \<in> set (s # as)"
      unfolding p by (rule last_in_set) simp
    then show "p \<notin> set bs" "p \<noteq> c"
      using d by auto
  qed
  have qc: "q \<noteq> c"
    using d q by (cases bs) auto
  have "chain h' (s # as)"
  proof (rule chain_cong [OF _ _ l1])
    show "nx h' a = nx h a" if "a \<in> set (butlast (s # as))" for a
    proof -
      have "a \<noteq> p" "a \<in> set (s # as)"
        using that bl in_set_butlastD [OF that] by metis+
      moreover have "a \<noteq> c"
        using d \<open>a \<in> set (s # as)\<close> by auto
      ultimately show ?thesis
        by (simp add: nx')
    qed
    show "pv h' a = pv h a" if "a \<in> set (tl (s # as))" for a
    proof -
      have "a \<noteq> c" "a \<noteq> q"
        using that d q by (cases bs; auto; fail)+
      then show ?thesis
        by (simp add: pv')
    qed
  qed
  moreover have "chain h' (bs @ [s])"
  proof (rule chain_cong [OF _ _ l2])
    show "nx h' a = nx h a" if "a \<in> set (butlast (bs @ [s]))" for a
    proof -
      have "a \<noteq> c" "a \<noteq> p"
        using that d pin by auto
      then show ?thesis
        by (simp add: nx')
    qed
    show "pv h' a = pv h a" if "a \<in> set (tl (bs @ [s]))" for a
    proof -
      have "a \<noteq> c" "a \<noteq> q"
        using that d q by (cases bs; auto; fail)+
      then show ?thesis
        by (simp add: pv')
    qed
  qed
  moreover have "nx h' p = q" "pv h' q = p"
    using pin(2) qc by (simp_all add: nx' pv')
  ultimately have "chain h' ((s # as) @ (bs @ [s]))"
    using p q chain_join [of "s # as" "bs @ [s]" h'] by simp
  then show ?thesis
    by simp
qed

text \<open>The two writes and the deletion that take a node out of the ring.\<close>

lemma unlink_ok:
  assumes h: "heap_ok h" and rep: "list_rep h l (as @ c # bs) (xs @ y # ys)" and len: "length as = length xs"
    and p: "p = last (l_head l # as)"
  obtains h1 h2 h3 where "set_next p (node_of l bs) h = Inr h1"
    "set_prev (node_of l bs) p h1 = Inr h2" "free_node c h2 = Inr h3"
    "nx h c = node_of l bs" "pv h c = p"
    "nx h1 c = node_of l bs" "pv h1 c = p" "c \<in> dom (lcells h)" "c \<in> dom (lcells h1)"
    "heap_ok h3" "list_rep h3 (l\<lparr>l_size := l_size l - 1\<rparr>) (as @ bs) (xs @ ys)"
    "only_changes (list_nodes l (as @ c # bs)) h h3" "dom (lcells h3) = dom (lcells h) - {c}"
proof -
  let ?s = "l_head l"
  let ?q = "node_of l bs" 
  note r = rep [unfolded list_rep_def]
  have links: "chain h (?s # as)" "nx h p = c" "pv h c = p" "nx h c = ?q" "pv h ?q = c"
    using r chain_join [of "?s # as" "c # bs @ [?s]" h] chain_join [of "[c]" "bs @ [?s]" h]
    by (simp_all add: node_of_def p)
  have "p \<in> set (?s # as)"
    unfolding p by (rule last_in_set) simp
  then have pin: "p \<in> set (?s # as @ c # bs)" "p \<noteq> c"
    using r by auto
  have qin: "?q \<in> set (?s # as @ c # bs)" "?q \<noteq> c"
    using r by (cases bs; auto simp: node_of_def)+
  have dom: "p \<in> dom (lcells h)" "?q \<in> dom (lcells h)" "c \<in> dom (lcells h)"
    using r pin(1) qin(1) by (blast, blast, auto)
  obtain h1 where h1: "set_next p ?q h = Inr h1" "nx h1 = (nx h)(p := ?q)" "pv h1 = pv h" "el h1 = el h"
    "dom (lcells h1) = dom (lcells h)" "lfresh h1 = lfresh h" "\<And>b. b \<noteq> p \<Longrightarrow> lcells h1 b = lcells h b"
    using set_next_dom [OF dom(1)] by metis
  obtain h2 where h2: "set_prev ?q p h1 = Inr h2" "pv h2 = (pv h1)(?q := p)" "nx h2 = nx h1" "el h2 = el h1"
    "dom (lcells h2) = dom (lcells h1)" "lfresh h2 = lfresh h1" "\<And>b. b \<noteq> ?q \<Longrightarrow> lcells h2 b = lcells h1 b"
    using set_prev_dom [of ?q h1] dom(2) h1(5) by metis
  obtain h3 where h3: "free_node c h2 = Inr h3" "\<And>b. b \<noteq> c \<Longrightarrow> nx h3 b = nx h2 b"
    "\<And>b. b \<noteq> c \<Longrightarrow> pv h3 b = pv h2 b" "\<And>b. b \<noteq> c \<Longrightarrow> el h3 b = el h2 b"
    "dom (lcells h3) = dom (lcells h2) - {c}" "lfresh h3 = lfresh h2" "\<And>b. b \<noteq> c \<Longrightarrow> lcells h3 b = lcells h2 b"
    using free_node_dom [of c h2] dom(3) h1(5) h2(5) by metis
  have d3: "dom (lcells h3) = dom (lcells h) - {c}"
    by (simp add: h3(5) h2(5) h1(5))
  show thesis
  proof (rule that [OF h1(1) h2(1) h3(1) links(4,3)])
    show "nx h1 c = ?q" "pv h1 c = p"
      using pin(2) links(3,4) by (simp_all add: h1(2,3))
    show "c \<in> dom (lcells h)" "c \<in> dom (lcells h1)"
      using dom(3) h1(5) by simp_all
    show "heap_ok h3"
      using heap_okI(2) [OF h, of h3] d3 by (simp add: h3(6) h2(6) h1(6) Diff_subset)
    show "dom (lcells h3) = dom (lcells h) - {c}"
      by (rule d3)
    have "chain h3 (?s # as @ bs @ [?s])"
      by (rule unlink_links [of h ?s as c bs p ?q])
         (use r p in \<open>auto simp: node_of_def h3(2,3) h2(2,3) h1(2,3) simp del: last.simps\<close>)
    moreover have el: "el h3 b = el h b" if "b \<noteq> c" for b
      using that by (simp add: h3(4) h2(4) h1(4))
    moreover have "map (el h3) (as @ bs) = map Some (xs @ ys)"
    proof -
      have "map (el h) as = map Some xs" "map (el h) bs = map Some ys"
        using r len by (simp_all add: append_eq_append_conv)
      moreover have "x \<noteq> c" if "x \<in> set as \<or> x \<in> set bs" for x
        using r that by auto
      then have "map (el h3) as = map (el h) as" "map (el h3) bs = map (el h) bs"
        by (simp_all add: el)
      ultimately show ?thesis
        by simp
    qed
    moreover have "?s \<noteq> c"
      using r by auto
    ultimately show "list_rep h3 (l\<lparr>l_size := l_size l - 1\<rparr>) (as @ bs) (xs @ ys)"
      using r d3 by (auto simp: list_rep_def)
    show "only_changes (list_nodes l (as @ c # bs)) h h3"
      unfolding only_changes_def
    proof (intro conjI allI impI)
      fix a
      assume "a \<notin> list_nodes l (as @ c # bs) \<and> a < lfresh h"
      then have "a \<noteq> p" "a \<noteq> ?q" "a \<noteq> c"
        using pin(1) qin(1) unfolding list_nodes_def by auto
      then show "lcells h3 a = lcells h a"
        by (simp add: h3(7) h2(7) h1(7))
    qed (simp add: h3(6) h2(6) h1(6))
  qed
qed

lemma list_erase_rep:
  assumes h: "heap_ok h" and rep: "list_rep h l (as @ c # bs) (xs @ y # ys)" and len: "length as = length xs"
  obtains h' where "list_erase \<lparr>it_node = c, it_owner = l_head l\<rparr> l h =
      Inr (\<lparr>it_node = node_of l bs, it_owner = l_head l\<rparr>, l\<lparr>l_size := l_size l - 1\<rparr>, h')"
    "heap_ok h'" "list_rep h' (l\<lparr>l_size := l_size l - 1\<rparr>) (as @ bs) (xs @ ys)"
    "only_changes (list_nodes l (as @ c # bs)) h h'" "dom (lcells h') = dom (lcells h) - {c}"
proof -
  obtain h1 h2 h3 where u: "set_next (last (l_head l # as)) (node_of l bs) h = Inr h1"
    "set_prev (node_of l bs) (last (l_head l # as)) h1 = Inr h2" "free_node c h2 = Inr h3"
    "nx h c = node_of l bs" "pv h c = last (l_head l # as)"
    "nx h1 c = node_of l bs" "pv h1 c = last (l_head l # as)" "c \<in> dom (lcells h)" "c \<in> dom (lcells h1)"
    "heap_ok h3" "list_rep h3 (l\<lparr>l_size := l_size l - 1\<rparr>) (as @ bs) (xs @ ys)"
    "only_changes (list_nodes l (as @ c # bs)) h h3" "dom (lcells h3) = dom (lcells h) - {c}"
    using unlink_ok [OF h rep len refl] by blast
  obtain n n1 where n: "load_node h c = Inr n" "ln_next n = node_of l bs" "ln_prev n = last (l_head l # as)"
    "load_node h1 c = Inr n1" "ln_next n1 = node_of l bs" "ln_prev n1 = last (l_head l # as)"
    using load_node_dom [OF u(8)] load_node_dom [OF u(9)] u(4-7) by metis
  have "c \<noteq> 0" "c \<noteq> l_head l"
    using rep heap_ok_null [OF h u(8)] by (auto simp: list_rep_def)
  then have "list_erase \<lparr>it_node = c, it_owner = l_head l\<rparr> l h =
      Inr (\<lparr>it_node = node_of l bs, it_owner = l_head l\<rparr>, l\<lparr>l_size := l_size l - 1\<rparr>, h3)"
    by (simp add: list_erase_def Let_def n u(1-3) del: last.simps)
  then show thesis
    using that u(10-13) by blast
qed

lemma list_erase_end:
  "heap_ok h \<Longrightarrow> list_rep h l as xs \<Longrightarrow> list_erase (list_end l) l h = Inr (list_end l, l, h)"
  using heap_ok_null [of h "l_head l"] by (auto simp: list_erase_def list_end_def list_rep_def)

lemma list_begin_rep:
  assumes "list_rep h l as xs"
  shows "list_begin h l = Inr \<lparr>it_node = node_of l as, it_owner = l_head l\<rparr>"
proof -
  have "nx h (l_head l) = node_of l as"
    using assms by (cases as) (auto simp: list_rep_def node_of_def)
  then show ?thesis
    using assms load_node_dom [of "l_head l" h] by (auto simp: list_rep_def list_begin_def)
qed

lemma list_empty_rep:
  assumes "list_rep h l as xs"
  shows "list_empty h l = Inr (xs = [])"
proof -
  have nx: "nx h (l_head l) = node_of l as"
    using assms by (cases as) (auto simp: list_rep_def node_of_def)
  obtain n where "load_node h (l_head l) = Inr n" "ln_next n = node_of l as"
    using assms load_node_dom [of "l_head l" h] nx by (auto simp: list_rep_def)
  moreover have "node_of l as = l_head l \<longleftrightarrow> as = []" "as = [] \<longleftrightarrow> xs = []"
    using assms by (cases as; auto simp: list_rep_def node_of_def)+
  ultimately show ?thesis
    by (simp add: list_empty_def)
qed

lemma list_rep_length: "list_rep h l as xs \<Longrightarrow> length as = length xs"
proof -
  assume "list_rep h l as xs"
  then have "length (map (el h) as) = length (map Some xs)"
    unfolding list_rep_def by simp
  then show ?thesis
    by simp
qed

lemma list_rep_snoc:
  assumes "list_rep h l as (xs @ [x])"
  obtains bs c where "as = bs @ [c]" "length bs = length xs" "pv h (l_head l) = c"
proof -
  have "length as = length xs + 1"
    using list_rep_length [OF assms] by simp
  then obtain bs c where "as = bs @ [c]" "length bs = length xs"
    by (metis Suc_eq_plus1 length_append_singleton nat.inject rev_exhaust length_0_conv nat.distinct(1))
  moreover from this have "pv h (l_head l) = c"
    using assms chain_join [of "l_head l # as" "[l_head l]" h] by (auto simp: list_rep_def)
  ultimately show thesis
    by (rule that)
qed

lemma list_push_back_rep:
  assumes h: "heap_ok h" and rep: "list_rep h l as xs"
  obtains h' where "list_push_back x l h = Inr (l\<lparr>l_size := l_size l + 1\<rparr>, h')" "heap_ok h'"
    "list_rep h' (l\<lparr>l_size := l_size l + 1\<rparr>) (as @ [lfresh h]) (xs @ [x])"
    "only_changes (list_nodes l as) h h'" "dom (lcells h') = insert (lfresh h) (dom (lcells h))"
proof -
  have len: "length as = length xs"
    by (rule list_rep_length [OF rep])
  have e: "list_end l = \<lparr>it_node = node_of l [], it_owner = l_head l\<rparr>"
    by (simp add: list_end_def node_of_def)
  show thesis
    using list_insert_rep [OF h, of l as "[]" xs "[]" x] rep len that
    unfolding list_push_back_def e by auto
qed

lemma list_push_front_rep:
  assumes h: "heap_ok h" and rep: "list_rep h l as xs"
  obtains h' where "list_push_front x l h = Inr (l\<lparr>l_size := l_size l + 1\<rparr>, h')" "heap_ok h'"
    "list_rep h' (l\<lparr>l_size := l_size l + 1\<rparr>) (lfresh h # as) (x # xs)"
    "only_changes (list_nodes l as) h h'" "dom (lcells h') = insert (lfresh h) (dom (lcells h))"
proof -
  obtain h' where "list_insert \<lparr>it_node = node_of l as, it_owner = l_head l\<rparr> x l h =
      Inr (\<lparr>it_node = lfresh h, it_owner = l_head l\<rparr>, l\<lparr>l_size := l_size l + 1\<rparr>, h')"
    "heap_ok h'" "list_rep h' (l\<lparr>l_size := l_size l + 1\<rparr>) (lfresh h # as) (x # xs)"
    "only_changes (list_nodes l as) h h'" "dom (lcells h') = insert (lfresh h) (dom (lcells h))"
    using list_insert_rep [OF h, of l "[]" as "[]" xs x] rep by auto
  then show thesis
    using that by (simp add: list_push_front_def list_begin_rep [OF rep])
qed

lemma list_pop_back_rep:
  assumes h: "heap_ok h" and rep: "list_rep h l as (xs @ [x])"
  obtains h' bs c where "as = bs @ [c]" "list_pop_back l h = Inr (l\<lparr>l_size := l_size l - 1\<rparr>, h')" "heap_ok h'"
    "list_rep h' (l\<lparr>l_size := l_size l - 1\<rparr>) bs xs"
    "only_changes (list_nodes l as) h h'" "dom (lcells h') = dom (lcells h) - {c}"
proof -
  obtain bs c where bs: "as = bs @ [c]" "length bs = length xs" "pv h (l_head l) = c"
    using list_rep_snoc [OF rep] by metis
  have s: "l_head l \<in> dom (lcells h)" "l_head l \<noteq> 0"
    using rep heap_ok_null [OF h] by (auto simp: list_rep_def)
  obtain n where n: "load_node h (l_head l) = Inr n" "ln_prev n = c"
    using load_node_dom [OF s(1)] bs(3) by auto
  have bk: "it_backward h (list_end l) = Inr \<lparr>it_node = c, it_owner = l_head l\<rparr>"
    using s(2) n by (simp add: it_backward_def list_end_def)
  obtain h' where "list_erase \<lparr>it_node = c, it_owner = l_head l\<rparr> l h =
      Inr (\<lparr>it_node = node_of l [], it_owner = l_head l\<rparr>, l\<lparr>l_size := l_size l - 1\<rparr>, h')"
    "heap_ok h'" "list_rep h' (l\<lparr>l_size := l_size l - 1\<rparr>) bs xs"
    "only_changes (list_nodes l as) h h'" "dom (lcells h') = dom (lcells h) - {c}"
    using list_erase_rep [OF h, of l bs c "[]" xs x "[]"] rep bs by auto
  then show thesis
    using that bs(1) list_empty_rep [OF rep] bk by (simp add: list_pop_back_def)
qed

lemma list_pop_front_rep:
  assumes h: "heap_ok h" and rep: "list_rep h l as (x # xs)"
  obtains h' bs c where "as = c # bs" "list_pop_front l h =
      Inr (\<lparr>it_node = node_of l bs, it_owner = l_head l\<rparr>, l\<lparr>l_size := l_size l - 1\<rparr>, h')" "heap_ok h'"
    "list_rep h' (l\<lparr>l_size := l_size l - 1\<rparr>) bs xs"
    "only_changes (list_nodes l as) h h'" "dom (lcells h') = dom (lcells h) - {c}"
proof -
  obtain c bs where as: "as = c # bs"
    using rep by (auto simp: list_rep_def)
  obtain h1 h2 h3 where u: "set_next (l_head l) (node_of l bs) h = Inr h1"
    "set_prev (node_of l bs) (l_head l) h1 = Inr h2" "free_node c h2 = Inr h3"
    "nx h c = node_of l bs" "c \<in> dom (lcells h)" "heap_ok h3" "list_rep h3 (l\<lparr>l_size := l_size l - 1\<rparr>) bs xs"
    "only_changes (list_nodes l as) h h3" "dom (lcells h3) = dom (lcells h) - {c}"
  proof -
    have r: "list_rep h l ([] @ c # bs) ([] @ x # xs)" "length ([] :: nat list) = length ([] :: 'a list)"
      "l_head l = last (l_head l # [])"
      using rep as by simp_all
    show thesis
      by (rule unlink_ok [OF h r, unfolded append_Nil]) (rule that [unfolded as], assumption+)
  qed
  have "nx h (l_head l) = c" "l_head l \<in> dom (lcells h)"
    using rep as by (auto simp: list_rep_def)
  then obtain n m where n: "load_node h (l_head l) = Inr n" "ln_next n = c" "load_node h c = Inr m"
    "ln_next m = node_of l bs"
    using load_node_dom [of "l_head l" h] load_node_dom [OF u(5)] u(4) by metis
  have "list_pop_front l h =
      Inr (\<lparr>it_node = node_of l bs, it_owner = l_head l\<rparr>, l\<lparr>l_size := l_size l - 1\<rparr>, h3)"
    using list_empty_rep [OF rep] by (simp add: list_pop_front_def n u(1-3))
  then show thesis
    using that as u(6-9) by blast
qed

section \<open>The loops\<close>

text \<open>The loop of \<open>Clear()\<close> follows forward links only.\<close>

fun forward :: "'a lheap \<Rightarrow> nat list \<Rightarrow> bool" where
  "forward h (a # b # as) \<longleftrightarrow> nx h a = b \<and> forward h (b # as)"
| "forward h _ \<longleftrightarrow> True"

lemma forward_cong:
  "(\<And>a. a \<in> set (butlast as) \<Longrightarrow> nx h' a = nx h a) \<Longrightarrow> forward h as \<Longrightarrow> forward h' as"
proof (induction h as rule: forward.induct)
  case (1 h a b as)
  then show ?case by (auto split: if_splits)
qed auto

lemma chain_forward: "chain h as \<Longrightarrow> forward h as"
  by (induction h as rule: chain.induct) auto

lemma clear_loop_rep:
  assumes "distinct (s # as)" and "set (s # as) \<subseteq> dom (lcells h)" and "forward h (s # as @ [s])"
  shows "\<exists>h'. clear_loop s (hd (as @ [s])) h = Some (Inr h') \<and> nx h' s = s \<and> el h' s = el h s \<and>
    dom (lcells h') = dom (lcells h) - set as \<and> lfresh h' = lfresh h \<and>
    (\<forall>b. b \<notin> set (s # as) \<longrightarrow> lcells h' b = lcells h b)"
  using assms
proof (induction as arbitrary: h)
  case Nil
  then show ?case
    by (subst clear_loop.simps) simp
next
  case (Cons c as)
  let ?q = "hd (as @ [s])"
  have c: "c \<in> dom (lcells h)" "c \<noteq> s" "s \<in> dom (lcells h)"
    using Cons.prems by auto
  have nxc: "nx h c = ?q" and fw: "forward h (c # as @ [s])"
    using Cons.prems(3) by (cases as; simp)+
  obtain n where n: "load_node h c = Inr n" "ln_next n = ?q"
    using load_node_dom [OF c(1)] nxc by auto
  obtain h1 where h1: "set_next s ?q h = Inr h1" "nx h1 = (nx h)(s := ?q)" "el h1 = el h"
    "dom (lcells h1) = dom (lcells h)" "lfresh h1 = lfresh h" "\<And>b. b \<noteq> s \<Longrightarrow> lcells h1 b = lcells h b"
    using set_next_dom [OF c(3)] by metis
  obtain h2 where h2: "free_node c h1 = Inr h2" "\<And>b. b \<noteq> c \<Longrightarrow> nx h2 b = nx h1 b"
    "\<And>b. b \<noteq> c \<Longrightarrow> el h2 b = el h1 b" "dom (lcells h2) = dom (lcells h1) - {c}" "lfresh h2 = lfresh h1"
    "\<And>b. b \<noteq> c \<Longrightarrow> lcells h2 b = lcells h1 b"
    using free_node_dom [of c h1] c(1) h1(4) by metis
  have nx2: "nx h2 s = ?q"
    using c(2) by (simp add: h2(2) h1(2))
  obtain m where m: "load_node h2 s = Inr m" "ln_next m = ?q"
    using load_node_dom [of s h2] c nx2 by (auto simp: h2(4) h1(4))
  have step: "clear_loop s c h = clear_loop s ?q h2"
    using c(2) by (subst clear_loop.simps) (simp add: n h1(1) h2(1) m)
  have "forward h2 (s # as @ [s])"
  proof -
    have "forward h (as @ [s])"
      using fw by (cases as) simp_all
    then have "forward h2 (as @ [s])"
    proof (rule forward_cong [rotated])
      fix a
      assume "a \<in> set (butlast (as @ [s]))"
      then have "a \<noteq> c" "a \<noteq> s"
        using Cons.prems(1) by auto
      then show "nx h2 a = nx h a"
        by (simp add: h2(2) h1(2))
    qed
    then show ?thesis
      using nx2 by (cases as) simp_all
  qed
  moreover have "set (s # as) \<subseteq> dom (lcells h2)"
    using Cons.prems(1,2) by (auto simp: h2(4) h1(4))
  ultimately obtain h' where h': "clear_loop s ?q h2 = Some (Inr h')" "nx h' s = s" "el h' s = el h2 s"
    "dom (lcells h') = dom (lcells h2) - set as" "lfresh h' = lfresh h2"
    "\<And>b. b \<notin> set (s # as) \<Longrightarrow> lcells h' b = lcells h2 b"
    using Cons.IH [of h2] Cons.prems(1) by auto
  have "lcells h' b = lcells h b" if "b \<notin> set (s # c # as)" for b
    using that by (simp add: h'(6) h2(6) h1(6))
  then show ?case
    using h'(1-5) step c(2) by (auto simp: h2(3-5) h1(3-5))
qed

lemma list_clear_rep:
  assumes h: "heap_ok h" and rep: "list_rep h l as xs"
  obtains h' where "list_clear l h = Some (Inr (l\<lparr>l_size := 0\<rparr>, h'))" "heap_ok h'"
    "list_rep h' (l\<lparr>l_size := 0\<rparr>) [] []" "only_changes (list_nodes l as) h h'"
    "dom (lcells h') = dom (lcells h) - set as" "lfresh h' = lfresh h"
proof -
  let ?s = "l_head l"
  note r = rep [unfolded list_rep_def]
  have s: "?s \<in> dom (lcells h)" "?s \<noteq> 0"
    using r heap_ok_null [OF h] by auto
  obtain h1 where h1: "clear_loop ?s (node_of l as) h = Some (Inr h1)" "nx h1 ?s = ?s" "el h1 ?s = None"
    "dom (lcells h1) = dom (lcells h) - set as" "lfresh h1 = lfresh h"
    "\<And>b. b \<notin> set (?s # as) \<Longrightarrow> lcells h1 b = lcells h b"
    using clear_loop_rep [of ?s as h] r chain_forward [of h "?s # as @ [?s]"] by (auto simp: node_of_def)
  have s1: "?s \<in> dom (lcells h1)"
    using s(1) r by (auto simp: h1(4))
  obtain h2 where h2: "set_prev ?s ?s h1 = Inr h2" "pv h2 = (pv h1)(?s := ?s)" "nx h2 = nx h1" "el h2 = el h1"
    "dom (lcells h2) = dom (lcells h1)" "lfresh h2 = lfresh h1" "\<And>b. b \<noteq> ?s \<Longrightarrow> lcells h2 b = lcells h1 b"
    using set_prev_dom [OF s1] by metis
  obtain h3 where h3: "set_next ?s ?s h2 = Inr h3" "nx h3 = (nx h2)(?s := ?s)" "pv h3 = pv h2" "el h3 = el h2"
    "dom (lcells h3) = dom (lcells h2)" "lfresh h3 = lfresh h2" "\<And>b. b \<noteq> ?s \<Longrightarrow> lcells h3 b = lcells h2 b"
    using set_next_dom [of ?s h2] s1 h2(5) by metis
  obtain n where n: "load_node h ?s = Inr n" "ln_next n = node_of l as"
    using load_node_dom [OF s(1)] r by (cases as) (auto simp: node_of_def)
  have d3: "dom (lcells h3) = dom (lcells h) - set as" and f3: "lfresh h3 = lfresh h"
    by (simp_all add: h3(5,6) h2(5,6) h1(4,5))
  show thesis
  proof (rule that [of h3])
    show "list_clear l h = Some (Inr (l\<lparr>l_size := 0\<rparr>, h3))"
      using s(2) by (simp add: list_clear_def n h1(1) h2(1) h3(1))
    show "heap_ok h3"
      using heap_okI(2) [OF h, of h3] d3 f3 by auto
    show "list_rep h3 (l\<lparr>l_size := 0\<rparr>) [] []"
      using s1 by (auto simp: list_rep_def h3(2-5) h2(2-5) h1(3))
    show "only_changes (list_nodes l as) h h3"
      by (auto simp: only_changes_def f3 list_nodes_def h3(7) h2(7) h1(6))
  qed (rule d3, rule f3)
qed

lemma list_destroy_rep:
  assumes h: "heap_ok h" and rep: "list_rep h l as xs"
  obtains h' where "list_destroy l h = Some (Inr h')" "heap_ok h'" "only_changes (list_nodes l as) h h'"
    "dom (lcells h') = dom (lcells h) - list_nodes l as" "lfresh h' = lfresh h"
proof -
  obtain h1 where h1: "list_clear l h = Some (Inr (l\<lparr>l_size := 0\<rparr>, h1))" "heap_ok h1"
    "list_rep h1 (l\<lparr>l_size := 0\<rparr>) [] []" "only_changes (list_nodes l as) h h1"
    "dom (lcells h1) = dom (lcells h) - set as" "lfresh h1 = lfresh h"
    using list_clear_rep [OF h rep] by metis
  have s: "l_head l \<in> dom (lcells h1)" "l_head l \<noteq> 0"
    using h1(3) heap_ok_null [OF h1(2)] by (auto simp: list_rep_def)
  obtain h2 where h2: "free_node (l_head l) h1 = Inr h2" "dom (lcells h2) = dom (lcells h1) - {l_head l}"
    "lfresh h2 = lfresh h1" "\<And>b. b \<noteq> l_head l \<Longrightarrow> lcells h2 b = lcells h1 b"
    using free_node_dom [OF s(1)] by metis
  show thesis
  proof (rule that [of h2])
    show "list_destroy l h = Some (Inr h2)"
      using s(2) by (simp add: list_destroy_def h1(1) h2(1))
    show "heap_ok h2"
      using heap_okI(2) [OF h1(2), of h2] h2(2,3) by auto
    show "only_changes (list_nodes l as) h h2"
      using h1(4) by (auto simp: only_changes_def h2(3,4) list_nodes_def)
    show "dom (lcells h2) = dom (lcells h) - list_nodes l as"
      by (auto simp: h2(2) h1(5) list_nodes_def)
    show "lfresh h2 = lfresh h"
      by (simp add: h2(3) h1(6))
  qed
qed

lemma create_head_rep:
  assumes h: "heap_ok h"
  obtains h' where "create_head h = Inr (\<lparr>l_head = lfresh h, l_size = 0\<rparr>, h')" "heap_ok h'"
    "list_rep h' \<lparr>l_head = lfresh h, l_size = 0\<rparr> [] []" "only_changes {} h h'"
    "dom (lcells h') = insert (lfresh h) (dom (lcells h))"
proof -
  let ?a = "lfresh h"
  obtain h1 where h1: "new_node None h = (?a, h1)" "nx h1 = (nx h)(?a := 0)" "pv h1 = (pv h)(?a := 0)"
    "el h1 = (el h)(?a := None)" "dom (lcells h1) = insert ?a (dom (lcells h))"
    "lfresh h1 = Suc ?a" "\<And>b. b \<noteq> ?a \<Longrightarrow> lcells h1 b = lcells h b"
    using new_node_ok [OF h] by metis
  obtain h2 where h2: "set_prev ?a ?a h1 = Inr h2" "pv h2 = (pv h1)(?a := ?a)" "nx h2 = nx h1" "el h2 = el h1"
    "dom (lcells h2) = dom (lcells h1)" "lfresh h2 = lfresh h1" "\<And>b. b \<noteq> ?a \<Longrightarrow> lcells h2 b = lcells h1 b"
    using set_prev_dom [of ?a h1] h1(5) by (metis insertI1)
  obtain h3 where h3: "set_next ?a ?a h2 = Inr h3" "nx h3 = (nx h2)(?a := ?a)" "pv h3 = pv h2" "el h3 = el h2"
    "dom (lcells h3) = dom (lcells h2)" "lfresh h3 = lfresh h2" "\<And>b. b \<noteq> ?a \<Longrightarrow> lcells h3 b = lcells h2 b"
    using set_next_dom [of ?a h2] h1(5) h2(5) by (metis insertI1)
  show thesis
  proof (rule that [of h3])
    show "create_head h = Inr (\<lparr>l_head = ?a, l_size = 0\<rparr>, h3)"
      by (simp add: create_head_def h1(1) h2(1) h3(1))
    show d: "dom (lcells h3) = insert ?a (dom (lcells h))"
      by (simp add: h3(5) h2(5) h1(5))
    show "heap_ok h3"
      using heap_okI(1) [OF h, of h3] d by (simp add: h3(6) h2(6) h1(6))
    show "list_rep h3 \<lparr>l_head = ?a, l_size = 0\<rparr> [] []"
      using d by (simp add: list_rep_def h3(2-4) h2(2-4) h1(4))
    show "only_changes {} h h3"
      by (simp add: only_changes_def h3(6,7) h2(6,7) h1(6,7))
  qed
qed

text \<open>
  Two lists that share no node.  Appending a range of one to the other leaves the source alone and
  allocates exactly the new nodes.
\<close>

definition apart :: "llist \<Rightarrow> nat list \<Rightarrow> llist \<Rightarrow> nat list \<Rightarrow> bool" where
  "apart l as m bs \<longleftrightarrow> list_nodes l as \<inter> list_nodes m bs = {}"

lemma append_range_rep:
  assumes "heap_ok h" and "list_rep h m (bs @ cs) (us @ ys)" and "length bs = length us"
    and "list_rep h l as xs" and "apart l as m (bs @ cs)"
  shows "\<exists>h' as'. append_range \<lparr>it_node = node_of m cs, it_owner = l_head m\<rparr> (list_end m) l h =
      Some (Inr (l\<lparr>l_size := l_size l + length ys\<rparr>, h')) \<and> heap_ok h' \<and>
      list_rep h' (l\<lparr>l_size := l_size l + length ys\<rparr>) (as @ as') (xs @ ys) \<and>
      only_changes (list_nodes l as) h h' \<and> dom (lcells h') = dom (lcells h) \<union> set as' \<and>
      set as' \<subseteq> {lfresh h..<lfresh h'}"
  using assms
proof (induction cs arbitrary: h l as xs bs us ys)
  case Nil
  then have "ys = []"
    using list_rep_length [OF Nil.prems(2)] by simp
  then show ?case
    using Nil.prems by (subst append_range.simps) (auto simp: it_neq_def node_of_def list_end_def)
next
  case (Cons c cs)
  let ?i = "\<lparr>it_node = c, it_owner = l_head m\<rparr>"
  obtain y zs where ys: "ys = y # zs"
    using list_rep_length [OF Cons.prems(2)] Cons.prems(3) by (cases ys) auto
  note r = Cons.prems(2) [unfolded list_rep_def]
  have cm: "c \<noteq> l_head m" "c \<in> dom (lcells h)" "el h c = Some y"
    using r Cons.prems(3) ys by (auto simp: append_eq_append_conv)
  obtain n where n: "load_node h c = Inr n" "ln_data n = Some y"
    using load_node_dom [OF cm(2)] cm(3) by auto
  obtain h1 where h1: "list_push_back y l h = Inr (l\<lparr>l_size := l_size l + 1\<rparr>, h1)" "heap_ok h1"
    "list_rep h1 (l\<lparr>l_size := l_size l + 1\<rparr>) (as @ [lfresh h]) (xs @ [y])"
    "only_changes (list_nodes l as) h h1" "dom (lcells h1) = insert (lfresh h) (dom (lcells h))"
    using list_push_back_rep [OF Cons.prems(1,4)] by metis
  let ?l1 = "l\<lparr>l_size := l_size l + 1\<rparr>"
  have m1: "list_rep h1 m (bs @ c # cs) (us @ y # zs)"
    using list_rep_changes [OF Cons.prems(2) h1(4) _ Cons.prems(1)] Cons.prems(5) ys by (simp add: apart_def)
  have nxc: "nx h1 c = node_of m cs" and c1: "c \<in> dom (lcells h1)"
    using m1 chain_join [of "l_head m # bs" "c # cs @ [l_head m]" h1]
    by (cases cs; auto simp: list_rep_def node_of_def)+
  have "c \<noteq> 0"
    using heap_ok_null [OF Cons.prems(1) cm(2)] by simp
  then have fwd: "it_forward h1 ?i = Inr \<lparr>it_node = node_of m cs, it_owner = l_head m\<rparr>"
    using load_node_dom [OF c1] nxc by (auto simp: it_forward_def)
  have "lfresh h \<notin> list_nodes m (bs @ c # cs)"
    using Cons.prems(2) heap_ok_fresh [OF Cons.prems(1)] unfolding list_rep_def list_nodes_def by blast
  then have ap: "apart ?l1 (as @ [lfresh h]) m ((bs @ [c]) @ cs)"
    using Cons.prems(5) by (auto simp: apart_def list_nodes_def)
  have fr: "lfresh h < lfresh h1"
    using heap_ok_null [OF h1(2), of "lfresh h"] h1(5) by simp
  obtain h' as' where IH: "append_range \<lparr>it_node = node_of m cs, it_owner = l_head m\<rparr> (list_end m) ?l1 h1 =
      Some (Inr (?l1\<lparr>l_size := l_size ?l1 + length zs\<rparr>, h'))" "heap_ok h'"
    "list_rep h' (?l1\<lparr>l_size := l_size ?l1 + length zs\<rparr>) ((as @ [lfresh h]) @ as') ((xs @ [y]) @ zs)"
    "only_changes (list_nodes ?l1 (as @ [lfresh h])) h1 h'" "dom (lcells h') = dom (lcells h1) \<union> set as'"
    "set as' \<subseteq> {lfresh h1..<lfresh h'}"
    using Cons.IH [of h1 "bs @ [c]" "us @ [y]" zs ?l1 "as @ [lfresh h]" "xs @ [y]"] h1(2,3) m1 Cons.prems(3) ap
    by auto
  have "append_range \<lparr>it_node = node_of m (c # cs), it_owner = l_head m\<rparr> (list_end m) l h =
      Some (Inr (l\<lparr>l_size := l_size l + length ys\<rparr>, h'))"
    using cm(1) IH(1)
    by (subst append_range.simps)
       (simp add: it_neq_def node_of_def list_end_def it_deref_def n element_def h1(1) fwd ys)
  moreover have "list_rep h' (l\<lparr>l_size := l_size l + length ys\<rparr>) (as @ lfresh h # as') (xs @ ys)"
    using IH(3) ys by simp
  moreover have "only_changes (list_nodes l as) h h'"
    by (rule only_changes_trans [OF h1(4) IH(4)]) (auto simp: list_nodes_def)
  moreover have "lfresh h1 \<le> lfresh h'"
    using IH(4) by (simp add: only_changes_def)
  ultimately show ?case
    using IH(2,5,6) h1(5) fr
    by (intro exI [of _ h'] exI [of _ "lfresh h # as'"]) auto
qed

lemma append_from_rep:
  assumes "heap_ok h" and "list_rep h m bs ys" and "list_rep h l as xs" and "apart l as m bs"
  shows "\<exists>h' as'. append_from (list_begin h m) (list_end m) (Inr (l, h)) =
      Some (Inr (l\<lparr>l_size := l_size l + length ys\<rparr>, h')) \<and> heap_ok h' \<and>
      list_rep h' (l\<lparr>l_size := l_size l + length ys\<rparr>) (as @ as') (xs @ ys) \<and>
      only_changes (list_nodes l as) h h' \<and> dom (lcells h') = dom (lcells h) \<union> set as' \<and>
      set as' \<subseteq> {lfresh h..<lfresh h'}"
  using append_range_rep [of h m "[]" bs "[]" ys l as xs] assms
  by (simp add: append_from_def list_begin_rep [OF assms(2)])

lemma list_copy_rep:
  assumes h: "heap_ok h" and rep: "list_rep h m bs ys"
  obtains h' as where "list_copy m h = Some (Inr (\<lparr>l_head = lfresh h, l_size = length ys\<rparr>, h'))" "heap_ok h'"
    "list_rep h' \<lparr>l_head = lfresh h, l_size = length ys\<rparr> as ys" "only_changes {} h h'"
    "dom (lcells h') = dom (lcells h) \<union> set (lfresh h # as)" "set (lfresh h # as) \<subseteq> {lfresh h..<lfresh h'}"
proof -
  let ?l = "\<lparr>l_head = lfresh h, l_size = 0\<rparr>"
  obtain h1 where h1: "create_head h = Inr (?l, h1)" "heap_ok h1" "list_rep h1 ?l [] []"
    "only_changes {} h h1" "dom (lcells h1) = insert (lfresh h) (dom (lcells h))"
    using create_head_rep [OF h] by metis
  have m1: "list_rep h1 m bs ys"
    by (rule list_rep_changes [OF rep h1(4) _ h]) simp
  have "lfresh h \<notin> list_nodes m bs"
    using rep heap_ok_fresh [OF h] unfolding list_rep_def list_nodes_def by blast
  then have "apart ?l [] m bs"
    by (simp add: apart_def list_nodes_def)
  then obtain h' as where a: "append_from (list_begin h1 m) (list_end m) (Inr (?l, h1)) =
      Some (Inr (\<lparr>l_head = lfresh h, l_size = length ys\<rparr>, h'))" "heap_ok h'"
    "list_rep h' \<lparr>l_head = lfresh h, l_size = length ys\<rparr> as ys"
    "only_changes (list_nodes ?l []) h1 h'" "dom (lcells h') = dom (lcells h1) \<union> set as"
    "set as \<subseteq> {lfresh h1..<lfresh h'}"
    using append_from_rep [OF h1(2) m1 h1(3)] by auto
  have fr: "lfresh h < lfresh h1" "lfresh h1 \<le> lfresh h'"
    using heap_ok_null [OF h1(2), of "lfresh h"] h1(5) a(4) by (auto simp: only_changes_def)
  show thesis
  proof (rule that [OF _ a(2,3)])
    show "list_copy m h = Some (Inr (\<lparr>l_head = lfresh h, l_size = length ys\<rparr>, h'))"
      by (simp add: list_copy_def h1(1) a(1))
    show "only_changes {} h h'"
      by (rule only_changes_trans [OF h1(4) a(4)]) (simp add: list_nodes_def)
    show "dom (lcells h') = dom (lcells h) \<union> set (lfresh h # as)"
      using a(5) h1(5) by auto
    show "set (lfresh h # as) \<subseteq> {lfresh h..<lfresh h'}"
      using a(6) fr by auto
  qed
qed

section \<open>Operations as functions on sequences\<close>

text \<open>
  The outcome of an operation on the list \<open>l\<close> with nodes \<open>as\<close>: the list shows \<open>xs'\<close>
  at the same sentinel, its removed nodes are freed, its new nodes are newly allocated, and no other
  node of the heap is touched.
\<close>

definition list_becomes ::
    "'a lheap \<Rightarrow> llist \<Rightarrow> nat list \<Rightarrow> (llist \<times> 'a lheap) lres \<Rightarrow> 'a list \<Rightarrow> bool" where
  "list_becomes h l as r xs' \<longleftrightarrow> (\<exists>l' h' as'. r = Inr (l', h') \<and> l_head l' = l_head l \<and> heap_ok h' \<and>
     list_rep h' l' as' xs' \<and> only_changes (list_nodes l as) h h' \<and>
     set as' \<subseteq> set as \<union> {lfresh h..} \<and> dom (lcells h') = dom (lcells h) - set as \<union> set as')"

lemma becomes_bind:
  assumes "list_becomes h l as r xs" and h: "heap_ok h"
    and next_op: "\<And>l1 h1 as1. heap_ok h1 \<Longrightarrow> list_rep h1 l1 as1 xs \<Longrightarrow> list_becomes h1 l1 as1 (f (l1, h1)) ys"
  shows "list_becomes h l as (res_bind r f) ys"
proof -
  obtain l1 h1 as1 where 1: "r = Inr (l1, h1)" "l_head l1 = l_head l" "heap_ok h1" "list_rep h1 l1 as1 xs"
    "only_changes (list_nodes l as) h h1" "set as1 \<subseteq> set as \<union> {lfresh h..}"
    "dom (lcells h1) = dom (lcells h) - set as \<union> set as1"
    using assms(1) unfolding list_becomes_def by metis
  obtain l2 h2 as2 where 2: "f (l1, h1) = Inr (l2, h2)" "l_head l2 = l_head l1" "heap_ok h2" "list_rep h2 l2 as2 ys"
    "only_changes (list_nodes l1 as1) h1 h2" "set as2 \<subseteq> set as1 \<union> {lfresh h1..}"
    "dom (lcells h2) = dom (lcells h1) - set as1 \<union> set as2"
    using next_op [OF 1(3,4)] unfolding list_becomes_def by metis
  have "lfresh h \<le> lfresh h1"
    using 1(5) by (simp add: only_changes_def)
  then have sub: "set as2 \<subseteq> set as \<union> {lfresh h..}"
    using 1(6) 2(6) by fastforce
  have "only_changes (list_nodes l as) h h2"
  proof (rule only_changes_trans [OF 1(5) 2(5)])
    show "list_nodes l1 as1 \<inter> {..<lfresh h} \<subseteq> list_nodes l as"
      using 1(2,6) by (fastforce simp: list_nodes_def)
  qed
  moreover have "dom (lcells h2) = dom (lcells h) - set as \<union> set as2"
  proof -
    have "x \<notin> set as1" if "x \<in> dom (lcells h) - set as" for x
      using that 1(6) heap_ok_null [OF h, of x] by fastforce
    then show ?thesis
      using 1(7) 2(7) by blast
  qed
  ultimately show ?thesis
    using 1(1,2) 2 sub unfolding list_becomes_def by auto
qed

lemma becomes_insert:
  assumes "heap_ok h" and "list_rep h l (as @ bs) (xs @ ys)" and "length as = length xs"
  shows "list_becomes h l (as @ bs)
    (res_bind (list_insert \<lparr>it_node = node_of l bs, it_owner = l_head l\<rparr> x l h) (\<lambda>(it, st). Inr st)) (xs @ x # ys)"
proof -
  obtain h' where h': "list_insert \<lparr>it_node = node_of l bs, it_owner = l_head l\<rparr> x l h =
      Inr (\<lparr>it_node = lfresh h, it_owner = l_head l\<rparr>, l\<lparr>l_size := l_size l + 1\<rparr>, h')"
    "heap_ok h'" "list_rep h' (l\<lparr>l_size := l_size l + 1\<rparr>) (as @ lfresh h # bs) (xs @ x # ys)"
    "only_changes (list_nodes l (as @ bs)) h h'" "dom (lcells h') = insert (lfresh h) (dom (lcells h))"
    using list_insert_rep [OF assms] by metis
  have "set (as @ bs) \<subseteq> dom (lcells h)"
    using assms(2) by (simp add: list_rep_def)
  then show ?thesis
    unfolding list_becomes_def
    using h' by (intro exI [of _ "l\<lparr>l_size := l_size l + 1\<rparr>"] exI [of _ h'] exI [of _ "as @ lfresh h # bs"]) auto
qed

lemma becomes_erase:
  assumes "heap_ok h" and "list_rep h l (as @ c # bs) (xs @ y # ys)" and "length as = length xs"
  shows "list_becomes h l (as @ c # bs)
    (res_bind (list_erase \<lparr>it_node = c, it_owner = l_head l\<rparr> l h) (\<lambda>(it, st). Inr st)) (xs @ ys)"
proof -
  obtain h' where h': "list_erase \<lparr>it_node = c, it_owner = l_head l\<rparr> l h =
      Inr (\<lparr>it_node = node_of l bs, it_owner = l_head l\<rparr>, l\<lparr>l_size := l_size l - 1\<rparr>, h')"
    "heap_ok h'" "list_rep h' (l\<lparr>l_size := l_size l - 1\<rparr>) (as @ bs) (xs @ ys)"
    "only_changes (list_nodes l (as @ c # bs)) h h'" "dom (lcells h') = dom (lcells h) - {c}"
    using list_erase_rep [OF assms] by metis
  have "distinct (as @ c # bs)" "set (as @ c # bs) \<subseteq> dom (lcells h)"
    using assms(2) by (auto simp: list_rep_def)
  then have "dom (lcells h) - {c} = dom (lcells h) - set (as @ c # bs) \<union> set (as @ bs)"
    by auto
  then show ?thesis
    unfolding list_becomes_def
    using h' by (intro exI [of _ "l\<lparr>l_size := l_size l - 1\<rparr>"] exI [of _ h'] exI [of _ "as @ bs"]) auto
qed

lemma becomes_push_back:
  assumes "heap_ok h" and "list_rep h l as xs"
  shows "list_becomes h l as (list_push_back x l h) (xs @ [x])"
proof -
  have e: "list_end l = \<lparr>it_node = node_of l [], it_owner = l_head l\<rparr>"
    by (simp add: list_end_def node_of_def)
  show ?thesis
    using becomes_insert [of h l as "[]" xs "[]" x] assms list_rep_length [OF assms(2)]
    by (simp add: list_push_back_def e)
qed

lemma becomes_push_front:
  assumes "heap_ok h" and "list_rep h l as xs"
  shows "list_becomes h l as (list_push_front x l h) (x # xs)"
  using becomes_insert [of h l "[]" as "[]" xs x] assms
  by (simp add: list_push_front_def list_begin_rep [OF assms(2)])

lemma becomes_refl: "heap_ok h \<Longrightarrow> list_rep h l as xs \<Longrightarrow> list_becomes h l as (Inr (l, h)) xs"
  unfolding list_becomes_def
  by (intro exI [of _ l] exI [of _ h] exI [of _ as]) (auto simp: list_rep_def)

lemma becomes_pop_back:
  assumes h: "heap_ok h" and rep: "list_rep h l as xs"
  shows "list_becomes h l as (list_pop_back l h) (butlast xs)"
proof (cases xs rule: rev_cases)
  case Nil
  then show ?thesis
    using becomes_refl [OF h rep] list_empty_rep [OF rep] by (simp add: list_pop_back_def)
next
  case (snoc ys x)
  obtain h' bs c where b: "as = bs @ [c]" "list_pop_back l h = Inr (l\<lparr>l_size := l_size l - 1\<rparr>, h')" "heap_ok h'"
    "list_rep h' (l\<lparr>l_size := l_size l - 1\<rparr>) bs ys"
    "only_changes (list_nodes l as) h h'" "dom (lcells h') = dom (lcells h) - {c}"
    using list_pop_back_rep [OF h, of l as ys x] rep snoc by metis
  have "distinct as" "set as \<subseteq> dom (lcells h)"
    using rep by (auto simp: list_rep_def)
  then have "dom (lcells h) - {c} = dom (lcells h) - set as \<union> set bs"
    using b(1) by auto
  then show ?thesis
    unfolding list_becomes_def
    using b snoc by (intro exI [of _ "l\<lparr>l_size := l_size l - 1\<rparr>"] exI [of _ h'] exI [of _ bs]) auto
qed

lemma becomes_pop_front:
  assumes h: "heap_ok h" and rep: "list_rep h l as xs"
  shows "list_becomes h l as (res_bind (list_pop_front l h) (\<lambda>(it, st). Inr st)) (tl xs)"
proof (cases xs)
  case Nil
  then show ?thesis
    using becomes_refl [OF h rep] list_empty_rep [OF rep] by (simp add: list_pop_front_def)
next
  case (Cons x ys)
  obtain h' bs c where b: "as = c # bs" "list_pop_front l h =
      Inr (\<lparr>it_node = node_of l bs, it_owner = l_head l\<rparr>, l\<lparr>l_size := l_size l - 1\<rparr>, h')" "heap_ok h'"
    "list_rep h' (l\<lparr>l_size := l_size l - 1\<rparr>) bs ys"
    "only_changes (list_nodes l as) h h'" "dom (lcells h') = dom (lcells h) - {c}"
    using list_pop_front_rep [OF h, of l as x ys] rep Cons by metis
  have "distinct as" "set as \<subseteq> dom (lcells h)"
    using rep by (auto simp: list_rep_def)
  then have "dom (lcells h) - {c} = dom (lcells h) - set as \<union> set bs"
    using b(1) by auto
  then show ?thesis
    unfolding list_becomes_def
    using b Cons by (intro exI [of _ "l\<lparr>l_size := l_size l - 1\<rparr>"] exI [of _ h'] exI [of _ bs]) auto
qed

lemma becomes_push_times:
  "heap_ok h \<Longrightarrow> list_rep h l as xs \<Longrightarrow> list_becomes h l as (push_times n x l h) (xs @ replicate n x)"
proof (induction n arbitrary: h l as xs)
  case (Suc n)
  have "list_becomes h l as (push_times (Suc n) x l h) ((xs @ [x]) @ replicate n x)"
    unfolding push_times.simps
    by (rule becomes_bind [OF becomes_push_back [OF Suc.prems] Suc.prems(1)])
      (unfold prod.case, rule Suc.IH)
  then show ?case
    by (simp add: replicate_append_same)
qed (simp add: becomes_refl)

lemma becomes_pop_times:
  "heap_ok h \<Longrightarrow> list_rep h l as xs \<Longrightarrow> list_becomes h l as (pop_times n l h) (take (length xs - n) xs)"
proof (induction n arbitrary: h l as xs)
  case (Suc n)
  have "list_becomes h l as (pop_times (Suc n) l h) (take (length (butlast xs) - n) (butlast xs))"
    unfolding pop_times.simps
    by (rule becomes_bind [OF becomes_pop_back [OF Suc.prems] Suc.prems(1)])
      (unfold prod.case, rule Suc.IH)
  moreover have "take (length (butlast xs) - n) (butlast xs) = take (length xs - Suc n) xs"
    by (cases xs rule: rev_cases) auto
  ultimately show ?case
    by (simp only:)
qed (simp add: becomes_refl)

lemma becomes_push_list:
  "heap_ok h \<Longrightarrow> list_rep h l as xs \<Longrightarrow> list_becomes h l as (push_list ys l h) (xs @ ys)"
proof (induction ys arbitrary: h l as xs)
  case (Cons y ys)
  have "list_becomes h l as (push_list (y # ys) l h) ((xs @ [y]) @ ys)"
    unfolding push_list.simps
    by (rule becomes_bind [OF becomes_push_back [OF Cons.prems] Cons.prems(1)])
      (unfold prod.case, rule Cons.IH)
  then show ?case
    by simp
qed (simp add: becomes_refl)

lemma becomes_resize:
  assumes "heap_ok h" and "list_rep h l as xs"
  shows "list_becomes h l as (list_resize n x l h) (take n xs @ replicate (n - length xs) x)"
proof -
  have "l_size l = length xs"
    using assms(2) by (simp add: list_rep_def)
  then show ?thesis
    using becomes_push_times [OF assms, of "n - length xs" x] becomes_pop_times [OF assms, of "length xs - n"]
    by (auto simp: list_resize_def)
qed

lemma list_ends_rep:
  assumes rep: "list_rep h l as xs" and "xs \<noteq> []"
  shows "list_front h l = Inr (hd xs)" and "list_back h l = Inr (last xs)"
proof -
  obtain y ys where xs: "xs = y # ys"
    using assms(2) by (cases xs) auto
  then obtain c cs where as: "as = c # cs"
    using list_rep_length [OF rep] by (cases as) auto
  have el: "el h c = Some y" "nx h (l_head l) = c" "c \<in> dom (lcells h)" "l_head l \<in> dom (lcells h)"
    using rep xs as by (auto simp: list_rep_def)
  then obtain n m where "load_node h (l_head l) = Inr n" "ln_next n = c" "load_node h c = Inr m" "ln_data m = Some y"
    using load_node_dom by metis
  then show "list_front h l = Inr (hd xs)"
    by (simp add: list_front_def element_def xs)
  obtain zs z where xs': "xs = zs @ [z]"
    using assms(2) by (cases xs rule: rev_cases) auto
  obtain bs d where bs: "as = bs @ [d]" "length bs = length zs" "pv h (l_head l) = d"
    using list_rep_snoc [of h l as zs z] rep xs' by metis
  have "el h d = Some z" "d \<in> dom (lcells h)"
    using rep xs' bs by (auto simp: list_rep_def)
  then obtain n m where "load_node h (l_head l) = Inr n" "ln_prev n = d" "load_node h d = Inr m" "ln_data m = Some z"
    using load_node_dom el(4) bs(3) by metis
  then show "list_back h l = Inr (last xs)"
    by (simp add: list_back_def element_def xs')
qed

section \<open>Output\<close>

lemma output_range_rep:
  assumes "heap_ok h" and "list_rep h m (bs @ cs) (us @ ys)" and "length bs = length us"
  shows "output_range shown \<lparr>it_node = node_of m cs, it_owner = l_head m\<rparr> (list_end m) h out =
    Some (Inr (out @ concat (map (\<lambda>y. shown y @ '' '') ys)))"
  using assms
proof (induction cs arbitrary: bs us ys out)
  case Nil
  then have "ys = []"
    using list_rep_length [OF Nil.prems(2)] by simp
  then show ?case
    by (subst output_range.simps) (simp add: it_neq_def node_of_def list_end_def)
next
  case (Cons c cs)
  obtain y zs where ys: "ys = y # zs"
    using list_rep_length [OF Cons.prems(2)] Cons.prems(3) by (cases ys) auto
  note r = Cons.prems(2) [unfolded list_rep_def]
  have cm: "c \<noteq> l_head m" "c \<in> dom (lcells h)" "el h c = Some y"
    using r Cons.prems(3) ys by (auto simp: append_eq_append_conv)
  have nxc: "nx h c = node_of m cs"
    using r chain_join [of "l_head m # bs" "c # cs @ [l_head m]" h] by (cases cs) (auto simp: node_of_def)
  obtain n where n: "load_node h c = Inr n" "ln_data n = Some y" "ln_next n = node_of m cs"
    using load_node_dom [OF cm(2)] cm(3) nxc by auto
  have "c \<noteq> 0"
    using heap_ok_null [OF Cons.prems(1) cm(2)] by simp
  moreover have "output_range shown \<lparr>it_node = node_of m cs, it_owner = l_head m\<rparr> (list_end m) h (out @ shown y @ '' '') =
      Some (Inr ((out @ shown y @ '' '') @ concat (map (\<lambda>y. shown y @ '' '') zs)))"
    using Cons.IH [of "bs @ [c]" "us @ [y]" zs] Cons.prems ys by simp
  ultimately show ?case
    using cm(1)
    by (subst output_range.simps)
       (simp add: it_neq_def node_of_def list_end_def it_deref_def it_forward_def n element_def ys)
qed

section \<open>Whole-list operations\<close>

lemma list_rep_dom: "list_rep h l as xs \<Longrightarrow> list_nodes l as \<subseteq> dom (lcells h)"
  by (simp add: list_rep_def list_nodes_def)

lemma list_rep_below:
  "heap_ok h \<Longrightarrow> list_rep h l as xs \<Longrightarrow> list_nodes l as \<inter> {lfresh h..} = {}"
  using list_rep_dom heap_ok_null by fastforce

text \<open>A list that an operation has newly built.\<close>

definition list_built :: "'a lheap \<Rightarrow> (llist \<times> 'a lheap) lres option \<Rightarrow> 'a list \<Rightarrow> bool" where
  "list_built h r ys \<longleftrightarrow> (\<exists>l' h' as'. r = Some (Inr (l', h')) \<and> heap_ok h' \<and> list_rep h' l' as' ys \<and>
     only_changes {} h h' \<and> list_nodes l' as' \<subseteq> {lfresh h..} \<and>
     dom (lcells h') = dom (lcells h) \<union> list_nodes l' as')"

lemma built_copy:
  assumes "heap_ok h" and "list_rep h m bs ys"
  shows "list_built h (list_copy m h) ys"
proof -
  obtain h' as where c: "list_copy m h = Some (Inr (\<lparr>l_head = lfresh h, l_size = length ys\<rparr>, h'))" "heap_ok h'"
    "list_rep h' \<lparr>l_head = lfresh h, l_size = length ys\<rparr> as ys" "only_changes {} h h'"
    "dom (lcells h') = dom (lcells h) \<union> set (lfresh h # as)" "set (lfresh h # as) \<subseteq> {lfresh h..<lfresh h'}"
    using list_copy_rep [OF assms] by metis
  show ?thesis
    unfolding list_built_def
    using c by (intro exI [of _ "\<lparr>l_head = lfresh h, l_size = length ys\<rparr>"] exI [of _ h'] exI [of _ as])
      (auto simp: list_nodes_def)
qed

lemma becomes_clear:
  assumes "heap_ok h" and "list_rep h l as xs"
  shows "\<exists>r. list_clear l h = Some r \<and> list_becomes h l as r []"
proof -
  obtain h' where c: "list_clear l h = Some (Inr (l\<lparr>l_size := 0\<rparr>, h'))" "heap_ok h'"
    "list_rep h' (l\<lparr>l_size := 0\<rparr>) [] []" "only_changes (list_nodes l as) h h'"
    "dom (lcells h') = dom (lcells h) - set as"
    using list_clear_rep [OF assms] by metis
  have "list_becomes h l as (Inr (l\<lparr>l_size := 0\<rparr>, h')) []"
    unfolding list_becomes_def
    using c(2-5) by (intro exI [of _ "l\<lparr>l_size := 0\<rparr>"] exI [of _ h'] exI [of _ "[]"]) simp
  then show ?thesis
    using c(1) by blast
qed

lemma becomes_assign_list:
  assumes "heap_ok h" and "list_rep h l as xs"
  shows "\<exists>r. list_assign_list zs l h = Some r \<and> list_becomes h l as r zs"
proof -
  obtain r where r: "list_clear l h = Some r" "list_becomes h l as r []"
    using becomes_clear [OF assms] by blast
  have "list_becomes h l as (res_bind r (\<lambda>(l', h'). push_list zs l' h')) zs"
  proof (rule becomes_bind [OF r(2) assms(1)])
    fix l1 h1 as1
    assume "heap_ok h1" "list_rep h1 l1 as1 ([] :: 'a list)"
    then show "list_becomes h1 l1 as1 (case (l1, h1) of (l', h') \<Rightarrow> push_list zs l' h') zs"
      using becomes_push_list [of h1 l1 as1 "[]" zs] by simp
  qed
  then show ?thesis
    using r(1) by (simp add: list_assign_list_def)
qed

lemma becomes_append:
  assumes "heap_ok h" and "list_rep h m bs ys" and "list_rep h l as xs" and "apart l as m bs"
  shows "\<exists>r. append_from (list_begin h m) (list_end m) (Inr (l, h)) = Some r \<and> list_becomes h l as r (xs @ ys)"
proof -
  obtain h' as' where a: "append_from (list_begin h m) (list_end m) (Inr (l, h)) =
      Some (Inr (l\<lparr>l_size := l_size l + length ys\<rparr>, h'))" "heap_ok h'"
    "list_rep h' (l\<lparr>l_size := l_size l + length ys\<rparr>) (as @ as') (xs @ ys)"
    "only_changes (list_nodes l as) h h'" "dom (lcells h') = dom (lcells h) \<union> set as'"
    "set as' \<subseteq> {lfresh h..<lfresh h'}"
    using append_from_rep [OF assms] by metis
  have "list_becomes h l as (Inr (l\<lparr>l_size := l_size l + length ys\<rparr>, h')) (xs @ ys)"
    unfolding list_becomes_def
    using a(2-6) list_rep_dom [OF assms(3)]
    by (intro exI [of _ "l\<lparr>l_size := l_size l + length ys\<rparr>"] exI [of _ h'] exI [of _ "as @ as'"])
      (auto simp: list_nodes_def)
  then show ?thesis
    using a(1) by blast
qed

lemma becomes_plus_assign_self:
  assumes h: "heap_ok h" and rep: "list_rep h l as xs"
  shows "\<exists>r. list_plus_assign SameList l h = Some r \<and> list_becomes h l as r (xs @ xs)"
proof -
  obtain c h1 cs where c: "list_copy l h = Some (Inr (c, h1))" "heap_ok h1" "list_rep h1 c cs xs"
    "only_changes {} h h1" "list_nodes c cs \<subseteq> {lfresh h..}" "dom (lcells h1) = dom (lcells h) \<union> list_nodes c cs"
    using built_copy [OF h rep] unfolding list_built_def by metis
  have rep1: "list_rep h1 l as xs"
    by (rule list_rep_changes [OF rep c(4) _ h]) simp
  have ap: "apart l as c cs"
    using list_rep_below [OF h rep] c(5) unfolding apart_def by blast
  obtain h2 as' where a: "append_from (list_begin h1 c) (list_end c) (Inr (l, h1)) =
      Some (Inr (l\<lparr>l_size := l_size l + length xs\<rparr>, h2))" "heap_ok h2"
    "list_rep h2 (l\<lparr>l_size := l_size l + length xs\<rparr>) (as @ as') (xs @ xs)"
    "only_changes (list_nodes l as) h1 h2" "dom (lcells h2) = dom (lcells h1) \<union> set as'"
    "set as' \<subseteq> {lfresh h1..<lfresh h2}"
    using append_from_rep [OF c(2,3) rep1 ap] by metis
  let ?l = "l\<lparr>l_size := l_size l + length xs\<rparr>"
  have c2: "list_rep h2 c cs xs"
    using list_rep_changes [OF c(3) a(4) _ c(2)] ap by (simp add: apart_def)
  obtain h3 where d: "list_destroy c h2 = Some (Inr h3)" "heap_ok h3" "only_changes (list_nodes c cs) h2 h3"
    "dom (lcells h3) = dom (lcells h2) - list_nodes c cs"
    using list_destroy_rep [OF a(2) c2] by metis
  have new: "list_nodes c cs \<inter> set as' = {}"
    using list_rep_below [OF c(2,3)] a(6) by fastforce
  have fr: "lfresh h \<le> lfresh h1"
    using c(4) by (simp add: only_changes_def)
  have rep3: "list_rep h3 ?l (as @ as') (xs @ xs)"
    using list_rep_changes [OF a(3) d(3) _ a(2)] ap new by (auto simp: apart_def list_nodes_def)
  have "only_changes (list_nodes l as) h h2"
    by (rule only_changes_trans [OF only_changes_mono [OF c(4)] a(4)]) auto
  then have oc: "only_changes (list_nodes l as) h h3"
    by (rule only_changes_trans [OF _ d(3)]) (use c(5) in fastforce)
  have below: "x < lfresh h" if "x \<in> dom (lcells h)" for x
    using that heap_ok_null [OF h] by blast
  then have "dom (lcells h) \<inter> list_nodes c cs = {}"
    using c(5) by fastforce
  moreover have "set as' \<inter> list_nodes c cs = {}"
    using new by (simp add: Int_commute)
  ultimately have "dom (lcells h3) = dom (lcells h) \<union> set as'"
    unfolding d(4) a(5) c(6) by (simp add: Un_Diff Diff_triv)
  then have "dom (lcells h3) = dom (lcells h) - set as \<union> set (as @ as')"
    using list_rep_dom [OF rep] unfolding list_nodes_def by auto
  moreover have "set (as @ as') \<subseteq> set as \<union> {lfresh h..}"
    using a(6) fr by fastforce
  ultimately have "list_becomes h l as (Inr (?l, h3)) (xs @ xs)"
    unfolding list_becomes_def
    using d(2) rep3 oc by (intro exI [of _ ?l] exI [of _ h3] exI [of _ "as @ as'"]) simp
  then show ?thesis
    by (simp add: list_plus_assign_def c(1) a(1) d(1))
qed

lemma list_swap_eq: "list_swap l m = (m, l)"
  by (cases l; cases m) (simp add: list_swap_def)

lemma built_assign:
  assumes h: "heap_ok h" and rep: "list_rep h l as xs" and src: "list_rep h m bs ys"
  shows "\<exists>l' h' as'. list_assign (OtherList m) l h = Some (Inr (l', h')) \<and> heap_ok h' \<and> list_rep h' l' as' ys \<and>
    only_changes (list_nodes l as) h h' \<and>
    dom (lcells h') = dom (lcells h) - list_nodes l as \<union> list_nodes l' as'"
proof -
  obtain c h1 cs where c: "list_copy m h = Some (Inr (c, h1))" "heap_ok h1" "list_rep h1 c cs ys"
    "only_changes {} h h1" "list_nodes c cs \<subseteq> {lfresh h..}" "dom (lcells h1) = dom (lcells h) \<union> list_nodes c cs"
    using built_copy [OF h src] unfolding list_built_def by metis
  have rep1: "list_rep h1 l as xs"
    by (rule list_rep_changes [OF rep c(4) _ h]) simp
  have ap: "list_nodes l as \<inter> list_nodes c cs = {}"
    using list_rep_below [OF h rep] c(5) by blast
  obtain h2 where d: "list_destroy l h1 = Some (Inr h2)" "heap_ok h2" "only_changes (list_nodes l as) h1 h2"
    "dom (lcells h2) = dom (lcells h1) - list_nodes l as"
    using list_destroy_rep [OF c(2) rep1] by metis
  have "list_rep h2 c cs ys"
    by (rule list_rep_changes [OF c(3) d(3) ap c(2)])
  moreover have "list_assign (OtherList m) l h = Some (Inr (c, h2))"
    by (simp add: list_assign_def c(1) list_swap_eq d(1))
  moreover have "only_changes (list_nodes l as) h h2"
    by (rule only_changes_trans [OF only_changes_mono [OF c(4)] d(3)]) auto
  moreover have "dom (lcells h2) = dom (lcells h) - list_nodes l as \<union> list_nodes c cs"
    using d(4) c(6) ap by blast
  ultimately show ?thesis
    using d(2) by blast
qed

lemma list_begin_mono:
  assumes "list_rep h l as xs" and "list_rep h1 l as xs"
  shows "list_begin h1 l = list_begin h l"
  by (simp add: list_begin_rep [OF assms(1)] list_begin_rep [OF assms(2)])

lemma list_range_is_copy:
  assumes h: "heap_ok h" and rep: "list_rep h l as xs"
  shows "list_range \<lparr>it_node = node_of l as, it_owner = l_head l\<rparr> (list_end l) h = list_copy l h"
proof -
  obtain h1 where h1: "create_head h = Inr (\<lparr>l_head = lfresh h, l_size = 0\<rparr>, h1)" "only_changes {} h h1"
    using create_head_rep [OF h] by metis
  have "list_rep h1 l as xs"
    by (rule list_rep_changes [OF rep h1(2) _ h]) simp
  moreover have "l_head l \<noteq> 0"
    using rep heap_ok_null [OF h] by (auto simp: list_rep_def)
  ultimately show ?thesis
    by (simp add: list_range_def list_copy_def h1(1) list_end_def list_begin_rep)
qed

lemma built_plus:
  assumes h: "heap_ok h" and rep: "list_rep h l as xs" and src: "list_rep h m bs ys"
  shows "list_built h (list_plus l m h) (xs @ ys)"
proof -
  obtain c h1 cs where c: "list_copy l h = Some (Inr (c, h1))" "heap_ok h1" "list_rep h1 c cs xs"
    "only_changes {} h h1" "list_nodes c cs \<subseteq> {lfresh h..}" "dom (lcells h1) = dom (lcells h) \<union> list_nodes c cs"
    using built_copy [OF h rep] unfolding list_built_def by metis
  have src1: "list_rep h1 m bs ys"
    by (rule list_rep_changes [OF src c(4) _ h]) simp
  have ap: "apart c cs m bs"
    using list_rep_below [OF h src] c(5) unfolding apart_def by blast
  obtain r where r: "append_from (list_begin h1 m) (list_end m) (Inr (c, h1)) = Some r"
    "list_becomes h1 c cs r (xs @ ys)"
    using becomes_append [OF c(2) src1 c(3) ap] by blast
  obtain l2 h2 as2 where 2: "r = Inr (l2, h2)" "l_head l2 = l_head c" "heap_ok h2" "list_rep h2 l2 as2 (xs @ ys)"
    "only_changes (list_nodes c cs) h1 h2" "set as2 \<subseteq> set cs \<union> {lfresh h1..}"
    "dom (lcells h2) = dom (lcells h1) - set cs \<union> set as2"
    using r(2) unfolding list_becomes_def by metis
  have plus: "list_plus l m h = Some (Inr (l2, h2))"
    by (simp add: list_plus_def list_begin_rep [OF rep] list_range_is_copy [OF h rep] c(1) r(1) 2(1))
  have fr: "lfresh h \<le> lfresh h1"
    using c(4) by (simp add: only_changes_def)
  have nodes: "list_nodes l2 as2 \<subseteq> {lfresh h..}"
    using 2(2,6) c(5) fr by (fastforce simp: list_nodes_def)
  have "only_changes {} h h2"
    by (rule only_changes_trans [OF c(4) 2(5)]) (use c(5) in fastforce)
  moreover have "dom (lcells h2) = dom (lcells h) \<union> list_nodes l2 as2"
  proof -
    have "dom (lcells h) \<inter> list_nodes c cs = {}"
      using c(5) heap_ok_null [OF h] by fastforce
    moreover have "l_head c \<notin> set cs"
      using c(3) by (simp add: list_rep_def)
    ultimately have "dom (lcells h1) - set cs = insert (l_head c) (dom (lcells h))"
      unfolding c(6) list_nodes_def by auto
    then show ?thesis
      unfolding 2(7) list_nodes_def 2(2) by auto
  qed
  ultimately show ?thesis
    unfolding list_built_def using plus 2(3,4) nodes by blast
qed

section \<open>The queue over its container\<close>

text \<open>
  What the queue relies on: its container appends at one end, removes at the other, and shows the
  first element.
\<close>

locale queue_store =
  fixes holds :: "'st \<Rightarrow> 'a list \<Rightarrow> bool"
    and push_end :: "'a \<Rightarrow> 'st \<Rightarrow> 'e + 'st"
    and drop_first :: "'st \<Rightarrow> 'e + 'st"
    and show_first :: "'st \<Rightarrow> 'e + 'a"
  assumes push_holds: "holds s xs \<Longrightarrow> \<exists>s'. push_end x s = Inr s' \<and> holds s' (xs @ [x])"
    and drop_holds: "holds s (x # xs) \<Longrightarrow> \<exists>s'. drop_first s = Inr s' \<and> holds s' xs"
    and show_holds: "holds s (x # xs) \<Longrightarrow> show_first s = Inr x"

text \<open>A client that appends elements, and one that takes elements until the queue is drained.\<close>

fun push_run :: "('a \<Rightarrow> 'st \<Rightarrow> 'e + 'st) \<Rightarrow> 'a list \<Rightarrow> 'st \<Rightarrow> 'e + 'st" where
  "push_run psh [] s = Inr s"
| "push_run psh (x # xs) s = res_bind (psh x s) (push_run psh xs)"

fun drain_run :: "('st \<Rightarrow> 'e + 'a) \<Rightarrow> ('st \<Rightarrow> 'e + 'st) \<Rightarrow> nat \<Rightarrow> 'st \<Rightarrow> 'e + ('a list \<times> 'st)" where
  "drain_run frt drp 0 s = Inr ([], s)"
| "drain_run frt drp (Suc n) s = res_bind (frt s) (\<lambda>x. res_bind (drp s) (\<lambda>s'.
     res_bind (drain_run frt drp n s') (\<lambda>(xs, s''). Inr (x # xs, s''))))"

context queue_store begin

lemma push_run_holds: "holds s xs \<Longrightarrow> \<exists>s'. push_run push_end ys s = Inr s' \<and> holds s' (xs @ ys)"
proof (induction ys arbitrary: s xs)
  case (Cons y ys)
  obtain s1 where "push_end y s = Inr s1" "holds s1 (xs @ [y])"
    using push_holds [OF Cons.prems] by blast
  then show ?case
    using Cons.IH [of s1 "xs @ [y]"] by simp
qed simp

lemma drain_run_holds:
  "holds s (xs @ ys) \<Longrightarrow> \<exists>s'. drain_run show_first drop_first (length xs) s = Inr (xs, s') \<and> holds s' ys"
proof (induction xs arbitrary: s)
  case (Cons x xs)
  obtain s1 where "drop_first s = Inr s1" "holds s1 (xs @ ys)"
    using drop_holds [of s x "xs @ ys"] Cons.prems by auto
  then show ?case
    using Cons.IH [of s1] show_holds [of s x "xs @ ys"] Cons.prems by auto
qed simp

lemma fifo:
  assumes "holds s xs" and "n \<le> length (xs @ ys)"
  shows "\<exists>s1 s2. push_run push_end ys s = Inr s1 \<and>
    drain_run show_first drop_first n s1 = Inr (take n (xs @ ys), s2) \<and> holds s2 (drop n (xs @ ys))"
proof -
  obtain s1 where s1: "push_run push_end ys s = Inr s1" "holds s1 (take n (xs @ ys) @ drop n (xs @ ys))"
    using push_run_holds [OF assms(1), of ys] by (auto simp del: take_append drop_append)
  then show ?thesis
    using drain_run_holds [OF s1(2)] assms(2) by (auto simp del: take_append drop_append)
qed

end

definition queue_rep :: "llist \<times> 'a lheap \<Rightarrow> 'a list \<Rightarrow> bool" where
  "queue_rep st xs \<longleftrightarrow> heap_ok (snd st) \<and> (\<exists>as. list_rep (snd st) (fst st) as xs)"

lemma becomes_queue_rep: "list_becomes h l as r xs \<Longrightarrow> \<exists>st. r = Inr st \<and> queue_rep st xs"
  unfolding list_becomes_def queue_rep_def by fastforce

interpretation list_queue: queue_store queue_rep "\<lambda>x (q, h). queue_push x q h" "\<lambda>(q, h). queue_pop q h"
  "\<lambda>(q, h). queue_front h q"
proof
  fix s :: "llist \<times> 'a lheap" and xs x
  obtain q h where s: "s = (q, h)"
    by (cases s)
  show "\<exists>s'. (case s of (q, h) \<Rightarrow> queue_push x q h) = Inr s' \<and> queue_rep s' (xs @ [x])" if r: "queue_rep s xs"
  proof -
    from r s obtain as where "heap_ok h" "list_rep h q as xs"
      by (auto simp: queue_rep_def)
    from becomes_queue_rep [OF becomes_push_back [OF this]] show ?thesis
      by (simp add: s queue_push_def)
  qed
  assume r: "queue_rep s (x # xs)"
  from r s obtain as where rep: "heap_ok h" "list_rep h q as (x # xs)"
    by (auto simp: queue_rep_def)
  from becomes_queue_rep [OF becomes_pop_front [OF this]]
  show "\<exists>s'. (case s of (q, h) \<Rightarrow> queue_pop q h) = Inr s' \<and> queue_rep s' xs"
    by (simp add: s queue_pop_def)
  show "(case s of (q, h) \<Rightarrow> queue_front h q) = Inr x"
    using list_ends_rep(1) [OF rep(2)] list_empty_rep [OF rep(2)] by (simp add: s queue_front_def queue_empty_def)
qed

section \<open>The properties\<close>

text \<open>
  C18: Every operation of the list is its function on the sequence of elements, for any position: it
  frees exactly the removed nodes, allocates only its new ones, and leaves all other nodes of the
  heap alone.  An iterator of another list is refused, and removing at the end changes nothing.
\<close>

theorem list_ops_correct:
  assumes h: "heap_ok h" and rep: "list_rep h l (as @ bs) (xs @ ys)" and len: "length as = length xs"
  shows "list_becomes h l (as @ bs)
      (res_bind (list_insert \<lparr>it_node = node_of l bs, it_owner = l_head l\<rparr> x l h) (\<lambda>(it, st). Inr st)) (xs @ x # ys) \<and>
    list_becomes h l (as @ bs)
      (res_bind (list_erase \<lparr>it_node = node_of l bs, it_owner = l_head l\<rparr> l h) (\<lambda>(it, st). Inr st)) (xs @ tl ys) \<and>
    list_becomes h l (as @ bs) (list_push_back x l h) (xs @ ys @ [x]) \<and>
    list_becomes h l (as @ bs) (list_push_front x l h) (x # xs @ ys) \<and>
    list_becomes h l (as @ bs) (list_pop_back l h) (butlast (xs @ ys)) \<and>
    list_becomes h l (as @ bs) (res_bind (list_pop_front l h) (\<lambda>(it, st). Inr st)) (tl (xs @ ys)) \<and>
    list_becomes h l (as @ bs) (list_resize n x l h)
      (take n (xs @ ys) @ replicate (n - length (xs @ ys)) x) \<and>
    list_empty h l = Inr (xs @ ys = []) \<and> l_size l = length (xs @ ys) \<and>
    (xs @ ys \<noteq> [] \<longrightarrow> list_front h l = Inr (hd (xs @ ys)) \<and> list_back h l = Inr (last (xs @ ys))) \<and>
    (it_owner i \<noteq> l_head l \<longrightarrow>
      list_insert i x l h =
        Inl (ListThrows (InvalidArgument ''list insertion iterator does not belong to this list'')) \<and>
      list_erase i l h =
        Inl (ListThrows (InvalidArgument ''list erase iterator does not belong to this list'')))"
proof -
  have er: "list_becomes h l (as @ bs)
      (res_bind (list_erase \<lparr>it_node = node_of l bs, it_owner = l_head l\<rparr> l h) (\<lambda>(it, st). Inr st)) (xs @ tl ys)"
  proof (cases bs)
    case Nil
    then have "ys = []"
      using list_rep_length [OF rep] len by simp
    then show ?thesis
      using Nil list_erase_end [OF h rep] becomes_refl [OF h rep] by (simp add: list_end_def node_of_def)
  next
    case (Cons c cs)
    then obtain y zs where "ys = y # zs"
      using list_rep_length [OF rep] len by (cases ys) auto
    then show ?thesis
      using becomes_erase [OF h, of l as c cs xs y zs] rep len Cons by (simp add: node_of_def)
  qed
  have sz: "l_size l = length (xs @ ys)"
    using rep by (simp add: list_rep_def)
  show ?thesis
    by (intro conjI impI becomes_insert [OF h rep len] er becomes_push_back [OF h rep, simplified]
        becomes_push_front [OF h rep] becomes_pop_back [OF h rep] becomes_pop_front [OF h rep]
        becomes_resize [OF h rep] list_empty_rep [OF rep] sz list_ends_rep [OF rep])
       (simp_all add: list_insert_def list_erase_def)
qed

theorem list_ops_correct_witness:
  "let h = \<lparr>lcells = [1 \<mapsto> \<lparr>ln_prev = 2, ln_next = 2, ln_data = None\<rparr>,
                       2 \<mapsto> \<lparr>ln_prev = 1, ln_next = 1, ln_data = Some (5 :: int)\<rparr>], lfresh = 3\<rparr>;
       l = \<lparr>l_head = 1, l_size = 1\<rparr>
   in list_becomes h l [2] (list_push_front 7 l h) [7, 5] \<and> list_back h l = Inr 5"
proof -
  let ?h = "\<lparr>lcells = [1 \<mapsto> \<lparr>ln_prev = 2, ln_next = 2, ln_data = None\<rparr>,
                       2 \<mapsto> \<lparr>ln_prev = 1, ln_next = 1, ln_data = Some (5 :: int)\<rparr>], lfresh = 3\<rparr>"
  have "heap_ok ?h" "list_rep ?h \<lparr>l_head = 1, l_size = 1\<rparr> ([] @ [2]) ([] @ [5])"
    by (simp_all add: heap_ok_def list_rep_def nx_def pv_def el_def)
  from list_ops_correct [OF this, of 7] show ?thesis
    by (simp add: Let_def)
qed

text \<open>
  C17: Every loop of the list ends, and does what it is for: clearing and destroying free exactly the
  nodes of the list, copies and sums are new lists with the right elements, assignment replaces the
  elements without leaking, appending a list, also to itself, appends its elements, and the output
  shows them in order.  The other lists of the heap keep their elements.
\<close>

theorem list_loops_end:
  assumes h: "heap_ok h" and rep: "list_rep h l as xs" and src: "list_rep h m bs ys" and ap: "apart l as m bs"
  shows "(\<exists>r. list_clear l h = Some r \<and> list_becomes h l as r []) \<and>
    (\<exists>h'. list_destroy l h = Some (Inr h') \<and> dom (lcells h') = dom (lcells h) - list_nodes l as \<and>
       list_rep h' m bs ys) \<and>
    list_built h (list_copy m h) ys \<and> list_built h (list_plus l m h) (xs @ ys) \<and>
    (\<exists>l' h' as'. list_assign (OtherList m) l h = Some (Inr (l', h')) \<and> list_rep h' l' as' ys \<and>
       list_rep h' m bs ys \<and> dom (lcells h') = dom (lcells h) - list_nodes l as \<union> list_nodes l' as') \<and>
    (\<exists>r. list_assign_list zs l h = Some r \<and> list_becomes h l as r zs) \<and>
    (\<exists>r. list_plus_assign (OtherList m) l h = Some r \<and> list_becomes h l as r (xs @ ys)) \<and>
    (\<exists>r. list_plus_assign SameList l h = Some r \<and> list_becomes h l as r (xs @ xs)) \<and>
    list_output shown l h = Some (Inr (concat (map (\<lambda>x. shown x @ '' '') xs)))"
proof -
  have other: "list_rep h' m bs ys" if "only_changes (list_nodes l as) h h'" for h'
    using list_rep_changes [OF src that _ h] ap by (simp add: apart_def)
  have "\<exists>h'. list_destroy l h = Some (Inr h') \<and> dom (lcells h') = dom (lcells h) - list_nodes l as \<and>
      list_rep h' m bs ys"
    using list_destroy_rep [OF h rep] other by metis
  moreover have "\<exists>l' h' as'. list_assign (OtherList m) l h = Some (Inr (l', h')) \<and> list_rep h' l' as' ys \<and>
      list_rep h' m bs ys \<and> dom (lcells h') = dom (lcells h) - list_nodes l as \<union> list_nodes l' as'"
    using built_assign [OF h rep src] other by blast
  moreover have "\<exists>r. list_plus_assign (OtherList m) l h = Some r \<and> list_becomes h l as r (xs @ ys)"
    using becomes_append [OF h src rep ap] by (simp add: list_plus_assign_def)
  moreover have "list_output shown l h = Some (Inr (concat (map (\<lambda>x. shown x @ '' '') xs)))"
    using output_range_rep [OF h, of l "[]" as "[]" xs shown "[]"] rep
    by (simp add: list_output_def list_begin_rep [OF rep])
  ultimately show ?thesis
    using becomes_clear [OF h rep] built_copy [OF h src] built_plus [OF h rep src]
      becomes_assign_list [OF h rep] becomes_plus_assign_self [OF h rep] by blast
qed

theorem list_loops_end_witness:
  "let h = \<lparr>lcells = [1 \<mapsto> \<lparr>ln_prev = 2, ln_next = 2, ln_data = None\<rparr>,
                       2 \<mapsto> \<lparr>ln_prev = 1, ln_next = 1, ln_data = Some (5 :: int)\<rparr>,
                       3 \<mapsto> \<lparr>ln_prev = 3, ln_next = 3, ln_data = None\<rparr>], lfresh = 4\<rparr>;
       l = \<lparr>l_head = 1, l_size = 1\<rparr>
   in \<exists>r. list_plus_assign SameList l h = Some r \<and> list_becomes h l [2] r [5, 5]"
proof -
  let ?h = "\<lparr>lcells = [1 \<mapsto> \<lparr>ln_prev = 2, ln_next = 2, ln_data = None\<rparr>,
                       2 \<mapsto> \<lparr>ln_prev = 1, ln_next = 1, ln_data = Some (5 :: int)\<rparr>,
                       3 \<mapsto> \<lparr>ln_prev = 3, ln_next = 3, ln_data = None\<rparr>], lfresh = 4\<rparr>"
  have "heap_ok ?h" "list_rep ?h \<lparr>l_head = 1, l_size = 1\<rparr> [2] [5]"
    "list_rep ?h \<lparr>l_head = 3, l_size = 0\<rparr> [] []" "apart \<lparr>l_head = 1, l_size = 1\<rparr> [2] \<lparr>l_head = 3, l_size = 0\<rparr> []"
    by (simp_all add: heap_ok_def list_rep_def nx_def pv_def el_def apart_def list_nodes_def)
  from list_loops_end [OF this] show ?thesis
    by (simp add: Let_def)
qed

text \<open>
  First in, first out: whatever is pushed comes out in the same order, and \<open>Front\<close> of an empty
  queue throws \<open>out_of_range\<close> while \<open>Pop\<close> changes nothing.
\<close>

theorem queue_fifo:
  assumes "queue_rep (q, h) xs" and "n \<le> length (xs @ ys)"
  shows "(\<exists>s1 s2. push_run (\<lambda>x (q, h). queue_push x q h) ys (q, h) = Inr s1 \<and>
      drain_run (\<lambda>(q, h). queue_front h q) (\<lambda>(q, h). queue_pop q h) n s1 = Inr (take n (xs @ ys), s2) \<and>
      queue_rep s2 (drop n (xs @ ys))) \<and>
    (xs = [] \<longrightarrow> queue_front h q = Inl (ListThrows (OutOfRange ''Queue::Front called on an empty queue'')) \<and>
       queue_back h q = Inl (ListThrows (OutOfRange ''Queue::Back called on an empty queue'')) \<and>
       queue_pop q h = Inr (q, h)) \<and>
    queue_size q = length xs"
proof -
  obtain as where rep: "list_rep h q as xs"
    using assms(1) by (auto simp: queue_rep_def)
  have "queue_size q = length xs"
    using rep by (simp add: queue_size_def list_rep_def)
  then show ?thesis
    using list_queue.fifo [OF assms] list_empty_rep [OF rep]
    by (simp add: queue_front_def queue_back_def queue_empty_def queue_pop_def list_pop_front_def)
qed

theorem queue_fifo_witness:
  "\<exists>s1 s2. push_run (\<lambda>x (q, h). queue_push x q h) [4, 5, 6 :: int]
      (\<lparr>l_head = 1, l_size = 0\<rparr>, \<lparr>lcells = [1 \<mapsto> \<lparr>ln_prev = 1, ln_next = 1, ln_data = None\<rparr>], lfresh = 2\<rparr>) = Inr s1 \<and>
    drain_run (\<lambda>(q, h). queue_front h q) (\<lambda>(q, h). queue_pop q h) 2 s1 = Inr ([4, 5], s2)"
proof -
  have "queue_rep (\<lparr>l_head = 1, l_size = 0\<rparr>,
      \<lparr>lcells = [1 \<mapsto> \<lparr>ln_prev = 1, ln_next = 1, ln_data = None\<rparr>], lfresh = 2\<rparr>) ([] :: int list)"
    by (auto simp: queue_rep_def heap_ok_def list_rep_def nx_def pv_def el_def)
  from queue_fifo [OF this, of 2 "[4, 5, 6]"] show ?thesis
    by auto
qed

end
