(* ===== verification/Executors.thy ===== *)
theory Executors
  imports Prelude
begin

text \<open>
  The thread pool \<open>Executor\<close> (\<open>Wan/Web/Core/Executor.hpp\<close>) around one \<open>io_context\<close>, with any
  number of client threads and with the worker threads that \<open>Run\<close> creates.  One step of a thread
  is one section under a mutex or one call of the \<open>io_context\<close>; the steps of all threads interleave
  freely.  Of the \<open>io_context\<close> the model keeps whether it is stopped, whether its work guard is
  held, and how many handlers are ready: in \<open>run()\<close> a worker blocks until there is a handler, or the context is
  stopped, or the guard is gone and nothing is left.  A handler may end, throw, or call the executor itself; handlers
  become ready at any time (\<open>exec_move\<close>).  Creating a thread may fail with any exception.  The
  properties hold for every interleaving.
\<close>

section \<open>Thread count\<close>

text \<open>\<open>detected\<close> is \<open>hardware_concurrency()\<close>, 0 when it cannot be found out.\<close>

definition default_thread_count :: "nat \<Rightarrow> nat" where
  "default_thread_count detected = max 1 detected"

definition resolve_thread_count :: "nat \<Rightarrow> nat \<Rightarrow> nat res" where
  "resolve_thread_count detected threads =
     (let effective = (if 0 < threads then threads else default_thread_count detected) in
      if 2 ^ 31 - 1 < effective
      then Inl (InvalidArgument ''executor thread count exceeds the Asio limit'')
      else Inr effective)"

section \<open>State\<close>

datatype lifecycle = Created | Starting | Running | Stopping | Joining | Joined

record exec =
  ex_threads :: nat
  ex_workers :: "nat list"
  ex_state :: lifecycle
  ex_stop_requested :: bool
  ex_guard :: bool
  ex_ioc_stopped :: bool
  ex_failure :: "exn option"
  ex_jobs :: nat

definition exec_new :: "nat \<Rightarrow> exec" where
  "exec_new n = \<lparr>ex_threads = n, ex_workers = [], ex_state = Created, ex_stop_requested = False,
                 ex_guard = True, ex_ioc_stopped = False, ex_failure = None, ex_jobs = 0\<rparr>"

definition exec_make :: "nat \<Rightarrow> nat \<Rightarrow> exec res" where
  "exec_make detected threads = res_bind (resolve_thread_count detected threads) (\<lambda>n. Inr (exec_new n))"

text \<open>
  Where a thread stands.  A worker is in \<open>InRun\<close> while \<open>io_context::run\<close> looks for a handler, and in \<open>InHandler\<close> while one
  of its handlers runs and does not call the executor.
\<close>

datatype pc =
    CallRun | RunLaunch nat | RunCaught exn | RunJoin exn "nat list" | RunFinish
  | CallJoin | JoinWorkers "nat list" | Report
  | CallStop
  | CallDrain | DrainReset | DrainLoop | DrainRecord exn | DrainStop
  | InRun | InHandler | Record exn bool | RecordStop bool | Exited
  | Returned | Threw exn

type_synonym thread = "bool \<times> pc"

definition exited :: "thread list \<Rightarrow> nat \<Rightarrow> bool" where
  "exited ts k \<longleftrightarrow> k < length ts \<and> snd (ts ! k) = Exited"

section \<open>Sections under the mutexes\<close>

definition ex_stop :: "exec \<Rightarrow> exec" where
  "ex_stop s =
     (let s1 = (case ex_state s of
          Created \<Rightarrow> s\<lparr>ex_state := Stopping\<rparr>
        | Starting \<Rightarrow> s\<lparr>ex_stop_requested := True\<rparr>
        | Running \<Rightarrow> s\<lparr>ex_state := Stopping\<rparr>
        | _ \<Rightarrow> s) in
      if ex_state s1 = Joined then s1 else s1\<lparr>ex_guard := False, ex_ioc_stopped := True\<rparr>)"

definition record_failure :: "exn \<Rightarrow> exec \<Rightarrow> exec" where
  "record_failure e s = (if ex_failure s = None then s\<lparr>ex_failure := Some e\<rparr> else s)"

text \<open>
  The end of a call: a client thread has returned or thrown; on a worker the handler goes on, or its
  exception leaves \<open>io_context::run\<close> and is recorded.
\<close>

definition leave :: "bool \<Rightarrow> exn option \<Rightarrow> pc" where
  "leave worker r = (case r of
       None \<Rightarrow> (if worker then InHandler else Returned)
     | Some e \<Rightarrow> (if worker then Record e False else Threw e))"

section \<open>Steps\<close>

text \<open>
  \<open>act i w s ts p s' p'\<close>: the thread \<open>i\<close>, a worker if \<open>w\<close>, goes from \<open>p\<close> to \<open>p'\<close>
  while the others stand as in \<open>ts\<close>.  \<open>Record e b\<close> is \<open>RecordWorkerFailure\<close>; it is
  called in the worker function (\<open>b\<close> is false) and by the completion handler of \<open>Spawn\<close>.
\<close>

inductive act :: "nat \<Rightarrow> bool \<Rightarrow> exec \<Rightarrow> thread list \<Rightarrow> pc \<Rightarrow> exec \<Rightarrow> pc \<Rightarrow> bool" where
  run_start: "ex_state s = Created \<Longrightarrow> act i w s ts CallRun (s\<lparr>ex_state := Starting\<rparr>) (RunLaunch 0)"
| run_refused: "ex_state s \<noteq> Created \<Longrightarrow>
    act i w s ts CallRun s (leave w (Some (LogicError ''executor can only be started once'')))"
| launch_fails: "n < ex_threads s \<Longrightarrow> act i w s ts (RunLaunch n) s (RunCaught e)"
| launched: "ex_threads s \<le> n \<Longrightarrow> act i w s ts (RunLaunch n) s RunFinish"
| run_finish: "act i w s ts RunFinish
    (s\<lparr>ex_state := if ex_stop_requested s then Stopping else Running\<rparr>) (leave w None)"
| run_caught: "act i w s ts (RunCaught e) (ex_stop s) (RunJoin e (ex_workers s))"
| run_join: "exited ts k \<Longrightarrow> act i w s ts (RunJoin e (k # ks)) s (RunJoin e ks)"
| run_failed: "act i w s ts (RunJoin e []) (s\<lparr>ex_state := Joined\<rparr>) (leave w (Some e))"
| join_again: "ex_state s = Joined \<Longrightarrow> act i w s ts CallJoin s Report"
| join_busy: "ex_state s = Joining \<Longrightarrow>
    act i w s ts CallJoin s (leave w (Some (LogicError ''executor Join is already in progress'')))"
| join_self: "\<lbrakk>ex_state s \<notin> {Starting, Joining, Joined}; i \<in> set (ex_workers s)\<rbrakk> \<Longrightarrow>
    act i w s ts CallJoin s (leave w (Some (LogicError ''executor worker cannot join itself'')))"
| join_take: "\<lbrakk>ex_state s \<notin> {Starting, Joining, Joined}; i \<notin> set (ex_workers s)\<rbrakk> \<Longrightarrow>
    act i w s ts CallJoin (s\<lparr>ex_state := Joining, ex_workers := []\<rparr>) (JoinWorkers (ex_workers s))"
| join_one: "exited ts k \<Longrightarrow> act i w s ts (JoinWorkers (k # ks)) s (JoinWorkers ks)"
| join_end: "act i w s ts (JoinWorkers []) (s\<lparr>ex_state := Joined\<rparr>) Report"
| report: "act i w s ts Report (s\<lparr>ex_failure := None\<rparr>) (leave w (ex_failure s))"
| stop: "act i w s ts CallStop (ex_stop s) (leave w None)"
| drain_refused: "ex_state s \<noteq> Joined \<Longrightarrow>
    act i w s ts CallDrain s (leave w (Some (LogicError ''executor can only drain after Join'')))"
| drain_start: "ex_state s = Joined \<Longrightarrow> act i w s ts CallDrain s DrainReset"
| drain_reset: "act i w s ts DrainReset (s\<lparr>ex_guard := False, ex_ioc_stopped := False\<rparr>) DrainLoop"
| drain_ran: "act i w s ts DrainLoop (s\<lparr>ex_jobs := 0\<rparr>) Report"
| drain_threw: "act i w s ts DrainLoop s (DrainRecord e)"
| drain_record: "act i w s ts (DrainRecord e) (record_failure e s) DrainStop"
| drain_stop: "act i w s ts DrainStop (ex_stop s) DrainLoop"
| worker_ran: "ex_ioc_stopped s \<or> \<not> ex_guard s \<and> ex_jobs s = 0 \<Longrightarrow> act i w s ts InRun s Exited"
| worker_takes: "\<lbrakk>\<not> ex_ioc_stopped s; 0 < ex_jobs s\<rbrakk> \<Longrightarrow> act i w s ts InRun (s\<lparr>ex_jobs := ex_jobs s - 1\<rparr>) InHandler"
| handler_ends: "act i w s ts InHandler s InRun"
| handler_threw: "act i w s ts InHandler s (Record e False)"
| handler_spawned: "act i w s ts InHandler s (Record e True)"
| handler_calls: "p \<in> {CallRun, CallJoin, CallStop, CallDrain} \<Longrightarrow> act i w s ts InHandler s p"
| recorded: "act i w s ts (Record e b) (record_failure e s) (RecordStop b)"
| record_stop: "act i w s ts (RecordStop b) (ex_stop s) (if b then InHandler else Exited)"

inductive_cases act_cases: "act i w s ts p s' p'"

text \<open>Steps of the whole: an act of one thread, or the creation of a worker by \<open>Run\<close>.\<close>

inductive exec_step :: "exec \<times> thread list \<Rightarrow> exec \<times> thread list \<Rightarrow> bool" where
  act: "\<lbrakk>i < length ts; ts ! i = (w, p); act i w s ts p s' p'\<rbrakk> \<Longrightarrow>
    exec_step (s, ts) (s', ts[i := (w, p')])"
| spawn: "\<lbrakk>i < length ts; ts ! i = (w, RunLaunch n); n < ex_threads s\<rbrakk> \<Longrightarrow>
    exec_step (s, ts) (s\<lparr>ex_workers := ex_workers s @ [length ts]\<rparr>,
                       ts[i := (w, RunLaunch (Suc n))] @ [(True, InRun)])"

text \<open>The client threads that may call the executor.\<close>

definition entering :: "thread \<Rightarrow> bool" where
  "entering t \<longleftrightarrow> t \<in> {(False, CallRun), (False, CallJoin), (False, CallStop), (False, CallDrain)}"

text \<open>A handler becomes ready: it is posted, or an operation it waits for completes.\<close>

inductive exec_move :: "exec \<times> thread list \<Rightarrow> exec \<times> thread list \<Rightarrow> bool" where
  own: "exec_step st st' \<Longrightarrow> exec_move st st'"
| ready: "exec_move (s, ts) (s\<lparr>ex_jobs := Suc (ex_jobs s)\<rparr>, ts)"

definition exec_reachable :: "nat \<Rightarrow> thread list \<Rightarrow> exec \<times> thread list \<Rightarrow> bool" where
  "exec_reachable n ts0 st \<longleftrightarrow> (\<forall>t \<in> set ts0. entering t) \<and> exec_move\<^sup>*\<^sup>* (exec_new n, ts0) st"

section \<open>The invariant\<close>

fun launching :: "pc \<Rightarrow> bool" where
  "launching (RunLaunch n) = True"
| "launching (RunCaught e) = True"
| "launching (RunJoin e ks) = True"
| "launching RunFinish = True"
| "launching p = False"

fun joining :: "pc \<Rightarrow> nat list option" where
  "joining (JoinWorkers ks) = Some ks"
| "joining p = None"

fun worker_pc :: "pc \<Rightarrow> bool" where
  "worker_pc InRun = True"
| "worker_pc InHandler = True"
| "worker_pc (Record e b) = True"
| "worker_pc (RecordStop b) = True"
| "worker_pc Exited = True"
| "worker_pc p = False"

abbreviation pc_at :: "thread list \<Rightarrow> nat \<Rightarrow> pc" where "pc_at ts j \<equiv> snd (ts ! j)"
abbreviation is_worker :: "thread list \<Rightarrow> nat \<Rightarrow> bool" where "is_worker ts j \<equiv> fst (ts ! j)"

definition one_launcher :: "exec \<times> thread list \<Rightarrow> bool" where
  "one_launcher st \<longleftrightarrow> (case st of (s, ts) \<Rightarrow>
     (\<forall>j < length ts. launching (pc_at ts j) \<longrightarrow> ex_state s = Starting \<and> \<not> is_worker ts j) \<and>
     (\<forall>j < length ts. \<forall>k < length ts. launching (pc_at ts j) \<longrightarrow> launching (pc_at ts k) \<longrightarrow> j = k) \<and>
     (ex_state s = Starting \<longrightarrow> (\<exists>j < length ts. launching (pc_at ts j))))"

definition one_joiner :: "exec \<times> thread list \<Rightarrow> bool" where
  "one_joiner st \<longleftrightarrow> (case st of (s, ts) \<Rightarrow>
     (\<forall>j < length ts. joining (pc_at ts j) \<noteq> None \<longrightarrow> ex_state s = Joining) \<and>
     (\<forall>j < length ts. \<forall>k < length ts. joining (pc_at ts j) \<noteq> None \<longrightarrow> joining (pc_at ts k) \<noteq> None \<longrightarrow> j = k) \<and>
     (ex_state s = Joining \<longrightarrow> (\<exists>j < length ts. joining (pc_at ts j) \<noteq> None)))"

text \<open>Workers are created by the launcher only; they are known to the executor until they are joined.\<close>

definition workers_known :: "exec \<times> thread list \<Rightarrow> bool" where
  "workers_known st \<longleftrightarrow> (case st of (s, ts) \<Rightarrow>
     (ex_state s = Created \<longrightarrow> (\<forall>k < length ts. \<not> is_worker ts k)) \<and>
     (\<forall>k \<in> set (ex_workers s). k < length ts \<and> is_worker ts k) \<and>
     (\<forall>k < length ts. is_worker ts k \<longrightarrow> exited ts k \<or>
        (ex_state s \<noteq> Joining \<and> ex_state s \<noteq> Joined \<and> k \<in> set (ex_workers s)) \<or>
        (\<exists>j < length ts. \<exists>ks. joining (pc_at ts j) = Some ks \<and> k \<in> set ks)) \<and>
     (\<forall>j < length ts. \<forall>ks. joining (pc_at ts j) = Some ks \<longrightarrow> j \<notin> set ks \<and>
        (\<forall>k \<in> set ks. k < length ts \<and> is_worker ts k)) \<and>
     (\<forall>j < length ts. \<forall>e ks. pc_at ts j = RunJoin e ks \<longrightarrow> set ks \<subseteq> set (ex_workers s) \<and>
        (\<forall>k \<in> set (ex_workers s) - set ks. exited ts k)))"

definition pcs_ok :: "exec \<times> thread list \<Rightarrow> bool" where
  "pcs_ok st \<longleftrightarrow> (case st of (s, ts) \<Rightarrow>
     (\<forall>j < length ts. worker_pc (pc_at ts j) \<longrightarrow> is_worker ts j) \<and>
     (\<forall>j < length ts. is_worker ts j \<longrightarrow> pc_at ts j \<noteq> Returned \<and> (\<forall>e. pc_at ts j \<noteq> Threw e)))"

definition worker_count :: "thread list \<Rightarrow> nat" where
  "worker_count ts = length (filter id (map fst ts))"

definition count_ok :: "exec \<times> thread list \<Rightarrow> bool" where
  "count_ok st \<longleftrightarrow> (case st of (s, ts) \<Rightarrow>
     worker_count ts \<le> ex_threads s \<and> (\<forall>j < length ts. \<forall>n. pc_at ts j = RunLaunch n \<longrightarrow> worker_count ts = n))"

lemma leave_pc [simp]:
  "\<not> launching (leave w r)" "joining (leave w r) = None" "leave w r \<noteq> RunLaunch n" "leave w r \<noteq> RunJoin e ks"
  "worker_pc (leave w r) \<longleftrightarrow> w" "leave w r \<noteq> Exited"
  by (auto simp: leave_def split: option.splits)

lemma leave_pc_sym [simp]: "RunJoin e ks \<noteq> leave w r" "RunLaunch n \<noteq> leave w r" "Exited \<noteq> leave w r"
  by (auto simp: leave_def split: option.splits)

lemma leave_worker [simp]: "leave True r \<noteq> Returned" "leave True r \<noteq> Threw e"
  by (auto simp: leave_def split: option.splits)

lemma ex_stop_simps [simp]:
  "ex_workers (ex_stop s) = ex_workers s" "ex_threads (ex_stop s) = ex_threads s"
  "ex_failure (ex_stop s) = ex_failure s"
  "ex_state (ex_stop s) = Starting \<longleftrightarrow> ex_state s = Starting"
  "ex_state (ex_stop s) = Joining \<longleftrightarrow> ex_state s = Joining"
  "ex_state (ex_stop s) = Joined \<longleftrightarrow> ex_state s = Joined"
  "ex_state (ex_stop s) \<noteq> Created"
  by (auto simp: ex_stop_def Let_def split: lifecycle.splits)

lemma record_failure_simps [simp]:
  "ex_workers (record_failure e s) = ex_workers s" "ex_threads (record_failure e s) = ex_threads s"
  "ex_state (record_failure e s) = ex_state s"
  by (simp_all add: record_failure_def)

lemma pc_at_update [simp]:
  "i < length ts \<Longrightarrow> pc_at (ts[i := (w, p)]) j = (if j = i then p else pc_at ts j)"
  by (auto simp: nth_list_update)

lemma is_worker_update [simp]:
  "i < length ts \<Longrightarrow> ts ! i = (w, p) \<Longrightarrow> is_worker (ts[i := (w, p')]) j = is_worker ts j"
  by (auto simp: nth_list_update)

lemma act_not_exited: "act i w s ts p s' p' \<Longrightarrow> p \<noteq> Exited"
  by (auto elim: act.cases)

lemma exited_update:
  "i < length ts \<Longrightarrow> ts ! i = (w, p) \<Longrightarrow> p \<noteq> Exited \<Longrightarrow>
   exited (ts[i := (w, p')]) k \<longleftrightarrow> (exited ts k \<or> (k = i \<and> p' = Exited))"
  by (auto simp: exited_def)

lemma workers_knownD:
  assumes "workers_known (s, ts)"
  shows "ex_state s = Created \<Longrightarrow> k < length ts \<Longrightarrow> \<not> is_worker ts k"
    and "k \<in> set (ex_workers s) \<Longrightarrow> k < length ts \<and> is_worker ts k"
    and "k < length ts \<Longrightarrow> is_worker ts k \<Longrightarrow> exited ts k \<or>
        (ex_state s \<noteq> Joining \<and> ex_state s \<noteq> Joined \<and> k \<in> set (ex_workers s)) \<or>
        (\<exists>j < length ts. \<exists>ks. joining (pc_at ts j) = Some ks \<and> k \<in> set ks)"
    and "j < length ts \<Longrightarrow> joining (pc_at ts j) = Some ks \<Longrightarrow> j \<notin> set ks"
    and "j < length ts \<Longrightarrow> joining (pc_at ts j) = Some ks \<Longrightarrow> k \<in> set ks \<Longrightarrow> k < length ts \<and> is_worker ts k"
    and "j < length ts \<Longrightarrow> pc_at ts j = RunJoin e ks \<Longrightarrow> set ks \<subseteq> set (ex_workers s)"
    and "j < length ts \<Longrightarrow> pc_at ts j = RunJoin e ks \<Longrightarrow> k \<in> set (ex_workers s) \<Longrightarrow> k \<notin> set ks \<Longrightarrow> exited ts k"
  using assms unfolding workers_known_def prod.case by blast+

lemma one_joinerD:
  assumes "one_joiner (s, ts)"
  shows "j < length ts \<Longrightarrow> joining (pc_at ts j) \<noteq> None \<Longrightarrow> ex_state s = Joining"
    and "ex_state s = Joining \<Longrightarrow> \<exists>j < length ts. joining (pc_at ts j) \<noteq> None"
  using assms unfolding one_joiner_def prod.case by blast+

lemma one_launcherD:
  assumes "one_launcher (s, ts)"
  shows "j < length ts \<Longrightarrow> launching (pc_at ts j) \<Longrightarrow> ex_state s = Starting \<and> \<not> is_worker ts j"
    and "j < length ts \<Longrightarrow> k < length ts \<Longrightarrow> launching (pc_at ts j) \<Longrightarrow> launching (pc_at ts k) \<Longrightarrow> j = k"
    and "ex_state s = Starting \<Longrightarrow> \<exists>j < length ts. launching (pc_at ts j)"
  using assms unfolding one_launcher_def prod.case by blast+

lemma workers_knownI:
  assumes "\<And>k. ex_state s = Created \<Longrightarrow> k < length ts \<Longrightarrow> \<not> is_worker ts k"
    and "\<And>k. k \<in> set (ex_workers s) \<Longrightarrow> k < length ts \<and> is_worker ts k"
    and "\<And>k. k < length ts \<Longrightarrow> is_worker ts k \<Longrightarrow> exited ts k \<or>
        (ex_state s \<noteq> Joining \<and> ex_state s \<noteq> Joined \<and> k \<in> set (ex_workers s)) \<or>
        (\<exists>j < length ts. \<exists>ks. joining (pc_at ts j) = Some ks \<and> k \<in> set ks)"
    and "\<And>j ks. j < length ts \<Longrightarrow> joining (pc_at ts j) = Some ks \<Longrightarrow> j \<notin> set ks"
    and "\<And>j ks k. j < length ts \<Longrightarrow> joining (pc_at ts j) = Some ks \<Longrightarrow> k \<in> set ks \<Longrightarrow> k < length ts \<and> is_worker ts k"
    and "\<And>j e ks. j < length ts \<Longrightarrow> pc_at ts j = RunJoin e ks \<Longrightarrow> set ks \<subseteq> set (ex_workers s)"
    and "\<And>j e ks k. j < length ts \<Longrightarrow> pc_at ts j = RunJoin e ks \<Longrightarrow> k \<in> set (ex_workers s) \<Longrightarrow> k \<notin> set ks \<Longrightarrow>
        exited ts k"
  shows "workers_known (s, ts)"
  unfolding workers_known_def prod.case
proof (intro conjI allI impI ballI)
  fix k
  assume "k < length ts" "is_worker ts k"
  then show "exited ts k \<or>
        ex_state s \<noteq> Joining \<and> ex_state s \<noteq> Joined \<and> k \<in> set (ex_workers s) \<or>
        (\<exists>j<length ts. \<exists>ks. joining (pc_at ts j) = Some ks \<and> k \<in> set ks)"
    using assms(3) by blast
next
  fix j e ks k
  assume "j < length ts" "pc_at ts j = RunJoin e ks" "k \<in> set (ex_workers s) - set ks"
  then show "exited ts k"
    using assms(7) by blast
next
  fix k
  assume "k \<in> set (ex_workers s)"
  from assms(2) [OF this] show "k < length ts" "is_worker ts k"
    by simp_all
next
  fix j ks k
  assume "j < length ts" "joining (pc_at ts j) = Some ks" "k \<in> set ks"
  from assms(5) [OF this] show "k < length ts" "is_worker ts k"
    by simp_all
qed (fact assms(1) assms(4) assms(6))+

lemma one_launcher_act:
  assumes inv: "one_launcher (s, ts)" "workers_known (s, ts)" "pcs_ok (s, ts)"
    and i: "i < length ts" "ts ! i = (w, p)" and a: "act i w s ts p s' p'"
    and J: "joining p \<noteq> None \<Longrightarrow> ex_state s = Joining"
  shows "one_launcher (s', ts[i := (w, p')])"
proof -
  have at: "pc_at ts i = p" "is_worker ts i = w"
    using i(2) by simp_all
  have L: "launching (pc_at ts j) \<Longrightarrow> ex_state s = Starting \<and> \<not> is_worker ts j"
    and U: "launching (pc_at ts j) \<Longrightarrow> launching (pc_at ts k) \<Longrightarrow> j = k"
    if "j < length ts" "k < length ts" for j k
    using inv(1) that unfolding one_launcher_def prod.case by blast+
  have E: "ex_state s = Starting \<Longrightarrow> \<exists>j < length ts. launching (pc_at ts j)"
    using inv(1) by (simp add: one_launcher_def)
  have C: "ex_state s = Created \<Longrightarrow> \<not> w"
    using workers_knownD(1) [OF inv(2) _ i(1)] at by simp
  let ?ts = "ts[i := (w, p')]"
  have len: "length ?ts = length ts" and wk: "is_worker ?ts j = is_worker ts j" for j
    using i by simp_all
  have keep: "one_launcher (s', ?ts)"
    if "launching p' \<longleftrightarrow> launching p" "ex_state s' = Starting \<longleftrightarrow> ex_state s = Starting"
  proof -
    have eq: "launching (pc_at ?ts j) \<longleftrightarrow> launching (pc_at ts j)" for j
      using that(1) i at by simp
    show ?thesis
      using inv(1) unfolding one_launcher_def prod.case len wk eq that(2) .
  qed
  have start: "one_launcher (s', ?ts)"
    if "launching p'" "ex_state s = Created" "ex_state s' = Starting"
  proof -
    have "\<not> launching (pc_at ts j)" if "j < length ts" for j
      using L [of j j] that \<open>ex_state s = Created\<close> by auto
    then have eq: "launching (pc_at ?ts j) \<longleftrightarrow> j = i" if "j < length ts" for j
      using that \<open>launching p'\<close> i by simp
    show ?thesis
      using C that eq at i(1) unfolding one_launcher_def prod.case len wk by auto
  qed
  have finish: "one_launcher (s', ?ts)"
    if "\<not> launching p'" "launching p" "ex_state s' \<noteq> Starting"
  proof -
    have eq: "\<not> launching (pc_at ?ts j)" if "j < length ts" for j
      using U [of j i] that \<open>launching p\<close> \<open>\<not> launching p'\<close> i at by auto
    show ?thesis
      using eq that(3) unfolding one_launcher_def prod.case len wk by auto
  qed
  have lp: "launching p \<Longrightarrow> ex_state s = Starting"
    using L [of i i] i at by simp
  from a show ?thesis
  proof cases
    case run_start
    then show ?thesis by (intro start) auto
  next
    case run_finish
    then show ?thesis by (intro finish) auto
  next
    case run_failed
    then show ?thesis by (intro finish) auto
  qed (rule keep; use lp J in auto)+
qed

lemma one_joiner_act:
  assumes inv: "one_joiner (s, ts)"
    and i: "i < length ts" "ts ! i = (w, p)" and a: "act i w s ts p s' p'"
    and L: "launching p \<Longrightarrow> ex_state s = Starting"
  shows "one_joiner (s', ts[i := (w, p')])"
proof -
  have at: "pc_at ts i = p"
    using i(2) by simp
  let ?ts = "ts[i := (w, p')]"
  have len: "length ?ts = length ts"
    by simp
  have J: "joining (pc_at ts j) \<noteq> None \<Longrightarrow> ex_state s = Joining"
    and U: "joining (pc_at ts j) \<noteq> None \<Longrightarrow> joining (pc_at ts k) \<noteq> None \<Longrightarrow> j = k"
    if "j < length ts" "k < length ts" for j k
    using inv that unfolding one_joiner_def prod.case by blast+
  have jp: "joining p \<noteq> None \<Longrightarrow> ex_state s = Joining"
    using J [of i i] i at by simp
  have keep: "one_joiner (s', ?ts)"
    if "joining p' \<noteq> None \<longleftrightarrow> joining p \<noteq> None" "ex_state s' = Joining \<longleftrightarrow> ex_state s = Joining"
  proof -
    have eq: "joining (pc_at ?ts j) \<noteq> None \<longleftrightarrow> joining (pc_at ts j) \<noteq> None" for j
      using that(1) i at by simp
    show ?thesis
      using inv unfolding one_joiner_def prod.case len eq that(2) .
  qed
  have start: "one_joiner (s', ?ts)"
    if "joining p' \<noteq> None" "ex_state s \<noteq> Joining" "ex_state s' = Joining"
  proof -
    have "joining (pc_at ts j) = None" if "j < length ts" for j
      using J [of j j] that \<open>ex_state s \<noteq> Joining\<close> by blast
    then have eq: "joining (pc_at ?ts j) \<noteq> None \<longleftrightarrow> j = i" if "j < length ts" for j
      using that \<open>joining p' \<noteq> None\<close> i by simp
    show ?thesis
      using that(3) eq i(1) unfolding one_joiner_def prod.case len by blast
  qed
  have finish: "one_joiner (s', ?ts)"
    if "joining p' = None" "joining p \<noteq> None" "ex_state s' \<noteq> Joining"
  proof -
    have eq: "joining (pc_at ?ts j) = None" if "j < length ts" for j
    proof (cases "j = i")
      case False
      have "joining (pc_at ts i) \<noteq> None"
        unfolding at by fact
      then have "joining (pc_at ts j) = None"
        using U [OF that i(1)] False by blast
      then show ?thesis
        using False i by simp
    qed (use i \<open>joining p' = None\<close> in simp)
    show ?thesis
      unfolding one_joiner_def prod.case len
      by (intro conjI allI impI) (simp_all add: eq that(3))
  qed
  from a show ?thesis
  proof cases
    case join_take
    then show ?thesis by (intro start) auto
  next
    case join_end
    then show ?thesis by (intro finish) auto
  qed (rule keep; use jp L in auto)+
qed

lemma pcs_ok_act:
  assumes inv: "pcs_ok (s, ts)" and i: "i < length ts" "ts ! i = (w, p)" and a: "act i w s ts p s' p'"
  shows "pcs_ok (s', ts[i := (w, p')])"
proof -
  have at: "pc_at ts i = p" "is_worker ts i = w"
    using i(2) by simp_all
  have P: "worker_pc (pc_at ts j) \<Longrightarrow> is_worker ts j"
    and R: "is_worker ts j \<Longrightarrow> pc_at ts j \<noteq> Returned \<and> pc_at ts j \<noteq> Threw e" if "j < length ts" for j e
    using inv that unfolding pcs_ok_def prod.case by blast+
  have w: "worker_pc p \<Longrightarrow> w"
    using P [of i] i at by simp
  have "(worker_pc p' \<longrightarrow> w) \<and> (w \<longrightarrow> p' \<noteq> Returned \<and> (\<forall>e. p' \<noteq> Threw e))"
    using a w by cases auto
  then show ?thesis
    using P R i unfolding pcs_ok_def by simp
qed

text \<open>A joined executor has no running workers.\<close>

lemma workers_known_act:
  assumes inv: "workers_known (s, ts)" "one_launcher (s, ts)" "one_joiner (s, ts)" "pcs_ok (s, ts)"
    and i: "i < length ts" "ts ! i = (w, p)" and a: "act i w s ts p s' p'"
  shows "workers_known (s', ts[i := (w, p')])"
proof -
  let ?ts = "ts[i := (w, p')]"
  have at: "pc_at ts i = p" "is_worker ts i = w"
    using i(2) by simp_all
  have len: "length ?ts = length ts" and wk: "is_worker ?ts j = is_worker ts j" for j
    using i by simp_all
  have ex: "exited ?ts k \<longleftrightarrow> exited ts k \<or> (k = i \<and> p' = Exited)" for k
    using exited_update [OF i] act_not_exited [OF a] by simp
  note D = workers_knownD [OF inv(1)]
  have lp: "launching p \<Longrightarrow> ex_state s = Starting \<and> \<not> w"
    using inv(2) i at unfolding one_launcher_def prod.case by blast
  have jp: "joining p \<noteq> None \<Longrightarrow> ex_state s = Joining"
    using inv(3) i at unfolding one_joiner_def prod.case by blast
  have keep: "workers_known (s', ?ts)"
    if c: "ex_state s' = Created \<longrightarrow> ex_state s = Created" "ex_workers s' = ex_workers s"
      "ex_state s' = Joining \<or> ex_state s' = Joined \<longrightarrow> ex_state s = Joining \<or> ex_state s = Joined"
      "joining p' = joining p" "\<And>e ks. p' = RunJoin e ks \<Longrightarrow> set ks \<subseteq> set (ex_workers s) \<and>
        (\<forall>k \<in> set (ex_workers s) - set ks. exited ts k)"
  proof -
    have eq: "joining (pc_at ?ts j) = joining (pc_at ts j)" for j
      using c(4) i at by simp
    have rj: "set ks \<subseteq> set (ex_workers s) \<and> (\<forall>k \<in> set (ex_workers s) - set ks. exited ?ts k)"
      if "j < length ts" "pc_at ?ts j = RunJoin e ks" for j e ks
      using that c(5) D(6,7) [of j e ks] i ex by (cases "j = i") auto
    show ?thesis
      unfolding workers_known_def prod.case len wk eq c(2) ex
      using D(1-5) c(1,3) rj ex by blast
  qed
  have pj: "pc_at ?ts j = (if j = i then p' else pc_at ts j)" for j
    using i by simp
  note [simp del] = pc_at_update is_worker_update
  have no_launch: "pc_at ?ts j \<noteq> RunJoin e ks" if "j < length ts" "ex_state s \<noteq> Starting" "\<not> launching p'" for j e ks
  proof -
    have "\<not> launching (pc_at ts j)"
      using inv(2) that(1,2) unfolding one_launcher_def prod.case by blast
    then have "\<not> launching (pc_at ?ts j)"
      using that(3) by (simp add: pj)
    then show ?thesis
      by auto
  qed
  have no_join: "joining (pc_at ts j) = None" if "j < length ts" "j \<noteq> i" "joining p \<noteq> None \<or> ex_state s \<noteq> Joining" for j
    using inv(3) that i(1) at unfolding one_joiner_def prod.case by blast
  have after_join: "workers_known (s', ?ts)"
    if s': "ex_state s' = Joined" "ex_workers s' = ex_workers s" and p': "joining p' = None" "\<not> launching p'"
      and prev: "ex_state s \<noteq> Starting \<or> launching p" and all: "\<And>k. k < length ts \<Longrightarrow> is_worker ts k \<Longrightarrow> exited ts k"
      and nj: "joining p \<noteq> None \<or> ex_state s \<noteq> Joining"
  proof -
    have jn: "joining (pc_at ?ts j) = None" if "j < length ts" for j
      using no_join [OF that _ nj] p'(1) by (simp add: pj)
    have nl: "\<not> launching (pc_at ?ts j)" if "j < length ts" for j
      using inv(2) that i(1) at p'(2) prev unfolding one_launcher_def prod.case pj by metis
    have nr: "pc_at ?ts j \<noteq> RunJoin e ks" if "j < length ts" for j e ks
      using nl [OF that] by auto
    show ?thesis
      by (rule workers_knownI) (use s' jn nr all ex D(2) in \<open>simp_all add: wk\<close>)
  qed
  have joiner: "workers_known (s', ?ts)"
    if s': "ex_state s' = Joining" "set (ex_workers s') \<subseteq> set (ex_workers s)"
      and jn: "\<And>j. j < length ts \<Longrightarrow> joining (pc_at ?ts j) = (if j = i then Some ks else None)"
      and nr: "\<And>j e r. j < length ts \<Longrightarrow> pc_at ?ts j \<noteq> RunJoin e r"
      and K: "\<And>k. k < length ts \<Longrightarrow> is_worker ts k \<Longrightarrow> \<not> exited ts k \<Longrightarrow> k \<in> set ks"
      and ks: "i \<notin> set ks" "\<And>k. k \<in> set ks \<Longrightarrow> k < length ts \<and> is_worker ts k" for ks
  proof (rule workers_knownI)
    fix k
    assume "k < length ?ts" "is_worker ?ts k"
    then have "exited ts k \<or> k \<in> set ks"
      using K wk by auto
    moreover have "joining (pc_at ?ts i) = Some ks"
      using jn [OF i(1)] by simp
    ultimately show "exited ?ts k \<or>
        (ex_state s' \<noteq> Joining \<and> ex_state s' \<noteq> Joined \<and> k \<in> set (ex_workers s')) \<or>
        (\<exists>j < length ?ts. \<exists>ks. joining (pc_at ?ts j) = Some ks \<and> k \<in> set ks)"
      using ex i(1) len by metis
  next
    fix k
    show "k \<in> set (ex_workers s') \<Longrightarrow> k < length ?ts \<and> is_worker ?ts k"
      using s'(2) D(2) wk by auto
  qed (use s' jn nr ks in \<open>auto simp: wk split: if_splits\<close>)
  from a show ?thesis
  proof cases
    case join_take
    have st: "ex_state s \<noteq> Joining" "ex_state s \<noteq> Starting" "ex_state s' = Joining" "ex_workers s' = []"
      using join_take by auto
    have jn: "joining (pc_at ?ts j) = (if j = i then Some (ex_workers s) else None)" if "j < length ts" for j
      using no_join [OF that] st(1) by (simp add: pj) (simp add: join_take(3))
    have nr: "pc_at ?ts j \<noteq> RunJoin e ks" if "j < length ts" for j e ks
      using no_launch [OF that st(2)] join_take(3) by simp
    have "k \<in> set (ex_workers s)" if "k < length ts" "is_worker ts k" "\<not> exited ts k" for k
      using D(3) [OF that(1,2)] that(3) no_join st(1) jp at
      by (metis option.distinct(1))
    then show ?thesis
      using D(2) join_take(5) st(3,4) jn nr by (intro joiner [of "ex_workers s"]) auto
  next
    case (join_one k ks)
    have ji: "joining (pc_at ts i) = Some (k # ks)" and pJ: "joining p \<noteq> None"
      using at join_one by simp_all
    have st: "ex_state s = Joining"
      using jp pJ by blast
    have jn: "joining (pc_at ?ts j) = (if j = i then Some ks else None)" if "j < length ts" for j
      using no_join [OF that] pJ by (simp add: pj) (simp add: join_one(3))
    have nr: "pc_at ?ts j \<noteq> RunJoin e r" if "j < length ts" for j e r
      using no_launch [OF that] st join_one(3) by simp
    have K: "x \<in> set ks" if x: "x < length ts" "is_worker ts x" "\<not> exited ts x" for x
    proof -
      obtain j r where "j < length ts" "joining (pc_at ts j) = Some r" "x \<in> set r"
        using D(3) [OF x(1,2)] x(3) st by blast
      moreover have "j = i"
        using no_join [OF \<open>j < length ts\<close>] pJ calculation by (cases "j = i") auto
      ultimately show ?thesis
        using ji join_one(4) x(3) by auto
    qed
    have "i \<notin> set ks" "\<And>x. x \<in> set ks \<Longrightarrow> x < length ts \<and> is_worker ts x"
      using D(4,5) [OF i(1) ji] by auto
    then show ?thesis
      using st join_one(2) jn nr K by (intro joiner [of ks]) auto
  next
    case join_end
    have "exited ts k" if "k < length ts" "is_worker ts k" for k
      using D(3) [OF that] no_join jp at join_end
      by (metis empty_iff joining.simps(1) list.set(1) option.distinct(1) option.sel)
    then show ?thesis
      using join_end jp by (intro after_join) auto
  next
    case (run_failed e)
    have "exited ts k" if "k < length ts" "is_worker ts k" for k
    proof -
      have st: "ex_state s \<noteq> Joining"
        using lp run_failed by auto
      have "joining p = None"
        using run_failed by simp
      then have "joining (pc_at ts j) = None" if "j < length ts" for j
        using no_join [OF that] st at by (cases "j = i") auto
      then have "exited ts k \<or> k \<in> set (ex_workers s)"
        using D(3) [OF that] by auto
      then show ?thesis
        using D(7) [OF i(1), of e "[]" k] at run_failed by auto
    qed
    then show ?thesis
      using run_failed lp by (intro after_join) auto
  next
    case (run_join k e ks)
    then show ?thesis
      using D(6,7) [OF i(1)] at by (intro keep) auto
  qed (rule keep; use lp jp in \<open>auto split: if_splits\<close>)+
qed

lemma act_threads: "act i w s ts p s' p' \<Longrightarrow> ex_threads s' = ex_threads s"
  by (auto elim: act.cases)

lemma worker_count_update:
  "i < length ts \<Longrightarrow> ts ! i = (w, p) \<Longrightarrow> worker_count (ts[i := (w, p')]) = worker_count ts"
proof -
  assume "i < length ts" "ts ! i = (w, p)"
  then have "map fst (ts[i := (w, p')]) = map fst ts"
    by (simp add: map_update list_update_same_conv)
  then show ?thesis
    by (simp only: worker_count_def)
qed

lemma worker_count_zero: "(\<And>k. k < length ts \<Longrightarrow> \<not> is_worker ts k) \<Longrightarrow> worker_count ts = 0"
proof -
  assume none: "\<And>k. k < length ts \<Longrightarrow> \<not> is_worker ts k"
  have "\<not> fst t" if "t \<in> set ts" for t
    using that none by (metis in_set_conv_nth)
  then show ?thesis
    by (auto simp: worker_count_def filter_empty_conv)
qed

lemma count_ok_act:
  assumes inv: "count_ok (s, ts)" "workers_known (s, ts)"
    and i: "i < length ts" "ts ! i = (w, p)" and a: "act i w s ts p s' p'"
  shows "count_ok (s', ts[i := (w, p')])"
proof -
  have at: "pc_at ts i = p"
    using i(2) by simp
  have L: "pc_at ts j = RunLaunch n \<Longrightarrow> worker_count ts = n" if "j < length ts" for j n
    using inv(1) that unfolding count_ok_def prod.case by blast
  have "p' = RunLaunch n \<Longrightarrow> worker_count ts = n" for n
  proof -
    have zero: "worker_count ts = 0" if "ex_state s = Created"
      by (rule worker_count_zero) (rule workers_knownD(1) [OF inv(2) that])
    show "p' = RunLaunch n \<Longrightarrow> worker_count ts = n"
      using a by cases (auto simp: zero split: if_splits)
  qed
  then show ?thesis
    using L i inv(1) unfolding count_ok_def
    by (auto simp: worker_count_update [OF i] act_threads [OF a] split: if_splits)
qed

definition exec_inv :: "exec \<times> thread list \<Rightarrow> bool" where
  "exec_inv st \<longleftrightarrow> one_launcher st \<and> one_joiner st \<and> workers_known st \<and> pcs_ok st \<and> count_ok st"

lemma exec_inv_act:
  assumes inv: "exec_inv (s, ts)" and i: "i < length ts" "ts ! i = (w, p)" and a: "act i w s ts p s' p'"
  shows "exec_inv (s', ts[i := (w, p')])"
proof -
  have at: "pc_at ts i = p"
    using i(2) by simp
  have L: "launching p \<Longrightarrow> ex_state s = Starting"
    using inv i(1) at unfolding exec_inv_def one_launcher_def prod.case by blast
  have J: "joining p \<noteq> None \<Longrightarrow> ex_state s = Joining"
    using inv i(1) at unfolding exec_inv_def one_joiner_def prod.case by blast
  show ?thesis
    using inv one_launcher_act [OF _ _ _ i a J] one_joiner_act [OF _ i a L] workers_known_act [OF _ _ _ _ i a]
      pcs_ok_act [OF _ i a] count_ok_act [OF _ _ i a]
    unfolding exec_inv_def by blast
qed

text \<open>Creating a worker.\<close>

lemma exec_inv_spawn:
  assumes inv: "exec_inv (s, ts)" and i: "i < length ts" "ts ! i = (w, RunLaunch n)" and n: "n < ex_threads s"
  shows "exec_inv (s\<lparr>ex_workers := ex_workers s @ [length ts]\<rparr>, ts[i := (w, RunLaunch (Suc n))] @ [(True, InRun)])"
proof -
  let ?ts = "ts[i := (w, RunLaunch (Suc n))] @ [(True, InRun)]"
  let ?s = "s\<lparr>ex_workers := ex_workers s @ [length ts]\<rparr>"
  have pc: "pc_at ?ts j = (if j = length ts then InRun else if j = i then RunLaunch (Suc n) else pc_at ts j)"
    if "j < length ?ts" for j
    using that i by (auto simp: nth_append nth_list_update)
  have wk: "is_worker ?ts j = (if j = length ts then True else is_worker ts j)" if "j < length ?ts" for j
    using that i by (auto simp: nth_append nth_list_update)
  have len: "length ?ts = Suc (length ts)"
    by simp
  have ex: "exited ?ts k \<longleftrightarrow> exited ts k" for k
    using i pc [of k] unfolding exited_def len by (cases "k = length ts"; cases "k = i") auto
  have at: "pc_at ts i = RunLaunch n"
    using i(2) by simp
  have L: "launching (pc_at ts j) \<Longrightarrow> ex_state s = Starting \<and> \<not> is_worker ts j"
    and U: "launching (pc_at ts j) \<Longrightarrow> launching (pc_at ts k) \<Longrightarrow> j = k" if "j < length ts" "k < length ts" for j k
    using inv that unfolding exec_inv_def one_launcher_def prod.case by blast+
  have st: "ex_state s = Starting" and notw: "\<not> is_worker ts i"
    using L [OF i(1) i(1)] at by auto
  have la: "launching (pc_at ?ts j) \<longleftrightarrow> j < length ts \<and> launching (pc_at ts j)" if "j < length ?ts" for j
    using pc [OF that] that at by (auto simp: len)
  have jo: "joining (pc_at ?ts j) = (if j < length ts then joining (pc_at ts j) else None)" if "j < length ?ts" for j
    using pc [OF that] that at by (auto simp: len)
  have noj: "joining (pc_at ts j) = None" if "j < length ts" for j
    using one_joinerD(1) [of s ts j] inv that st unfolding exec_inv_def by (cases "joining (pc_at ts j)") auto
  have "one_launcher (?s, ?ts)"
    unfolding one_launcher_def prod.case
  proof (intro conjI allI impI)
    fix j k
    assume j: "j < length ?ts" "launching (pc_at ?ts j)"
    then have j': "j < length ts" "launching (pc_at ts j)"
      using la by auto
    show "ex_state ?s = Starting" "\<not> is_worker ?ts j"
      using L [OF j'(1,1,2)] wk [OF j(1)] j' by auto
    assume "k < length ?ts" "launching (pc_at ?ts k)"
    then show "j = k"
      using la U [OF j'(1) _ j'(2)] by auto
  next
    show "\<exists>j < length ?ts. launching (pc_at ?ts j)"
      using la [of i] i(1) at by (intro exI [of _ i]) auto
  qed
  moreover have "one_joiner (?s, ?ts)"
    unfolding one_joiner_def prod.case using jo noj st by auto
  moreover have "pcs_ok (?s, ?ts)"
    using inv pc wk unfolding exec_inv_def pcs_ok_def prod.case by (auto simp: len less_Suc_eq notw)
  moreover have "count_ok (?s, ?ts)"
  proof -
    have wc: "worker_count ts = n"
      using inv i(1) at unfolding exec_inv_def count_ok_def prod.case by blast
    then have "worker_count ?ts = Suc n"
      using worker_count_update [OF i, of "RunLaunch (Suc n)"] by (simp add: worker_count_def)
    moreover have "m = Suc n" if "j < length ?ts" "pc_at ?ts j = RunLaunch m" for j m
    proof -
      have "j < length ts" "launching (pc_at ts j)"
        using la [OF that(1)] that(2) by auto
      then have "j = i"
        using U [OF _ i(1)] at by simp
      then show ?thesis
        using pc [OF that(1)] that(2) i(1) by auto
    qed
    ultimately show ?thesis
      using n unfolding count_ok_def prod.case by (intro conjI allI impI) auto
  qed
  moreover have "workers_known (?s, ?ts)"
  proof -
    have known: "workers_known (s, ts)"
      using inv by (simp add: exec_inv_def)
    note D = workers_knownD [OF known]
    show ?thesis
    proof (rule workers_knownI)
      fix k
      assume k: "k < length ?ts" "is_worker ?ts k"
      have "exited ts k \<or> k \<in> set (ex_workers s) \<or> k = length ts"
      proof (cases "k = length ts")
        case False
        then have "k < length ts" "is_worker ts k"
          using k wk [OF k(1)] by auto
        then show ?thesis
          using D(3) noj by fastforce
      qed simp
      then show "exited ?ts k \<or>
          (ex_state ?s \<noteq> Joining \<and> ex_state ?s \<noteq> Joined \<and> k \<in> set (ex_workers ?s)) \<or>
          (\<exists>j < length ?ts. \<exists>ks. joining (pc_at ?ts j) = Some ks \<and> k \<in> set ks)"
        using st ex by auto
    next
      fix k
      assume "k \<in> set (ex_workers ?s)"
      then show "k < length ?ts \<and> is_worker ?ts k"
        using D(2) [of k] wk [of k] by auto
    next
      fix j e ks
      assume "j < length ?ts" "pc_at ?ts j = RunJoin e ks"
      moreover from this have "j < length ts" "launching (pc_at ts j)"
        using la [of j] by auto
      moreover from this have "j = i"
        using U [OF _ i(1)] at by simp
      ultimately have False
        using pc [of j] i(1) by auto
      then show "set ks \<subseteq> set (ex_workers ?s)" "exited ?ts k" for k
        by simp_all
    qed (use st jo noj in \<open>auto split: if_splits\<close>)
  qed
  ultimately show ?thesis
    by (simp add: exec_inv_def)
qed

lemma exec_inv_step: "exec_step st st' \<Longrightarrow> exec_inv st \<Longrightarrow> exec_inv st'"
  by (induction rule: exec_step.induct) (auto intro: exec_inv_act exec_inv_spawn)

lemma exec_inv_cong:
  assumes "ex_state s' = ex_state s" and "ex_workers s' = ex_workers s" and "ex_threads s' = ex_threads s"
  shows "exec_inv (s', ts) = exec_inv (s, ts)"
  unfolding exec_inv_def one_launcher_def one_joiner_def workers_known_def pcs_ok_def count_ok_def prod.case assms ..

lemma exec_inv_move: "exec_move st st' \<Longrightarrow> exec_inv st \<Longrightarrow> exec_inv st'"
proof (induction rule: exec_move.induct)
  case (ready s ts)
  then show ?case
    by (subst exec_inv_cong [of _ s]) simp_all
qed (rule exec_inv_step)

lemma exec_inv_new:
  assumes "\<forall>t \<in> set ts. entering t"
  shows "exec_inv (exec_new n, ts)"
proof -
  have t: "\<not> is_worker ts j \<and> \<not> launching (pc_at ts j) \<and> joining (pc_at ts j) = None \<and> \<not> worker_pc (pc_at ts j) \<and>
      pc_at ts j \<noteq> RunLaunch m \<and> pc_at ts j \<noteq> RunJoin e ks" if "j < length ts" for j m e ks
    using assms nth_mem [OF that] by (force simp: entering_def)
  then have "worker_count ts = 0"
    by (intro worker_count_zero) blast
  then show ?thesis
    using t by (auto simp: exec_inv_def one_launcher_def one_joiner_def workers_known_def pcs_ok_def count_ok_def
        exec_new_def)
qed

lemma exec_step_threads: "exec_step st st' \<Longrightarrow> ex_threads (fst st') = ex_threads (fst st)"
  by (erule exec_step.cases) (simp_all add: act_threads)

lemma exec_reachable_inv: "exec_reachable n ts0 st \<Longrightarrow> exec_inv st \<and> ex_threads (fst st) = n"
proof -
  assume r: "exec_reachable n ts0 st"
  then have "exec_move\<^sup>*\<^sup>* (exec_new n, ts0) st" and e: "\<forall>t \<in> set ts0. entering t"
    by (simp_all add: exec_reachable_def)
  then show ?thesis
  proof (induction rule: rtranclp_induct)
    case base
    then show ?case
      using exec_inv_new by (simp add: exec_new_def)
  next
    case (step st st')
    have "ex_threads (fst st') = ex_threads (fst st)"
      using step.hyps(2)
      by (auto elim!: exec_move.cases dest: exec_step_threads)
    then show ?case
      using step exec_inv_move by simp
  qed
qed

section \<open>The properties\<close>

lemma act_left_created: "act i w s ts p s' p' \<Longrightarrow> ex_state s \<noteq> Created \<Longrightarrow> ex_state s' \<noteq> Created"
  by (erule act.cases) auto

lemma left_created: "exec_move\<^sup>*\<^sup>* st st' \<Longrightarrow> ex_state (fst st) \<noteq> Created \<Longrightarrow> ex_state (fst st') \<noteq> Created"
proof (induction rule: rtranclp_induct)
  case (step st st')
  from step.hyps(2) step.IH [OF step.prems] show ?case
    by (auto elim!: exec_move.cases exec_step.cases dest: act_left_created)
qed

text \<open>
  C33: In every interleaving, with handlers that call the executor as they like: \<open>Run\<close> gets past its
  first check at most once and creates at most the configured number of workers, at most one
  \<open>Join\<close> waits for them, no thread waits for itself, and once the executor is joined no worker
  is running and none is being created.
\<close>

theorem executor_safe:
  assumes "exec_reachable n ts0 (s, ts)"
  shows "worker_count ts \<le> n \<and>
    (\<forall>j < length ts. \<forall>k < length ts. launching (pc_at ts j) \<longrightarrow> launching (pc_at ts k) \<longrightarrow> j = k) \<and>
    (\<forall>j < length ts. \<forall>k < length ts. joining (pc_at ts j) \<noteq> None \<longrightarrow> joining (pc_at ts k) \<noteq> None \<longrightarrow> j = k) \<and>
    (\<forall>j < length ts. \<forall>ks. pc_at ts j = JoinWorkers ks \<longrightarrow> j \<notin> set ks) \<and>
    (\<forall>j < length ts. \<forall>e ks. pc_at ts j = RunJoin e ks \<longrightarrow> j \<notin> set ks) \<and>
    (ex_state s = Joined \<longrightarrow> (\<forall>k < length ts. (is_worker ts k \<longrightarrow> exited ts k) \<and> \<not> launching (pc_at ts k))) \<and>
    (\<forall>i w s1 s2 ts2 j v s3. act i w s ts CallRun s1 (RunLaunch 0) \<longrightarrow> exec_move\<^sup>*\<^sup>* (s1, ts[i := (w, RunLaunch 0)]) (s2, ts2) \<longrightarrow>
       \<not> act j v s2 ts2 CallRun s3 (RunLaunch 0))"
proof -
  have inv: "exec_inv (s, ts)" and n: "ex_threads s = n"
    using exec_reachable_inv [OF assms] by simp_all
  have c: "count_ok (s, ts)" and l: "one_launcher (s, ts)" and j: "one_joiner (s, ts)" and k: "workers_known (s, ts)"
    using inv by (simp_all add: exec_inv_def)
  have "worker_count ts \<le> n"
    using c n by (simp add: count_ok_def)
  moreover have "\<forall>j < length ts. \<forall>k < length ts. joining (pc_at ts j) \<noteq> None \<longrightarrow> joining (pc_at ts k) \<noteq> None \<longrightarrow> j = k"
    using j by (simp add: one_joiner_def)
  moreover have "j \<notin> set ks" if "j < length ts" "pc_at ts j = JoinWorkers ks" for j ks
    using workers_knownD(4) [OF k that(1)] that(2) by simp
  moreover have "j \<notin> set ks" if "j < length ts" "pc_at ts j = RunJoin e ks" for j e ks
    using workers_knownD(6) [OF k that] workers_knownD(2) [OF k, of j] one_launcherD(1) [OF l that(1)] that(2) by auto
  moreover have "(is_worker ts i \<longrightarrow> exited ts i) \<and> \<not> launching (pc_at ts i)" if "ex_state s = Joined" "i < length ts" for i
  proof -
    have "joining (pc_at ts m) = None" if "m < length ts" for m
      using one_joinerD(1) [OF j that] \<open>ex_state s = Joined\<close> by fastforce
    then show ?thesis
      using workers_knownD(3) [OF k that(2)] one_launcherD(1) [OF l that(2)] that(1) by auto
  qed
  moreover have "\<not> act j v s2 ts2 CallRun s3 (RunLaunch 0)"
    if "act i w s ts CallRun s1 (RunLaunch 0)" "exec_move\<^sup>*\<^sup>* (s1, ts[i := (w, RunLaunch 0)]) (s2, ts2)" for i w s1 s2 ts2 j v s3
  proof
    assume "act j v s2 ts2 CallRun s3 (RunLaunch 0)"
    then have "ex_state s2 = Created"
      by cases simp_all
    moreover have "ex_state s1 \<noteq> Created"
      using that(1) by cases simp_all
    ultimately show False
      using left_created [OF that(2)] by simp
  qed
  ultimately show ?thesis
    using one_launcherD(2) [OF l] by blast
qed

section \<open>Progress\<close>












text \<open>What holds from the first \<open>Stop\<close> on: the context stays stopped until the workers have been joined.\<close>

fun draining_pc :: "pc \<Rightarrow> bool" where
  "draining_pc DrainReset = True"
| "draining_pc DrainLoop = True"
| "draining_pc (DrainRecord e) = True"
| "draining_pc DrainStop = True"
| "draining_pc p = False"



lemma draining_leave [simp]: "\<not> draining_pc (leave w r)"
  by (auto simp: leave_def split: option.splits)









text \<open>
  The deadlock.  \<open>Run\<close> has created worker 1, whose handler calls \<open>Join\<close>; creating the second
  worker fails, and \<open>Run\<close> joins the first one before it leaves the state \<open>Starting\<close>.
\<close>

definition hung :: "exn \<Rightarrow> exec \<times> thread list" where
  "hung e = (\<lparr>ex_threads = 2, ex_workers = [1], ex_state = Starting, ex_stop_requested = True, ex_guard = False,
              ex_ioc_stopped = True, ex_failure = None, ex_jobs = 0\<rparr>, [(False, RunJoin e [1]), (True, CallJoin)])"

lemma hung_reachable: "exec_reachable 2 [(False, CallRun)] (hung e)"
proof -
  let ?s = "(exec_new 2)\<lparr>ex_state := Starting\<rparr>"
  let ?s1 = "?s\<lparr>ex_workers := [1]\<rparr>"
  let ?s2 = "?s1\<lparr>ex_jobs := 1\<rparr>"
  have "act 0 False (exec_new 2) [(False, CallRun)] CallRun ?s (RunLaunch 0)"
    by (rule run_start) (simp add: exec_new_def)
  then have "exec_step (exec_new 2, [(False, CallRun)]) (?s, [(False, RunLaunch 0)])"
    using exec_step.act [of 0 "[(False, CallRun)]" False CallRun "exec_new 2" ?s "RunLaunch 0"] by simp
  moreover have "exec_step (?s, [(False, RunLaunch 0)]) (?s1, [(False, RunLaunch 1), (True, InRun)])"
    using exec_step.spawn [of 0 "[(False, RunLaunch 0)]" False 0 ?s] by (simp add: exec_new_def)
  moreover have "exec_move (?s1, [(False, RunLaunch 1), (True, InRun)]) (?s2, [(False, RunLaunch 1), (True, InRun)])"
    using exec_move.ready [of ?s1] by (simp add: exec_new_def)
  moreover have "act 1 True ?s2 [(False, RunLaunch 1), (True, InRun)] InRun ?s1 InHandler"
    using worker_takes [of ?s2 1 True] by (simp add: exec_new_def)
  then have "exec_step (?s2, [(False, RunLaunch 1), (True, InRun)]) (?s1, [(False, RunLaunch 1), (True, InHandler)])"
    using exec_step.act [of 1 "[(False, RunLaunch 1), (True, InRun)]" True InRun ?s2 ?s1 InHandler] by simp
  moreover have "act 1 True ?s1 [(False, RunLaunch 1), (True, InHandler)] InHandler ?s1 CallJoin"
    by (rule handler_calls) simp
  then have "exec_step (?s1, [(False, RunLaunch 1), (True, InHandler)]) (?s1, [(False, RunLaunch 1), (True, CallJoin)])"
    using exec_step.act [of 1 "[(False, RunLaunch 1), (True, InHandler)]" True InHandler ?s1 ?s1 CallJoin] by simp
  moreover have "act 0 False ?s1 [(False, RunLaunch 1), (True, CallJoin)] (RunLaunch 1) ?s1 (RunCaught e)"
    by (rule launch_fails) (simp add: exec_new_def)
  then have "exec_step (?s1, [(False, RunLaunch 1), (True, CallJoin)]) (?s1, [(False, RunCaught e), (True, CallJoin)])"
    using exec_step.act [of 0 "[(False, RunLaunch 1), (True, CallJoin)]" False "RunLaunch 1" ?s1 ?s1 "RunCaught e"] by simp
  moreover have "act 0 False ?s1 [(False, RunCaught e), (True, CallJoin)] (RunCaught e) (ex_stop ?s1) (RunJoin e (ex_workers ?s1))"
    by (rule run_caught)
  then have "exec_step (?s1, [(False, RunCaught e), (True, CallJoin)])
      (ex_stop ?s1, [(False, RunJoin e (ex_workers ?s1)), (True, CallJoin)])"
    using exec_step.act [of 0 "[(False, RunCaught e), (True, CallJoin)]" False "RunCaught e" ?s1 "ex_stop ?s1"
        "RunJoin e (ex_workers ?s1)"] by simp
  then have "exec_step (?s1, [(False, RunCaught e), (True, CallJoin)]) (hung e)"
    by (simp add: exec_new_def ex_stop_def hung_def)
  ultimately have "exec_move\<^sup>*\<^sup>* (exec_new 2, [(False, CallRun)]) (hung e)"
    by (meson own converse_rtranclp_into_rtranclp rtranclp.rtrancl_refl)
  then show ?thesis
    by (simp add: exec_reachable_def entering_def)
qed

text \<open>
  C35: A deadlock is reachable: when creating the second worker fails while a handler of the first one is
  inside \<open>Join\<close>, no thread can take a step any more; \<open>Run\<close> and the worker wait for each other.
\<close>

theorem executor_join_hangs:
  "exec_reachable 2 [(False, CallRun)] (hung e) \<and> (\<forall>st'. \<not> exec_step (hung e) st')"
proof (intro conjI allI notI)
  show "exec_reachable 2 [(False, CallRun)] (hung e)"
    by (rule hung_reachable)
  fix st'
  assume "exec_step (hung e) st'"
  then show False
  proof cases
    case (act i ts w p s s' p')
    have ts: "ts = [(False, RunJoin e [1]), (True, CallJoin)]" and st: "ex_state s = Starting"
      using act(1) by (auto simp: hung_def)
    then consider "p = RunJoin e [1]" | "p = CallJoin"
      using act(3,4) by (auto simp: nth_Cons' less_Suc_eq)
    then show False
      using act(5) ts st by cases (auto elim: act_cases simp: exited_def)
  next
    case (spawn i ts w n s)
    then show False
      by (auto simp: hung_def less_Suc_eq)
  qed
qed

theorem executor_safe_witness:
  "let ts = [(False, RunJoin (RuntimeError ''no thread'') [1]), (True, CallJoin)]
   in worker_count ts \<le> 2 \<and> (\<forall>j < length ts. \<forall>e ks. pc_at ts j = RunJoin e ks \<longrightarrow> j \<notin> set ks)"
proof -
  have "exec_reachable 2 [(False, CallRun)] (fst (hung (RuntimeError ''no thread'')), snd (hung (RuntimeError ''no thread'')))"
    using hung_reachable by simp
  from executor_safe [OF this] show ?thesis
    by (simp add: hung_def Let_def)
qed

text \<open>A worker failure is kept until it is reported, and only the first one.\<close>

lemma first_failure_kept: "ex_failure (record_failure e s) = (case ex_failure s of None \<Rightarrow> Some e | Some f \<Rightarrow> Some f)"
  by (simp add: record_failure_def split: option.splits)

end
