(* ===== verification/Registries.thy ===== *)
theory Registries
  imports Prelude "HOL-Library.Multiset"
begin

text \<open>
  The registry of open connections, \<open>ConnectionRegistry\<close> (\<open>Wan/Web/Server/ConnectionRegistry.hpp\<close>).
  Every operation takes the whole table under the mutex, so a run is a sequence of operations.  A
  close handler, a cancellation signal and an activity flag are named by identifiers; a missing
  signal or flag is replaced by a private one, which is never active.  \<open>active\<close> gives the value of
  the shared flags when they are read.  The table is an association list; \<open>arrange\<close> is the
  iteration order of the \<open>unordered_map\<close>, of which only that it visits each entry once is used.
\<close>

section \<open>State\<close>

datatype signal = SharedSignal nat | PrivateSignal
datatype flag = SharedFlag nat | PrivateFlag

record ('x, 'c) conn_entry =
  en_executor :: 'x
  en_close :: 'c
  en_cancel :: signal
  en_active :: flag

record ('x, 'c) registry =
  reg_conns :: "(64 word \<times> ('x, 'c) conn_entry) list"
  reg_next :: "64 word"

definition registry_new :: "('x, 'c) registry" where
  "registry_new = \<lparr>reg_conns = [], reg_next = 1\<rparr>"

text \<open>What closing does, in order: emitting a cancellation and calling a close handler.\<close>

datatype 'c close_action = Emit signal | CallClose 'c

section \<open>Operations\<close>

text \<open>\<open>emplace\<close> keeps an existing entry.\<close>

definition emplace :: "64 word \<Rightarrow> ('x, 'c) conn_entry \<Rightarrow> (64 word \<times> ('x, 'c) conn_entry) list
    \<Rightarrow> (64 word \<times> ('x, 'c) conn_entry) list" where
  "emplace i e xs = (if i \<in> fst ` set xs then xs else xs @ [(i, e)])"

definition register_close ::
    "'x \<Rightarrow> 'c option \<Rightarrow> signal option \<Rightarrow> flag option \<Rightarrow> ('x, 'c) registry \<Rightarrow> 64 word res \<times> ('x, 'c) registry" where
  "register_close x close cancel active r =
     (case close of
        None \<Rightarrow> (Inl (InvalidArgument ''connection registry cannot register an empty close handler''), r)
      | Some c \<Rightarrow>
          (let sig = (case cancel of None \<Rightarrow> PrivateSignal | Some s \<Rightarrow> s);
               flg = (case active of None \<Rightarrow> PrivateFlag | Some f \<Rightarrow> f) in
           if reg_next r = 0 then (Inl (OverflowError ''connection registry id space exhausted''), r)
           else (Inr (reg_next r),
                 \<lparr>reg_conns = emplace (reg_next r)
                    \<lparr>en_executor = x, en_close = c, en_cancel = sig, en_active = flg\<rparr> (reg_conns r),
                  reg_next = reg_next r + 1\<rparr>)))"

text \<open>\<open>Register\<close> closes the socket of its stream; \<open>executor_of\<close> is \<open>get_executor()\<close>.\<close>

datatype 's close_op = CloseSocket 's | CloseBy nat

definition register :: "('s \<Rightarrow> 'x) \<Rightarrow> 's option \<Rightarrow> signal option \<Rightarrow> flag option
    \<Rightarrow> ('x, 's close_op) registry \<Rightarrow> 64 word res \<times> ('x, 's close_op) registry" where
  "register executor_of stream cancel active r =
     (case stream of
        None \<Rightarrow> (Inl (InvalidArgument ''connection registry cannot register a null stream''), r)
      | Some s \<Rightarrow> register_close (executor_of s) (Some (CloseSocket s)) cancel active r)"

definition reg_remove :: "64 word \<Rightarrow> ('x, 'c) registry \<Rightarrow> ('x, 'c) registry" where
  "reg_remove i r = r\<lparr>reg_conns := filter (\<lambda>p. fst p \<noteq> i) (reg_conns r)\<rparr>"

definition reg_size :: "('x, 'c) registry \<Rightarrow> nat" where
  "reg_size r = length (reg_conns r)"

fun flag_set :: "(nat \<Rightarrow> bool) \<Rightarrow> flag \<Rightarrow> bool" where
  "flag_set active (SharedFlag n) = active n"
| "flag_set active PrivateFlag = False"

definition close_actions :: "(nat \<Rightarrow> bool) \<Rightarrow> ('x, 'c) conn_entry \<Rightarrow> 'c close_action list" where
  "close_actions active e =
     (if flag_set active (en_active e) then [Emit (en_cancel e)] else []) @ [CallClose (en_close e)]"

text \<open>\<open>CloseAll\<close> dispatches the actions of each entry to its executor.\<close>

definition close_all :: "((64 word \<times> ('x, 'c) conn_entry) list \<Rightarrow> (64 word \<times> ('x, 'c) conn_entry) list)
    \<Rightarrow> (nat \<Rightarrow> bool) \<Rightarrow> ('x, 'c) registry \<Rightarrow> (64 word \<times> 'x \<times> 'c close_action list) list \<times> ('x, 'c) registry" where
  "close_all arrange active r =
     (map (\<lambda>(i, e). (i, en_executor e, close_actions active e)) (arrange (reg_conns r)), r\<lparr>reg_conns := []\<rparr>)"

text \<open>
  \<open>CloseAllNow\<close> performs them on the calling thread; a close handler that throws does not keep
  the following ones from being called.  \<open>outcome\<close> says what a handler throws.
\<close>

fun close_now :: "('c \<Rightarrow> exn option) \<Rightarrow> (nat \<Rightarrow> bool) \<Rightarrow> (64 word \<times> ('x, 'c) conn_entry) list
    \<Rightarrow> (64 word \<times> 'c close_action list) list" where
  "close_now outcome active [] = []"
| "close_now outcome active ((i, e) # xs) =
     (case outcome (en_close e) of
        None \<Rightarrow> (i, close_actions active e) # close_now outcome active xs
      | Some ex \<Rightarrow> (i, close_actions active e) # close_now outcome active xs)"

definition close_all_now :: "((64 word \<times> ('x, 'c) conn_entry) list \<Rightarrow> (64 word \<times> ('x, 'c) conn_entry) list)
    \<Rightarrow> ('c \<Rightarrow> exn option) \<Rightarrow> (nat \<Rightarrow> bool) \<Rightarrow> ('x, 'c) registry
    \<Rightarrow> (64 word \<times> 'c close_action list) list \<times> ('x, 'c) registry" where
  "close_all_now arrange outcome active r = (close_now outcome active (arrange (reg_conns r)), r\<lparr>reg_conns := []\<rparr>)"

section \<open>Runs\<close>

datatype ('x, 'c) reg_op =
    RegisterClose 'x "'c option" "signal option" "flag option"
  | Remove "64 word"
  | CloseAll "nat \<Rightarrow> bool"
  | CloseAllNow "'c \<Rightarrow> exn option" "nat \<Rightarrow> bool"

text \<open>A run keeps the identifiers it has handed out, removed and closed.\<close>

record ('x, 'c) reg_run =
  run_reg :: "('x, 'c) registry"
  run_ids :: "64 word list"
  run_removed :: "64 word list"
  run_closed :: "64 word list"

fun reg_step :: "((64 word \<times> ('x, 'c) conn_entry) list \<Rightarrow> (64 word \<times> ('x, 'c) conn_entry) list)
    \<Rightarrow> ('x, 'c) reg_op \<Rightarrow> ('x, 'c) reg_run \<Rightarrow> ('x, 'c) reg_run" where
  "reg_step arrange (RegisterClose x c s f) t =
     (case register_close x c s f (run_reg t) of
        (Inl e, r) \<Rightarrow> t\<lparr>run_reg := r\<rparr>
      | (Inr i, r) \<Rightarrow> t\<lparr>run_reg := r, run_ids := run_ids t @ [i]\<rparr>)"
| "reg_step arrange (Remove i) t = t\<lparr>run_reg := reg_remove i (run_reg t),
      run_removed := run_removed t @ (if i \<in> fst ` set (reg_conns (run_reg t)) then [i] else [])\<rparr>"
| "reg_step arrange (CloseAll active) t =
     (let (acts, r) = close_all arrange active (run_reg t) in
      t\<lparr>run_reg := r, run_closed := run_closed t @ map fst acts\<rparr>)"
| "reg_step arrange (CloseAllNow outcome active) t =
     (let (acts, r) = close_all_now arrange outcome active (run_reg t) in
      t\<lparr>run_reg := r, run_closed := run_closed t @ map fst acts\<rparr>)"

definition reg_start :: "('x, 'c) reg_run" where
  "reg_start = \<lparr>run_reg = registry_new, run_ids = [], run_removed = [], run_closed = []\<rparr>"

definition reg_trace :: "((64 word \<times> ('x, 'c) conn_entry) list \<Rightarrow> (64 word \<times> ('x, 'c) conn_entry) list)
    \<Rightarrow> ('x, 'c) reg_op list \<Rightarrow> ('x, 'c) reg_run" where
  "reg_trace arrange ops = fold (reg_step arrange) ops reg_start"

lemma close_now_map: "close_now outcome active xs = map (\<lambda>(i, e). (i, close_actions active e)) xs"
  by (induction xs) (auto split: option.splits)

text \<open>The next identifier as a number, \<open>2^64\<close> once the identifiers are used up.\<close>

definition next_number :: "('x, 'c) registry \<Rightarrow> nat" where
  "next_number r = (if reg_next r = 0 then 2 ^ 64 else unat (reg_next r))"

lemma next_number_Suc:
  assumes "reg_next r \<noteq> 0" and "reg_next r' = reg_next r + 1"
  shows "next_number r' = Suc (unat (reg_next r))"
proof (cases "reg_next r + 1 = 0")
  case True
  then have "reg_next r = - 1"
    by (simp add: eq_neg_iff_add_eq_0)
  then have "unat (reg_next r) = 2 ^ 64 - 1"
    by (simp add: unsigned_minus_1_eq_mask mask_eq_exp_minus_1)
  then show ?thesis
    using True assms(2) by (simp add: next_number_def)
next
  case False
  then have "unat (1 + reg_next r) = Suc (unat (reg_next r))"
    by (intro unatSuc) (simp add: add.commute)
  then show ?thesis
    using False assms(2) by (simp add: next_number_def add.commute)
qed

text \<open>The identifiers are handed out in order from 1; each one is open, removed or closed.\<close>

definition run_inv :: "('x, 'c) reg_run \<Rightarrow> bool" where
  "run_inv t \<longleftrightarrow>
     1 \<le> next_number (run_reg t) \<and> next_number (run_reg t) \<le> 2 ^ 64 \<and>
     run_ids t = map word_of_nat [1..<next_number (run_reg t)] \<and>
     mset (run_ids t) = mset (map fst (reg_conns (run_reg t))) + mset (run_removed t) + mset (run_closed t)"

lemma run_invD:
  assumes "run_inv t"
  shows "1 \<le> next_number (run_reg t)" and "next_number (run_reg t) \<le> 2 ^ 64"
    and "run_ids t = map word_of_nat [1..<next_number (run_reg t)]"
    and "mset (run_ids t) = mset (map fst (reg_conns (run_reg t))) + mset (run_removed t) + mset (run_closed t)"
  using assms unfolding run_inv_def by blast+

lemma run_inv_keep:
  assumes "run_inv t" and "next_number (run_reg t') = next_number (run_reg t)" and "run_ids t' = run_ids t"
    and "mset (map fst (reg_conns (run_reg t'))) + mset (run_removed t') + mset (run_closed t') =
      mset (map fst (reg_conns (run_reg t))) + mset (run_removed t) + mset (run_closed t)"
  shows "run_inv t'"
  using run_invD [OF assms(1)] assms(2-4) unfolding run_inv_def by simp

lemma ids_distinct: "n \<le> 2 ^ 64 \<Longrightarrow> distinct (map (word_of_nat :: nat \<Rightarrow> 64 word) [1..<n])"
proof -
  assume n: "n \<le> 2 ^ 64"
  have "inj_on (word_of_nat :: nat \<Rightarrow> 64 word) (set [1..<n])"
  proof (rule inj_onI)
    fix x y
    assume "x \<in> set [1..<n]" "y \<in> set [1..<n]" "(word_of_nat x :: 64 word) = word_of_nat y"
    then show "x = y"
      using n by (simp add: word_of_nat_eq_iff take_bit_nat_eq_self)
  qed
  then show ?thesis
    by (simp add: distinct_map)
qed

lemma run_inv_distinct: "run_inv t \<Longrightarrow> distinct (run_ids t) \<and> distinct (map fst (reg_conns (run_reg t)))"
proof -
  assume inv: "run_inv t"
  then have d: "distinct (run_ids t)"
    using ids_distinct run_invD(2,3) [OF inv] by simp
  have "mset (run_ids t) = mset (map fst (reg_conns (run_reg t)) @ run_removed t @ run_closed t)"
    using run_invD(4) [OF inv] by (simp add: ac_simps)
  then have "distinct (map fst (reg_conns (run_reg t)) @ run_removed t @ run_closed t)"
    using d mset_eq_imp_distinct_iff by blast
  then show ?thesis
    using d by simp
qed

lemma run_inv_fresh:
  assumes "run_inv t" and "reg_next (run_reg t) \<noteq> 0"
  shows "reg_next (run_reg t) \<notin> fst ` set (reg_conns (run_reg t))"
proof
  assume "reg_next (run_reg t) \<in> fst ` set (reg_conns (run_reg t))"
  then have "reg_next (run_reg t) \<in># mset (map fst (reg_conns (run_reg t)))"
    by simp
  then have "reg_next (run_reg t) \<in># mset (run_ids t)"
    unfolding run_invD(4) [OF assms(1)] by simp
  then obtain n where "n < next_number (run_reg t)" "reg_next (run_reg t) = word_of_nat n"
    unfolding run_invD(3) [OF assms(1)] by auto
  then show False
    using assms(2) word_unat_bound [of "reg_next (run_reg t)"]
    by (simp add: next_number_def unat_of_nat take_bit_nat_eq_self)
qed

lemma run_inv_register:
  assumes inv: "run_inv t"
  shows "run_inv (reg_step arrange (RegisterClose x c s f) t)"
proof (cases "c = None \<or> reg_next (run_reg t) = 0")
  case True
  then show ?thesis
    by (intro run_inv_keep [OF inv]) (auto simp: register_close_def Let_def split: option.splits)
next
  case False
  then obtain cl where c: "c = Some cl" and nz: "reg_next (run_reg t) \<noteq> 0"
    by auto
  let ?r = "run_reg t" and ?i = "reg_next (run_reg t)"
  let ?t = "reg_step arrange (RegisterClose x c s f) t"
  have i: "?i = word_of_nat (next_number ?r)" "next_number ?r = unat ?i"
    using nz by (simp_all add: next_number_def)
  have next': "next_number (run_reg ?t) = Suc (next_number ?r)"
    using next_number_Suc [OF nz, of "run_reg ?t"] nz by (simp add: c register_close_def Let_def i(2))
  have "run_ids ?t = run_ids t @ [?i]"
    using nz by (simp add: c register_close_def Let_def)
  then have ids: "run_ids ?t = map word_of_nat [1..<next_number (run_reg ?t)]"
    using run_invD(1,3) [OF inv] i(1) unfolding next' by simp
  have bound: "next_number (run_reg ?t) \<le> 2 ^ 64"
    using word_unat_bound [of ?i] unfolding next' i(2) by simp
  have "mset (map fst (reg_conns (run_reg ?t))) = add_mset ?i (mset (map fst (reg_conns ?r)))"
    using run_inv_fresh [OF inv nz] nz by (simp add: c register_close_def Let_def emplace_def)
  moreover have "run_removed ?t = run_removed t" "run_closed ?t = run_closed t"
    using nz by (simp_all add: c register_close_def Let_def)
  moreover have "mset (run_ids ?t) = add_mset ?i (mset (run_ids t))"
    using \<open>run_ids ?t = run_ids t @ [?i]\<close> by simp
  ultimately have "mset (run_ids ?t) = mset (map fst (reg_conns (run_reg ?t))) + mset (run_removed ?t) + mset (run_closed ?t)"
    using run_invD(4) [OF inv] by simp
  then show ?thesis
    using ids bound next' unfolding run_inv_def by simp
qed

lemma filter_key_mset:
  "distinct (map fst xs) \<Longrightarrow> mset (map fst (filter (\<lambda>p. fst p \<noteq> i) xs)) + mset (if i \<in> fst ` set xs then [i] else []) =
     mset (map fst xs)"
proof (induction xs)
  case (Cons p xs)
  show ?case
  proof (cases "fst p = i")
    case True
    then have "i \<notin> fst ` set xs"
      using Cons.prems by auto
    then have "filter (\<lambda>p. fst p \<noteq> i) xs = xs"
      by (intro filter_True) force
    then show ?thesis
      using True by simp
  next
    case False
    then have "i \<in> fst ` set (p # xs) \<longleftrightarrow> i \<in> fst ` set xs"
      by auto
    then show ?thesis
      using Cons False by simp
  qed
qed simp

lemma run_inv_step:
  assumes arr: "\<And>xs. mset (arrange xs) = mset xs" and inv: "run_inv t"
  shows "run_inv (reg_step arrange op t)"
proof (cases op)
  case (RegisterClose x c s f)
  then show ?thesis
    using run_inv_register [OF inv] by simp
next
  case (Remove i)
  define gone where "gone = (if i \<in> fst ` set (reg_conns (run_reg t)) then [i] else [])"
  let ?r = "reg_remove i (run_reg t)"
  have t': "reg_step arrange op t = t\<lparr>run_reg := ?r, run_removed := run_removed t @ gone\<rparr>"
    by (simp add: Remove gone_def)
  have "mset (map fst (reg_conns ?r)) + mset gone = mset (map fst (reg_conns (run_reg t)))"
    using filter_key_mset [of "reg_conns (run_reg t)" i] run_inv_distinct [OF inv]
    by (simp add: reg_remove_def gone_def)
  moreover have "next_number ?r = next_number (run_reg t)"
    by (simp add: next_number_def reg_remove_def)
  ultimately show ?thesis
    unfolding t' by (intro run_inv_keep [OF inv]) (simp_all add: ac_simps)
next
  case (CloseAll active)
  have "mset (map fst (arrange (reg_conns (run_reg t)))) = mset (map fst (reg_conns (run_reg t)))"
    by (metis arr mset_map)
  then show ?thesis
    by (intro run_inv_keep [OF inv])
       (simp_all add: CloseAll close_all_def next_number_def comp_def case_prod_unfold ac_simps)
next
  case (CloseAllNow outcome active)
  have "mset (map fst (arrange (reg_conns (run_reg t)))) = mset (map fst (reg_conns (run_reg t)))"
    by (metis arr mset_map)
  then show ?thesis
    by (intro run_inv_keep [OF inv])
       (simp_all add: CloseAllNow close_all_now_def close_now_map next_number_def comp_def case_prod_unfold ac_simps)
qed

lemma run_inv_trace: "(\<And>xs. mset (arrange xs) = mset xs) \<Longrightarrow> run_inv (reg_trace arrange ops)"
proof -
  assume arr: "\<And>xs. mset (arrange xs) = mset xs"
  have "run_inv (fold (reg_step arrange) ops t)" if "run_inv t" for t
    using that by (induction ops arbitrary: t) (auto intro: run_inv_step [OF arr])
  moreover have "run_inv reg_start"
    by (simp add: run_inv_def reg_start_def registry_new_def next_number_def)
  ultimately show ?thesis
    by (simp add: reg_trace_def)
qed

text \<open>
  In every run the registry hands out the identifiers 1, 2, 3, \<dots> without ever reusing one or
  giving out 0, refuses with \<open>overflow_error\<close> once the 64-bit identifiers are used up, and every
  registered connection is at any time either open, or was removed or closed, exactly once.
\<close>

theorem registry_ids_unique:
  assumes arr: "\<And>xs. mset (arrange xs) = mset xs"
  shows "let t = reg_trace arrange ops in
    run_ids t = map word_of_nat [1..<Suc (length (run_ids t))] \<and> length (run_ids t) < 2 ^ 64 \<and>
    distinct (run_ids t) \<and> 0 \<notin> set (run_ids t) \<and>
    mset (run_ids t) = mset (map fst (reg_conns (run_reg t))) + mset (run_removed t) + mset (run_closed t) \<and>
    fst (register_close x (Some c) s f (run_reg t)) =
      (if length (run_ids t) = 2 ^ 64 - 1 then Inl (OverflowError ''connection registry id space exhausted'')
       else Inr (word_of_nat (Suc (length (run_ids t)))))"
proof -
  define t where "t = reg_trace arrange ops"
  have inv: "run_inv t"
    unfolding t_def by (rule run_inv_trace [OF arr])
  define n where "n = next_number (run_reg t)"
  have n: "1 \<le> n" "n \<le> 2 ^ 64" and ids: "run_ids t = map word_of_nat [1..<n]"
    and ms: "mset (run_ids t) = mset (map fst (reg_conns (run_reg t))) + mset (run_removed t) + mset (run_closed t)"
    using run_invD [OF inv] unfolding n_def by blast+
  have len: "Suc (length (run_ids t)) = n"
    using n(1) by (simp add: ids)
  have "x \<noteq> 0" if "x \<in> set (run_ids t)" for x
  proof -
    obtain k where "k \<in> set [1..<n]" "x = word_of_nat k"
      using \<open>x \<in> set (run_ids t)\<close> ids by auto
    then show ?thesis
      using n(2) by (auto simp: word_of_nat_eq_0_iff dest: nat_dvd_not_less)
  qed
  moreover have "reg_next (run_reg t) = 0 \<longleftrightarrow> n = 2 ^ 64"
    using word_unat_bound [of "reg_next (run_reg t)"] by (auto simp: n_def next_number_def)
  then have z: "reg_next (run_reg t) = 0 \<longleftrightarrow> length (run_ids t) = 2 ^ 64 - 1"
    using len by auto
  moreover have "reg_next (run_reg t) = word_of_nat n" if "reg_next (run_reg t) \<noteq> 0"
    using that by (simp add: n_def next_number_def)
  moreover have "distinct (run_ids t)"
    using run_inv_distinct [OF inv] by simp
  moreover have "length (run_ids t) < 2 ^ 64"
    using len n(2) by simp
  ultimately show ?thesis
    using ids ms len unfolding t_def [symmetric] Let_def
    by (auto simp: register_close_def Let_def)
qed

theorem registry_ids_unique_witness:
  "fst (register_close (0 :: nat) (Some (5 :: nat)) None None
     (run_reg (reg_trace id [RegisterClose 0 (Some 1) None None, Remove 1, RegisterClose 0 (Some 2) None None])))
   = Inr 3"
proof -
  let ?ops = "[RegisterClose 0 (Some 1) None None, Remove 1, RegisterClose 0 (Some 2) None None]
    :: (nat, nat) reg_op list"
  have len: "length (run_ids (reg_trace id ?ops)) = 2"
    by (simp add: reg_trace_def reg_start_def registry_new_def register_close_def emplace_def reg_remove_def Let_def)
  show ?thesis
    using registry_ids_unique [of id ?ops 0 5 None None] len by (simp add: Let_def)
qed

text \<open>Closing performs the actions of every open connection, whatever the close handlers throw.\<close>

lemma close_all_now_actions:
  assumes "mset (arrange (reg_conns r)) = mset (reg_conns r)"
  shows "mset (fst (close_all_now arrange outcome active r)) =
      mset (map (\<lambda>(i, e). (i, close_actions active e)) (reg_conns r)) \<and>
    reg_size (snd (close_all_now arrange outcome active r)) = 0"
  by (simp add: close_all_now_def close_now_map reg_size_def assms)

end
