(* ===== verification/Sessions.thy ===== *)
theory Sessions
  imports Prelude "HOL-Library.AList"
begin

text \<open>
  The session store \<open>SessionStore\<close> (\<open>Wan/Web/Session/Session.hpp\<close>).  Every operation holds the
  mutex throughout, so a run is a sequence of operations.  Readings of the steady clock are
  arguments, in nanoseconds since its epoch; a time point is a signed 64-bit count.  The blocks of
  32 random bytes the external generator delivers are the parameter \<open>random\<close>, indexed by the
  number of blocks drawn before.  The two \<open>unordered_map\<close>s are association lists with distinct
  keys.  \<open>sess_view\<close> is the specification: which sessions are alive at a given time, and what they hold.
\<close>

section \<open>State\<close>

record session_data =
  sd_id :: string
  sd_values :: "(string \<times> string) list"
  sd_expires :: int

record session_config =
  max_sessions :: nat
  max_values_per_session :: nat
  max_key_size :: nat
  max_value_size :: nat

definition session_config_default :: session_config where
  "session_config_default = \<lparr>max_sessions = 10000, max_values_per_session = 64,
     max_key_size = 256, max_value_size = 64 * 1024\<rparr>"

record session_store =
  st_config :: session_config
  st_sessions :: "(string \<times> session_data) list"
  st_draws :: nat

section \<open>Time\<close>

definition time_max :: int where
  "time_max = 2 ^ 63 - 1"

definition ns_per_second :: int where
  "ns_per_second = 1000000000"

text \<open>\<open>duration_cast\<close> truncates, which is \<open>div\<close> as the clock never passes its maximum.\<close>

definition is_ttl_representable :: "int \<Rightarrow> int \<Rightarrow> bool" where
  "is_ttl_representable ttl now \<longleftrightarrow> (let remaining = (time_max - now) div ns_per_second in 0 < ttl \<and> ttl \<le> remaining)"

section \<open>Identifiers\<close>

definition id_digit :: "nat \<Rightarrow> char" where
  "id_digit n = (if n < 10 then char_of (48 + n) else char_of (87 + n))"

definition hex_byte :: "8 word \<Rightarrow> string" where
  "hex_byte b = [id_digit (unat b div 16), id_digit (unat b mod 16)]"

definition generate_id :: "8 word list \<Rightarrow> string" where
  "generate_id bytes = ''sess_'' @ concat (map hex_byte bytes)"

section \<open>Operations\<close>

definition validate_session_config :: "session_config \<Rightarrow> unit res" where
  "validate_session_config c =
     (if max_sessions c = 0 \<or> max_values_per_session c = 0 \<or> max_key_size c = 0 \<or> max_value_size c = 0
      then Inl (InvalidArgument ''session resource limits must be positive'') else Inr ())"

definition session_store_new :: "session_config \<Rightarrow> session_store res" where
  "session_store_new c = res_bind (validate_session_config c)
     (\<lambda>_. Inr \<lparr>st_config = c, st_sessions = [], st_draws = 0\<rparr>)"

fun cleanup_expired :: "int \<Rightarrow> (string \<times> session_data) list \<Rightarrow> (string \<times> session_data) list" where
  "cleanup_expired now [] = []"
| "cleanup_expired now ((i, d) # xs) =
     (if sd_expires d \<le> now then cleanup_expired now xs else (i, d) # cleanup_expired now xs)"

text \<open>The loop that looks for a fresh identifier: the outcome and the number of blocks drawn.\<close>

fun fresh_id :: "nat \<Rightarrow> (nat \<Rightarrow> 8 word list) \<Rightarrow> (string \<times> session_data) list \<Rightarrow> nat \<Rightarrow> string option \<times> nat" where
  "fresh_id 0 random xs n = (None, n)"
| "fresh_id (Suc k) random xs n =
     (let i = generate_id (random n) in
      if map_of xs i = None then (Some i, Suc n) else fresh_id k random xs (Suc n))"

definition session_create :: "(nat \<Rightarrow> 8 word list) \<Rightarrow> int \<Rightarrow> int \<Rightarrow> int \<Rightarrow> session_store \<Rightarrow> session_data res \<times> session_store" where
  "session_create random ttl now0 now s =
     (if ttl \<le> 0 \<or> \<not> is_ttl_representable ttl now0 then
        (Inl (InvalidArgument ''session lifetime must be positive and representable''), s)
      else if \<not> is_ttl_representable ttl now then
        (Inl (InvalidArgument ''session lifetime is outside the steady clock range''), s)
      else
        let xs = cleanup_expired now (st_sessions s); s = s\<lparr>st_sessions := xs\<rparr> in
        if max_sessions (st_config s) \<le> length xs then
          (Inl (LengthError ''session store capacity exhausted''), s)
        else
          (case fresh_id 16 random xs (st_draws s) of
             (None, n) \<Rightarrow> (Inl (RuntimeError ''unable to allocate a unique session id''), s\<lparr>st_draws := n\<rparr>)
           | (Some i, n) \<Rightarrow>
               (let d = \<lparr>sd_id = i, sd_values = [], sd_expires = now + ttl * ns_per_second\<rparr> in
                (Inr d, s\<lparr>st_sessions := AList.update i d xs, st_draws := n\<rparr>))))"

definition session_get :: "string \<Rightarrow> int \<Rightarrow> session_store \<Rightarrow> session_data option \<times> session_store" where
  "session_get i now s =
     (case map_of (st_sessions s) i of
        None \<Rightarrow> (None, s)
      | Some d \<Rightarrow>
          (if sd_expires d \<le> now then (None, s\<lparr>st_sessions := AList.delete i (st_sessions s)\<rparr>)
           else (Some d, s)))"

definition session_set :: "string \<Rightarrow> string \<Rightarrow> string \<Rightarrow> int \<Rightarrow> session_store \<Rightarrow> unit res \<times> session_store" where
  "session_set i k v now s =
     (case map_of (st_sessions s) i of
        None \<Rightarrow> (Inr (), s)
      | Some d \<Rightarrow>
          (if sd_expires d \<le> now then (Inr (), s\<lparr>st_sessions := AList.delete i (st_sessions s)\<rparr>)
           else if max_key_size (st_config s) < length k \<or> max_value_size (st_config s) < length v then
             (Inl (LengthError ''session key or value exceeds configured limits''), s)
           else if map_of (sd_values d) k = None \<and> max_values_per_session (st_config s) \<le> length (sd_values d) then
             (Inl (LengthError ''session value count exceeds configured limit''), s)
           else (Inr (), s\<lparr>st_sessions := AList.update i (d\<lparr>sd_values := AList.update k v (sd_values d)\<rparr>)
                  (st_sessions s)\<rparr>)))"

definition session_destroy :: "string \<Rightarrow> session_store \<Rightarrow> session_store" where
  "session_destroy i s = s\<lparr>st_sessions := AList.delete i (st_sessions s)\<rparr>"

definition session_cleanup :: "int \<Rightarrow> session_store \<Rightarrow> session_store" where
  "session_cleanup now s = s\<lparr>st_sessions := cleanup_expired now (st_sessions s)\<rparr>"

section \<open>Runs\<close>

datatype session_op =
    Create int int int
  | Get string int
  | SetValue string string string int
  | Destroy string
  | Cleanup int

fun session_step :: "(nat \<Rightarrow> 8 word list) \<Rightarrow> session_op \<Rightarrow> session_store \<Rightarrow> session_store" where
  "session_step random (Create ttl now0 now) s = snd (session_create random ttl now0 now s)"
| "session_step random (Get i now) s = snd (session_get i now s)"
| "session_step random (SetValue i k v now) s = snd (session_set i k v now s)"
| "session_step random (Destroy i) s = session_destroy i s"
| "session_step random (Cleanup now) s = session_cleanup now s"

section \<open>Specification\<close>

text \<open>The sessions alive at time \<open>now\<close>: their expiry times and what they map.\<close>

definition sess_view :: "int \<Rightarrow> session_store \<Rightarrow> string \<Rightarrow> (int \<times> (string \<Rightarrow> string option)) option" where
  "sess_view now s i =
     (case map_of (st_sessions s) i of
        None \<Rightarrow> None
      | Some d \<Rightarrow> if now < sd_expires d then Some (sd_expires d, map_of (sd_values d)) else None)"

definition session_ok :: "session_config \<Rightarrow> string \<Rightarrow> session_data \<Rightarrow> bool" where
  "session_ok c i d \<longleftrightarrow> sd_id d = i \<and> distinct (map fst (sd_values d)) \<and>
     length (sd_values d) \<le> max_values_per_session c \<and> sd_expires d \<le> time_max \<and>
     list_all (\<lambda>(k, v). length k \<le> max_key_size c \<and> length v \<le> max_value_size c) (sd_values d)"

definition store_ok :: "session_store \<Rightarrow> bool" where
  "store_ok s \<longleftrightarrow> distinct (map fst (st_sessions s)) \<and>
     length (st_sessions s) \<le> max_sessions (st_config s) \<and>
     list_all (\<lambda>(i, d). session_ok (st_config s) i d) (st_sessions s)"

end
