(* ===== verification/SessionLaws.thy ===== *)
theory SessionLaws
  imports Sessions
begin

text \<open>
  What the session store promises: its limits hold in every run (\<open>store_ok\<close>), each operation
  does to the sessions alive at any later time what the specification says, a session stays
  available for its whole lifetime and no longer, and identifiers determine the random block.
\<close>

section \<open>Identifiers\<close>

lemma id_digit_inj: "m < 16 \<Longrightarrow> n < 16 \<Longrightarrow> id_digit m = id_digit n \<Longrightarrow> m = n"
proof -
  assume a: "m < 16" "n < 16" "id_digit m = id_digit n"
  have "of_char (id_digit k) = (if k < 10 then 48 + k else 87 + k)" if "k < 16" for k :: nat
    using that by (simp add: id_digit_def)
  then have "(if m < 10 then 48 + m else 87 + m) = (if n < 10 then 48 + n else 87 + n)"
    using a by metis
  then show "m = n"
    using a(1,2) by (simp split: if_splits)
qed

lemma unat_byte: "unat (b :: 8 word) < 256"
  using unsigned_less [of b] by simp

lemma hex_byte_inj: "hex_byte a = hex_byte b \<Longrightarrow> a = b"
proof -
  assume e: "hex_byte a = hex_byte b"
  have "unat a div 16 = unat b div 16" "unat a mod 16 = unat b mod 16"
    using e unat_byte [of a] unat_byte [of b] by (auto simp: hex_byte_def intro!: id_digit_inj)
  then have "unat a = unat b"
    by (metis div_mult_mod_eq)
  then show "a = b"
    by (simp only: word_unat_eq_iff)
qed

lemma hex_concat_inj: "concat (map hex_byte xs) = concat (map hex_byte ys) \<Longrightarrow> xs = ys"
proof (induction xs arbitrary: ys)
  case Nil
  then show ?case by (cases ys) (auto simp: hex_byte_def)
next
  case (Cons x xs)
  then obtain y ys' where ys: "ys = y # ys'"
    by (cases ys) (auto simp: hex_byte_def)
  have "length (hex_byte x) = length (hex_byte y)"
    by (simp add: hex_byte_def)
  then have "hex_byte x = hex_byte y" "concat (map hex_byte xs) = concat (map hex_byte ys')"
    using Cons.prems by (simp_all add: ys)
  then show ?case
    using Cons.IH [of ys'] by (simp add: ys hex_byte_inj)
qed

lemma generate_id_inj: "generate_id xs = generate_id ys \<longleftrightarrow> xs = ys"
  using hex_concat_inj by (auto simp: generate_id_def)

lemma hex_length: "length (concat (map hex_byte bs)) = 2 * length bs"
  by (induction bs) (simp_all add: hex_byte_def)

lemma generate_id_length: "length (generate_id bs) = 5 + 2 * length bs"
  unfolding generate_id_def by (simp only: length_append hex_length) simp

section \<open>The limits hold\<close>

lemma cleanup_filter: "cleanup_expired now xs = filter (\<lambda>(i, d). now < sd_expires d) xs"
  by (induction xs) auto

lemma fresh_id_Some: "fresh_id k random xs n = (Some i, m) \<Longrightarrow> map_of xs i = None \<and> (\<exists>j<m. n \<le> j \<and> i = generate_id (random j))"
proof (induction k arbitrary: n)
  case (Suc k)
  then show ?case
    by (auto simp: Let_def split: if_splits dest!: Suc.IH)
qed simp

lemma distinct_keys_filter: "distinct (map fst xs) \<Longrightarrow> distinct (map fst (filter P xs))"
  by (simp add: distinct_map_filter)

lemma cleanup_ok:
  assumes "store_ok s"
  shows "store_ok (s\<lparr>st_sessions := cleanup_expired now (st_sessions s)\<rparr>)"
  using assms le_trans [OF length_filter_le]
  by (auto simp: store_ok_def cleanup_filter list_all_iff distinct_keys_filter)

lemma delete_ok: "store_ok s \<Longrightarrow> store_ok (s\<lparr>st_sessions := AList.delete i (st_sessions s)\<rparr>)"
  using le_trans [OF length_delete_le]
  by (auto simp: store_ok_def list_all_iff AList.delete_eq distinct_keys_filter intro: le_trans [OF length_filter_le])

lemma update_set: "set (AList.update k v xs) \<subseteq> insert (k, v) (set xs)"
  by (induction xs) auto

lemma update_length: "length (AList.update k v xs) = (if k \<in> fst ` set xs then length xs else Suc (length xs))"
  by (induction xs) auto

lemma update_ok:
  assumes s: "store_ok s" and d: "session_ok (st_config s) i d"
    and room: "i \<in> fst ` set (st_sessions s) \<or> length (st_sessions s) < max_sessions (st_config s)"
  shows "store_ok (s\<lparr>st_sessions := AList.update i d (st_sessions s), st_draws := n\<rparr>)"
proof -
  have "list_all (\<lambda>(i, d). session_ok (st_config s) i d) (AList.update i d (st_sessions s))"
    using s d update_set [of i d "st_sessions s"] unfolding store_ok_def list_all_iff by blast
  then show ?thesis
    using s room by (auto simp: store_ok_def update_length distinct_update)
qed

lemma ttl_bound: "is_ttl_representable ttl now \<Longrightarrow> now < now + ttl * ns_per_second \<and> now + ttl * ns_per_second \<le> time_max"
proof -
  assume a: "is_ttl_representable ttl now"
  then have "ttl * ns_per_second \<le> (time_max - now) div ns_per_second * ns_per_second"
    by (simp add: is_ttl_representable_def Let_def ns_per_second_def)
  also have "\<dots> \<le> time_max - now"
    by (simp add: ns_per_second_def)
  finally show ?thesis
    using a by (simp add: is_ttl_representable_def ns_per_second_def Let_def)
qed

text \<open>The cases of creation: an error that only cleans up or draws blocks, or a new session.\<close>

lemma create_cases:
  obtains (refused) e where "session_create random ttl now0 now s = (Inl e, s)"
  | (full) e n where "session_create random ttl now0 now s =
      (Inl e, s\<lparr>st_sessions := cleanup_expired now (st_sessions s), st_draws := n\<rparr>)"
  | (made) i n where "session_create random ttl now0 now s =
      (Inr \<lparr>sd_id = i, sd_values = [], sd_expires = now + ttl * ns_per_second\<rparr>,
       s\<lparr>st_sessions := AList.update i \<lparr>sd_id = i, sd_values = [], sd_expires = now + ttl * ns_per_second\<rparr>
            (cleanup_expired now (st_sessions s)), st_draws := n\<rparr>)"
    "map_of (cleanup_expired now (st_sessions s)) i = None"
    "length (cleanup_expired now (st_sessions s)) < max_sessions (st_config s)"
    "is_ttl_representable ttl now"
    "fresh_id 16 random (cleanup_expired now (st_sessions s)) (st_draws s) = (Some i, n)"
proof -
  let ?xs = "cleanup_expired now (st_sessions s)"
  consider (a) "ttl \<le> 0 \<or> \<not> is_ttl_representable ttl now0 \<or> \<not> is_ttl_representable ttl now"
    | (b) "\<not> (ttl \<le> 0 \<or> \<not> is_ttl_representable ttl now0 \<or> \<not> is_ttl_representable ttl now)"
      "max_sessions (st_config s) \<le> length ?xs"
    | (c) "\<not> (ttl \<le> 0 \<or> \<not> is_ttl_representable ttl now0 \<or> \<not> is_ttl_representable ttl now)"
      "length ?xs < max_sessions (st_config s)"
    by linarith
  then show thesis
  proof cases
    case a
    show ?thesis
    proof (cases "ttl \<le> 0 \<or> \<not> is_ttl_representable ttl now0")
      case True
      then show ?thesis
        by (intro refused) (simp only: session_create_def if_True)
    next
      case False
      then have "\<not> is_ttl_representable ttl now"
        using a by blast
      with False show ?thesis
        by (intro refused) (simp only: session_create_def if_True if_False simp_thms)
    qed
  next
    case b
    show ?thesis
      by (rule full [of _ "st_draws s"]) (use b in \<open>simp add: session_create_def Let_def\<close>)
  next
    case c
    obtain r n where f: "fresh_id 16 random ?xs (st_draws s) = (r, n)"
      by (cases "fresh_id 16 random ?xs (st_draws s)")
    show ?thesis
    proof (cases r)
      case None
      then show ?thesis
        by (intro full [of _ n]) (use c f in \<open>simp add: session_create_def Let_def\<close>)
    next
      case (Some i)
      show ?thesis
        by (rule made [of i n])
           (use c f Some fresh_id_Some [of 16 random ?xs "st_draws s" i n] in \<open>simp_all add: session_create_def Let_def\<close>)
    qed
  qed
qed

lemma create_ok:
  assumes "store_ok s"
  shows "store_ok (snd (session_create random ttl now0 now s))"
proof (cases rule: create_cases [of random ttl now0 now s])
  case (refused e)
  then show ?thesis using assms by simp
next
  case (full e n)
  then show ?thesis using cleanup_ok [OF assms, of now] by (simp add: store_ok_def)
next
  case (made i n)
  then show ?thesis
    using update_ok [OF cleanup_ok [OF assms, of now], of i _ n] ttl_bound [OF made(4)]
    by (simp add: session_ok_def)
qed

lemma store_ok_lookup:
  assumes "store_ok s" and "map_of (st_sessions s) i = Some d"
  shows "session_ok (st_config s) i d" and "i \<in> fst ` set (st_sessions s)"
proof -
  have mem: "(i, d) \<in> set (st_sessions s)"
    using assms(2) by (rule map_of_SomeD)
  then show "session_ok (st_config s) i d"
    using assms(1) unfolding store_ok_def list_all_iff by blast
  show "i \<in> fst ` set (st_sessions s)"
    using mem by (simp add: rev_image_eqI)
qed

lemma session_ok_update:
  assumes d: "session_ok c i d" and k: "length k \<le> max_key_size c" "length v \<le> max_value_size c"
    and n: "map_of (sd_values d) k \<noteq> None \<or> length (sd_values d) < max_values_per_session c"
  shows "session_ok c i (d\<lparr>sd_values := AList.update k v (sd_values d)\<rparr>)"
proof -
  have "list_all (\<lambda>(k, v). length k \<le> max_key_size c \<and> length v \<le> max_value_size c) (AList.update k v (sd_values d))"
    using d k update_set [of k v "sd_values d"] unfolding session_ok_def list_all_iff by blast
  moreover have "map_of (sd_values d) k \<noteq> None \<longleftrightarrow> k \<in> fst ` set (sd_values d)"
    by (metis map_of_eq_None_iff)
  ultimately show ?thesis
    using d n by (auto simp: session_ok_def update_length distinct_update)
qed

lemma set_ok:
  assumes "store_ok s"
  shows "store_ok (snd (session_set i k v now s))"
proof (cases "map_of (st_sessions s) i")
  case None
  then show ?thesis using assms by (simp add: session_set_def)
next
  case (Some d)
  note l = store_ok_lookup [OF assms Some]
  have "store_ok (s\<lparr>st_sessions := AList.update i (d\<lparr>sd_values := AList.update k v (sd_values d)\<rparr>) (st_sessions s)\<rparr>)"
    if "length k \<le> max_key_size (st_config s)" "length v \<le> max_value_size (st_config s)"
      "map_of (sd_values d) k \<noteq> None \<or> length (sd_values d) < max_values_per_session (st_config s)"
    using update_ok [OF assms session_ok_update [OF l(1) that], of "st_draws s"] l(2) by simp
  then show ?thesis
    using Some assms delete_ok [OF assms, of i] by (auto simp: session_set_def)
qed

lemma get_ok: "store_ok s \<Longrightarrow> store_ok (snd (session_get i now s))"
  using delete_ok by (auto simp: session_get_def split: option.splits)

lemma session_step_ok: "store_ok s \<Longrightarrow> store_ok (session_step random op s)"
  by (cases op) (simp_all add: create_ok get_ok set_ok session_destroy_def delete_ok session_cleanup_def cleanup_ok)

lemma session_run_ok: "store_ok s \<Longrightarrow> store_ok (fold (session_step random) ops s)"
  by (induction ops arbitrary: s) (simp_all add: session_step_ok)

section \<open>What the operations do to the sessions that are alive\<close>

text \<open>Setting a value, on the map of the sessions alive.\<close>

definition spec_set :: "session_config \<Rightarrow> string \<Rightarrow> string \<Rightarrow> string \<Rightarrow> (string \<Rightarrow> (int \<times> (string \<Rightarrow> string option)) option)
    \<Rightarrow> unit res \<times> (string \<Rightarrow> (int \<times> (string \<Rightarrow> string option)) option)" where
  "spec_set c i k v A =
     (case A i of
        None \<Rightarrow> (Inr (), A)
      | Some (e, m) \<Rightarrow>
          (if max_key_size c < length k \<or> max_value_size c < length v then
             (Inl (LengthError ''session key or value exceeds configured limits''), A)
           else if m k = None \<and> max_values_per_session c \<le> card (dom m) then
             (Inl (LengthError ''session value count exceeds configured limit''), A)
           else (Inr (), A(i \<mapsto> (e, m(k \<mapsto> v))))))"

lemma lookup_cleanup:
  "distinct (map fst xs) \<Longrightarrow> map_of (cleanup_expired now xs) i =
     (case map_of xs i of None \<Rightarrow> None | Some d \<Rightarrow> if sd_expires d \<le> now then None else Some d)"
proof (induction xs)
  case (Cons p xs)
  obtain j d where p: "p = (j, d)"
    by (cases p)
  have "map_of xs i = None" if "j = i"
    using Cons.prems that by (simp add: p map_of_eq_None_iff)
  then show ?case
    using Cons by (auto simp: p split: option.splits)
qed simp

lemma view_cleanup:
  "store_ok s \<Longrightarrow> now \<le> t \<Longrightarrow>
    sess_view t (s\<lparr>st_sessions := cleanup_expired now (st_sessions s), st_draws := n\<rparr>) = sess_view t s"
  by (rule ext) (auto simp: sess_view_def lookup_cleanup store_ok_def split: option.splits)

lemma view_cleanup': "store_ok s \<Longrightarrow> now \<le> t \<Longrightarrow> sess_view t (session_cleanup now s) = sess_view t s"
  by (rule ext) (auto simp: session_cleanup_def sess_view_def lookup_cleanup store_ok_def split: option.splits)

lemma view_delete: "sess_view t (s\<lparr>st_sessions := AList.delete i (st_sessions s)\<rparr>) = (sess_view t s)(i := None)"
  by (rule ext) (simp add: sess_view_def delete_conv')

lemma view_update:
  "sess_view t (s\<lparr>st_sessions := AList.update i d xs, st_draws := n\<rparr>) =
     (sess_view t (s\<lparr>st_sessions := xs\<rparr>))(i := if t < sd_expires d then Some (sd_expires d, map_of (sd_values d)) else None)"
  by (rule ext) (simp add: sess_view_def update_conv')

lemma dead_later: "map_of (st_sessions s) i = Some d \<Longrightarrow> sd_expires d \<le> now \<Longrightarrow> now \<le> t \<Longrightarrow> sess_view t s i = None"
  by (simp add: sess_view_def)

lemma get_view:
  assumes "now \<le> t"
  shows "sess_view t (snd (session_get i now s)) = sess_view t s"
  using assms dead_later [of s i _ now t]
  by (auto simp: session_get_def view_delete fun_upd_idem split: option.splits)

lemma get_result:
  assumes "store_ok s"
  shows "map_option (\<lambda>d. (sd_expires d, map_of (sd_values d))) (fst (session_get i now s)) = sess_view now s i"
  by (auto simp: session_get_def sess_view_def split: option.splits)

lemma card_values: "session_ok c i d \<Longrightarrow> card (dom (map_of (sd_values d))) = length (sd_values d)"
  by (metis session_ok_def distinct_card dom_map_of_conv_image_fst length_map set_map)

lemma set_view:
  assumes s: "store_ok s" and t: "now \<le> t"
  shows "sess_view t (snd (session_set i k v now s)) = snd (spec_set (st_config s) i k v (sess_view t s))"
proof (cases "map_of (st_sessions s) i")
  case None
  then show ?thesis
    by (simp add: session_set_def spec_set_def sess_view_def)
next
  case (Some d)
  show ?thesis
  proof (cases "sd_expires d \<le> now")
    case True
    then show ?thesis
      using dead_later [OF Some True t]
      by (simp add: session_set_def Some view_delete spec_set_def fun_upd_idem)
  next
    case False
    let ?d = "d\<lparr>sd_values := AList.update k v (sd_values d)\<rparr>"
    have u: "sess_view t (s\<lparr>st_sessions := AList.update i ?d (st_sessions s)\<rparr>) =
        (sess_view t s)(i := if t < sd_expires d then Some (sd_expires d, (map_of (sd_values d))(k \<mapsto> v)) else None)"
      using view_update [where t = t and s = s and i = i and d = ?d and xs = "st_sessions s" and n = "st_draws s"] by (simp add: update_conv')
    have v: "sess_view t s i = (if t < sd_expires d then Some (sd_expires d, map_of (sd_values d)) else None)"
      by (simp add: sess_view_def Some)
    show ?thesis
      using False u v card_values [OF store_ok_lookup(1) [OF s Some]]
      by (simp add: session_set_def Some spec_set_def fun_upd_idem)
  qed
qed

lemma set_result:
  assumes s: "store_ok s"
  shows "fst (session_set i k v now s) = fst (spec_set (st_config s) i k v (sess_view now s))"
proof (cases "map_of (st_sessions s) i")
  case None
  then show ?thesis
    by (simp add: session_set_def spec_set_def sess_view_def)
next
  case (Some d)
  then show ?thesis
    using card_values [OF store_ok_lookup(1) [OF s Some]]
    by (simp add: session_set_def spec_set_def sess_view_def)
qed

lemma create_view:
  assumes s: "store_ok s" and t: "now \<le> t"
  shows "sess_view t (snd (session_create random ttl now0 now s)) =
    (case fst (session_create random ttl now0 now s) of
       Inl e \<Rightarrow> sess_view t s
     | Inr d \<Rightarrow> (sess_view t s)(sd_id d := if t < now + ttl * ns_per_second then Some (now + ttl * ns_per_second, Map.empty) else None))"
proof (cases rule: create_cases [of random ttl now0 now s])
  case (made i n)
  then show ?thesis
    using view_cleanup' [OF s t] by (simp add: view_update session_cleanup_def)
qed (simp_all add: view_cleanup [OF s t])

text \<open>A created session has an identifier no live session has, no values and the lifetime asked for.\<close>

lemma create_result:
  assumes s: "store_ok s" and c: "fst (session_create random ttl now0 now s) = Inr d"
  shows "sess_view now s (sd_id d) = None \<and> sd_values d = [] \<and> sd_expires d = now + ttl * ns_per_second \<and>
    now < sd_expires d \<and> sd_expires d \<le> time_max \<and> (\<exists>j. sd_id d = generate_id (random j))"
proof (cases rule: create_cases [of random ttl now0 now s])
  case (made i n)
  have "sess_view now s i = sess_view now (s\<lparr>st_sessions := cleanup_expired now (st_sessions s), st_draws := st_draws s\<rparr>) i"
    by (simp only: view_cleanup [OF s order_refl])
  also have "\<dots> = None"
    by (simp add: sess_view_def made(2))
  finally show ?thesis
    using c made(1) ttl_bound [OF made(4)] fresh_id_Some [OF made(5)] by auto
qed (use c in simp_all)

section \<open>Runs\<close>

fun op_time :: "session_op \<Rightarrow> int option" where
  "op_time (Create ttl now0 now) = Some now"
| "op_time (Get i now) = Some now"
| "op_time (SetValue i k v now) = Some now"
| "op_time (Destroy i) = None"
| "op_time (Cleanup now) = Some now"

definition by_time :: "int \<Rightarrow> session_op \<Rightarrow> bool" where
  "by_time t op \<longleftrightarrow> (case op_time op of None \<Rightarrow> True | Some u \<Rightarrow> u \<le> t)"

lemma spec_set_expiry: "map_option fst (snd (spec_set c i k v A) j) = map_option fst (A j)"
  by (auto simp: spec_set_def split: option.splits)

text \<open>A step before \<open>t\<close> that does not destroy a session alive at \<open>t\<close> leaves it alive, until the same time.\<close>

lemma step_keeps_alive:
  assumes s: "store_ok s" and t: "by_time t op" and nd: "op \<noteq> Destroy i"
    and live: "map_option fst (sess_view t s i) = Some e"
  shows "map_option fst (sess_view t (session_step random op s) i) = Some e"
proof (cases op)
  case (Create ttl now0 now)
  have now: "now \<le> t"
    using t by (simp add: by_time_def Create)
  have "sess_view now s i \<noteq> None"
    using live now by (auto simp: sess_view_def split: option.splits if_splits)
  then have "sd_id d \<noteq> i" if "fst (session_create random ttl now0 now s) = Inr d" for d
    using create_result [OF s that] by auto
  then show ?thesis
    using live create_view [OF s now, of random ttl now0] by (simp add: Create split: sum.splits)
next
  case (Get j now)
  then show ?thesis
    using live t get_view [of now t j s] by (simp add: by_time_def)
next
  case (SetValue j k v now)
  then show ?thesis
    using live t set_view [OF s, of now t j k v] by (simp add: by_time_def spec_set_expiry)
next
  case (Destroy j)
  then show ?thesis
    using live nd by (simp add: session_destroy_def view_delete)
next
  case (Cleanup now)
  then show ?thesis
    using live t view_cleanup' [OF s, of now t] by (simp add: by_time_def)
qed

lemma run_keeps_alive:
  assumes "store_ok s" and "list_all (by_time t) ops" and "Destroy i \<notin> set ops"
    and "map_option fst (sess_view t s i) = Some e"
  shows "map_option fst (sess_view t (fold (session_step random) ops s) i) = Some e"
  using assms
proof (induction ops arbitrary: s)
  case (Cons op ops)
  then have "op \<noteq> Destroy i"
    by auto
  then show ?case
    using Cons step_keeps_alive [of s t op i e random] session_step_ok [of s random op] by simp
qed simp

lemma step_config: "st_config (session_step random op s) = st_config s"
  by (cases op)
     (auto simp: session_create_def session_get_def session_set_def session_destroy_def session_cleanup_def Let_def
       split: option.splits prod.splits)

lemma run_config: "st_config (fold (session_step random) ops s) = st_config s"
  by (induction ops arbitrary: s) (simp_all add: step_config)

lemma new_ok: "session_store_new c = Inr s \<Longrightarrow> store_ok s \<and> st_config s = c"
  by (auto simp: session_store_new_def store_ok_def)

section \<open>Properties\<close>

text \<open>
  C9: In every run of a store with accepted limits there are never more sessions than
  \<open>MaxSessions\<close>, identifiers are the sessions' keys and pairwise distinct, no session holds more than
  \<open>MaxValuesPerSession\<close> values or a key or value beyond its size limit, and no expiry time overflows
  the clock.
\<close>

theorem session_limits_hold:
  assumes "session_store_new c = Inr s"
  shows "store_ok (fold (session_step random) ops s) \<and> st_config (fold (session_step random) ops s) = c"
  using session_run_ok new_ok [OF assms] run_config by metis

theorem session_limits_hold_witness:
  "store_ok (fold (session_step (\<lambda>n. replicate 32 (of_nat n))) [Create 60 0 1, Create 60 2 3]
     \<lparr>st_config = session_config_default, st_sessions = [], st_draws = 0\<rparr>)"
proof -
  have "session_store_new session_config_default =
      Inr \<lparr>st_config = session_config_default, st_sessions = [], st_draws = 0\<rparr>"
    by (simp add: session_store_new_def validate_session_config_def session_config_default_def)
  from session_limits_hold [OF this] show ?thesis
    by blast
qed

text \<open>
  C10: Every operation refines the map of the sessions alive: \<open>Get\<close> returns what that map holds and changes
  nothing, \<open>Set\<close> writes the value (or reports the exceeded limit, or ignores a dead session), and
  \<open>Create\<close> adds a session under an identifier not in use; removing expired sessions is never visible
  at any later time.
\<close>

theorem session_refines_live_map:
  assumes s: "store_ok s" and t: "now \<le> t"
  shows "map_option (\<lambda>d. (sd_expires d, map_of (sd_values d))) (fst (session_get i now s)) = sess_view now s i \<and>
    sess_view t (snd (session_get i now s)) = sess_view t s \<and>
    fst (session_set i k v now s) = fst (spec_set (st_config s) i k v (sess_view now s)) \<and>
    sess_view t (snd (session_set i k v now s)) = snd (spec_set (st_config s) i k v (sess_view t s)) \<and>
    sess_view t (session_destroy i s) = (sess_view t s)(i := None) \<and>
    sess_view t (session_cleanup now s) = sess_view t s \<and>
    (case session_create random ttl now0 now s of
       (Inl e, s') \<Rightarrow> sess_view t s' = sess_view t s
     | (Inr d, s') \<Rightarrow> sess_view now s (sd_id d) = None \<and>
         sess_view t s' = (sess_view t s)(sd_id d :=
           if t < now + ttl * ns_per_second then Some (now + ttl * ns_per_second, Map.empty) else None))"
proof -
  have "case session_create random ttl now0 now s of
       (Inl e, s') \<Rightarrow> sess_view t s' = sess_view t s
     | (Inr d, s') \<Rightarrow> sess_view now s (sd_id d) = None \<and>
         sess_view t s' = (sess_view t s)(sd_id d :=
           if t < now + ttl * ns_per_second then Some (now + ttl * ns_per_second, Map.empty) else None)"
  proof (cases "session_create random ttl now0 now s")
    case (Pair r s')
    then show ?thesis
      using create_view [OF s t, of random ttl now0] create_result [OF s, of random ttl now0 now]
      by (cases r) simp_all
  qed
  then show ?thesis
    using get_result [OF s] get_view [OF t] set_result [OF s] set_view [OF s t] view_cleanup' [OF s t]
      view_delete unfolding session_destroy_def by blast
qed

theorem session_refines_live_map_witness:
  "sess_view 5 (session_cleanup 4 \<lparr>st_config = session_config_default,
       st_sessions = [(''a'', \<lparr>sd_id = ''a'', sd_values = [], sd_expires = 3\<rparr>)], st_draws = 0\<rparr>) =
   sess_view 5 \<lparr>st_config = session_config_default,
       st_sessions = [(''a'', \<lparr>sd_id = ''a'', sd_values = [], sd_expires = 3\<rparr>)], st_draws = 0\<rparr>"
proof -
  let ?s = "\<lparr>st_config = session_config_default,
       st_sessions = [(''a'', \<lparr>sd_id = ''a'', sd_values = [], sd_expires = 3\<rparr>)], st_draws = 0\<rparr>"
  have "store_ok ?s"
    by (simp add: store_ok_def session_ok_def session_config_default_def time_max_def)
  from session_refines_live_map [OF this, of 4 5] show ?thesis
    by simp
qed

text \<open>
  C11: A session lives exactly as long as it was created for: whatever the store does in the meantime,
  unless it destroys that session, \<open>Get\<close> finds it at every time before its expiry, and right after its creation
  nothing is found at or after the expiry.
\<close>

theorem session_lifetime:
  assumes s: "store_ok s" and c: "session_create random ttl now0 now s = (Inr d, s')"
    and ops: "list_all (by_time t) ops" "Destroy (sd_id d) \<notin> set ops" and t: "now \<le> t"
  shows "if t < now + ttl * ns_per_second
    then map_option sd_expires (fst (session_get (sd_id d) t (fold (session_step random) ops s'))) = Some (now + ttl * ns_per_second)
    else fst (session_get (sd_id d) t s') = None"
proof -
  have s': "store_ok s'"
    using create_ok [OF s, of random ttl now0 now] c by simp
  have g: "map_option fst (sess_view t x (sd_id d)) = map_option sd_expires (fst (session_get (sd_id d) t x))"
    if "store_ok x" for x
    unfolding get_result [OF that, symmetric] by (simp add: option.map_comp comp_def)
  have v: "map_option fst (sess_view t s' (sd_id d)) =
      (if t < now + ttl * ns_per_second then Some (now + ttl * ns_per_second) else None)"
    using create_view [OF s t, of random ttl now0] c by simp
  show ?thesis
  proof (cases "t < now + ttl * ns_per_second")
    case True
    then show ?thesis
      using v g [OF session_run_ok [OF s']] run_keeps_alive [OF s' ops] by simp
  next
    case False
    then have "map_option sd_expires (fst (session_get (sd_id d) t s')) = None"
      using v g [OF s'] by simp
    then show ?thesis
      using False by simp
  qed
qed

theorem session_lifetime_witness:
  "map_option sd_expires (fst (session_get (generate_id (replicate 32 0)) 999999999
     (snd (session_create (\<lambda>n. replicate 32 (of_nat n)) 1 0 0
        \<lparr>st_config = session_config_default, st_sessions = [], st_draws = 0\<rparr>)))) = Some 1000000000"
proof -
  let ?s = "\<lparr>st_config = session_config_default, st_sessions = [], st_draws = 0\<rparr>"
  let ?d = "\<lparr>sd_id = generate_id (replicate 32 0), sd_values = [], sd_expires = 1000000000\<rparr>"
  let ?s' = "\<lparr>st_config = session_config_default, st_sessions = [(generate_id (replicate 32 0), ?d)], st_draws = 1\<rparr>"
  have ok: "store_ok ?s"
    by (simp add: store_ok_def)
  have "fresh_id (Suc 15) (\<lambda>n. replicate 32 (of_nat n)) [] 0 = (Some (generate_id (replicate 32 0)), 1)"
    by (simp only: fresh_id.simps Let_def map_of.simps if_True) simp
  then have c: "session_create (\<lambda>n. replicate 32 (of_nat n)) 1 0 0 ?s = (Inr ?d, ?s')"
    by (simp add: session_create_def is_ttl_representable_def Let_def time_max_def ns_per_second_def
        session_config_default_def)
  show ?thesis
    using session_lifetime [OF ok c, of 999999999 "[]"] c by (simp add: ns_per_second_def)
qed

text \<open>
  An identifier is \<open>sess_\<close> followed by two characters per random byte, and determines the bytes.
\<close>

theorem session_id_injective:
  "(generate_id xs = generate_id ys \<longleftrightarrow> xs = ys) \<and> length (generate_id xs) = 5 + 2 * length xs \<and>
   take 5 (generate_id xs) = ''sess_''"
  by (simp add: generate_id_inj generate_id_length) (simp add: generate_id_def)

end
