(* ===== verification/Middlewares.thy ===== *)
theory Middlewares
  imports Prelude "HOL-Library.Multiset"
begin

text \<open>
  The middleware chain (\<open>Wan/Web/Middleware/Middleware.hpp\<close>) and the built-in middlewares
  (\<open>Wan/Web/Middleware/Builtins.hpp\<close>).  A middleware is a coroutine that may call \<open>Next\<close> any number
  of times and inspect what that does: a tree of type \<open>prog\<close>, whose node \<open>CallNext c k\<close> calls
  \<open>Next\<close> on the context \<open>c\<close> and goes on as \<open>k\<close> says, given the exception that came out of the call
  and the context it left.  All calls of \<open>Next\<close> in one run share the variable \<open>Index\<close>.  A second
  call of \<open>Next\<close> by the same middleware therefore goes on behind the middlewares already run.
\<close>

section \<open>Middlewares\<close>

datatype throwable = StdException string | OtherThrown

datatype 'c prog =
    Return 'c
  | Raise throwable 'c
  | CallNext 'c "throwable option \<Rightarrow> 'c \<Rightarrow> 'c prog"

type_synonym 'c outcome = "throwable option \<times> 'c"

record 'c middleware =
  mw_fn :: "'c \<Rightarrow> 'c prog"
  mw_priority :: int
  mw_name :: string

definition mw_less :: "'c middleware \<Rightarrow> 'c middleware \<Rightarrow> bool" where
  "mw_less a b \<longleftrightarrow> mw_priority a < mw_priority b"

text \<open>\<open>std::stable_sort\<close> with that comparison: insertion behind the elements that are not greater.\<close>

fun stable_insert :: "'c middleware \<Rightarrow> 'c middleware list \<Rightarrow> 'c middleware list" where
  "stable_insert m [] = [m]"
| "stable_insert m (x # xs) = (if mw_less x m then x # stable_insert m xs else m # x # xs)"

definition stable_sort :: "'c middleware list \<Rightarrow> 'c middleware list" where
  "stable_sort ms = foldr stable_insert ms []"

section \<open>The chain\<close>

definition chain_use :: "'c middleware \<Rightarrow> 'c middleware list \<Rightarrow> 'c middleware list" where
  "chain_use m ms = stable_sort (ms @ [m])"

definition chain_use_fn :: "('c \<Rightarrow> 'c prog) \<Rightarrow> int \<Rightarrow> string \<Rightarrow> 'c middleware list \<Rightarrow> 'c middleware list" where
  "chain_use_fn f p n ms = chain_use \<lparr>mw_fn = f, mw_priority = p, mw_name = n\<rparr> ms"

definition chain_empty :: "'c middleware list \<Rightarrow> bool" where
  "chain_empty ms \<longleftrightarrow> ms = []"

definition chain_size :: "'c middleware list \<Rightarrow> nat" where
  "chain_size ms = length ms"

text \<open>Runs the body of a middleware; \<open>nxt\<close> is what \<open>Next\<close> does at the present \<open>Index\<close>.\<close>

primrec run_prog :: "'c prog \<Rightarrow> (nat \<Rightarrow> 'c \<Rightarrow> ('c outcome \<times> nat) option) \<Rightarrow> nat \<Rightarrow> ('c outcome \<times> nat) option" where
  "run_prog (Return c) nxt i = Some ((None, c), i)"
| "run_prog (Raise e c) nxt i = Some ((Some e, c), i)"
| "run_prog (CallNext c k) nxt i =
     (case nxt i c of None \<Rightarrow> None | Some ((e, c'), j) \<Rightarrow> run_prog (k e c') nxt j)"

text \<open>The lambda \<open>Next\<close>, at a value of \<open>Index\<close>; the first argument bounds the nesting of the calls.\<close>

fun chain_next :: "nat \<Rightarrow> 'c middleware list \<Rightarrow> ('c \<Rightarrow> 'c outcome) \<Rightarrow> nat \<Rightarrow> 'c \<Rightarrow> ('c outcome \<times> nat) option" where
  "chain_next 0 ms final i c = None"
| "chain_next (Suc d) ms final i c =
     (if i < length ms then run_prog (mw_fn (ms ! i) c) (chain_next d ms final) (Suc i)
      else Some (final c, i))"

definition chain_run :: "'c middleware list \<Rightarrow> ('c \<Rightarrow> 'c outcome) \<Rightarrow> 'c \<Rightarrow> 'c outcome option" where
  "chain_run ms final c =
     (if ms = [] then Some (final c) else map_option fst (chain_next (Suc (length ms)) ms final 0 c))"

section \<open>The built-in middlewares\<close>

text \<open>The context and the HTTP library as the middlewares use them.\<close>

record 'c http_lib =
  lib_method :: "'c \<Rightarrow> string"
  lib_target :: "'c \<Rightarrow> string"
  lib_status :: "'c \<Rightarrow> int"
  lib_set_status :: "int \<Rightarrow> 'c \<Rightarrow> 'c"
  lib_set_field :: "string \<Rightarrow> string \<Rightarrow> 'c \<Rightarrow> 'c"
  lib_set_body :: "string \<Rightarrow> 'c \<Rightarrow> 'c"
  lib_prepare :: "'c \<Rightarrow> 'c"
  lib_clock :: "'c \<Rightarrow> int"
  lib_print :: "string \<Rightarrow> 'c \<Rightarrow> 'c"
  lib_serialize :: "(string \<times> string) list \<Rightarrow> string"

definition set_body_as :: "'c http_lib \<Rightarrow> string \<Rightarrow> string \<Rightarrow> 'c \<Rightarrow> 'c" where
  "set_body_as L ty b c = lib_prepare L (lib_set_body L b (lib_set_field L ''Content-Type'' ty c))"

definition ctx_json :: "'c http_lib \<Rightarrow> string \<Rightarrow> 'c \<Rightarrow> 'c" where
  "ctx_json L b c = set_body_as L ''application/json'' b c"

definition ctx_json_status :: "'c http_lib \<Rightarrow> int \<Rightarrow> string \<Rightarrow> 'c \<Rightarrow> 'c" where
  "ctx_json_status L st b c = ctx_json L b (lib_set_status L st c)"

definition ctx_text :: "'c http_lib \<Rightarrow> string \<Rightarrow> 'c \<Rightarrow> 'c" where
  "ctx_text L b c = set_body_as L ''text/plain'' b c"

definition ctx_text_status :: "'c http_lib \<Rightarrow> int \<Rightarrow> string \<Rightarrow> 'c \<Rightarrow> 'c" where
  "ctx_text_status L st b c = ctx_text L b (lib_set_status L st c)"

definition ctx_html :: "'c http_lib \<Rightarrow> string \<Rightarrow> 'c \<Rightarrow> 'c" where
  "ctx_html L b c = set_body_as L ''text/html'' b c"

definition ctx_status :: "'c http_lib \<Rightarrow> int \<Rightarrow> 'c \<Rightarrow> 'c" where
  "ctx_status L st c = lib_set_status L st c"

definition ctx_set_header :: "'c http_lib \<Rightarrow> string \<Rightarrow> string \<Rightarrow> 'c \<Rightarrow> 'c" where
  "ctx_set_header L n v c = lib_set_field L n v c"

text \<open>What \<open>printf\<close> prints for \<open>%s\<close>.\<close>

definition c_str :: "string \<Rightarrow> string" where
  "c_str s = takeWhile (\<lambda>x. x \<noteq> CHR 0x00) s"

definition logging_fn :: "'c http_lib \<Rightarrow> 'c \<Rightarrow> 'c prog" where
  "logging_fn L c =
     (let start = lib_clock L c in
      CallNext c (\<lambda>e c.
        case e of
          Some x \<Rightarrow> Raise x c
        | None \<Rightarrow>
            (let ms = (lib_clock L c - start) div 1000000 in
             Return (lib_print L (''['' @ c_str (lib_method L c) @ ''] '' @ c_str (lib_target L c) @ '' -> '' @
               int_text (lib_status L c) @ '' ('' @ int_text ms @ ''ms)'' @ [CHR 0x0A]) c))))"

definition logging_middleware :: "'c http_lib \<Rightarrow> 'c middleware" where
  "logging_middleware L = \<lparr>mw_fn = logging_fn L, mw_priority = 0, mw_name = ''logging''\<rparr>"

definition cors_fn :: "'c http_lib \<Rightarrow> string \<Rightarrow> string \<Rightarrow> string \<Rightarrow> 'c \<Rightarrow> 'c prog" where
  "cors_fn L origin methods headers c =
     (let c = lib_set_field L ''Access-Control-Allow-Origin'' origin c;
          c = lib_set_field L ''Access-Control-Allow-Methods'' methods c;
          c = lib_set_field L ''Access-Control-Allow-Headers'' headers c in
      if lib_method L c = ''OPTIONS'' then Return (ctx_status L 204 c)
      else CallNext c (\<lambda>e c. case e of Some x \<Rightarrow> Raise x c | None \<Rightarrow> Return c))"

definition cors_middleware :: "'c http_lib \<Rightarrow> string \<Rightarrow> string \<Rightarrow> string \<Rightarrow> 'c middleware" where
  "cors_middleware L origin methods headers =
     \<lparr>mw_fn = cors_fn L origin methods headers, mw_priority = 10, mw_name = ''cors''\<rparr>"

definition error_handler_fn :: "'c http_lib \<Rightarrow> 'c \<Rightarrow> 'c prog" where
  "error_handler_fn L c =
     CallNext c (\<lambda>e c.
       case e of
         None \<Rightarrow> Return c
       | Some (StdException what) \<Rightarrow>
           Return (ctx_json L (lib_serialize L [(''error'', ''internal_server_error''), (''message'', what)])
             (ctx_status L 500 c))
       | Some OtherThrown \<Rightarrow>
           Return (ctx_json L ([CHR ''{'', CHR 0x22] @ ''error'' @ [CHR 0x22, CHR '':'', CHR 0x22] @ ''internal_server_error'' @
             [CHR 0x22, CHR ''}'']) (ctx_status L 500 c)))"

definition error_handler_middleware :: "'c http_lib \<Rightarrow> 'c middleware" where
  "error_handler_middleware L = \<lparr>mw_fn = error_handler_fn L, mw_priority = - 100, mw_name = ''error_handler''\<rparr>"

section \<open>Specification\<close>

text \<open>Calls \<open>Next\<close> at most \<open>n\<close> times on every path.\<close>

primrec calls_at_most :: "'c prog \<Rightarrow> nat \<Rightarrow> bool" where
  "calls_at_most (Return c) n = True"
| "calls_at_most (Raise e c) n = True"
| "calls_at_most (CallNext c k) n = (case n of 0 \<Rightarrow> False | Suc m \<Rightarrow> \<forall>e c'. calls_at_most (k e c') m)"

text \<open>The onion: each middleware wraps the composition of the following ones.\<close>

primrec wrap_prog :: "'c prog \<Rightarrow> ('c \<Rightarrow> 'c outcome) \<Rightarrow> 'c outcome" where
  "wrap_prog (Return c) inner = (None, c)"
| "wrap_prog (Raise e c) inner = (Some e, c)"
| "wrap_prog (CallNext c k) inner = (case inner c of (e, c') \<Rightarrow> wrap_prog (k e c') inner)"

fun onion :: "'c middleware list \<Rightarrow> ('c \<Rightarrow> 'c outcome) \<Rightarrow> 'c \<Rightarrow> 'c outcome" where
  "onion [] final c = final c"
| "onion (m # ms) final c = wrap_prog (mw_fn m c) (onion ms final)"

section \<open>Order\<close>

abbreviation prio_sorted :: "'c middleware list \<Rightarrow> bool" where
  "prio_sorted ms \<equiv> sorted (map mw_priority ms)"

lemma stable_insert_mset [simp]: "mset (stable_insert m xs) = add_mset m (mset xs)"
  by (induction xs) auto

lemma stable_insert_set [simp]: "set (stable_insert m xs) = insert m (set xs)"
  by (induction xs) auto

lemma stable_insert_sorted: "prio_sorted xs \<Longrightarrow> prio_sorted (stable_insert m xs)"
  by (induction xs) (auto simp: mw_less_def)

lemma stable_insert_filter:
  "prio_sorted xs \<Longrightarrow> filter (\<lambda>x. mw_priority x = p) (stable_insert m xs) =
     (if mw_priority m = p then m # filter (\<lambda>x. mw_priority x = p) xs else filter (\<lambda>x. mw_priority x = p) xs)"
  by (induction xs) (auto simp: mw_less_def)

lemma stable_sort_facts:
  "mset (stable_sort ms) = mset ms \<and> prio_sorted (stable_sort ms) \<and>
   filter (\<lambda>x. mw_priority x = p) (stable_sort ms) = filter (\<lambda>x. mw_priority x = p) ms"
  unfolding stable_sort_def by (induction ms) (auto simp: stable_insert_sorted stable_insert_filter)

text \<open>
  After any sequence of registrations the chain holds exactly the registered middlewares, in
  ascending order of their priorities, and those of equal priority in the order of registration.
\<close>

theorem chain_order:
  "let ms = fold chain_use regs [] in
    mset ms = mset regs \<and> sorted (map mw_priority ms) \<and>
    filter (\<lambda>x. mw_priority x = p) ms = filter (\<lambda>x. mw_priority x = p) regs \<and> chain_size ms = length regs"
proof -
  have "mset (fold chain_use regs ms) = mset (ms @ regs) \<and> prio_sorted (fold chain_use regs ms) \<and>
      filter (\<lambda>x. mw_priority x = p) (fold chain_use regs ms) = filter (\<lambda>x. mw_priority x = p) (ms @ regs)"
    if "prio_sorted ms" for ms
    using that
  proof (induction regs arbitrary: ms)
    case (Cons r regs)
    note f = stable_sort_facts [of "ms @ [r]"]
    then have "prio_sorted (chain_use r ms)"
      by (simp add: chain_use_def)
    from Cons.IH [OF this] f show ?case
      by (simp add: chain_use_def)
  qed simp
  from this [of "[]"] show ?thesis
    unfolding Let_def chain_size_def by (metis append_Nil list.map(1) sorted_wrt.simps(1) size_mset)
qed

section \<open>Running\<close>

lemma run_prog_total:
  assumes "\<And>j c. i \<le> j \<Longrightarrow> j \<le> n \<Longrightarrow> \<exists>r j'. nxt j c = Some (r, j') \<and> j \<le> j' \<and> j' \<le> n" and "i \<le> n"
  shows "\<exists>r j. run_prog p nxt i = Some (r, j) \<and> i \<le> j \<and> j \<le> n"
  using assms
proof (induction p arbitrary: i)
  case (CallNext c k)
  obtain e c' j where n: "nxt i c = Some ((e, c'), j)" "i \<le> j" "j \<le> n"
    using CallNext.prems(1) [of i c] CallNext.prems(2) by auto
  have "\<exists>r l. run_prog (k e c') nxt j = Some (r, l) \<and> j \<le> l \<and> l \<le> n"
    using CallNext.prems(1) n(2,3) by (intro CallNext.IH [OF rangeI rangeI]) (auto intro: le_trans)
  then show ?case
    using n by (auto intro: le_trans)
qed auto

lemma chain_next_total:
  "length ms < i + d \<Longrightarrow> i \<le> length ms \<Longrightarrow> \<exists>r j. chain_next d ms final i c = Some (r, j) \<and> i \<le> j \<and> j \<le> length ms"
proof (induction d arbitrary: i c)
  case (Suc d)
  show ?case
  proof (cases "i < length ms")
    case True
    have "\<exists>r j. run_prog (mw_fn (ms ! i) c) (chain_next d ms final) (Suc i) = Some (r, j) \<and> Suc i \<le> j \<and> j \<le> length ms"
    proof (rule run_prog_total)
      fix j c'
      assume "Suc i \<le> j" "j \<le> length ms"
      then show "\<exists>r j'. chain_next d ms final j c' = Some (r, j') \<and> j \<le> j' \<and> j' \<le> length ms"
        by (intro Suc.IH) (use Suc.prems in simp_all)
    qed (use True in simp)
    then show ?thesis
      using True by (auto dest: Suc_leD)
  qed (use Suc.prems in simp)
qed simp

lemma run_prog_mono:
  assumes "\<And>j c r. nxt j c = Some r \<Longrightarrow> nxt' j c = Some r" and "run_prog p nxt i = Some r"
  shows "run_prog p nxt' i = Some r"
  using assms(2)
proof (induction p arbitrary: i)
  case (CallNext c k)
  obtain e c' j where n: "nxt i c = Some ((e, c'), j)" "run_prog (k e c') nxt j = Some r"
    using CallNext.prems by (auto split: option.splits)
  from CallNext.IH [OF rangeI rangeI n(2)] show ?case
    using assms(1) [OF n(1)] by simp
qed auto

lemma chain_next_mono: "chain_next d ms final i c = Some r \<Longrightarrow> chain_next (d + k) ms final i c = Some r"
proof (induction d arbitrary: i c r)
  case (Suc d)
  show ?case
  proof (cases "i < length ms")
    case True
    then show ?thesis
      using Suc.prems run_prog_mono [of "chain_next d ms final" "chain_next (d + k) ms final"] Suc.IH by simp
  qed (use Suc.prems in simp)
qed simp

lemma chain_run_Some: "\<exists>e c'. chain_run ms final c = Some (e, c')"
  using chain_next_total [of ms 0 "Suc (length ms)" final c] by (auto simp: chain_run_def)

text \<open>
  Running a chain always comes to an end, however often the middlewares call \<open>Next\<close>: the nesting
  never exceeds the number of middlewares by more than one, and a greater bound gives the same result.
\<close>

theorem chain_terminates:
  "\<exists>r. chain_run ms final c = Some r \<and>
    (\<forall>k. map_option fst (chain_next (Suc (length ms) + k) ms final 0 c) = Some r)"
proof -
  obtain r j where r: "chain_next (Suc (length ms)) ms final 0 c = Some (r, j)"
    using chain_next_total [of ms 0 "Suc (length ms)" final c] by auto
  have "map_option fst (chain_next (Suc (length ms) + k) ms final 0 c) = Some r" for k
    using chain_next_mono [OF r, of k] by simp
  moreover have "chain_run ms final c = Some r"
    using r by (cases ms) (auto simp: chain_run_def)
  ultimately show ?thesis by blast
qed

lemma run_prog_once:
  assumes "calls_at_most p 1" and "\<And>c. \<exists>j. nxt i c = Some (inner c, j)"
  shows "\<exists>j. run_prog p nxt i = Some (wrap_prog p inner, j)"
proof -
  have zero: "\<exists>j. run_prog q nxt l = Some (wrap_prog q inner, j)" if "calls_at_most q 0" for q l
    using that by (cases q) auto
  show ?thesis
  proof (cases p)
    case (CallNext c k)
    obtain j where "nxt i c = Some (inner c, j)"
      using assms(2) by blast
    then show ?thesis
      using assms(1) zero [of "k (fst (inner c)) (snd (inner c))" j] CallNext
      by (auto simp: case_prod_unfold)
  qed auto
qed

lemma chain_next_onion:
  assumes "\<forall>m \<in> set ms. \<forall>c. calls_at_most (mw_fn m c) 1" and "length ms < i + d" and "i \<le> length ms"
  shows "\<exists>j. chain_next d ms final i c = Some (onion (drop i ms) final c, j)"
  using assms(2,3)
proof (induction d arbitrary: i c)
  case (Suc d)
  show ?case
  proof (cases "i < length ms")
    case True
    have "\<exists>j. chain_next d ms final (Suc i) c' = Some (onion (drop (Suc i) ms) final c', j)" for c'
      by (rule Suc.IH) (use True Suc.prems in simp_all)
    moreover have "calls_at_most (mw_fn (ms ! i) c) 1"
      using assms(1) True by simp
    ultimately show ?thesis
      using True run_prog_once [of "mw_fn (ms ! i) c" "chain_next d ms final" "Suc i" "onion (drop (Suc i) ms) final"]
      by (simp add: Cons_nth_drop_Suc [symmetric])
  qed (use Suc.prems in simp)
qed simp

lemma chain_run_onion:
  assumes "\<forall>m \<in> set ms. \<forall>c. calls_at_most (mw_fn m c) 1"
  shows "chain_run ms final c = Some (onion ms final c)"
  using chain_next_onion [OF assms, of 0 "Suc (length ms)" final c]
  by (cases "onion ms final c") (auto simp: chain_run_def)

text \<open>
  C12: When no middleware calls \<open>Next\<close> more than once, running the chain is the onion: every middleware
  wraps the composition of all the following ones and of the final handler.
\<close>

theorem chain_is_onion:
  assumes "\<forall>m \<in> set ms. \<forall>c. calls_at_most (mw_fn m c) 1"
  shows "chain_run ms final c = Some (onion ms final c)"
  by (rule chain_run_onion [OF assms])

theorem chain_is_onion_witness:
  "chain_run [\<lparr>mw_fn = (\<lambda>c. CallNext (c + 1) (\<lambda>e c. Return (2 * c))), mw_priority = 0, mw_name = []\<rparr>]
     (\<lambda>c :: nat. (None, c + 10)) 5 = Some (None, 32)"
  by (subst chain_is_onion) simp_all

text \<open>A middleware that calls \<open>Next\<close> twice runs the rest of the chain once, and the final handler again.\<close>

lemma next_twice:
  "chain_run [\<lparr>mw_fn = (\<lambda>c. CallNext c (\<lambda>e c. CallNext c (\<lambda>e c. Return c))), mw_priority = 0, mw_name = []\<rparr>,
      \<lparr>mw_fn = (\<lambda>c. CallNext (c @ [1]) (\<lambda>e c. Return (c @ [2]))), mw_priority = 0, mw_name = []\<rparr>]
     (\<lambda>c. (None, c @ [0])) [] = Some (None, [1, 0, 2, 0 :: nat])"
  by (simp add: chain_run_def numeral_2_eq_2)

section \<open>The built-in middlewares\<close>

lemma builtins_call_once:
  "calls_at_most (logging_fn L c) 1" "calls_at_most (cors_fn L a b d c) 1" "calls_at_most (error_handler_fn L c) 1"
  by (auto simp: logging_fn_def cors_fn_def error_handler_fn_def Let_def split: option.splits throwable.splits)

text \<open>Behind a first middleware the chain runs as it does alone.\<close>

abbreviation shifted :: "('c outcome \<times> nat) option \<Rightarrow> ('c outcome \<times> nat) option" where
  "shifted r \<equiv> map_option (map_prod (\<lambda>x. x) Suc) r"

lemma run_prog_shift:
  assumes "\<And>j c. nxt' (Suc j) c = shifted (nxt j c)"
  shows "run_prog p nxt' (Suc i) = shifted (run_prog p nxt i)"
proof (induction p arbitrary: i)
  case (CallNext c k)
  show ?case
    using CallNext.IH [OF rangeI rangeI] assms by (cases "nxt i c") (auto simp: map_prod_def split: prod.splits)
qed simp_all

lemma chain_next_shift: "chain_next d (m # ms) final (Suc i) c = shifted (chain_next d ms final i c)"
proof (induction d arbitrary: i c)
  case (Suc d)
  show ?case
    by (simp only: chain_next.simps length_Cons Suc_less_eq nth_Cons_Suc run_prog_shift [of "chain_next d (m # ms) final", OF Suc.IH])
      simp
qed simp

lemma chain_next_behind: "map_option fst (chain_next (Suc (length ms)) (m # ms) final (Suc 0) c) = chain_run ms final c"
  unfolding chain_next_shift chain_run_def by (cases ms) (simp_all add: option.map_comp comp_def)

text \<open>
  C13: With the error handler in front no exception leaves the chain, whatever the other middlewares and
  the final handler throw, and however often they call \<open>Next\<close>; when nothing behind it throws, the response is the one
  they built, and otherwise its status is 500.
\<close>

theorem error_handler_contains:
  assumes status: "\<And>s c. lib_status L (lib_set_status L s c) = s"
    and keep: "\<And>n v c. lib_status L (lib_set_field L n v c) = lib_status L c"
      "\<And>b c. lib_status L (lib_set_body L b c) = lib_status L c" "\<And>c. lib_status L (lib_prepare L c) = lib_status L c"
  shows "\<exists>e c'' c'. chain_run ms final c = Some (e, c'') \<and>
    chain_run (error_handler_middleware L # ms) final c = Some (None, c') \<and>
    (if e = None then c' = c'' else lib_status L c' = 500)"
proof -
  obtain e c'' where o: "chain_run ms final c = Some (e, c'')"
    using chain_run_Some [of ms final c] by (elim exE)
  then obtain j where n: "chain_next (Suc (length ms)) (error_handler_middleware L # ms) final (Suc 0) c = Some ((e, c''), j)"
    using chain_next_behind [of ms "error_handler_middleware L" final c] by auto
  have "\<exists>c'. chain_run (error_handler_middleware L # ms) final c = Some (None, c') \<and>
      (if e = None then c' = c'' else lib_status L c' = 500)"
    using n [unfolded error_handler_middleware_def] status keep
    by (cases e rule: option.exhaust; cases "the e")
       (auto simp: chain_run_def error_handler_middleware_def error_handler_fn_def ctx_json_def set_body_as_def ctx_status_def
          simp del: chain_next.simps(2) simp: chain_next.simps(2) [of "Suc (length ms)"])
  with o show ?thesis
    by blast
qed

theorem error_handler_contains_witness:
  "\<exists>c'. chain_run [error_handler_middleware
       \<lparr>lib_method = (\<lambda>c. ''GET''), lib_target = (\<lambda>c. ''/''), lib_status = id, lib_set_status = (\<lambda>s c. s),
        lib_set_field = (\<lambda>n v c. c), lib_set_body = (\<lambda>b c. c), lib_prepare = id, lib_clock = (\<lambda>c. 0),
        lib_print = (\<lambda>t c. c), lib_serialize = (\<lambda>o'. [])\<rparr>] (\<lambda>c. (Some OtherThrown, c)) 200 = Some (None, c') \<and> c' = 500"
proof -
  let ?L = "\<lparr>lib_method = (\<lambda>c. ''GET''), lib_target = (\<lambda>c. ''/''), lib_status = id, lib_set_status = (\<lambda>s c. s),
        lib_set_field = (\<lambda>n v c. c), lib_set_body = (\<lambda>b c. c), lib_prepare = id, lib_clock = (\<lambda>c. 0),
        lib_print = (\<lambda>t c. c), lib_serialize = (\<lambda>o'. [])\<rparr> :: int http_lib"
  show ?thesis
    using error_handler_contains [of ?L "[]" "\<lambda>c. (Some OtherThrown, c)" 200] by (simp add: chain_run_def)
qed

text \<open>A preflight request is answered with status 204 without running anything behind the CORS middleware.\<close>

lemma cors_preflight:
  assumes "\<And>c n v. lib_method L (lib_set_field L n v c) = lib_method L c" and "lib_method L c = ''OPTIONS''"
  shows "chain_run (cors_middleware L a b d # ms) final c = chain_run [cors_middleware L a b d] final' c"
  using assms by (simp add: chain_run_def cors_middleware_def cors_fn_def Let_def)

end
