(* ===== verification/Ciphers.thy ===== *)
theory Ciphers
  imports Checksums
begin

text \<open>
  The encrypted packets of \<open>ArcaneSymmetric\<close> and the public-key wrappers of \<open>PenumbraAsymmetric\<close>
  (\<open>Wan/Network/Crypt/Encryption.hpp\<close>).  The cryptographic library is a parameter: a record of its
  functions, where \<open>Inl\<close> is an exception of the library with its message.  The random salt and
  initialisation vector are arguments.  The laws of the library a result needs are its hypotheses.
\<close>

section \<open>The library\<close>

datatype cipher = AesCbc | AesCtr | TwofishCtr

record crypto =
  base64_enc :: "string \<Rightarrow> string"
  base64_dec :: "string \<Rightarrow> string + string"
  pbkdf2 :: "string \<Rightarrow> string \<Rightarrow> nat \<Rightarrow> nat \<Rightarrow> string"
  hmac_sha256 :: "string \<Rightarrow> string \<Rightarrow> string + string"
  gcm_encrypt :: "string \<Rightarrow> string \<Rightarrow> string \<Rightarrow> string + string"
  gcm_decrypt :: "string \<Rightarrow> string \<Rightarrow> nat \<Rightarrow> string \<Rightarrow> string + string"
  mode_encrypt :: "cipher \<Rightarrow> string \<Rightarrow> string \<Rightarrow> string \<Rightarrow> string + string"
  mode_decrypt :: "cipher \<Rightarrow> string \<Rightarrow> string \<Rightarrow> string \<Rightarrow> string + string"

text \<open>
  What leaves a function: an exception of its own, or one of the library.  \<open>OutsidePacket\<close> is a
  read beyond the end of the packet: an index or a pointer, where it is undefined behaviour, or a
  \<open>substr\<close>, where it is an exception that no caller expects.
\<close>

datatype crypt_error = RuntimeExn string | ArgumentExn string | LibraryExn string | OutsidePacket

fun rethrow :: "string \<Rightarrow> string + 'a \<Rightarrow> crypt_error + 'a" where
  "rethrow msg (Inl what) = Inl (RuntimeExn (msg @ what))"
| "rethrow msg (Inr x) = Inr x"

fun propagate :: "string + 'a \<Rightarrow> crypt_error + 'a" where
  "propagate (Inl what) = Inl (LibraryExn what)"
| "propagate (Inr x) = Inr x"

definition derive_key :: "crypto \<Rightarrow> string \<Rightarrow> string \<Rightarrow> nat \<Rightarrow> nat \<Rightarrow> crypt_error + string" where
  "derive_key L pass salt key_len iterations =
     (if salt = [] \<or> key_len = 0 \<or> iterations = 0 then
        Inl (ArgumentExn ''PBKDF2 requires non-empty salt and output with positive iterations'')
      else Inr (pbkdf2 L pass salt key_len iterations))"

section \<open>Reading a packet\<close>

abbreviation byte_at :: "string \<Rightarrow> nat \<Rightarrow> nat" where
  "byte_at s p \<equiv> of_char (s ! p)"

text \<open>An index, a pointer with a length, and \<open>substr\<close>, which is cut off at the end.\<close>

definition byte_read :: "string \<Rightarrow> nat \<Rightarrow> crypt_error + nat" where
  "byte_read s p = (if p < length s then Inr (byte_at s p) else Inl OutsidePacket)"

definition bytes_read :: "string \<Rightarrow> nat \<Rightarrow> nat \<Rightarrow> crypt_error + string" where
  "bytes_read s p n = (if p + n \<le> length s then Inr (take n (drop p s)) else Inl OutsidePacket)"

definition substr_read :: "string \<Rightarrow> nat \<Rightarrow> nat \<Rightarrow> crypt_error + string" where
  "substr_read s p n = (if p \<le> length s then Inr (take n (drop p s)) else Inl OutsidePacket)"

text \<open>The test \<open>Bin[0] != 'C' || Bin[1] != 'W'\<close>, which reads the second byte only after the first.\<close>

definition bad_format :: "string \<Rightarrow> crypt_error + bool" where
  "bad_format s = res_bind (byte_read s 0) (\<lambda>c. if c \<noteq> of_char CHR ''C'' then Inr True
     else res_bind (byte_read s 1) (\<lambda>w. Inr (w \<noteq> of_char CHR ''W'')))"

section \<open>AES-GCM packets\<close>

definition alg_aes_gcm :: nat where "alg_aes_gcm = 1"
definition alg_aes_cbc :: nat where "alg_aes_cbc = 2"
definition alg_aes_ctr :: nat where "alg_aes_ctr = 3"
definition alg_twofish_ctr :: nat where "alg_twofish_ctr = 4"

definition aes_gcm_encrypt :: "crypto \<Rightarrow> string \<Rightarrow> string \<Rightarrow> string \<Rightarrow> string \<Rightarrow> crypt_error + string" where
  "aes_gcm_encrypt L salt iv plain pass =
     res_bind (derive_key L pass salt 32 200000) (\<lambda>key.
     res_bind (rethrow ''AESGCM encrypt error: '' (gcm_encrypt L key iv plain)) (\<lambda>ct.
       Inr (base64_enc L (''CW'' @ [char_of alg_aes_gcm] @ salt @ [char_of (length iv)] @ iv @ [char_of (16 :: nat)] @ ct))))"

definition aes_gcm_decrypt :: "crypto \<Rightarrow> string \<Rightarrow> string \<Rightarrow> crypt_error + string" where
  "aes_gcm_decrypt L b64 pass =
     res_bind (propagate (base64_dec L b64)) (\<lambda>bin.
       if length bin < 2 + 1 + 16 + 1 + 12 + 1 + 16 then Inl (RuntimeExn ''Invalid ciphertext (too short)'')
       else res_bind (bad_format bin) (\<lambda>bad.
       if bad then Inl (RuntimeExn ''Invalid format'')
       else let pos = 2 in res_bind (byte_read bin pos) (\<lambda>alg. let pos = pos + 1 in
       if alg \<noteq> alg_aes_gcm then Inl (RuntimeExn ''Algorithm mismatch (expect AES-GCM)'')
       else let salt_pos = pos; pos = pos + 16 in
       if length bin < pos + 1 then Inl (RuntimeExn ''Invalid ciphertext (missing IV length)'')
       else res_bind (byte_read bin pos) (\<lambda>iv_len. let pos = pos + 1 in
       if iv_len \<noteq> 12 \<or> length bin < pos + iv_len + 1 then Inl (RuntimeExn ''Invalid ciphertext (invalid IV)'')
       else let iv_pos = pos; pos = pos + iv_len in
         res_bind (byte_read bin pos) (\<lambda>tag_len. let pos = pos + 1 in
       if tag_len \<noteq> 16 \<or> length bin < pos + tag_len then Inl (RuntimeExn ''Invalid ciphertext (invalid tag)'')
       else
         res_bind (substr_read bin pos (length bin)) (\<lambda>ct.
         res_bind (bytes_read bin salt_pos 16) (\<lambda>salt.
         res_bind (derive_key L pass salt 32 200000) (\<lambda>key.
         res_bind (bytes_read bin iv_pos iv_len) (\<lambda>iv.
           rethrow ''AESGCM decrypt error: '' (gcm_decrypt L key iv tag_len ct))))))))))"

section \<open>Packets with a message authentication code\<close>

text \<open>
  The three other schemes differ in the algorithm number, the cipher, the messages and in whether
  an exception of the authentication code is caught; the differences are the fields of \<open>scheme\<close>.
\<close>

record scheme =
  sc_alg :: nat
  sc_cipher :: cipher
  sc_encrypt_error :: string
  sc_hmac_error :: "string option"
  sc_too_short :: string
  sc_mismatch :: string
  sc_length_missing :: string
  sc_mac_invalid :: string
  sc_verify_error :: "string option"
  sc_integrity :: string
  sc_decrypt_error :: string

fun catch_as :: "string option \<Rightarrow> string + 'a \<Rightarrow> crypt_error + 'a" where
  "catch_as None r = propagate r"
| "catch_as (Some msg) r = rethrow msg r"

definition packet :: "nat \<Rightarrow> string \<Rightarrow> string \<Rightarrow> string \<Rightarrow> string \<Rightarrow> string" where
  "packet alg salt iv mac ct =
     append_uint32 (''CW'' @ [char_of alg] @ salt @ [char_of (length iv)] @ iv) (of_nat (length mac)) @ mac @ ct"

definition etm_encrypt :: "scheme \<Rightarrow> crypto \<Rightarrow> string \<Rightarrow> string \<Rightarrow> string \<Rightarrow> string \<Rightarrow> crypt_error + string" where
  "etm_encrypt S L salt iv plain pass =
     res_bind (derive_key L pass salt 32 200000) (\<lambda>key.
     res_bind (rethrow (sc_encrypt_error S) (mode_encrypt L (sc_cipher S) key iv plain)) (\<lambda>ct.
     res_bind (derive_key L pass salt 32 200000) (\<lambda>mac_key.
     res_bind (catch_as (sc_hmac_error S) (hmac_sha256 L mac_key (iv @ ct))) (\<lambda>mac.
       Inr (base64_enc L (packet (sc_alg S) salt iv mac ct))))))"

definition etm_decrypt :: "scheme \<Rightarrow> crypto \<Rightarrow> string \<Rightarrow> string \<Rightarrow> crypt_error + string" where
  "etm_decrypt S L b64 pass =
     res_bind (propagate (base64_dec L b64)) (\<lambda>bin.
       if length bin < 2 + 1 + 16 + 1 + 16 + 4 then Inl (RuntimeExn (sc_too_short S))
       else res_bind (bad_format bin) (\<lambda>bad.
       if bad then Inl (RuntimeExn ''Invalid format'')
       else let pos = 2 in res_bind (byte_read bin pos) (\<lambda>alg. let pos = pos + 1 in
       if alg \<noteq> sc_alg S then Inl (RuntimeExn (sc_mismatch S))
       else let salt_pos = pos; pos = pos + 16 in
       if length bin < pos + 1 then Inl (RuntimeExn ''Invalid ciphertext (missing IV length)'')
       else res_bind (byte_read bin pos) (\<lambda>iv_len. let pos = pos + 1 in
       if iv_len \<noteq> 16 \<or> length bin < pos + iv_len + 4 then Inl (RuntimeExn ''Invalid ciphertext (invalid IV)'')
       else let iv_pos = pos; pos = pos + iv_len in
       case read_uint32 bin pos of
         None \<Rightarrow> Inl (RuntimeExn (sc_length_missing S))
       | Some (pos, mac_len) \<Rightarrow>
         if mac_len \<noteq> 32 \<or> length bin - pos < unat mac_len then Inl (RuntimeExn (sc_mac_invalid S))
         else
           res_bind (substr_read bin pos (unat mac_len)) (\<lambda>mac. let pos = pos + unat mac_len in
           res_bind (substr_read bin pos (length bin)) (\<lambda>ct.
           res_bind (bytes_read bin salt_pos 16) (\<lambda>salt.
           res_bind (derive_key L pass salt 32 200000) (\<lambda>mac_key.
           res_bind (bytes_read bin iv_pos iv_len) (\<lambda>iv.
           res_bind (catch_as (sc_verify_error S) (hmac_sha256 L mac_key (iv @ ct))) (\<lambda>mac_check.
             if \<not> constant_time_equal mac mac_check then Inl (RuntimeExn (sc_integrity S))
             else res_bind (derive_key L pass salt 32 200000) (\<lambda>key.
               rethrow (sc_decrypt_error S) (mode_decrypt L (sc_cipher S) key iv ct))))))))))))"

definition aes_cbc :: scheme where
  "aes_cbc = \<lparr>sc_alg = alg_aes_cbc, sc_cipher = AesCbc, sc_encrypt_error = ''AESCBC encrypt error: '',
     sc_hmac_error = Some ''AESCBC HMAC error: '', sc_too_short = ''Invalid ciphertext (AESCBC too short)'',
     sc_mismatch = ''Algorithm mismatch (expect AES-CBC)'', sc_length_missing = ''Invalid ciphertext (mac length missing)'',
     sc_mac_invalid = ''Invalid ciphertext (mac missing)'', sc_verify_error = Some ''AESCBC HMAC verify error: '',
     sc_integrity = ''AESCBC HMAC mismatch - integrity failure'', sc_decrypt_error = ''AESCBC decrypt error: ''\<rparr>"

definition aes_ctr :: scheme where
  "aes_ctr = \<lparr>sc_alg = alg_aes_ctr, sc_cipher = AesCtr, sc_encrypt_error = ''AESCTR encrypt error: '',
     sc_hmac_error = None, sc_too_short = ''Invalid ciphertext (AESCTR too short)'',
     sc_mismatch = ''Algorithm mismatch (expect AES-CTR)'', sc_length_missing = ''Invalid ciphertext (MAC length missing)'',
     sc_mac_invalid = ''Invalid ciphertext (invalid MAC)'', sc_verify_error = None,
     sc_integrity = ''AESCTR HMAC mismatch - integrity failure'', sc_decrypt_error = ''AESCTR decrypt error: ''\<rparr>"

definition twofish_ctr :: scheme where
  "twofish_ctr = \<lparr>sc_alg = alg_twofish_ctr, sc_cipher = TwofishCtr, sc_encrypt_error = ''TwofishCTR encrypt error: '',
     sc_hmac_error = None, sc_too_short = ''Invalid Twofish ciphertext'',
     sc_mismatch = ''Algorithm mismatch (expect Twofish-CTR)'', sc_length_missing = ''Invalid ciphertext (MAC length missing)'',
     sc_mac_invalid = ''Invalid ciphertext (invalid MAC)'', sc_verify_error = None,
     sc_integrity = ''Twofish HMAC mismatch'', sc_decrypt_error = ''TwofishCTR decrypt error: ''\<rparr>"

definition aes_cbc_encrypt :: "crypto \<Rightarrow> string \<Rightarrow> string \<Rightarrow> string \<Rightarrow> string \<Rightarrow> crypt_error + string" where
  "aes_cbc_encrypt = etm_encrypt aes_cbc"

definition aes_cbc_decrypt :: "crypto \<Rightarrow> string \<Rightarrow> string \<Rightarrow> crypt_error + string" where
  "aes_cbc_decrypt = etm_decrypt aes_cbc"

definition aes_ctr_encrypt :: "crypto \<Rightarrow> string \<Rightarrow> string \<Rightarrow> string \<Rightarrow> string \<Rightarrow> crypt_error + string" where
  "aes_ctr_encrypt = etm_encrypt aes_ctr"

definition aes_ctr_decrypt :: "crypto \<Rightarrow> string \<Rightarrow> string \<Rightarrow> crypt_error + string" where
  "aes_ctr_decrypt = etm_decrypt aes_ctr"

definition twofish_ctr_encrypt :: "crypto \<Rightarrow> string \<Rightarrow> string \<Rightarrow> string \<Rightarrow> string \<Rightarrow> crypt_error + string" where
  "twofish_ctr_encrypt = etm_encrypt twofish_ctr"

definition twofish_ctr_decrypt :: "crypto \<Rightarrow> string \<Rightarrow> string \<Rightarrow> crypt_error + string" where
  "twofish_ctr_decrypt = etm_decrypt twofish_ctr"

section \<open>Public keys\<close>

text \<open>
  One record for the two schemes: \<open>pk_generate\<close> and the randomised operations take the random
  source as a number, loading a key may throw, and so may every operation.
\<close>

record ('priv, 'pub) pk_lib =
  pk_generate :: "nat \<Rightarrow> nat \<Rightarrow> 'priv \<times> 'pub"
  pk_save_priv :: "'priv \<Rightarrow> string"
  pk_save_pub :: "'pub \<Rightarrow> string"
  pk_load_priv :: "string \<Rightarrow> string + 'priv"
  pk_load_pub :: "string \<Rightarrow> string + 'pub"
  pk_encrypt :: "nat \<Rightarrow> 'pub \<Rightarrow> string \<Rightarrow> string + string"
  pk_decrypt :: "nat \<Rightarrow> 'priv \<Rightarrow> string \<Rightarrow> string + string"
  pk_sign :: "nat \<Rightarrow> 'priv \<Rightarrow> string \<Rightarrow> string + string"
  pk_verify :: "'pub \<Rightarrow> string \<Rightarrow> string \<Rightarrow> string + bool"

definition save_pair :: "crypto \<Rightarrow> ('priv, 'pub) pk_lib \<Rightarrow> 'priv \<times> 'pub \<Rightarrow> string \<times> string" where
  "save_pair L K p = (base64_enc L (pk_save_priv K (fst p)), base64_enc L (pk_save_pub K (snd p)))"

definition generate_rsa_keypair :: "crypto \<Rightarrow> ('priv, 'pub) pk_lib \<Rightarrow> nat \<Rightarrow> 32 word \<Rightarrow> crypt_error + string \<times> string" where
  "generate_rsa_keypair L K rnd bits =
     (if bits < 2048 then Inl (ArgumentExn ''RSA key size must be at least 2048 bits'')
      else Inr (save_pair L K (pk_generate K rnd (unat bits))))"

definition rsa_oaep_encrypt :: "crypto \<Rightarrow> ('priv, 'pub) pk_lib \<Rightarrow> nat \<Rightarrow> string \<Rightarrow> string \<Rightarrow> crypt_error + string" where
  "rsa_oaep_encrypt L K rnd plain pub64 =
     res_bind (propagate (base64_dec L pub64)) (\<lambda>der.
     res_bind (propagate (pk_load_pub K der)) (\<lambda>pub.
     res_bind (rethrow ''RSA OAEP encrypt error: '' (pk_encrypt K rnd pub plain)) (\<lambda>ct. Inr (base64_enc L ct))))"

definition rsa_oaep_decrypt :: "crypto \<Rightarrow> ('priv, 'pub) pk_lib \<Rightarrow> nat \<Rightarrow> string \<Rightarrow> string \<Rightarrow> crypt_error + string" where
  "rsa_oaep_decrypt L K rnd cipher64 priv64 =
     res_bind (propagate (base64_dec L priv64)) (\<lambda>der.
     res_bind (propagate (pk_load_priv K der)) (\<lambda>priv.
     res_bind (propagate (base64_dec L cipher64)) (\<lambda>ct.
       rethrow ''RSA OAEP decrypt error: '' (pk_decrypt K rnd priv ct))))"

definition rsa_pss_sign :: "crypto \<Rightarrow> ('priv, 'pub) pk_lib \<Rightarrow> nat \<Rightarrow> string \<Rightarrow> string \<Rightarrow> crypt_error + string" where
  "rsa_pss_sign L K rnd msg priv64 =
     res_bind (propagate (base64_dec L priv64)) (\<lambda>der.
     res_bind (propagate (pk_load_priv K der)) (\<lambda>priv.
     res_bind (rethrow ''RSA PSS sign error: '' (pk_sign K rnd priv msg)) (\<lambda>sg. Inr (base64_enc L sg))))"

text \<open>Every exception is caught: the verification is total.\<close>

definition rsa_pss_verify :: "crypto \<Rightarrow> ('priv, 'pub) pk_lib \<Rightarrow> string \<Rightarrow> string \<Rightarrow> string \<Rightarrow> bool" where
  "rsa_pss_verify L K msg sig64 pub64 =
     (case res_bind (base64_dec L pub64) (\<lambda>der.
        res_bind (pk_load_pub K der) (\<lambda>pub.
        res_bind (base64_dec L sig64) (\<lambda>sg. pk_verify K pub msg sg))) of
        Inl what \<Rightarrow> False
      | Inr ok \<Rightarrow> ok)"

definition generate_elgamal_keypair :: "crypto \<Rightarrow> ('priv, 'pub) pk_lib \<Rightarrow> nat \<Rightarrow> 32 word \<Rightarrow> crypt_error + string \<times> string" where
  "generate_elgamal_keypair L K rnd bits =
     (if bits < 2048 then Inl (ArgumentExn ''ElGamal group size must be at least 2048 bits'')
      else Inr (save_pair L K (pk_generate K rnd (unat bits))))"

definition elgamal_encrypt :: "crypto \<Rightarrow> ('priv, 'pub) pk_lib \<Rightarrow> nat \<Rightarrow> string \<Rightarrow> string \<Rightarrow> crypt_error + string" where
  "elgamal_encrypt L K rnd plain pub64 =
     res_bind (propagate (base64_dec L pub64)) (\<lambda>der.
     res_bind (propagate (pk_load_pub K der)) (\<lambda>pub.
     res_bind (rethrow ''ElGamal encrypt error: '' (pk_encrypt K rnd pub plain)) (\<lambda>ct. Inr (base64_enc L ct))))"

definition elgamal_decrypt :: "crypto \<Rightarrow> ('priv, 'pub) pk_lib \<Rightarrow> nat \<Rightarrow> string \<Rightarrow> string \<Rightarrow> crypt_error + string" where
  "elgamal_decrypt L K rnd cipher64 priv64 =
     res_bind (propagate (base64_dec L priv64)) (\<lambda>der.
     res_bind (propagate (pk_load_priv K der)) (\<lambda>priv.
     res_bind (propagate (base64_dec L cipher64)) (\<lambda>ct.
       rethrow ''ElGamal decrypt error: '' (pk_decrypt K rnd priv ct))))"

section \<open>Mixed data\<close>

text \<open>\<open>memcpy\<close> of a 64-bit number, on the little-endian machines the code is for.\<close>

definition le64 :: "64 word \<Rightarrow> string" where
  "le64 v = map (\<lambda>s. char_of (unat (drop_bit s v AND 0xFF))) [0, 8, 16, 24, 32, 40, 48, 56]"

definition k_key :: string where
  "k_key = map char_of [0x87, 0x31, 0xa2, 0x4b, 0xfa, 0x8f, 0x63, 0x27, 0xad, 0x2e, 0xeb, 0x19, 0x1c, 0x6b, 0x93, 0x0f,
     0x4d, 0x5a, 0x76, 0x42, 0x13, 0x37, 0x55, 0xde, 0xad, 0xbe, 0xef, 0x8a, 0x24, 0xbc, 0xda, 0 :: nat]"

definition mix64 :: "64 word \<Rightarrow> 64 word \<Rightarrow> string" where
  "mix64 ts tsc = k_key @ le64 ts @ le64 tsc @ le64 0xDEADBEEFC0FFEE @ le64 0x1234567890ABCDEF"

lemma mix64_length: "length (mix64 ts tsc) = 64"
  by (simp add: mix64_def k_key_def le64_def)

end
