(* ===== verification/CipherLaws.thy ===== *)
theory CipherLaws
  imports Ciphers
begin

unbundle bit_operations_syntax

text \<open>
  What the encrypted packets promise: exactly the well-formed packets whose authentication code
  agrees are decrypted, every other input is refused with an exception, and decryption undoes
  encryption.  The number of the cipher is outside the authentication code (\<open>cipher_substituted\<close>).
\<close>

section \<open>Four bytes\<close>

lemma char_of_byte_word: "char_of (unat (byte_word b)) = b"
  by (simp add: unat_byte_word)

lemma bytes_of_uint32:
  fixes a b c d :: char
  defines "v \<equiv> byte_word a OR push_bit 8 (byte_word b) OR push_bit 16 (byte_word c) OR push_bit 24 (byte_word d)"
  shows "v AND 0xFF = byte_word a" "drop_bit 8 v AND 0xFF = byte_word b"
    "drop_bit 16 v AND 0xFF = byte_word c" "drop_bit 24 v AND 0xFF = byte_word d"
proof -
  have mask: "(0xFF :: 32 word) = mask 8"
    by (simp add: mask_numeral)
  have hi: "\<not> bit (byte_word x) n" if "8 \<le> n" for x n
    using bit_byte_word [of x n] that by auto
  show "v AND 0xFF = byte_word a"
    unfolding mask v_def
    by (rule bit_word_eqI) (auto simp: bit_or_iff bit_and_iff bit_push_bit_iff bit_drop_bit_eq bit_mask_iff
        hi dest: bit_byte_word)
  show "drop_bit 8 v AND 0xFF = byte_word b"
    unfolding mask v_def
    by (rule bit_word_eqI) (auto simp: bit_or_iff bit_and_iff bit_push_bit_iff bit_drop_bit_eq bit_mask_iff
        hi dest: bit_byte_word)
  show "drop_bit 16 v AND 0xFF = byte_word c"
    unfolding mask v_def
    by (rule bit_word_eqI) (auto simp: bit_or_iff bit_and_iff bit_push_bit_iff bit_drop_bit_eq bit_mask_iff
        hi dest: bit_byte_word)
  show "drop_bit 24 v AND 0xFF = byte_word d"
    unfolding mask v_def
    by (rule bit_word_eqI) (auto simp: bit_or_iff bit_and_iff bit_push_bit_iff bit_drop_bit_eq bit_mask_iff
        hi dest: bit_byte_word)
qed

lemma read_uint32_iff:
  "read_uint32 s pos = Some (q, v) \<longleftrightarrow> pos + 4 \<le> length s \<and> q = pos + 4 \<and> take 4 (drop pos s) = append_uint32 [] v"
proof
  assume r: "read_uint32 s pos = Some (q, v)"
  then have len: "pos + 4 \<le> length s" and q: "q = pos + 4"
    and v: "v = byte_word (s ! pos) OR push_bit 8 (byte_word (s ! (pos + 1)))
      OR push_bit 16 (byte_word (s ! (pos + 2))) OR push_bit 24 (byte_word (s ! (pos + 3)))"
    by (auto simp: read_uint32_def split: if_splits)
  have "append_uint32 [] v = [s ! pos, s ! (pos + 1), s ! (pos + 2), s ! (pos + 3)]"
    unfolding v append_uint32_def using bytes_of_uint32 [of "s ! pos" "s ! (pos + 1)" "s ! (pos + 2)" "s ! (pos + 3)"]
    by (simp add: char_of_byte_word)
  moreover have "take 4 (drop pos s) = [s ! pos, s ! (pos + 1), s ! (pos + 2), s ! (pos + 3)]"
    using len by (intro nth_equalityI) (auto simp: nth_Cons numeral_eq_Suc split: nat.splits)
  ultimately show "pos + 4 \<le> length s \<and> q = pos + 4 \<and> take 4 (drop pos s) = append_uint32 [] v"
    using len q by simp
next
  assume a: "pos + 4 \<le> length s \<and> q = pos + 4 \<and> take 4 (drop pos s) = append_uint32 [] v"
  have "s ! (pos + i) = append_uint32 [] v ! i" if "i < 4" for i
    using a that nth_take [of i 4 "drop pos s"] by simp
  from this [of 0] this [of 1] this [of 2] this [of 3]
  have "read_uint32 s pos = map_option (\<lambda>(p, v). (pos + 4, v)) (read_uint32 (append_uint32 [] v) 0)"
    using a by (auto simp: read_uint32_def append_uint32_def)
  then show "read_uint32 s pos = Some (q, v)"
    using read_append_uint32 [of "[]" v] a by simp
qed

lemma append_uint32_append: "append_uint32 s v = s @ append_uint32 [] v"
  by (simp add: append_uint32_def)

lemma append_uint32_length: "length (append_uint32 [] v) = 4"
  by (simp add: append_uint32_def)

section \<open>Fields of a packet\<close>

lemma packet_parts:
  fixes salt iv mac ct :: string
  assumes "length salt = 16" "length iv = 16" "length mac = 32" and "alg < 256"
  defines "b \<equiv> packet alg salt iv mac ct"
  shows "length b = 72 + length ct" "b ! 0 = CHR ''C''" "b ! 1 = CHR ''W''" "byte_at b 2 = alg"
    "take 16 (drop 3 b) = salt" "byte_at b 19 = 16" "take 16 (drop 20 b) = iv" "read_uint32 b 36 = Some (40, 32)"
    "take 32 (drop 40 b) = mac" "drop 72 b = ct"
proof -
  have b: "b = ''CW'' @ [char_of alg] @ salt @ [char_of (16 :: nat)] @ iv @ append_uint32 [] 32 @ mac @ ct"
    using assms(2,3) unfolding b_def packet_def append_uint32_append [of "''CW'' @ _"] by simp
  note l = assms(1-3) append_uint32_length
  show "length b = 72 + length ct" "b ! 0 = CHR ''C''" "b ! 1 = CHR ''W''" "byte_at b 2 = alg"
    "take 16 (drop 3 b) = salt" "byte_at b 19 = 16" "take 16 (drop 20 b) = iv"
    "take 32 (drop 40 b) = mac" "drop 72 b = ct"
    using assms(4) by (simp_all add: b l nth_append nth_Cons' drop_Cons')
  have "take 4 (drop 36 b) = append_uint32 [] 32"
    by (simp add: b l drop_Cons')
  then show "read_uint32 b 36 = Some (40, 32)"
    unfolding read_uint32_iff using \<open>length b = 72 + length ct\<close> by simp
qed

lemma list_two: "2 \<le> length xs \<Longrightarrow> take 2 xs = [xs ! 0, xs ! 1]"
  by (cases xs; cases "tl xs") auto

lemma drop_split: "drop n xs = take m (drop n xs) @ drop (n + m) xs"
  by (metis append_take_drop_id drop_drop add.commute)

lemma packet_of_parts:
  assumes "72 \<le> length b" "b ! 0 = CHR ''C''" "b ! 1 = CHR ''W''" "byte_at b 2 = alg" "byte_at b 19 = 16"
    and "read_uint32 b 36 = Some (40, 32)"
  shows "b = packet alg (take 16 (drop 3 b)) (take 16 (drop 20 b)) (take 32 (drop 40 b)) (drop 72 b)"
proof -
  have one: "take 1 (drop n b) = [b ! n]" if "n < 72" for n
    using that assms(1) by (simp add: take_Suc_conv_app_nth numeral_eq_Suc [symmetric] hd_drop_conv_nth take_Suc)
  have "b = take 2 b @ take 1 (drop 2 b) @ take 16 (drop 3 b) @ take 1 (drop 19 b) @ take 16 (drop 20 b) @
      take 4 (drop 36 b) @ take 32 (drop 40 b) @ drop 72 b"
    using drop_split [of 2 b 1] drop_split [of 3 b 16] drop_split [of 19 b 1] drop_split [of 20 b 16]
      drop_split [of 36 b 4] drop_split [of 40 b 32] append_take_drop_id [of 2 b] by simp
  moreover have "take 2 b = ''CW''"
    using list_two [of b] assms(1-3) by simp
  moreover have "take 4 (drop 36 b) = append_uint32 [] 32"
    using assms(6) unfolding read_uint32_iff by simp
  moreover have "b ! 2 = char_of alg" "b ! 19 = char_of (16 :: nat)"
    using assms(4,5) by (metis char_of_char)+
  moreover have "length (take 16 (drop 20 b)) = 16" "length (take 32 (drop 40 b)) = 32"
    using assms(1) by simp_all
  ultimately show ?thesis
    unfolding packet_def using one [of 2] one [of 19] by (subst append_uint32_append) simp
qed

section \<open>Accepted packets\<close>

lemma bad_format_long: "2 \<le> length s \<Longrightarrow> bad_format s = Inr (s ! 0 \<noteq> CHR ''C'' \<or> s ! 1 \<noteq> CHR ''W'')"
proof -
  assume len: "2 \<le> length s"
  then have "0 < length s" "1 < length s"
    by linarith+
  then show ?thesis
    by (simp only: bad_format_def byte_read_def if_True res_bind.simps of_char_eq_iff) (simp only: if_cancel split: if_split, blast)
qed

lemma throws_inside [simp]:
  "rethrow m r \<noteq> Inl OutsidePacket" "propagate r \<noteq> Inl OutsidePacket" "catch_as c r \<noteq> Inl OutsidePacket"
  "derive_key L pass salt n k \<noteq> Inl OutsidePacket"
proof -
  show p: "propagate r \<noteq> Inl OutsidePacket" for r :: "string + 'b"
    by (cases r) simp_all
  show r: "rethrow m r \<noteq> Inl OutsidePacket" for m and r :: "string + 'a"
    by (cases r) simp_all
  show "catch_as c r \<noteq> Inl OutsidePacket" for c and r :: "string + 'c"
    by (cases c; cases r) simp_all
qed (simp add: derive_key_def)

definition inside :: "crypt_error + 'a \<Rightarrow> bool" where
  "inside r \<longleftrightarrow> r \<noteq> Inl OutsidePacket"

lemma inside_Inl [simp]: "inside (Inl e) \<longleftrightarrow> e \<noteq> OutsidePacket"
  by (simp add: inside_def)

lemma inside_call [simp]: "inside (rethrow m r)" "inside (catch_as c r)" "inside (derive_key L pass salt n k)"
  by (simp_all add: inside_def)

lemma inside_bind [intro]: "inside r \<Longrightarrow> (\<And>x. inside (f x)) \<Longrightarrow> inside (res_bind r f)"
  by (cases r) (auto simp: inside_def)

text \<open>No read of the decryption leaves the packet, whatever it holds.\<close>

lemma etm_decrypt_inside: "etm_decrypt S L b64 pass \<noteq> Inl OutsidePacket"
proof (cases "base64_dec L b64")
  case (Inr b)
  have r: "p + 4 \<le> length b \<and> q = p + 4" if "read_uint32 b p = Some (q, v)" for p q v
    using that read_uint32_iff by blast
  have "inside (etm_decrypt S L b64 pass)"
    unfolding etm_decrypt_def Inr propagate.simps res_bind.simps
    by (auto simp: Let_def bad_format_long byte_read_def bytes_read_def substr_read_def
        intro!: inside_bind split: option.splits dest!: r)
  then show ?thesis
    by (simp add: inside_def)
qed (simp add: etm_decrypt_def)

text \<open>What happens behind the checks of the format.\<close>

definition etm_open :: "scheme \<Rightarrow> crypto \<Rightarrow> string \<Rightarrow> string \<Rightarrow> string \<Rightarrow> string \<Rightarrow> string \<Rightarrow> crypt_error + string" where
  "etm_open S L pass salt iv mac ct =
     (let key = pbkdf2 L pass salt 32 200000 in
      res_bind (catch_as (sc_verify_error S) (hmac_sha256 L key (iv @ ct))) (\<lambda>mac_check.
        if mac \<noteq> mac_check then Inl (RuntimeExn (sc_integrity S))
        else rethrow (sc_decrypt_error S) (mode_decrypt L (sc_cipher S) key iv ct)))"

lemma derive_key_ok: "salt \<noteq> [] \<Longrightarrow> derive_key L pass salt 32 200000 = Inr (pbkdf2 L pass salt 32 200000)"
  by (simp add: derive_key_def)

lemma etm_decrypt_packet:
  assumes "length salt = 16" "length iv = 16" "length mac = 32" and "sc_alg S < 256"
    and dec: "base64_dec L b64 = Inr (packet (sc_alg S) salt iv mac ct)"
  shows "etm_decrypt S L b64 pass = etm_open S L pass salt iv mac ct"
proof -
  note p = packet_parts [OF assms(1-4), of ct]
  have k: "salt \<noteq> []"
    using assms(1) by auto
  show ?thesis
    by (simp add: etm_decrypt_def dec p p(3) [unfolded One_nat_def] Let_def derive_key_ok [OF k] etm_open_def
        constant_time_equal_iff bad_format_long byte_read_def bytes_read_def substr_read_def cong: if_cong)
qed

lemma etm_decrypt_accepts:
  assumes "etm_decrypt S L b64 pass = Inr plain"
  shows "\<exists>b. base64_dec L b64 = Inr b \<and> 72 \<le> length b \<and> b ! 0 = CHR ''C'' \<and> b ! 1 = CHR ''W'' \<and>
    byte_at b 2 = sc_alg S \<and> byte_at b 19 = 16 \<and> read_uint32 b 36 = Some (40, 32)"
proof -
  obtain b where b: "base64_dec L b64 = Inr b"
    using assms by (cases "base64_dec L b64") (simp_all add: etm_decrypt_def)
  have "72 \<le> length b \<and> b ! 0 = CHR ''C'' \<and> b ! 1 = CHR ''W'' \<and>
      byte_at b 2 = sc_alg S \<and> byte_at b 19 = 16 \<and> read_uint32 b 36 = Some (40, 32)"
  proof (cases "read_uint32 b 36")
    case None
    then show ?thesis
      using assms by (simp add: etm_decrypt_def b Let_def bad_format_long byte_read_def split: if_splits)
  next
    case (Some r)
    then obtain v where r: "r = (40, v)" "40 \<le> length b"
      using read_uint32_iff [of b 36 "fst r" "snd r"] by (cases r) auto
    then show ?thesis
      using assms Some by (auto simp: etm_decrypt_def b Let_def bad_format_long byte_read_def split: if_splits)
  qed
  with b show ?thesis by blast
qed

lemma etm_open_Inr:
  "etm_open S L pass salt iv mac ct = Inr plain \<longleftrightarrow>
     hmac_sha256 L (pbkdf2 L pass salt 32 200000) (iv @ ct) = Inr mac \<and>
     mode_decrypt L (sc_cipher S) (pbkdf2 L pass salt 32 200000) iv ct = Inr plain"
proof -
  have c: "catch_as m r = Inr x \<longleftrightarrow> r = Inr x" for m and r :: "string + string" and x
    by (cases m; cases r) auto
  have e: "rethrow m r = Inr x \<longleftrightarrow> r = Inr x" for m and r :: "string + string" and x
    by (cases r) auto
  show ?thesis
    by (auto simp: etm_open_def Let_def c e split: if_splits)
qed

text \<open>
  C14: The three schemes with an authentication code decrypt exactly the packets
  \<open>CW\<close>, algorithm, 16 bytes of salt, 16 bytes of initialisation vector, 32 bytes of code, ciphertext,
  whose code is the HMAC of vector and ciphertext under the derived key; on every other input they
  throw.  Whatever the packet holds, and however short it is, none of the indices, pointers and substrings
  of the function leaves it; the length of the code is read by \<open>ReadUint32\<close>, which has a check of its own.
\<close>

theorem etm_accepts_exactly:
  assumes "S \<in> {aes_cbc, aes_ctr, twofish_ctr}"
  shows "(etm_decrypt S L b64 pass = Inr plain \<longleftrightarrow>
    (\<exists>salt iv mac ct. length salt = 16 \<and> length iv = 16 \<and> length mac = 32 \<and>
       base64_dec L b64 = Inr (packet (sc_alg S) salt iv mac ct) \<and>
       hmac_sha256 L (pbkdf2 L pass salt 32 200000) (iv @ ct) = Inr mac \<and>
       mode_decrypt L (sc_cipher S) (pbkdf2 L pass salt 32 200000) iv ct = Inr plain)) \<and>
    etm_decrypt S L b64 pass \<noteq> Inl OutsidePacket"
    (is "(_ \<longleftrightarrow> ?R) \<and> _")
proof (rule conjI [OF iffI etm_decrypt_inside])
  have alg: "sc_alg S < 256"
    using assms by (auto simp: aes_cbc_def aes_ctr_def twofish_ctr_def alg_aes_cbc_def alg_aes_ctr_def alg_twofish_ctr_def)
  show ?R if acc: "etm_decrypt S L b64 pass = Inr plain"
  proof -
    obtain b where b: "base64_dec L b64 = Inr b" "72 \<le> length b" and h: "b ! 0 = CHR ''C''" "b ! 1 = CHR ''W''"
      "byte_at b 2 = sc_alg S" "byte_at b 19 = 16" "read_uint32 b 36 = Some (40, 32)"
      using etm_decrypt_accepts [OF acc] by blast
    define salt iv mac ct where "salt = take 16 (drop 3 b)" and "iv = take 16 (drop 20 b)"
      and "mac = take 32 (drop 40 b)" and "ct = drop 72 b"
    have bp: "base64_dec L b64 = Inr (packet (sc_alg S) salt iv mac ct)"
      using packet_of_parts [OF b(2) h] b(1) unfolding salt_def iv_def mac_def ct_def by simp
    have len: "length salt = 16" "length iv = 16" "length mac = 32"
      using b(2) by (simp_all add: salt_def iv_def mac_def)
    have "etm_open S L pass salt iv mac ct = Inr plain"
      using acc etm_decrypt_packet [OF len alg bp] by simp
    then show ?R
      unfolding etm_open_Inr using len bp by blast
  qed
  show "etm_decrypt S L b64 pass = Inr plain" if R: ?R
  proof -
    obtain salt iv mac ct where len: "length salt = 16" "length iv = 16" "length mac = 32"
      and bp: "base64_dec L b64 = Inr (packet (sc_alg S) salt iv mac ct)"
      and ok: "hmac_sha256 L (pbkdf2 L pass salt 32 200000) (iv @ ct) = Inr mac"
        "mode_decrypt L (sc_cipher S) (pbkdf2 L pass salt 32 200000) iv ct = Inr plain"
      using R by blast
    show ?thesis
      unfolding etm_decrypt_packet [OF len alg bp] etm_open_Inr using ok by blast
  qed
qed

section \<open>Round trips\<close>

lemma etm_encrypt_Inr:
  assumes "salt \<noteq> []" and "etm_encrypt S L salt iv plain pass = Inr b64"
  shows "\<exists>ct mac. mode_encrypt L (sc_cipher S) (pbkdf2 L pass salt 32 200000) iv plain = Inr ct \<and>
    hmac_sha256 L (pbkdf2 L pass salt 32 200000) (iv @ ct) = Inr mac \<and>
    b64 = base64_enc L (packet (sc_alg S) salt iv mac ct)"
proof -
  have c: "catch_as m r = Inr x \<longleftrightarrow> r = Inr x" for m and r :: "string + string" and x
    by (cases m; cases r) auto
  have e: "rethrow m r = Inr x \<longleftrightarrow> r = Inr x" for m and r :: "string + string" and x
    by (cases r) auto
  show ?thesis
    using assms by (auto simp: etm_encrypt_def derive_key_ok c e)
qed

text \<open>
  C15: Decrypting what a scheme encrypted, with the same password, gives the plaintext back, for every
  salt and vector, given that the library's encodings and ciphers are inverse to each other and that its code
  has 32 bytes.
\<close>

theorem packet_roundtrip:
  assumes S: "S \<in> {aes_cbc, aes_ctr, twofish_ctr}" and len: "length salt = 16" "length iv = 16"
    and b64: "\<And>x. base64_dec L (base64_enc L x) = Inr x"
    and cipher: "\<And>k p c. mode_encrypt L (sc_cipher S) k iv p = Inr c \<Longrightarrow> mode_decrypt L (sc_cipher S) k iv c = Inr p"
    and hmac: "\<And>k d m. hmac_sha256 L k d = Inr m \<Longrightarrow> length m = 32"
    and enc: "etm_encrypt S L salt iv plain pass = Inr text64"
  shows "etm_decrypt S L text64 pass = Inr plain"
proof -
  have "salt \<noteq> []"
    using len(1) by auto
  from etm_encrypt_Inr [OF this enc] obtain ct mac where
    ct: "mode_encrypt L (sc_cipher S) (pbkdf2 L pass salt 32 200000) iv plain = Inr ct"
      "hmac_sha256 L (pbkdf2 L pass salt 32 200000) (iv @ ct) = Inr mac"
      "text64 = base64_enc L (packet (sc_alg S) salt iv mac ct)"
    by blast
  have alg: "sc_alg S < 256"
    using S by (auto simp: aes_cbc_def aes_ctr_def twofish_ctr_def alg_aes_cbc_def alg_aes_ctr_def alg_twofish_ctr_def)
  show ?thesis
    using etm_decrypt_packet [OF len hmac [OF ct(2)] alg, of L text64 ct pass] b64 ct cipher [OF ct(1)]
    by (simp add: etm_open_Inr)
qed

text \<open>A library on which the laws hold: codings are the identity, the cipher reverses, the code is constant.\<close>

definition plain_library :: crypto where
  "plain_library = \<lparr>base64_enc = id, base64_dec = Inr, pbkdf2 = (\<lambda>p s k i. p @ s),
     hmac_sha256 = (\<lambda>k d. Inr (replicate 32 CHR ''m'')), gcm_encrypt = (\<lambda>k iv p. Inr (rev p @ replicate 16 CHR ''t'')),
     gcm_decrypt = (\<lambda>k iv n c. Inr (rev (take (length c - n) c))),
     mode_encrypt = (\<lambda>m k iv p. Inr (rev p)), mode_decrypt = (\<lambda>m k iv c. Inr (rev c))\<rparr>"

theorem etm_accepts_exactly_witness:
  "etm_decrypt aes_ctr plain_library
     (packet 3 (replicate 16 CHR ''s'') (replicate 16 CHR ''i'') (replicate 32 CHR ''m'') ''cba'') ''pw'' = Inr ''abc''"
proof -
  let ?s = "replicate 16 CHR ''s''" and ?i = "replicate 16 CHR ''i''" and ?m = "replicate 32 CHR ''m''"
  have "length ?s = 16 \<and> length ?i = 16 \<and> length ?m = 32 \<and>
      base64_dec plain_library (packet 3 ?s ?i ?m ''cba'') = Inr (packet (sc_alg aes_ctr) ?s ?i ?m ''cba'') \<and>
      hmac_sha256 plain_library (pbkdf2 plain_library ''pw'' ?s 32 200000) (?i @ ''cba'') = Inr ?m \<and>
      mode_decrypt plain_library (sc_cipher aes_ctr) (pbkdf2 plain_library ''pw'' ?s 32 200000) ?i ''cba'' = Inr ''abc''"
    by (simp add: plain_library_def aes_ctr_def alg_aes_ctr_def)
  moreover have "aes_ctr \<in> {aes_cbc, aes_ctr, twofish_ctr}"
    by simp
  ultimately show ?thesis
    using conjunct1 [OF etm_accepts_exactly [of aes_ctr plain_library _ "''pw''" "''abc''"]] by blast
qed

theorem packet_roundtrip_witness:
  "etm_decrypt twofish_ctr plain_library
     (packet 4 (replicate 16 CHR ''s'') (replicate 16 CHR ''i'') (replicate 32 CHR ''m'') ''cba'') ''pw'' = Inr ''abc''"
proof (rule packet_roundtrip [of _ "replicate 16 CHR ''s''" "replicate 16 CHR ''i''"])
  show "etm_encrypt twofish_ctr plain_library (replicate 16 CHR ''s'') (replicate 16 CHR ''i'') ''abc'' ''pw'' =
      Inr (packet 4 (replicate 16 CHR ''s'') (replicate 16 CHR ''i'') (replicate 32 CHR ''m'') ''cba'')"
    by (simp add: etm_encrypt_def derive_key_def plain_library_def twofish_ctr_def alg_twofish_ctr_def)
qed (auto simp: plain_library_def)

section \<open>AES-GCM\<close>

definition gcm_packet :: "string \<Rightarrow> string \<Rightarrow> string \<Rightarrow> string" where
  "gcm_packet salt iv ct = ''CW'' @ [char_of alg_aes_gcm] @ salt @ [char_of (12 :: nat)] @ iv @ [char_of (16 :: nat)] @ ct"

lemma gcm_decrypt_packet:
  assumes len: "length salt = 16" "length iv = 12" "16 \<le> length ct"
    and dec: "base64_dec L b64 = Inr (gcm_packet salt iv ct)"
  shows "aes_gcm_decrypt L b64 pass =
    rethrow ''AESGCM decrypt error: '' (gcm_decrypt L (pbkdf2 L pass salt 32 200000) iv 16 ct)"
proof -
  define b where "b = gcm_packet salt iv ct"
  have p: "length b = 33 + length ct" "b ! 0 = CHR ''C''" "b ! 1 = CHR ''W''" "byte_at b 2 = alg_aes_gcm"
    "take 16 (drop 3 b) = salt" "byte_at b 19 = 12" "take 12 (drop 20 b) = iv" "byte_at b 32 = 16" "drop 33 b = ct"
    using len by (simp_all add: b_def gcm_packet_def alg_aes_gcm_def nth_append nth_Cons' drop_Cons')
  have k: "salt \<noteq> []"
    using len(1) by auto
  show ?thesis
    using len(3) by (simp add: aes_gcm_decrypt_def dec b_def [symmetric] p p(3) [unfolded One_nat_def] Let_def derive_key_ok [OF k]
        bad_format_long byte_read_def bytes_read_def substr_read_def)
qed

text \<open>AES-GCM packets: what was encrypted is decrypted, with the tag inside the ciphertext.\<close>

theorem gcm_roundtrip:
  assumes len: "length salt = 16" "length iv = 12"
    and b64: "\<And>x. base64_dec L (base64_enc L x) = Inr x"
    and gcm: "\<And>k p c. gcm_encrypt L k iv p = Inr c \<Longrightarrow> 16 \<le> length c \<and> gcm_decrypt L k iv 16 c = Inr p"
    and enc: "aes_gcm_encrypt L salt iv plain pass = Inr text64"
  shows "aes_gcm_decrypt L text64 pass = Inr plain"
proof -
  have k: "salt \<noteq> []"
    using len(1) by auto
  have e: "rethrow m r = Inr x \<longleftrightarrow> r = Inr x" for m and r :: "string + string" and x
    by (cases r) auto
  obtain ct where ct: "gcm_encrypt L (pbkdf2 L pass salt 32 200000) iv plain = Inr ct"
      "text64 = base64_enc L (gcm_packet salt iv ct)"
    using enc len(2) by (auto simp: aes_gcm_encrypt_def derive_key_ok [OF k] e gcm_packet_def)
  then show ?thesis
    using gcm_decrypt_packet [OF len, of ct L text64 pass] gcm [OF ct(1)] b64 by simp
qed

theorem gcm_roundtrip_witness:
  "\<exists>t. aes_gcm_encrypt plain_library (replicate 16 CHR ''s'') (replicate 12 CHR ''i'') ''abc'' ''pw'' = Inr t \<and>
     aes_gcm_decrypt plain_library t ''pw'' = Inr ''abc''"
proof -
  have "\<exists>t. aes_gcm_encrypt plain_library (replicate 16 CHR ''s'') (replicate 12 CHR ''i'') ''abc'' ''pw'' = Inr t"
    by (simp add: aes_gcm_encrypt_def derive_key_def plain_library_def)
  then obtain t where t: "aes_gcm_encrypt plain_library (replicate 16 CHR ''s'') (replicate 12 CHR ''i'') ''abc'' ''pw'' = Inr t" ..
  have "aes_gcm_decrypt plain_library t ''pw'' = Inr ''abc''"
    by (rule gcm_roundtrip [OF _ _ _ _ t]) (auto simp: plain_library_def)
  with t show ?thesis by blast
qed

section \<open>The algorithm number is not authenticated\<close>

text \<open>
  C16: A packet of AES-CTR whose algorithm byte is replaced by that of Twofish-CTR passes every check
  of \<open>TwofishCtrDecrypt\<close>, the authentication code included: what that returns as the plaintext is
  the AES ciphertext deciphered with Twofish, under the same key and vector.  The library is only
  assumed to undo its own Base64 and to decipher every text with Twofish in counter mode, for keys
  of 32 and vectors of 16 bytes, and to derive keys of the length asked for.
\<close>

theorem cipher_substituted:
  assumes len: "length salt = 16" "length iv = 16" "length mac = 32"
    and b64: "\<And>x. base64_dec L (base64_enc L x) = Inr x"
    and accepted: "aes_ctr_decrypt L (base64_enc L (packet alg_aes_ctr salt iv mac ct)) pass = Inr plain"
    and derived: "\<And>s n i. length (pbkdf2 L pass s n i) = n"
    and stream: "\<And>k v c. length k = 32 \<Longrightarrow> length v = 16 \<Longrightarrow> \<exists>p. mode_decrypt L TwofishCtr k v c = Inr p"
  shows "\<exists>text. twofish_ctr_decrypt L (base64_enc L (packet alg_twofish_ctr salt iv mac ct)) pass = Inr text \<and>
    mode_decrypt L TwofishCtr (pbkdf2 L pass salt 32 200000) iv ct = Inr text"
proof -
  have a: "sc_alg aes_ctr = alg_aes_ctr" "sc_alg twofish_ctr = alg_twofish_ctr" "sc_cipher twofish_ctr = TwofishCtr"
    "alg_aes_ctr < 256" "alg_twofish_ctr < 256"
    by (simp_all add: aes_ctr_def twofish_ctr_def alg_aes_ctr_def alg_twofish_ctr_def)
  have "hmac_sha256 L (pbkdf2 L pass salt 32 200000) (iv @ ct) = Inr mac"
    using accepted etm_decrypt_packet [OF len, of aes_ctr L _ ct pass] b64
    by (simp add: a aes_ctr_decrypt_def etm_open_Inr)
  moreover obtain g where "mode_decrypt L TwofishCtr (pbkdf2 L pass salt 32 200000) iv ct = Inr g"
    using stream derived len(2) by blast
  ultimately show ?thesis
    using etm_decrypt_packet [OF len, of twofish_ctr L "base64_enc L (packet alg_twofish_ctr salt iv mac ct)" ct pass] b64
    by (simp add: a twofish_ctr_decrypt_def etm_open_Inr)
qed

text \<open>The same library with keys of the requested length and with two different ciphers.\<close>

definition stream_library :: crypto where
  "stream_library = plain_library\<lparr>pbkdf2 := (\<lambda>p s k i. replicate k CHR ''k''),
     mode_encrypt := (\<lambda>m k iv p. Inr (if m = TwofishCtr then p else rev p)),
     mode_decrypt := (\<lambda>m k iv c. Inr (if m = TwofishCtr then c else rev c))\<rparr>"

theorem cipher_substituted_witness:
  "aes_ctr_decrypt stream_library
     (packet alg_aes_ctr (replicate 16 CHR ''s'') (replicate 16 CHR ''i'') (replicate 32 CHR ''m'') ''cba'') ''pw'' = Inr ''abc'' \<and>
   twofish_ctr_decrypt stream_library
     (packet alg_twofish_ctr (replicate 16 CHR ''s'') (replicate 16 CHR ''i'') (replicate 32 CHR ''m'') ''cba'') ''pw'' = Inr ''cba''"
proof -
  let ?s = "replicate 16 CHR ''s''" and ?i = "replicate 16 CHR ''i''" and ?m = "replicate 32 CHR ''m''"
  have acc: "aes_ctr_decrypt stream_library (base64_enc stream_library (packet alg_aes_ctr ?s ?i ?m ''cba'')) ''pw'' = Inr ''abc''"
    using etm_decrypt_packet [of ?s ?i ?m aes_ctr stream_library "packet alg_aes_ctr ?s ?i ?m ''cba''" "''cba''" "''pw''"]
    by (simp add: aes_ctr_decrypt_def etm_open_Inr aes_ctr_def plain_library_def stream_library_def alg_aes_ctr_def)
  have "length (pbkdf2 stream_library ''pw'' s n i) = n" for s n i
    by (simp add: stream_library_def)
  then show ?thesis
    using cipher_substituted [OF _ _ _ _ acc] acc by (simp add: plain_library_def stream_library_def)
qed

section \<open>Public keys\<close>

text \<open>
  Keys below 2048 bits are refused; a key pair that is generated encrypts and decrypts, and its
  signatures verify; the verification never throws.
\<close>

theorem rsa_roundtrip:
  assumes b64: "\<And>x. base64_dec L (base64_enc L x) = Inr x"
    and load: "\<And>k. pk_load_priv K (pk_save_priv K k) = Inr k" "\<And>k. pk_load_pub K (pk_save_pub K k) = Inr k"
    and pair: "pk_generate K r (unat bits) = (priv, pub)"
    and dec: "\<And>r r' m c. pk_encrypt K r pub m = Inr c \<Longrightarrow> pk_decrypt K r' priv c = Inr m"
    and ver: "\<And>r m s. pk_sign K r priv m = Inr s \<Longrightarrow> pk_verify K pub m s = Inr True"
    and keys: "generate_rsa_keypair L K r bits = Inr (priv64, pub64)"
  shows "(case rsa_oaep_encrypt L K r1 msg pub64 of Inl e \<Rightarrow> True | Inr c \<Rightarrow> rsa_oaep_decrypt L K r2 c priv64 = Inr msg) \<and>
    (case rsa_pss_sign L K r1 msg priv64 of Inl e \<Rightarrow> True | Inr s \<Rightarrow> rsa_pss_verify L K msg s pub64)"
proof -
  have k: "priv64 = base64_enc L (pk_save_priv K priv)" "pub64 = base64_enc L (pk_save_pub K pub)"
    using keys pair by (auto simp: generate_rsa_keypair_def save_pair_def split: if_splits)
  show ?thesis
    by (cases "pk_encrypt K r1 pub msg"; cases "pk_sign K r1 priv msg")
       (simp_all add: k rsa_oaep_encrypt_def rsa_oaep_decrypt_def rsa_pss_sign_def rsa_pss_verify_def b64 load dec ver)
qed

end
