(* ===== verification/Pointers.thy ===== *)
theory Pointers
  imports Prelude "HOL-Library.AList" "HOL-Library.Multiset"
begin

text \<open>
  The pointer classes of \<open>Wan/Container/Pointer.hpp\<close>.  The state holds the pointer variables that
  exist, as an association list from their names, and the log of the calls of deleters.  An object
  is named by its address.  Moving a deleter leaves a copy behind, as for a function object.
  \<open>SharedPtr\<close> and \<open>WeakPtr\<close> wrap the standard library's pointers, whose control block, with the number of its
  shared owners, is part of the state.  The steps say which variables an operation needs.
\<close>

section \<open>Exclusive ownership\<close>

record 'd owner =
  ow_ptr :: "nat option"
  ow_del :: 'd

record 'd own_state =
  own_vars :: "(nat \<times> 'd owner) list"
  own_log :: "('d \<times> nat) list"

text \<open>The deleter is called on a pointer that is not null.\<close>

definition own_release :: "'d owner \<Rightarrow> ('d \<times> nat) list" where
  "own_release u = (case ow_ptr u of None \<Rightarrow> [] | Some a \<Rightarrow> [(ow_del u, a)])"

definition unique_new :: "'d \<Rightarrow> nat \<Rightarrow> nat option \<Rightarrow> 'd own_state \<Rightarrow> 'd own_state" where
  "unique_new d v p s = s\<lparr>own_vars := (v, \<lparr>ow_ptr = p, ow_del = d\<rparr>) # own_vars s\<rparr>"

definition unique_destroy :: "nat \<Rightarrow> 'd own_state \<Rightarrow> 'd own_state" where
  "unique_destroy v s =
     (case map_of (own_vars s) v of
        None \<Rightarrow> s
      | Some u \<Rightarrow> s\<lparr>own_vars := AList.delete v (own_vars s), own_log := own_log s @ own_release u\<rparr>)"

definition unique_move_new :: "nat \<Rightarrow> nat \<Rightarrow> 'd own_state \<Rightarrow> 'd own_state" where
  "unique_move_new v w s =
     (case map_of (own_vars s) w of
        None \<Rightarrow> s
      | Some u \<Rightarrow> s\<lparr>own_vars := (v, u) # AList.update w (u\<lparr>ow_ptr := None\<rparr>) (own_vars s)\<rparr>)"

definition unique_move_assign :: "nat \<Rightarrow> nat \<Rightarrow> 'd own_state \<Rightarrow> 'd own_state" where
  "unique_move_assign v w s =
     (if v = w then s
      else case (map_of (own_vars s) v, map_of (own_vars s) w) of
        (Some t, Some u) \<Rightarrow>
          s\<lparr>own_vars := AList.update w (u\<lparr>ow_ptr := None\<rparr>) (AList.update v u (own_vars s)),
            own_log := own_log s @ own_release t\<rparr>
      | _ \<Rightarrow> s)"

definition unique_get :: "nat \<Rightarrow> 'd own_state \<Rightarrow> nat option" where
  "unique_get v s = Option.bind (map_of (own_vars s) v) ow_ptr"

text \<open>\<open>SmartPtr\<close> has the same members as \<open>UniquePtr\<close> under its own name.\<close>

definition smart_new :: "'d \<Rightarrow> nat \<Rightarrow> nat option \<Rightarrow> 'd own_state \<Rightarrow> 'd own_state" where
  "smart_new d v p s = unique_new d v p s"

definition smart_destroy :: "nat \<Rightarrow> 'd own_state \<Rightarrow> 'd own_state" where
  "smart_destroy v s = unique_destroy v s"

definition smart_move_new :: "nat \<Rightarrow> nat \<Rightarrow> 'd own_state \<Rightarrow> 'd own_state" where
  "smart_move_new v w s = unique_move_new v w s"

definition smart_move_assign :: "nat \<Rightarrow> nat \<Rightarrow> 'd own_state \<Rightarrow> 'd own_state" where
  "smart_move_assign v w s = unique_move_assign v w s"

definition smart_get :: "nat \<Rightarrow> 'd own_state \<Rightarrow> nat option" where
  "smart_get v s = unique_get v s"

text \<open>Runs: a list of the addresses handed to a constructor, and the state.\<close>

inductive own_reachable :: "'d \<Rightarrow> nat list \<Rightarrow> 'd own_state \<Rightarrow> bool" for d where
  own_start: "own_reachable d [] \<lparr>own_vars = [], own_log = []\<rparr>"
| own_new: "own_reachable d as s \<Longrightarrow> v \<notin> fst ` set (own_vars s) \<Longrightarrow>
    own_reachable d (case p of None \<Rightarrow> as | Some a \<Rightarrow> as @ [a]) (unique_new d v p s)"
| own_destroy: "own_reachable d as s \<Longrightarrow> v \<in> fst ` set (own_vars s) \<Longrightarrow> own_reachable d as (unique_destroy v s)"
| own_move_new: "own_reachable d as s \<Longrightarrow> v \<notin> fst ` set (own_vars s) \<Longrightarrow> w \<in> fst ` set (own_vars s) \<Longrightarrow>
    own_reachable d as (unique_move_new v w s)"
| own_move_assign: "own_reachable d as s \<Longrightarrow> v \<in> fst ` set (own_vars s) \<Longrightarrow> w \<in> fst ` set (own_vars s) \<Longrightarrow>
    own_reachable d as (unique_move_assign v w s)"

section \<open>Shared ownership\<close>

record block =
  bl_object :: nat
  bl_strong :: nat

text \<open>A weak pointer has the flag \<open>MemberBound\<close> beside the standard weak pointer.\<close>

record weak =
  wk_block :: "nat option"
  wk_bound :: bool

record sh_state =
  sh_blocks :: "block list"
  sh_vars :: "(nat \<times> nat option) list"
  sh_weaks :: "(nat \<times> weak) list"
  sh_log :: "nat list"

text \<open>Taking and giving up a share: the last owner calls the deleter.\<close>

definition sh_acquire :: "nat option \<Rightarrow> sh_state \<Rightarrow> sh_state" where
  "sh_acquire r s =
     (case r of
        None \<Rightarrow> s
      | Some b \<Rightarrow> s\<lparr>sh_blocks := (sh_blocks s)[b := (sh_blocks s ! b)\<lparr>bl_strong := bl_strong (sh_blocks s ! b) + 1\<rparr>]\<rparr>)"

definition sh_release :: "nat option \<Rightarrow> sh_state \<Rightarrow> sh_state" where
  "sh_release r s =
     (case r of
        None \<Rightarrow> s
      | Some b \<Rightarrow>
          (let n = bl_strong (sh_blocks s ! b) - 1;
               s' = s\<lparr>sh_blocks := (sh_blocks s)[b := (sh_blocks s ! b)\<lparr>bl_strong := n\<rparr>]\<rparr> in
           if n = 0 then s'\<lparr>sh_log := sh_log s' @ [bl_object (sh_blocks s ! b)]\<rparr> else s'))"

definition use_count :: "nat option \<Rightarrow> sh_state \<Rightarrow> nat" where
  "use_count r s = (case r of None \<Rightarrow> 0 | Some b \<Rightarrow> bl_strong (sh_blocks s ! b))"

definition sh_var :: "nat \<Rightarrow> sh_state \<Rightarrow> nat option" where
  "sh_var v s = (case map_of (sh_vars s) v of None \<Rightarrow> None | Some r \<Rightarrow> r)"

definition wk_var :: "nat \<Rightarrow> sh_state \<Rightarrow> weak" where
  "wk_var w s = (case map_of (sh_weaks s) w of None \<Rightarrow> \<lparr>wk_block = None, wk_bound = False\<rparr> | Some k \<Rightarrow> k)"

definition shared_new :: "nat \<Rightarrow> nat option \<Rightarrow> sh_state \<Rightarrow> sh_state" where
  "shared_new v p s =
     (case p of
        None \<Rightarrow> s\<lparr>sh_vars := (v, None) # sh_vars s\<rparr>
      | Some a \<Rightarrow> s\<lparr>sh_blocks := sh_blocks s @ [\<lparr>bl_object = a, bl_strong = 1\<rparr>],
                   sh_vars := (v, Some (length (sh_blocks s))) # sh_vars s\<rparr>)"

definition shared_copy_new :: "nat \<Rightarrow> nat \<Rightarrow> sh_state \<Rightarrow> sh_state" where
  "shared_copy_new v w s = (sh_acquire (sh_var w s) s)\<lparr>sh_vars := (v, sh_var w s) # sh_vars s\<rparr>"

definition shared_move_new :: "nat \<Rightarrow> nat \<Rightarrow> sh_state \<Rightarrow> sh_state" where
  "shared_move_new v w s = s\<lparr>sh_vars := (v, sh_var w s) # AList.update w None (sh_vars s)\<rparr>"

definition shared_copy_assign :: "nat \<Rightarrow> nat \<Rightarrow> sh_state \<Rightarrow> sh_state" where
  "shared_copy_assign v w s =
     (sh_release (sh_var v s) (sh_acquire (sh_var w s) s))\<lparr>sh_vars := AList.update v (sh_var w s) (sh_vars s)\<rparr>"

text \<open>Move assignment takes the source over before the old share is given up.\<close>

definition shared_move_assign :: "nat \<Rightarrow> nat \<Rightarrow> sh_state \<Rightarrow> sh_state" where
  "shared_move_assign v w s =
     (if v = w then s
      else (sh_release (sh_var v s) s)\<lparr>sh_vars := AList.update v (sh_var w s) (AList.update w None (sh_vars s))\<rparr>)"

definition shared_destroy :: "nat \<Rightarrow> sh_state \<Rightarrow> sh_state" where
  "shared_destroy v s = (sh_release (sh_var v s) s)\<lparr>sh_vars := AList.delete v (sh_vars s)\<rparr>"

text \<open>The count is cast to \<open>int\<close>.\<close>

definition shared_count :: "nat \<Rightarrow> sh_state \<Rightarrow> int" where
  "shared_count v s = sint (of_nat (use_count (sh_var v s) s) :: 32 word)"

definition shared_bool :: "nat \<Rightarrow> sh_state \<Rightarrow> bool" where
  "shared_bool v s \<longleftrightarrow> sh_var v s \<noteq> None"

definition shared_get :: "nat \<Rightarrow> sh_state \<Rightarrow> nat option" where
  "shared_get v s = map_option (\<lambda>b. bl_object (sh_blocks s ! b)) (sh_var v s)"

definition weak_new :: "nat \<Rightarrow> sh_state \<Rightarrow> sh_state" where
  "weak_new w s = s\<lparr>sh_weaks := (w, \<lparr>wk_block = None, wk_bound = False\<rparr>) # sh_weaks s\<rparr>"

definition weak_of_shared :: "nat \<Rightarrow> nat \<Rightarrow> sh_state \<Rightarrow> sh_state" where
  "weak_of_shared w v s = s\<lparr>sh_weaks := (w, \<lparr>wk_block = sh_var v s, wk_bound = True\<rparr>) # sh_weaks s\<rparr>"

definition weak_assign_shared :: "nat \<Rightarrow> nat \<Rightarrow> sh_state \<Rightarrow> sh_state" where
  "weak_assign_shared w v s = s\<lparr>sh_weaks := AList.update w \<lparr>wk_block = sh_var v s, wk_bound = True\<rparr> (sh_weaks s)\<rparr>"

definition weak_copy_new :: "nat \<Rightarrow> nat \<Rightarrow> sh_state \<Rightarrow> sh_state" where
  "weak_copy_new w x s = s\<lparr>sh_weaks := (w, wk_var x s) # sh_weaks s\<rparr>"

text \<open>The moved-from weak pointer keeps its flag.\<close>

definition weak_move_new :: "nat \<Rightarrow> nat \<Rightarrow> sh_state \<Rightarrow> sh_state" where
  "weak_move_new w x s =
     s\<lparr>sh_weaks := (w, wk_var x s) # AList.update x ((wk_var x s)\<lparr>wk_block := None\<rparr>) (sh_weaks s)\<rparr>"

definition weak_copy_assign :: "nat \<Rightarrow> nat \<Rightarrow> sh_state \<Rightarrow> sh_state" where
  "weak_copy_assign w x s = s\<lparr>sh_weaks := AList.update w (wk_var x s) (sh_weaks s)\<rparr>"

definition weak_move_assign :: "nat \<Rightarrow> nat \<Rightarrow> sh_state \<Rightarrow> sh_state" where
  "weak_move_assign w x s =
     (if w = x then s
      else s\<lparr>sh_weaks := AList.update w (wk_var x s) (AList.update x ((wk_var x s)\<lparr>wk_block := None\<rparr>) (sh_weaks s))\<rparr>)"

definition weak_destroy :: "nat \<Rightarrow> sh_state \<Rightarrow> sh_state" where
  "weak_destroy w s = s\<lparr>sh_weaks := AList.delete w (sh_weaks s)\<rparr>"

definition weak_lock :: "nat \<Rightarrow> nat \<Rightarrow> sh_state \<Rightarrow> sh_state" where
  "weak_lock v w s =
     (let r = wk_block (wk_var w s) in
      if use_count r s = 0 then s\<lparr>sh_vars := (v, None) # sh_vars s\<rparr>
      else (sh_acquire r s)\<lparr>sh_vars := (v, r) # sh_vars s\<rparr>)"

definition weak_expired :: "nat \<Rightarrow> sh_state \<Rightarrow> bool" where
  "weak_expired w s \<longleftrightarrow> \<not> wk_bound (wk_var w s) \<or> use_count (wk_block (wk_var w s)) s = 0"

definition weak_count :: "nat \<Rightarrow> sh_state \<Rightarrow> int" where
  "weak_count w s =
     (if wk_bound (wk_var w s) then sint (of_nat (use_count (wk_block (wk_var w s)) s) :: 32 word) else - 1)"

inductive sh_reachable :: "nat list \<Rightarrow> sh_state \<Rightarrow> bool" where
  sh_start: "sh_reachable [] \<lparr>sh_blocks = [], sh_vars = [], sh_weaks = [], sh_log = []\<rparr>"
| sh_new: "sh_reachable as s \<Longrightarrow> v \<notin> fst ` set (sh_vars s) \<Longrightarrow>
    sh_reachable (case p of None \<Rightarrow> as | Some a \<Rightarrow> as @ [a]) (shared_new v p s)"
| sh_copy_new: "sh_reachable as s \<Longrightarrow> v \<notin> fst ` set (sh_vars s) \<Longrightarrow> w \<in> fst ` set (sh_vars s) \<Longrightarrow>
    sh_reachable as (shared_copy_new v w s)"
| sh_move_new: "sh_reachable as s \<Longrightarrow> v \<notin> fst ` set (sh_vars s) \<Longrightarrow> w \<in> fst ` set (sh_vars s) \<Longrightarrow>
    sh_reachable as (shared_move_new v w s)"
| sh_copy_assign: "sh_reachable as s \<Longrightarrow> v \<in> fst ` set (sh_vars s) \<Longrightarrow> w \<in> fst ` set (sh_vars s) \<Longrightarrow>
    sh_reachable as (shared_copy_assign v w s)"
| sh_move_assign: "sh_reachable as s \<Longrightarrow> v \<in> fst ` set (sh_vars s) \<Longrightarrow> w \<in> fst ` set (sh_vars s) \<Longrightarrow>
    sh_reachable as (shared_move_assign v w s)"
| sh_destroy: "sh_reachable as s \<Longrightarrow> v \<in> fst ` set (sh_vars s) \<Longrightarrow> sh_reachable as (shared_destroy v s)"
| wk_new: "sh_reachable as s \<Longrightarrow> w \<notin> fst ` set (sh_weaks s) \<Longrightarrow> sh_reachable as (weak_new w s)"
| wk_of: "sh_reachable as s \<Longrightarrow> w \<notin> fst ` set (sh_weaks s) \<Longrightarrow> v \<in> fst ` set (sh_vars s) \<Longrightarrow>
    sh_reachable as (weak_of_shared w v s)"
| wk_assign: "sh_reachable as s \<Longrightarrow> w \<in> fst ` set (sh_weaks s) \<Longrightarrow> v \<in> fst ` set (sh_vars s) \<Longrightarrow>
    sh_reachable as (weak_assign_shared w v s)"
| wk_copy_new: "sh_reachable as s \<Longrightarrow> w \<notin> fst ` set (sh_weaks s) \<Longrightarrow> x \<in> fst ` set (sh_weaks s) \<Longrightarrow>
    sh_reachable as (weak_copy_new w x s)"
| wk_move_new: "sh_reachable as s \<Longrightarrow> w \<notin> fst ` set (sh_weaks s) \<Longrightarrow> x \<in> fst ` set (sh_weaks s) \<Longrightarrow>
    sh_reachable as (weak_move_new w x s)"
| wk_copy_assign: "sh_reachable as s \<Longrightarrow> w \<in> fst ` set (sh_weaks s) \<Longrightarrow> x \<in> fst ` set (sh_weaks s) \<Longrightarrow>
    sh_reachable as (weak_copy_assign w x s)"
| wk_move_assign: "sh_reachable as s \<Longrightarrow> w \<in> fst ` set (sh_weaks s) \<Longrightarrow> x \<in> fst ` set (sh_weaks s) \<Longrightarrow>
    sh_reachable as (weak_move_assign w x s)"
| wk_destroy: "sh_reachable as s \<Longrightarrow> w \<in> fst ` set (sh_weaks s) \<Longrightarrow> sh_reachable as (weak_destroy w s)"
| wk_lock: "sh_reachable as s \<Longrightarrow> v \<notin> fst ` set (sh_vars s) \<Longrightarrow> w \<in> fst ` set (sh_weaks s) \<Longrightarrow>
    sh_reachable as (weak_lock v w s)"

end
