(* ===== verification/PointerLaws.thy ===== *)
theory PointerLaws
  imports Pointers
begin

text \<open>
  What the pointer classes promise in every run: with \<open>UniquePtr\<close> every object handed over is owned by
  exactly one variable or was deleted, exactly once; with \<open>SharedPtr\<close> the count of a control block is
  the number of variables that own it, and an object is deleted exactly once, when that number
  reaches zero, so that a weak pointer never gives access to a deleted object.
\<close>

section \<open>Association lists\<close>

lemma key_lookup: "v \<in> fst ` set xs \<Longrightarrow> \<exists>x. map_of xs v = Some x"
  by (metis map_of_eq_None_iff not_None_eq)

lemma vals_update:
  "distinct (map fst xs) \<Longrightarrow> map_of xs v = Some old \<Longrightarrow>
    add_mset (f old) (mset (map (f \<circ> snd) (AList.update v x xs))) = add_mset (f x) (mset (map (f \<circ> snd) xs))"
proof (induction xs)
  case (Cons p xs)
  show ?case
  proof (cases "fst p = v")
    case True
    then show ?thesis
      using Cons.prems by (cases p) (auto simp: add_mset_commute)
  next
    case False
    then have "map_of xs v = Some old"
      using Cons.prems(2) by (cases p) auto
    with Cons.IH Cons.prems(1) False show ?thesis
      by (cases p) (simp add: add_mset_commute)
  qed
qed simp

lemma vals_delete:
  "distinct (map fst xs) \<Longrightarrow> map_of xs v = Some old \<Longrightarrow>
    add_mset (f old) (mset (map (f \<circ> snd) (AList.delete v xs))) = mset (map (f \<circ> snd) xs)"
proof (induction xs)
  case (Cons p xs)
  show ?case
  proof (cases "fst p = v")
    case True
    then have "AList.delete v xs = xs"
      using Cons.prems(1) by (cases p) (auto simp: delete_id)
    then show ?thesis
      using True Cons.prems(2) by (cases p) (simp add: AList.delete_eq)
  next
    case False
    then have "map_of xs v = Some old"
      using Cons.prems(2) by (cases p) auto
    with Cons.IH Cons.prems(1) False show ?thesis
      by (cases p) (simp add: add_mset_commute AList.delete_eq)
  qed
qed simp

lemma keys_update: "v \<in> fst ` set xs \<Longrightarrow> fst ` set (AList.update v x xs) = fst ` set xs"
  by (induction xs) auto

lemma keys_delete: "distinct (map fst xs) \<Longrightarrow> distinct (map fst (AList.delete v xs))"
  by (simp add: AList.delete_eq distinct_map_filter)

section \<open>Exclusive ownership\<close>

text \<open>The addresses the variables own.\<close>

definition ptrs :: "nat option multiset \<Rightarrow> nat multiset" where
  "ptrs M = image_mset the (filter_mset (\<lambda>p. p \<noteq> None) M)"

definition owned :: "'d own_state \<Rightarrow> nat multiset" where
  "owned s = ptrs (mset (map (ow_ptr \<circ> snd) (own_vars s)))"

definition one :: "nat option \<Rightarrow> nat multiset" where
  "one p = (case p of None \<Rightarrow> {#} | Some a \<Rightarrow> {#a#})"

lemma one_simps [simp]: "one None = {#}" "one (Some a) = {#a#}"
  by (simp_all add: one_def)

lemma ptrs_simps [simp]: "ptrs {#} = {#}" "ptrs (add_mset None M) = ptrs M" "ptrs (add_mset (Some a) M) = add_mset a (ptrs M)"
  by (simp_all add: ptrs_def)

definition own_inv :: "'d \<Rightarrow> nat list \<Rightarrow> 'd own_state \<Rightarrow> bool" where
  "own_inv d as s \<longleftrightarrow> distinct (map fst (own_vars s)) \<and> mset as = owned s + mset (map snd (own_log s)) \<and>
     (\<forall>(v, u) \<in> set (own_vars s). ow_del u = d) \<and> (\<forall>(e, a) \<in> set (own_log s). e = d)"

lemma own_invD:
  assumes "own_inv d as s"
  shows "distinct (map fst (own_vars s))" and "mset as = owned s + mset (map snd (own_log s))"
    and "(v, u) \<in> set (own_vars s) \<Longrightarrow> ow_del u = d" and "(e, a) \<in> set (own_log s) \<Longrightarrow> e = d"
  using assms unfolding own_inv_def by blast+

lemma own_invI:
  assumes "distinct (map fst (own_vars s))" and "mset as = owned s + mset (map snd (own_log s))"
    and "\<And>v u. (v, u) \<in> set (own_vars s) \<Longrightarrow> ow_del u = d" and "\<And>e a. (e, a) \<in> set (own_log s) \<Longrightarrow> e = d"
  shows "own_inv d as s"
  using assms unfolding own_inv_def by blast

lemma own_lookup_del: "own_inv d as s \<Longrightarrow> map_of (own_vars s) v = Some u \<Longrightarrow> ow_del u = d"
  by (rule own_invD(3)) (auto dest: map_of_SomeD)

lemma release_log: "image_mset snd (mset (own_release u)) = one (ow_ptr u)"
  by (cases "ow_ptr u") (simp_all add: own_release_def)

lemma release_del: "own_inv d as s \<Longrightarrow> map_of (own_vars s) v = Some u \<Longrightarrow> (e, a) \<in> set (own_release u) \<Longrightarrow> e = d"
  using own_lookup_del [of d as s v u] by (auto simp: own_release_def split: option.splits)

lemma ptrs_add: "ptrs (add_mset p M) = one p + ptrs M"
  by (cases p) simp_all

lemma owned_update:
  assumes "distinct (map fst xs)" and "map_of xs v = Some u"
  shows "one (ow_ptr u) + ptrs (mset (map (ow_ptr \<circ> snd) (AList.update v x xs))) =
    one (ow_ptr x) + ptrs (mset (map (ow_ptr \<circ> snd) xs))"
  using arg_cong [OF vals_update [OF assms, of ow_ptr x], of ptrs] by (simp only: ptrs_add)

lemma own_new_inv:
  "own_inv d as s \<Longrightarrow> v \<notin> fst ` set (own_vars s) \<Longrightarrow>
    own_inv d (case p of None \<Rightarrow> as | Some a \<Rightarrow> as @ [a]) (unique_new d v p s)"
  by (auto simp: own_inv_def unique_new_def owned_def split: option.splits)

lemma own_destroy_inv:
  assumes inv: "own_inv d as s"
  shows "own_inv d as (unique_destroy v s)"
proof (cases "map_of (own_vars s) v")
  case (Some u)
  have d: "distinct (map fst (own_vars s))"
    using inv by (simp add: own_inv_def)
  have "owned s = one (ow_ptr u) + ptrs (mset (map (ow_ptr \<circ> snd) (AList.delete v (own_vars s))))"
    using arg_cong [OF vals_delete [OF d Some, of ow_ptr], of ptrs] unfolding owned_def by (simp only: ptrs_add)
  then have "owned s + mset (map snd (own_log s)) =
      owned (unique_destroy v s) + mset (map snd (own_log (unique_destroy v s)))"
    by (simp add: unique_destroy_def Some owned_def release_log ac_simps)
  moreover have "ow_del t = d" if "(x, t) \<in> set (AList.delete v (own_vars s))" for x t
    using that by (intro own_invD(3) [OF inv, of x t]) (simp add: AList.delete_eq)
  ultimately show ?thesis
    using keys_delete [OF d, of v] own_invD(2,4) [OF inv] release_del [OF inv Some]
    by (intro own_invI) (auto simp: unique_destroy_def Some)
qed (use inv in \<open>simp add: unique_destroy_def\<close>)

lemma update_subset: "set (AList.update v x xs) \<subseteq> insert (v, x) (set xs)"
  by (induction xs) auto

lemma own_move_new_inv:
  assumes inv: "own_inv d as s" and v: "v \<notin> fst ` set (own_vars s)"
  shows "own_inv d as (unique_move_new v w s)"
proof (cases "map_of (own_vars s) w")
  case (Some u)
  have d: "distinct (map fst (own_vars s))"
    using inv by (simp add: own_inv_def)
  have w: "w \<in> fst ` set (own_vars s)"
    using map_of_SomeD [OF Some] by force
  have "one (ow_ptr u) + ptrs (mset (map (ow_ptr \<circ> snd) (AList.update w (u\<lparr>ow_ptr := None\<rparr>) (own_vars s)))) = owned s"
    using owned_update [OF d Some, of "u\<lparr>ow_ptr := None\<rparr>"] by (simp add: owned_def)
  then have "owned (unique_move_new v w s) = owned s"
    using ptrs_add [of "ow_ptr u" "mset (map (ow_ptr \<circ> snd) (AList.update w (u\<lparr>ow_ptr := None\<rparr>) (own_vars s)))"]
    by (simp add: unique_move_new_def Some owned_def)
  moreover have "distinct (map fst (own_vars (unique_move_new v w s)))"
    using d v keys_update [OF w] by (simp add: unique_move_new_def Some distinct_update)
  moreover have "ow_del t = d" if "(x, t) \<in> set (own_vars (unique_move_new v w s))" for x t
    using that own_invD(3) [OF inv, of x t] own_lookup_del [OF inv Some]
      update_subset [of w "u\<lparr>ow_ptr := None\<rparr>" "own_vars s"]
    by (auto simp: unique_move_new_def Some)
  ultimately show ?thesis
    using own_invD(2,4) [OF inv] by (intro own_invI) (simp_all add: unique_move_new_def Some)
qed (use inv in \<open>simp add: unique_move_new_def\<close>)

lemma own_move_assign_inv:
  assumes inv: "own_inv d as s" and v: "v \<in> fst ` set (own_vars s)" and w: "w \<in> fst ` set (own_vars s)"
  shows "own_inv d as (unique_move_assign v w s)"
proof (cases "v = w")
  case False
  obtain t u where t: "map_of (own_vars s) v = Some t" and u: "map_of (own_vars s) w = Some u"
    using key_lookup v w by metis
  let ?xs = "AList.update v u (own_vars s)" and ?n = "u\<lparr>ow_ptr := None\<rparr>"
  let ?ys = "AList.update w ?n ?xs"
  have d: "distinct (map fst (own_vars s))"
    using inv by (simp add: own_inv_def)
  have d': "distinct (map fst ?xs)" and u': "map_of ?xs w = Some u"
    using d False u by (simp_all add: distinct_update update_conv')
  have s': "unique_move_assign v w s = s\<lparr>own_vars := ?ys, own_log := own_log s @ own_release t\<rparr>"
    using False by (simp add: unique_move_assign_def t u)
  have "one (ow_ptr u) + (one (ow_ptr t) + ptrs (mset (map (ow_ptr \<circ> snd) ?ys))) = one (ow_ptr u) + owned s"
    using owned_update [OF d t, of u] owned_update [OF d' u', of ?n] by (simp add: owned_def ac_simps)
  then have "one (ow_ptr t) + ptrs (mset (map (ow_ptr \<circ> snd) ?ys)) = owned s"
    by simp
  then have "owned s + mset (map snd (own_log s)) = owned (unique_move_assign v w s) + mset (map snd (own_log (unique_move_assign v w s)))"
    by (simp add: s' owned_def release_log ac_simps)
  moreover have "ow_del y = d" if "(x, y) \<in> set ?ys" for x y
  proof -
    have "(x, y) = (w, ?n) \<or> (x, y) = (v, u) \<or> (x, y) \<in> set (own_vars s)"
      using that update_subset [of w ?n ?xs] update_subset [of v u "own_vars s"] by blast
    then show ?thesis
      using own_invD(3) [OF inv, of x y] own_lookup_del [OF inv u] by auto
  qed
  moreover have "distinct (map fst ?ys)"
    using d' by (simp add: distinct_update)
  ultimately show ?thesis
    using own_invD(2,4) [OF inv] release_del [OF inv t] by (intro own_invI) (auto simp: s')
qed (use inv in \<open>simp add: unique_move_assign_def\<close>)

lemma own_reachable_inv: "own_reachable d as s \<Longrightarrow> own_inv d as s"
proof (induction rule: own_reachable.induct)
  case own_start
  show ?case by (simp add: own_inv_def owned_def)
qed (auto intro: own_new_inv own_destroy_inv own_move_new_inv own_move_assign_inv)

text \<open>
  C8: In every run of constructions, moves, move assignments and destructions of \<open>UniquePtr\<close>
  variables, each object handed to a constructor is owned by exactly one variable or was passed to
  the deleter exactly once, and to no other deleter; so once all variables are gone each was deleted exactly once.
\<close>

theorem unique_owner_exact:
  assumes "own_reachable d as s"
  shows "mset as = owned s + mset (map snd (own_log s)) \<and> set (map fst (own_log s)) \<subseteq> {d} \<and>
    (own_vars s = [] \<longrightarrow> mset (map snd (own_log s)) = mset as)"
proof -
  note inv = own_reachable_inv [OF assms]
  have "set (map fst (own_log s)) \<subseteq> {d}"
    using own_invD(4) [OF inv] by auto
  then show ?thesis
    using own_invD(2) [OF inv] by (simp add: owned_def)
qed

theorem unique_owner_exact_witness:
  "mset [7 :: nat] = mset (map snd (own_log (unique_destroy 1 (unique_move_new 1 0
     (unique_new () 0 (Some 7) \<lparr>own_vars = [], own_log = []\<rparr>)))))"
proof -
  let ?s = "unique_move_new 1 0 (unique_new () 0 (Some 7) \<lparr>own_vars = [], own_log = []\<rparr>)"
  have "own_reachable () [7] (unique_destroy 1 ?s)"
    using own_destroy [OF own_move_new [OF own_new [OF own_start [of "()"], of 0 "Some 7"], of 1 0], of 1]
    by (simp add: unique_new_def unique_move_new_def)
  from unique_owner_exact [OF this] show ?thesis
    by (simp add: owned_def ptrs_def unique_destroy_def unique_new_def unique_move_new_def own_release_def)
qed

section \<open>Shared ownership\<close>

text \<open>
  The invariant, for any multiset of owners: \<open>core\<close> says that the counts of the blocks are the
  multiplicities of the owners and that the log holds the objects of the blocks without owners.
\<close>

definition core :: "nat option multiset \<Rightarrow> block list \<Rightarrow> nat list \<Rightarrow> bool" where
  "core M bs log \<longleftrightarrow> (\<forall>b. Some b \<in># M \<longrightarrow> b < length bs) \<and>
     (\<forall>b < length bs. bl_strong (bs ! b) = count M (Some b)) \<and>
     mset log = mset (map bl_object (filter (\<lambda>x. bl_strong x = 0) bs))"

lemma core_None [simp]: "core (add_mset None M) bs log = core M bs log"
  by (auto simp: core_def)

definition dead :: "block list \<Rightarrow> nat multiset" where
  "dead bs = mset (map bl_object (filter (\<lambda>x. bl_strong x = 0) bs))"

lemma dead_update:
  assumes "b < length bs" and "bl_object x = bl_object (bs ! b)"
  shows "dead (bs[b := x]) + (if bl_strong (bs ! b) = 0 then {#bl_object (bs ! b)#} else {#}) =
    dead bs + (if bl_strong x = 0 then {#bl_object (bs ! b)#} else {#})"
proof -
  have bs: "bs = take b bs @ bs ! b # drop (Suc b) bs"
    using assms(1) by (rule id_take_nth_drop)
  have "bs[b := x] = take b bs @ x # drop (Suc b) bs"
    using assms(1) by (rule upd_conv_take_nth_drop)
  then have "dead (bs[b := x]) = dead (take b bs @ x # drop (Suc b) bs)"
    by simp
  moreover have "dead bs = dead (take b bs @ bs ! b # drop (Suc b) bs)"
    using bs by simp
  ultimately show ?thesis
    using assms(2) by (simp only: dead_def) (simp add: ac_simps)
qed

lemma coreD:
  assumes "core M bs log"
  shows "Some b \<in># M \<Longrightarrow> b < length bs" and "b < length bs \<Longrightarrow> bl_strong (bs ! b) = count M (Some b)"
    and "mset log = dead bs"
  using assms unfolding core_def dead_def by blast+

lemma coreI:
  assumes "\<And>b. Some b \<in># M \<Longrightarrow> b < length bs" and "\<And>b. b < length bs \<Longrightarrow> bl_strong (bs ! b) = count M (Some b)"
    and "mset log = dead bs"
  shows "core M bs log"
  using assms unfolding core_def dead_def by blast

lemma core_acquire:
  assumes c: "core M (sh_blocks s) (sh_log s)" and r: "r \<in># M"
  shows "core (add_mset r M) (sh_blocks (sh_acquire r s)) (sh_log (sh_acquire r s))"
proof (cases r)
  case (Some b)
  let ?x = "(sh_blocks s ! b)\<lparr>bl_strong := bl_strong (sh_blocks s ! b) + 1\<rparr>"
  have b: "b < length (sh_blocks s)"
    using coreD(1) [OF c] r Some by simp
  have "bl_strong (sh_blocks s ! b) \<noteq> 0"
    using coreD(2) [OF c b] r Some by simp
  then have "dead ((sh_blocks s)[b := ?x]) = dead (sh_blocks s)"
    using dead_update [OF b, of ?x] by simp
  then show ?thesis
    using coreD [OF c] b by (intro coreI) (auto simp: sh_acquire_def Some nth_list_update)
qed (use c in \<open>simp add: sh_acquire_def\<close>)

lemma core_release:
  assumes c: "core (add_mset r M) (sh_blocks s) (sh_log s)"
  shows "core M (sh_blocks (sh_release r s)) (sh_log (sh_release r s))"
proof (cases r)
  case (Some b)
  let ?n = "bl_strong (sh_blocks s ! b) - 1"
  let ?x = "(sh_blocks s ! b)\<lparr>bl_strong := ?n\<rparr>"
  have b: "b < length (sh_blocks s)"
    using coreD(1) [OF c] Some by simp
  have n: "bl_strong (sh_blocks s ! b) = Suc (count M (Some b))"
    using coreD(2) [OF c b] Some by simp
  then have "dead ((sh_blocks s)[b := ?x]) = dead (sh_blocks s) + (if ?n = 0 then {#bl_object (sh_blocks s ! b)#} else {#})"
    using dead_update [OF b, of ?x] by simp
  then have "mset (sh_log (sh_release r s)) = dead ((sh_blocks s)[b := ?x])"
    using coreD(3) [OF c] by (simp add: sh_release_def Some Let_def)
  moreover have "sh_blocks (sh_release r s) = (sh_blocks s)[b := ?x]"
    by (simp add: sh_release_def Some Let_def)
  moreover have "Some i \<in># M \<Longrightarrow> i < length (sh_blocks s)" for i
    using coreD(1) [OF c] by simp
  moreover have "i < length (sh_blocks s) \<Longrightarrow> bl_strong ((sh_blocks s)[b := ?x] ! i) = count M (Some i)" for i
    using coreD(2) [OF c, of i] n Some by (cases "i = b") auto
  ultimately show ?thesis
    by (intro coreI) simp_all
qed (use c in \<open>simp add: sh_release_def\<close>)

definition owners :: "sh_state \<Rightarrow> nat option multiset" where
  "owners s = mset (map snd (sh_vars s))"

definition sh_inv :: "nat list \<Rightarrow> sh_state \<Rightarrow> bool" where
  "sh_inv as s \<longleftrightarrow> distinct (map fst (sh_vars s)) \<and> core (owners s) (sh_blocks s) (sh_log s) \<and>
     as = map bl_object (sh_blocks s) \<and> (\<forall>(w, k) \<in> set (sh_weaks s). \<forall>b. wk_block k = Some b \<longrightarrow> b < length (sh_blocks s))"

lemma sh_invD:
  assumes "sh_inv as s"
  shows "distinct (map fst (sh_vars s))" and "core (owners s) (sh_blocks s) (sh_log s)"
    and "as = map bl_object (sh_blocks s)"
    and "(w, k) \<in> set (sh_weaks s) \<Longrightarrow> wk_block k = Some b \<Longrightarrow> b < length (sh_blocks s)"
  using assms unfolding sh_inv_def by blast+

lemma objects_kept: "map bl_object (bs[b := (bs ! b)\<lparr>bl_strong := n\<rparr>]) = map bl_object bs"
proof (rule nth_equalityI)
  fix i
  assume "i < length (map bl_object (bs[b := (bs ! b)\<lparr>bl_strong := n\<rparr>]))"
  then show "map bl_object (bs[b := (bs ! b)\<lparr>bl_strong := n\<rparr>]) ! i = map bl_object bs ! i"
    by (cases "i = b") auto
qed simp

lemma release_frame [simp]:
  "sh_vars (sh_release r s) = sh_vars s" "sh_weaks (sh_release r s) = sh_weaks s"
  "map bl_object (sh_blocks (sh_release r s)) = map bl_object (sh_blocks s)"
  "length (sh_blocks (sh_release r s)) = length (sh_blocks s)"
  by (cases r; simp add: sh_release_def Let_def objects_kept)+

lemma acquire_frame [simp]:
  "sh_vars (sh_acquire r s) = sh_vars s" "sh_weaks (sh_acquire r s) = sh_weaks s"
  "map bl_object (sh_blocks (sh_acquire r s)) = map bl_object (sh_blocks s)"
  "length (sh_blocks (sh_acquire r s)) = length (sh_blocks s)"
  by (cases r; simp add: sh_acquire_def objects_kept)+

text \<open>A state in which only the shares have changed.\<close>

lemma sh_inv_shares:
  assumes inv: "sh_inv as s" and "map bl_object (sh_blocks t) = map bl_object (sh_blocks s)" and "sh_weaks t = sh_weaks s"
    and "distinct (map fst (sh_vars t))" and "core (owners t) (sh_blocks t) (sh_log t)"
  shows "sh_inv as t"
proof -
  have "length (sh_blocks t) = length (sh_blocks s)"
    using arg_cong [OF assms(2), of length] by simp
  then show ?thesis
    using inv assms(2-5) unfolding sh_inv_def by simp
qed

lemma owner_in: "map_of (sh_vars s) v = Some r \<Longrightarrow> r \<in># owners s"
  using map_of_SomeD by (force simp: owners_def)

lemma var_lookup: "v \<in> fst ` set (sh_vars s) \<Longrightarrow> map_of (sh_vars s) v = Some (sh_var v s)"
  using key_lookup [of v "sh_vars s"] by (auto simp: sh_var_def)

lemma vals_update_snd:
  assumes "distinct (map fst xs)" and "map_of xs v = Some old"
  shows "add_mset old (mset (map snd (AList.update v x xs))) = add_mset x (mset (map snd xs))"
  using vals_update [OF assms, of id x] by (simp add: id_def comp_def)

lemma new_inv:
  assumes inv: "sh_inv as s" and v: "v \<notin> fst ` set (sh_vars s)"
  shows "sh_inv (case p of None \<Rightarrow> as | Some a \<Rightarrow> as @ [a]) (shared_new v p s)"
proof (cases p)
  case None
  then show ?thesis
    using inv v by (simp add: sh_inv_def shared_new_def owners_def)
next
  case (Some a)
  note c = coreD [OF sh_invD(2) [OF inv]]
  let ?n = "length (sh_blocks s)"
  have "count (owners s) (Some ?n) = 0"
    using c(1) [of ?n] by (meson count_eq_zero_iff less_irrefl)
  then have "core (add_mset (Some ?n) (owners s)) (sh_blocks s @ [\<lparr>bl_object = a, bl_strong = 1\<rparr>]) (sh_log s)"
    using c by (intro coreI) (auto simp: nth_append less_Suc_eq dead_def)
  then show ?thesis
    using inv v unfolding sh_inv_def Some by (fastforce simp: shared_new_def owners_def)
qed

lemma copy_new_inv:
  assumes inv: "sh_inv as s" and v: "v \<notin> fst ` set (sh_vars s)" and w: "w \<in> fst ` set (sh_vars s)"
  shows "sh_inv as (shared_copy_new v w s)"
proof (rule sh_inv_shares [OF inv])
  show "core (owners (shared_copy_new v w s)) (sh_blocks (shared_copy_new v w s)) (sh_log (shared_copy_new v w s))"
    using core_acquire [OF sh_invD(2) [OF inv] owner_in [OF var_lookup [OF w]]]
    by (simp add: shared_copy_new_def owners_def)
qed (use sh_invD(1) [OF inv] v in \<open>simp_all add: shared_copy_new_def\<close>)

lemma move_new_inv:
  assumes inv: "sh_inv as s" and v: "v \<notin> fst ` set (sh_vars s)" and w: "w \<in> fst ` set (sh_vars s)"
  shows "sh_inv as (shared_move_new v w s)"
proof (rule sh_inv_shares [OF inv])
  note d = sh_invD(1) [OF inv]
  have "owners (shared_move_new v w s) = add_mset None (owners s)"
    using vals_update_snd [OF d var_lookup [OF w], of None] by (simp add: shared_move_new_def owners_def)
  then show "core (owners (shared_move_new v w s)) (sh_blocks (shared_move_new v w s)) (sh_log (shared_move_new v w s))"
    using sh_invD(2) [OF inv] by (simp add: shared_move_new_def)
  show "distinct (map fst (sh_vars (shared_move_new v w s)))"
    using d v keys_update [OF w] by (simp add: shared_move_new_def distinct_update)
qed (simp_all add: shared_move_new_def)

lemma copy_assign_inv:
  assumes inv: "sh_inv as s" and v: "v \<in> fst ` set (sh_vars s)" and w: "w \<in> fst ` set (sh_vars s)"
  shows "sh_inv as (shared_copy_assign v w s)"
proof (rule sh_inv_shares [OF inv])
  note d = sh_invD(1) [OF inv]
  let ?t = "shared_copy_assign v w s"
  have "add_mset (sh_var v s) (owners ?t) = add_mset (sh_var w s) (owners s)"
    using vals_update_snd [OF d var_lookup [OF v]] by (simp add: shared_copy_assign_def owners_def)
  then have "core (add_mset (sh_var v s) (owners ?t)) (sh_blocks (sh_acquire (sh_var w s) s)) (sh_log (sh_acquire (sh_var w s) s))"
    using core_acquire [OF sh_invD(2) [OF inv] owner_in [OF var_lookup [OF w]]] by simp
  from core_release [OF this] show "core (owners ?t) (sh_blocks ?t) (sh_log ?t)"
    by (simp add: shared_copy_assign_def)
qed (use sh_invD(1) [OF inv] in \<open>simp_all add: shared_copy_assign_def distinct_update\<close>)

lemma move_assign_inv:
  assumes inv: "sh_inv as s" and v: "v \<in> fst ` set (sh_vars s)" and w: "w \<in> fst ` set (sh_vars s)"
  shows "sh_inv as (shared_move_assign v w s)"
proof (cases "v = w")
  case False
  note d = sh_invD(1) [OF inv]
  let ?t = "shared_move_assign v w s"
  let ?xs = "AList.update w None (sh_vars s)"
  have d': "distinct (map fst ?xs)" and v': "map_of ?xs v = Some (sh_var v s)"
    using d False var_lookup [OF v] by (simp_all add: distinct_update update_conv')
  show ?thesis
  proof (rule sh_inv_shares [OF inv])
    have t: "sh_vars ?t = AList.update v (sh_var w s) ?xs"
      using False by (simp add: shared_move_assign_def)
    have "add_mset (sh_var v s) (owners ?t) = add_mset None (owners s)"
      unfolding owners_def t
      by (rule trans [OF vals_update_snd [OF d' v'] vals_update_snd [OF d var_lookup [OF w]]])
    then have "core (add_mset (sh_var v s) (owners ?t)) (sh_blocks s) (sh_log s)"
      using sh_invD(2) [OF inv] by simp
    from core_release [OF this] show "core (owners ?t) (sh_blocks ?t) (sh_log ?t)"
      using False by (simp add: shared_move_assign_def)
    show "distinct (map fst (sh_vars ?t))"
      unfolding t using d' by (simp add: distinct_update)
  qed (use False in \<open>simp_all add: shared_move_assign_def\<close>)
qed (use inv in \<open>simp add: shared_move_assign_def\<close>)

lemma destroy_inv:
  assumes inv: "sh_inv as s" and v: "v \<in> fst ` set (sh_vars s)"
  shows "sh_inv as (shared_destroy v s)"
proof (rule sh_inv_shares [OF inv])
  note d = sh_invD(1) [OF inv]
  let ?t = "shared_destroy v s"
  have "add_mset (sh_var v s) (owners ?t) = owners s"
    using vals_delete [OF d var_lookup [OF v], of id] by (simp add: shared_destroy_def owners_def id_def comp_def)
  then have "core (add_mset (sh_var v s) (owners ?t)) (sh_blocks s) (sh_log s)"
    using sh_invD(2) [OF inv] by simp
  from core_release [OF this] show "core (owners ?t) (sh_blocks ?t) (sh_log ?t)"
    by (simp add: shared_destroy_def)
qed (use sh_invD(1) [OF inv] in \<open>simp_all add: shared_destroy_def keys_delete\<close>)

text \<open>Weak pointers change nothing but the weak variables.\<close>

lemma weak_inv:
  assumes inv: "sh_inv as s"
    and "\<And>w k b. (w, k) \<in> set xs \<Longrightarrow> wk_block k = Some b \<Longrightarrow> b < length (sh_blocks s)"
  shows "sh_inv as (s\<lparr>sh_weaks := xs\<rparr>)"
proof -
  have "owners (s\<lparr>sh_weaks := xs\<rparr>) = owners s"
    by (simp add: owners_def)
  moreover have "\<forall>(w, k) \<in> set xs. \<forall>b. wk_block k = Some b \<longrightarrow> b < length (sh_blocks s)"
    using assms(2) by blast
  ultimately show ?thesis
    using inv by (simp add: sh_inv_def)
qed

lemma sh_var_bound:
  assumes inv: "sh_inv as s" and "sh_var v s = Some b"
  shows "b < length (sh_blocks s)"
proof -
  have "map_of (sh_vars s) v = Some (Some b)"
    using assms(2) by (auto simp: sh_var_def split: option.splits)
  from owner_in [OF this] show ?thesis
    by (rule coreD(1) [OF sh_invD(2) [OF inv]])
qed

lemma wk_var_bound:
  assumes inv: "sh_inv as s" and "wk_block (wk_var w s) = Some b"
  shows "b < length (sh_blocks s)"
proof -
  obtain k where "map_of (sh_weaks s) w = Some k" "wk_block k = Some b"
    using assms(2) by (auto simp: wk_var_def split: option.splits)
  then show ?thesis
    using sh_invD(4) [OF inv] map_of_SomeD by metis
qed

lemma lock_inv:
  assumes inv: "sh_inv as s" and v: "v \<notin> fst ` set (sh_vars s)"
  shows "sh_inv as (weak_lock v w s)"
proof (rule sh_inv_shares [OF inv])
  let ?r = "wk_block (wk_var w s)"
  show "core (owners (weak_lock v w s)) (sh_blocks (weak_lock v w s)) (sh_log (weak_lock v w s))"
  proof (cases "use_count ?r s = 0")
    case True
    then show ?thesis
      using sh_invD(2) [OF inv] by (simp add: weak_lock_def Let_def owners_def)
  next
    case False
    then obtain b where b: "?r = Some b" "bl_strong (sh_blocks s ! b) \<noteq> 0"
      by (auto simp: use_count_def split: option.splits)
    then have "?r \<in># owners s"
      using coreD(2) [OF sh_invD(2) [OF inv] wk_var_bound [OF inv b(1)]] by (metis count_eq_zero_iff)
    from core_acquire [OF sh_invD(2) [OF inv] this] False show ?thesis
      by (simp add: weak_lock_def Let_def owners_def)
  qed
qed (use sh_invD(1) [OF inv] v in \<open>simp_all add: weak_lock_def Let_def\<close>)

lemma weak_entry_bound:
  assumes inv: "sh_inv as s" and e: "(y, k) \<in> set (AList.update w j (sh_weaks s))" and k: "wk_block k = Some b"
    and j: "\<And>b. wk_block j = Some b \<Longrightarrow> b < length (sh_blocks s)"
  shows "b < length (sh_blocks s)"
proof -
  have "(y, k) = (w, j) \<or> (y, k) \<in> set (sh_weaks s)"
    using e update_subset [of w j "sh_weaks s"] by blast
  then show ?thesis
    using j k sh_invD(4) [OF inv, of y k b] by auto
qed

lemma weak_move_inv:
  assumes inv: "sh_inv as s"
  shows "sh_inv as (s\<lparr>sh_weaks := AList.update x ((wk_var x s)\<lparr>wk_block := None\<rparr>) (sh_weaks s)\<rparr>)"
  by (rule weak_inv [OF inv]) (erule weak_entry_bound [OF inv]; simp)

lemma weak_set_inv:
  assumes inv: "sh_inv as s" and j: "\<And>b. wk_block j = Some b \<Longrightarrow> b < length (sh_blocks s)"
  shows "sh_inv as (s\<lparr>sh_weaks := (w, j) # sh_weaks s\<rparr>)" "sh_inv as (s\<lparr>sh_weaks := AList.update w j (sh_weaks s)\<rparr>)"
proof -
  show "sh_inv as (s\<lparr>sh_weaks := (w, j) # sh_weaks s\<rparr>)"
    by (rule weak_inv [OF inv]) (auto intro: j sh_invD(4) [OF inv])
  show "sh_inv as (s\<lparr>sh_weaks := AList.update w j (sh_weaks s)\<rparr>)"
    by (rule weak_inv [OF inv]) (erule weak_entry_bound [OF inv]; use j in simp)
qed

lemma weak_steps_inv:
  assumes inv: "sh_inv as s"
  shows "sh_inv as (weak_new w s)" "sh_inv as (weak_of_shared w v s)" "sh_inv as (weak_assign_shared w v s)"
    "sh_inv as (weak_copy_new w x s)" "sh_inv as (weak_move_new w x s)" "sh_inv as (weak_copy_assign w x s)"
    "sh_inv as (weak_move_assign w x s)" "sh_inv as (weak_destroy w s)"
proof -
  note bounds = sh_var_bound [OF inv] wk_var_bound [OF inv]
  let ?s = "s\<lparr>sh_weaks := AList.update x ((wk_var x s)\<lparr>wk_block := None\<rparr>) (sh_weaks s)\<rparr>"
  note moved = weak_move_inv [OF inv, of x]
  show "sh_inv as (weak_new w s)"
    unfolding weak_new_def by (rule weak_set_inv [OF inv]) simp
  show "sh_inv as (weak_of_shared w v s)"
    unfolding weak_of_shared_def by (rule weak_set_inv [OF inv]) (simp add: bounds)
  show "sh_inv as (weak_assign_shared w v s)"
    unfolding weak_assign_shared_def by (rule weak_set_inv [OF inv]) (simp add: bounds)
  show "sh_inv as (weak_copy_new w x s)"
    unfolding weak_copy_new_def by (rule weak_set_inv [OF inv]) (simp add: bounds)
  show "sh_inv as (weak_move_new w x s)"
    using weak_set_inv(1) [OF moved, of "wk_var x s" w] bounds by (simp add: weak_move_new_def)
  show "sh_inv as (weak_copy_assign w x s)"
    unfolding weak_copy_assign_def by (rule weak_set_inv [OF inv]) (simp add: bounds)
  show "sh_inv as (weak_move_assign w x s)"
    using weak_set_inv(2) [OF moved, of "wk_var x s" w] bounds inv by (simp add: weak_move_assign_def)
  show "sh_inv as (weak_destroy w s)"
    unfolding weak_destroy_def by (rule weak_inv [OF inv]) (auto simp: AList.delete_eq intro: sh_invD(4) [OF inv])
qed

lemma sh_reachable_inv: "sh_reachable as s \<Longrightarrow> sh_inv as s"
proof (induction rule: sh_reachable.induct)
  case sh_start
  show ?case by (simp add: sh_inv_def core_def owners_def)
qed (auto intro: new_inv copy_new_inv move_new_inv copy_assign_inv move_assign_inv destroy_inv weak_steps_inv lock_inv)

lemma owners_iff:
  assumes "sh_inv as s"
  shows "Some b \<in># owners s \<longleftrightarrow> (\<exists>v. sh_var v s = Some b)"
proof
  assume "Some b \<in># owners s"
  then obtain v where "(v, Some b) \<in> set (sh_vars s)"
    by (auto simp: owners_def)
  then have "map_of (sh_vars s) v = Some (Some b)"
    using sh_invD(1) [OF assms] by simp
  then show "\<exists>v. sh_var v s = Some b"
    by (intro exI [of _ v]) (simp add: sh_var_def)
next
  assume "\<exists>v. sh_var v s = Some b"
  then show "Some b \<in># owners s"
    by (auto simp: sh_var_def intro!: owner_in split: option.splits)
qed

lemma logged_iff:
  assumes inv: "sh_inv as s" and d: "distinct as"
  shows "a \<in> set (sh_log s) \<longleftrightarrow> a \<in> set as \<and> (\<forall>v. shared_get v s \<noteq> Some a)"
proof -
  let ?bs = "sh_blocks s"
  note c = coreD [OF sh_invD(2) [OF inv]] and as = sh_invD(3) [OF inv]
  have "a \<in> set (sh_log s) \<longleftrightarrow> (\<exists>i < length ?bs. bl_object (?bs ! i) = a \<and> bl_strong (?bs ! i) = 0)"
    using arg_cong [OF c(3), of set_mset] by (auto simp: dead_def in_set_conv_nth)
  also have "\<dots> \<longleftrightarrow> (\<exists>i < length ?bs. bl_object (?bs ! i) = a \<and> (\<forall>v. sh_var v s \<noteq> Some i))"
    using c(2) owners_iff [OF inv] by (metis count_eq_zero_iff)
  also have "\<dots> \<longleftrightarrow> a \<in> set as \<and> (\<forall>v. shared_get v s \<noteq> Some a)"
  proof
    assume "\<exists>i < length ?bs. bl_object (?bs ! i) = a \<and> (\<forall>v. sh_var v s \<noteq> Some i)"
    then obtain i where i: "i < length ?bs" "bl_object (?bs ! i) = a" "\<forall>v. sh_var v s \<noteq> Some i"
      by blast
    have "j = i" if "j < length ?bs" "bl_object (?bs ! j) = a" for j
      using nth_eq_iff_index_eq [OF d, of j i] i that by (simp add: as)
    then have "shared_get v s \<noteq> Some a" for v
      using i(3) sh_var_bound [OF inv, of v] by (auto simp: shared_get_def)
    then show "a \<in> set as \<and> (\<forall>v. shared_get v s \<noteq> Some a)"
      using i by (auto simp: as)
  next
    assume a: "a \<in> set as \<and> (\<forall>v. shared_get v s \<noteq> Some a)"
    then obtain i where "i < length ?bs" "bl_object (?bs ! i) = a"
      by (auto simp: as in_set_conv_nth)
    moreover from this have "sh_var v s \<noteq> Some i" for v
      using a by (auto simp: shared_get_def)
    ultimately show "\<exists>i < length ?bs. bl_object (?bs ! i) = a \<and> (\<forall>v. sh_var v s \<noteq> Some i)"
      by blast
  qed
  finally show ?thesis .
qed

text \<open>
  C7: In every run of all the operations of \<open>SharedPtr\<close> and \<open>WeakPtr\<close>, in which no object is handed over twice, the
  deleter is called at most once for an object, and exactly for the objects no shared pointer
  holds any more; the count of a shared pointer is the number of shared pointers to its object.
\<close>

theorem shared_deleted_when_unowned:
  assumes "sh_reachable as s" and "distinct as"
  shows "distinct (sh_log s) \<and> set (sh_log s) = {a \<in> set as. \<forall>v. shared_get v s \<noteq> Some a} \<and>
    (sh_var v s = Some b \<longrightarrow> use_count (sh_var v s) s = count (owners s) (Some b))"
proof -
  note inv = sh_reachable_inv [OF assms(1)]
  note c = coreD [OF sh_invD(2) [OF inv]]
  have "distinct (map bl_object (filter (\<lambda>x. bl_strong x = 0) (sh_blocks s)))"
    using assms(2) unfolding sh_invD(3) [OF inv] by (simp add: distinct_map_filter)
  then have "distinct (sh_log s)"
    using c(3) unfolding dead_def by (metis mset_eq_imp_distinct_iff)
  moreover have "use_count (sh_var v s) s = count (owners s) (Some b)" if "sh_var v s = Some b"
    using c(2) [OF sh_var_bound [OF inv that]] that by (simp add: use_count_def)
  moreover have "set (sh_log s) = {a \<in> set as. \<forall>v. shared_get v s \<noteq> Some a}"
    using logged_iff [OF inv assms(2)] by blast
  ultimately show ?thesis
    by blast
qed

theorem shared_deleted_when_unowned_witness:
  "set (sh_log (shared_destroy 0 (shared_copy_new 1 0 (shared_new 0 (Some 7)
     \<lparr>sh_blocks = [], sh_vars = [], sh_weaks = [], sh_log = []\<rparr>)))) =
   {a \<in> {7}. \<forall>v. shared_get v (shared_destroy 0 (shared_copy_new 1 0 (shared_new 0 (Some 7)
     \<lparr>sh_blocks = [], sh_vars = [], sh_weaks = [], sh_log = []\<rparr>))) \<noteq> Some a}"
proof -
  let ?s = "shared_copy_new 1 0 (shared_new 0 (Some 7) \<lparr>sh_blocks = [], sh_vars = [], sh_weaks = [], sh_log = []\<rparr>)"
  have "sh_reachable [7] (shared_destroy 0 ?s)"
    using sh_destroy [OF sh_copy_new [OF sh_new [OF sh_start, of 0 "Some 7"], of 1 0], of 0]
    by (simp add: shared_new_def shared_copy_new_def)
  from shared_deleted_when_unowned [OF this] show ?thesis
    by simp
qed

text \<open>Locking a weak pointer gives an object that has not been deleted, or nothing.\<close>

lemma lock_alive:
  assumes "sh_reachable as s" and "distinct as" and "v \<notin> fst ` set (sh_vars s)" and "w \<in> fst ` set (sh_weaks s)"
    and "shared_get v (weak_lock v w s) = Some a"
  shows "a \<notin> set (sh_log (weak_lock v w s))"
  using logged_iff [OF sh_reachable_inv [OF wk_lock [OF assms(1,3,4)]] assms(2), of a] assms(5) by blast

text \<open>A moved-from weak pointer counts 0 owners and not -1, since its flag stays set.\<close>

lemma moved_weak_count:
  "w \<noteq> x \<Longrightarrow> wk_bound (wk_var x s) \<Longrightarrow> weak_count x (weak_move_new w x s) = 0"
  by (simp add: weak_count_def weak_move_new_def wk_var_def update_conv' use_count_def)

end
