(* ===== verification/Metrics.thy ===== *)
theory Metrics
  imports Prelude
begin

text \<open>
  The counters of \<open>ServerMetrics\<close> (\<open>Wan/Web/Core/Metrics.hpp\<close>): five atomic 64-bit numbers that wrap, and
  their text in the Prometheus format.  Each operation is one atomic access.
\<close>

record metrics =
  total_requests :: "64 word"
  active_connections :: "64 word"
  total_errors :: "64 word"
  bytes_read :: "64 word"
  bytes_written :: "64 word"

definition metrics_new :: metrics where
  "metrics_new = \<lparr>total_requests = 0, active_connections = 0, total_errors = 0, bytes_read = 0, bytes_written = 0\<rparr>"

definition inc_requests :: "metrics \<Rightarrow> metrics" where
  "inc_requests m = m\<lparr>total_requests := total_requests m + 1\<rparr>"

definition inc_active :: "metrics \<Rightarrow> metrics" where
  "inc_active m = m\<lparr>active_connections := active_connections m + 1\<rparr>"

definition dec_active :: "metrics \<Rightarrow> metrics" where
  "dec_active m = m\<lparr>active_connections := active_connections m - 1\<rparr>"

definition reset_active :: "metrics \<Rightarrow> metrics" where
  "reset_active m = m\<lparr>active_connections := 0\<rparr>"

definition inc_errors :: "metrics \<Rightarrow> metrics" where
  "inc_errors m = m\<lparr>total_errors := total_errors m + 1\<rparr>"

definition inc_bytes_read :: "64 word \<Rightarrow> metrics \<Rightarrow> metrics" where
  "inc_bytes_read n m = m\<lparr>bytes_read := bytes_read m + n\<rparr>"

definition inc_bytes_written :: "64 word \<Rightarrow> metrics \<Rightarrow> metrics" where
  "inc_bytes_written n m = m\<lparr>bytes_written := bytes_written m + n\<rparr>"

abbreviation newline :: string where
  "newline \<equiv> [CHR 0x0A]"

definition to_prometheus :: "metrics \<Rightarrow> string" where
  "to_prometheus m =
     ''# HELP wan_requests_total Total requests'' @ newline @
     ''# TYPE wan_requests_total counter'' @ newline @
     ''wan_requests_total '' @ nat_text (unat (total_requests m)) @ newline @
     ''# HELP wan_active_connections Active connections'' @ newline @
     ''# TYPE wan_active_connections gauge'' @ newline @
     ''wan_active_connections '' @ nat_text (unat (active_connections m)) @ newline @
     ''# HELP wan_errors_total Total errors'' @ newline @
     ''# TYPE wan_errors_total counter'' @ newline @
     ''wan_errors_total '' @ nat_text (unat (total_errors m)) @ newline @
     ''# HELP wan_bytes_read_total Bytes read'' @ newline @
     ''# TYPE wan_bytes_read_total counter'' @ newline @
     ''wan_bytes_read_total '' @ nat_text (unat (bytes_read m)) @ newline @
     ''# HELP wan_bytes_written_total Bytes written'' @ newline @
     ''# TYPE wan_bytes_written_total counter'' @ newline @
     ''wan_bytes_written_total '' @ nat_text (unat (bytes_written m)) @ newline"

text \<open>Connections counted up and down again leave the gauge where it was, also across the wrap.\<close>

lemma active_balanced: "dec_active (inc_active m) = m" "inc_active (dec_active m) = m"
  by (simp_all add: dec_active_def inc_active_def)

end
