(* ===== verification/Servers.thy ===== *)
theory Servers
  imports Metrics Middlewares Routers
begin

text \<open>
  The configuration of \<open>Server\<close> and the requests of one connection
  (\<open>Wan/Web/Server/Server.hpp\<close>).  What the socket delivers is a list of events: a failed read, or a request,
  with the outcome of writing its response.  The request and response as the HTTP library keeps them are a
  context of any type with the operations of \<open>conn_lib\<close>; handlers and middlewares are those of the
  middleware chain; a handler runs to its end or throws.  The handshake and the shutdown of a TLS stream are calls of the
  library.  The start and the shutdown of the server are the subject of \<open>ServerRuns\<close>.
\<close>

section \<open>Configuration\<close>

record server_config =
  cf_threads :: nat
  cf_read_timeout :: int
  cf_write_timeout :: int
  cf_keep_alive_timeout :: int
  cf_max_body_size :: nat
  cf_max_connections :: nat
  cf_keep_alive_enabled :: bool
  cf_max_keepalive_requests :: nat
  cf_tcp_no_delay :: bool
  cf_reuse_address :: bool
  cf_enable_metrics :: bool
  cf_max_header_size :: nat

definition server_config_default :: server_config where
  "server_config_default = \<lparr>cf_threads = 0, cf_read_timeout = 30, cf_write_timeout = 30, cf_keep_alive_timeout = 30,
     cf_max_body_size = 10 * 1024 * 1024, cf_max_connections = 10000, cf_keep_alive_enabled = True,
     cf_max_keepalive_requests = 100, cf_tcp_no_delay = True, cf_reuse_address = True, cf_enable_metrics = True,
     cf_max_header_size = 64 * 1024\<rparr>"

text \<open>The largest duration of the timer, a signed 64-bit number of nanoseconds, in whole seconds.\<close>

definition is_timer_duration_representable :: "int \<Rightarrow> bool" where
  "is_timer_duration_representable v \<longleftrightarrow> (let maximum = (2 ^ 63 - 1) div 1000000000 in 0 \<le> v \<and> v \<le> maximum)"

definition validate_server_config :: "server_config \<Rightarrow> unit res" where
  "validate_server_config c =
     (if cf_read_timeout c < 0 \<or> \<not> is_timer_duration_representable (cf_read_timeout c) then
        Inl (InvalidArgument ''server read timeout is outside the timer range'')
      else if cf_write_timeout c < 0 \<or> \<not> is_timer_duration_representable (cf_write_timeout c) then
        Inl (InvalidArgument ''server write timeout is outside the timer range'')
      else if cf_keep_alive_timeout c < 0 \<or> \<not> is_timer_duration_representable (cf_keep_alive_timeout c) then
        Inl (InvalidArgument ''server keep-alive timeout is outside the timer range'')
      else if cf_max_body_size c = 0 \<or> cf_max_header_size c = 0 \<or> cf_max_connections c = 0
          \<or> cf_keep_alive_enabled c \<and> cf_max_keepalive_requests c = 0 then
        Inl (InvalidArgument ''server resource limits must be positive'')
      else Inr ())"

section \<open>Routes, middlewares and the port\<close>

type_synonym 'c handler = "'c \<Rightarrow> 'c outcome"

record ('m, 'c) server_setup =
  su_router :: "('m, 'c handler) router"
  su_chain :: "'c middleware list"
  su_port :: "16 word"
  su_started :: bool

definition setup_new :: "('m, 'c) server_setup" where
  "setup_new = \<lparr>su_router = router_new, su_chain = [], su_port = 8080, su_started = False\<rparr>"

definition ensure_mutable :: "('m, 'c) server_setup \<Rightarrow> unit res" where
  "ensure_mutable s = (if su_started s then Inl (LogicError ''server configuration cannot change after start'') else Inr ())"

text \<open>\<open>Get\<close>, \<open>Post\<close>, \<open>Put\<close>, \<open>Del\<close> and \<open>Patch\<close>, at their verb.\<close>

definition server_route :: "'m \<Rightarrow> string \<Rightarrow> 'c handler option \<Rightarrow> ('m, 'c) server_setup \<Rightarrow> unit res \<times> ('m, 'c) server_setup" where
  "server_route m p h s =
     (case ensure_mutable s of
        Inl e \<Rightarrow> (Inl e, s)
      | Inr _ \<Rightarrow> (case add_route m p h (su_router s) of (r, R) \<Rightarrow> (r, s\<lparr>su_router := R\<rparr>)))"

definition server_use :: "'c middleware \<Rightarrow> ('m, 'c) server_setup \<Rightarrow> unit res \<times> ('m, 'c) server_setup" where
  "server_use mw s =
     (case ensure_mutable s of
        Inl e \<Rightarrow> (Inl e, s)
      | Inr _ \<Rightarrow> (Inr (), s\<lparr>su_chain := chain_use mw (su_chain s)\<rparr>))"

definition server_use_fn :: "('c \<Rightarrow> 'c prog) \<Rightarrow> int \<Rightarrow> string \<Rightarrow> ('m, 'c) server_setup \<Rightarrow> unit res \<times> ('m, 'c) server_setup" where
  "server_use_fn f p n s =
     (case ensure_mutable s of
        Inl e \<Rightarrow> (Inl e, s)
      | Inr _ \<Rightarrow> (Inr (), s\<lparr>su_chain := chain_use_fn f p n (su_chain s)\<rparr>))"

definition server_listen :: "16 word \<Rightarrow> ('m, 'c) server_setup \<Rightarrow> unit res \<times> ('m, 'c) server_setup" where
  "server_listen port s =
     (case ensure_mutable s of
        Inl e \<Rightarrow> (Inl e, s)
      | Inr _ \<Rightarrow> (Inr (), s\<lparr>su_port := port\<rparr>))"

section \<open>The requests of a connection\<close>

record ('m, 'c) conn_lib =
  cn_method :: "'c \<Rightarrow> 'm"
  cn_target :: "'c \<Rightarrow> string"
  cn_set_params :: "params \<Rightarrow> 'c \<Rightarrow> 'c"
  cn_keep_alive :: "'c \<Rightarrow> bool"
  cn_set_keep_alive :: "bool \<Rightarrow> 'c \<Rightarrow> 'c"
  cn_prepare :: "'c \<Rightarrow> 'c"
  cn_request_size :: "'c \<Rightarrow> 64 word"
  cn_response_size :: "'c \<Rightarrow> 64 word"

datatype 'c event =
    ReadFailed bool \<comment> \<open>whether the error is the end of the stream\<close>
  | Request 'c bool \<comment> \<open>a request, and whether its response is written\<close>

text \<open>Calling an empty \<open>std::function\<close> throws.\<close>

fun call_handler :: "'c handler option \<Rightarrow> 'c handler" where
  "call_handler None c = (Some (StdException ''bad_function_call''), c)"
| "call_handler (Some h) c = h c"

definition not_found_body :: string where
  "not_found_body = [CHR ''{'', CHR 0x22] @ ''error'' @ [CHR 0x22, CHR '':'', CHR 0x22] @ ''not_found'' @ [CHR 0x22, CHR ''}'']"

definition respond :: "('m, 'c) conn_lib \<Rightarrow> 'c http_lib \<Rightarrow> ('m, 'c) server_setup \<Rightarrow> 'c \<Rightarrow> 'c outcome" where
  "respond N L s c =
     (case router_match (cn_method N c) (cn_target N c) (su_router s) of
        Some (h, ps) \<Rightarrow>
          (let c = cn_set_params N ps c in
           if chain_empty (su_chain s) then call_handler h c
           else the (chain_run (su_chain s) (call_handler h) c))
      | None \<Rightarrow> (None, ctx_json L not_found_body (ctx_status L 404 c)))"

definition when_metrics :: "server_config \<Rightarrow> (metrics \<Rightarrow> metrics) \<Rightarrow> metrics \<Rightarrow> metrics" where
  "when_metrics cf f m = (if cf_enable_metrics cf then f m else m)"

text \<open>
  The loop of \<open>HandleConnection\<close>, with the number of requests answered so far: the responses written,
  the counters, and whether the loop has ended (the connection is then closed).
\<close>

fun serve :: "server_config \<Rightarrow> ('m, 'c) conn_lib \<Rightarrow> 'c http_lib \<Rightarrow> ('m, 'c) server_setup \<Rightarrow> nat \<Rightarrow> 'c event list
    \<Rightarrow> metrics \<Rightarrow> 'c list \<times> metrics \<times> bool" where
  "serve cf N L s n [] m = ([], m, False)"
| "serve cf N L s n (ReadFailed eof # es) m = ([], if \<not> eof then when_metrics cf inc_errors m else m, True)"
| "serve cf N L s n (Request c written # es) m =
     (let m = when_metrics cf (inc_bytes_read (cn_request_size N c) \<circ> inc_requests) m in
      case respond N L s c of
        (Some e, c) \<Rightarrow> ([], when_metrics cf inc_errors m, True)
      | (None, c) \<Rightarrow>
          (let c = cn_prepare N (cn_set_keep_alive N (cn_keep_alive N c) c) in
           if \<not> written then ([], when_metrics cf inc_errors m, True)
           else let m = when_metrics cf (inc_bytes_written (cn_response_size N c)) m in
             if \<not> cf_keep_alive_enabled cf \<or> \<not> cn_keep_alive N c \<or> cf_max_keepalive_requests cf \<le> Suc n then ([c], m, True)
             else (case serve cf N L s (Suc n) es m of (cs, m, closed) \<Rightarrow> (c # cs, m, closed))))"

text \<open>The time limit of the next read.\<close>

definition read_timeout :: "server_config \<Rightarrow> nat \<Rightarrow> int" where
  "read_timeout cf n =
     (if n = 0 then cf_read_timeout cf
      else if cf_keep_alive_enabled cf then cf_keep_alive_timeout cf else cf_read_timeout cf)"

end
