(* ===== verification/ServerLaws.thy ===== *)
theory ServerLaws
  imports Servers RouterLaws
begin

text \<open>
  What the configuration check accepts, what a connection is answered and how often, and what the counters show.
\<close>

section \<open>Configuration\<close>

lemma validate_server_config_exact:
  "validate_server_config c = Inr () \<longleftrightarrow>
     (\<forall>t \<in> {cf_read_timeout c, cf_write_timeout c, cf_keep_alive_timeout c}. 0 \<le> t \<and> t \<le> 9223372036) \<and>
     0 < cf_max_body_size c \<and> 0 < cf_max_header_size c \<and> 0 < cf_max_connections c \<and>
     (cf_keep_alive_enabled c \<longrightarrow> 0 < cf_max_keepalive_requests c)"
  by (auto simp: validate_server_config_def is_timer_duration_representable_def Let_def)

lemma default_config_valid: "validate_server_config server_config_default = Inr ()"
  by (simp add: validate_server_config_exact server_config_default_def)

text \<open>After the start nothing of the configuration changes any more.\<close>

lemma started_immutable:
  assumes "su_started s"
  shows "\<exists>e. server_route m p h s = (Inl (LogicError e), s)" and "\<exists>e. server_use mw s = (Inl (LogicError e), s)"
    and "\<exists>e. server_use_fn f pr nm s = (Inl (LogicError e), s)" and "\<exists>e. server_listen port s = (Inl (LogicError e), s)"
  using assms by (auto simp: server_route_def server_use_def server_use_fn_def server_listen_def ensure_mutable_def)

section \<open>Requests\<close>

text \<open>
  What one event of a connection amounts to: the response written for it, if any, whether it is a
  failure, and whether the connection is kept open after it, as the \<open>i\<close>-th event.
\<close>

fun event_answers :: "('m, 'c) conn_lib \<Rightarrow> 'c http_lib \<Rightarrow> ('m, 'c) server_setup \<Rightarrow> 'c event \<Rightarrow> 'c list" where
  "event_answers N L s (ReadFailed eof) = []"
| "event_answers N L s (Request c written) =
     (if written \<and> fst (respond N L s c) = None
      then [let c = snd (respond N L s c) in cn_prepare N (cn_set_keep_alive N (cn_keep_alive N c) c)] else [])"

fun event_failed :: "('m, 'c) conn_lib \<Rightarrow> 'c http_lib \<Rightarrow> ('m, 'c) server_setup \<Rightarrow> 'c event \<Rightarrow> bool" where
  "event_failed N L s (ReadFailed eof) = (\<not> eof)"
| "event_failed N L s (Request c written) = (\<not> written \<or> fst (respond N L s c) \<noteq> None)"

definition event_keeps :: "server_config \<Rightarrow> ('m, 'c) conn_lib \<Rightarrow> 'c http_lib \<Rightarrow> ('m, 'c) server_setup \<Rightarrow> nat \<Rightarrow> 'c event \<Rightarrow> bool" where
  "event_keeps cf N L s i e \<longleftrightarrow>
     (\<exists>c \<in> set (event_answers N L s e). cf_keep_alive_enabled cf \<and> cn_keep_alive N c \<and> Suc i < cf_max_keepalive_requests cf)"

fun is_request :: "'c event \<Rightarrow> bool" where
  "is_request (ReadFailed eof) = False"
| "is_request (Request c written) = True"

fun event_bytes :: "('m, 'c) conn_lib \<Rightarrow> 'c event \<Rightarrow> 64 word" where
  "event_bytes N (ReadFailed eof) = 0"
| "event_bytes N (Request c written) = cn_request_size N c"

text \<open>What the counters show after the events \<open>es\<close> were read and the responses \<open>cs\<close> written.\<close>

definition counted :: "server_config \<Rightarrow> ('m, 'c) conn_lib \<Rightarrow> 'c http_lib \<Rightarrow> ('m, 'c) server_setup \<Rightarrow> 'c event list \<Rightarrow> 'c list
    \<Rightarrow> metrics \<Rightarrow> metrics" where
  "counted cf N L s es cs m =
     (if cf_enable_metrics cf
      then m\<lparr>total_requests := total_requests m + of_nat (length (filter is_request es)),
             total_errors := total_errors m + of_nat (length (filter (event_failed N L s) es)),
             bytes_read := bytes_read m + sum_list (map (event_bytes N) es),
             bytes_written := bytes_written m + sum_list (map (cn_response_size N) cs)\<rparr>
      else m)"

lemma counted_Nil [simp]: "counted cf N L s [] [] m = m"
  by (simp add: counted_def)

lemma counted_Cons:
  "counted cf N L s (e # es) (event_answers N L s e @ cs) m = counted cf N L s es cs (counted cf N L s [e] (event_answers N L s e) m)"
  by (simp add: counted_def algebra_simps)

lemma serve_one:
  "serve cf N L s n (e # es) m =
     (let m' = counted cf N L s [e] (event_answers N L s e) m in
      if event_keeps cf N L s n e
      then (case serve cf N L s (Suc n) es m' of (cs, m, closed) \<Rightarrow> (event_answers N L s e @ cs, m, closed))
      else (event_answers N L s e, m', True))"
proof (cases e)
  case (ReadFailed eof)
  then show ?thesis
    by (simp add: counted_def when_metrics_def inc_errors_def event_keeps_def)
next
  case (Request c written)
  obtain x c0 where r: "respond N L s c = (x, c0)"
    by fastforce
  show ?thesis
    using Request r
    by (cases x; cases written)
      (simp_all add: counted_def when_metrics_def inc_errors_def inc_requests_def inc_bytes_read_def inc_bytes_written_def
        event_keeps_def Let_def not_le split: prod.split)
qed

lemma serve_exact:
  "serve cf N L s n es m = (cs, m', closed) \<Longrightarrow>
   \<exists>k \<le> length es. (\<forall>i. Suc i < k \<longrightarrow> event_keeps cf N L s (n + i) (es ! i)) \<and>
     (if closed then 0 < k \<and> \<not> event_keeps cf N L s (n + (k - 1)) (es ! (k - 1))
      else k = length es \<and> (0 < k \<longrightarrow> event_keeps cf N L s (n + (k - 1)) (es ! (k - 1)))) \<and>
     cs = concat (map (event_answers N L s) (take k es)) \<and> m' = counted cf N L s (take k es) cs m"
proof (induction es arbitrary: n m cs)
  case (Cons e es)
  show ?case
  proof (cases "event_keeps cf N L s n e")
    case False
    then show ?thesis
      using Cons.prems by (intro exI [of _ 1]) (auto simp: serve_one Let_def simp del: serve.simps)
  next
    case True
    then obtain cs1 where cs1: "cs = event_answers N L s e @ cs1"
      "serve cf N L s (Suc n) es (counted cf N L s [e] (event_answers N L s e) m) = (cs1, m', closed)"
      using Cons.prems by (auto simp: serve_one Let_def simp del: serve.simps split: prod.splits)
    from Cons.IH [OF cs1(2)] obtain k where k: "k \<le> length es"
      "\<forall>i. Suc i < k \<longrightarrow> event_keeps cf N L s (Suc n + i) (es ! i)"
      "if closed then 0 < k \<and> \<not> event_keeps cf N L s (Suc n + (k - 1)) (es ! (k - 1))
       else k = length es \<and> (0 < k \<longrightarrow> event_keeps cf N L s (Suc n + (k - 1)) (es ! (k - 1)))"
      "cs1 = concat (map (event_answers N L s) (take k es))"
      "m' = counted cf N L s (take k es) cs1 (counted cf N L s [e] (event_answers N L s e) m)"
      by blast
    have "event_keeps cf N L s (n + i) ((e # es) ! i)" if "Suc i < Suc k" for i
      using that True k(2) by (cases i) auto
    moreover have "if closed then 0 < Suc k \<and> \<not> event_keeps cf N L s (n + (Suc k - 1)) ((e # es) ! (Suc k - 1))
       else Suc k = length (e # es) \<and> (0 < Suc k \<longrightarrow> event_keeps cf N L s (n + (Suc k - 1)) ((e # es) ! (Suc k - 1)))"
      using k(3) True by (cases k) (auto split: if_splits)
    ultimately show ?thesis
      using k(1,4,5) cs1(1) by (intro exI [of _ "Suc k"]) (simp add: counted_Cons)
  qed
qed simp

lemma answers_length: "length (concat (map (event_answers N L s) es)) \<le> length es"
proof (induction es)
  case (Cons e es)
  moreover have "length (event_answers N L s e) \<le> 1"
    by (cases e) auto
  ultimately show ?case
    by simp
qed simp

text \<open>
  C5: a connection reads a first part of its events: it goes on after an event exactly when the
  request was answered, the response written, and keep-alive is on, is asked for and leaves
  requests under \<open>MaxKeepaliveRequests\<close>.  The responses are those of the answered requests, in their
  order, at most \<open>MaxKeepaliveRequests\<close> of them, and one without keep-alive.  Every counter shows
  exactly what was read: the requests and their bytes, the bytes of the responses, and the
  failures, which are the failed reads other than a clean end of the stream, the exceptions and the
  failed writes.  The connection is closed exactly when it does not go on.
\<close>

theorem serve_bounded:
  assumes "validate_server_config cf = Inr ()" and "serve cf N L s 0 es m = (cs, m', closed)"
  shows "length cs \<le> (if cf_keep_alive_enabled cf then cf_max_keepalive_requests cf else 1) \<and>
    (\<exists>k \<le> length es. (\<forall>i. Suc i < k \<longrightarrow> event_keeps cf N L s i (es ! i)) \<and>
     (if closed then 0 < k \<and> \<not> event_keeps cf N L s (k - 1) (es ! (k - 1))
      else k = length es \<and> (0 < k \<longrightarrow> event_keeps cf N L s (k - 1) (es ! (k - 1)))) \<and>
     cs = concat (map (event_answers N L s) (take k es)) \<and>
     (cf_enable_metrics cf \<longrightarrow>
       m' = m\<lparr>total_requests := total_requests m + of_nat (length (filter is_request (take k es))),
             total_errors := total_errors m + of_nat (length (filter (event_failed N L s) (take k es))),
             bytes_read := bytes_read m + sum_list (map (event_bytes N) (take k es)),
             bytes_written := bytes_written m + sum_list (map (cn_response_size N) cs)\<rparr>) \<and>
     (\<not> cf_enable_metrics cf \<longrightarrow> m' = m))"
proof -
  obtain k where k: "k \<le> length es" "\<forall>i. Suc i < k \<longrightarrow> event_keeps cf N L s i (es ! i)"
     "if closed then 0 < k \<and> \<not> event_keeps cf N L s (k - 1) (es ! (k - 1))
      else k = length es \<and> (0 < k \<longrightarrow> event_keeps cf N L s (k - 1) (es ! (k - 1)))"
     "cs = concat (map (event_answers N L s) (take k es))" "m' = counted cf N L s (take k es) cs m"
    using serve_exact [OF assms(2)] unfolding add_0_left by blast
  have limit: "cf_keep_alive_enabled cf \<Longrightarrow> 0 < cf_max_keepalive_requests cf"
    using assms(1) by (simp add: validate_server_config_exact)
  have "cf_keep_alive_enabled cf \<and> Suc i < cf_max_keepalive_requests cf" if "Suc i < k" for i
    using that k(2) by (auto simp: event_keeps_def)
  note keeps = this
  have "k \<le> (if cf_keep_alive_enabled cf then cf_max_keepalive_requests cf else 1)"
  proof (cases "k \<le> 1")
    case True
    then show ?thesis
      using limit by (auto intro: order_trans [of k 1])
  next
    case False
    then have "Suc (k - 2) < k" "Suc (k - 2) = k - 1"
      by simp_all
    then have "cf_keep_alive_enabled cf" "k - 1 < cf_max_keepalive_requests cf"
      using keeps [of "k - 2"] by simp_all
    then show ?thesis
      by auto
  qed
  moreover have "length cs \<le> k"
    using answers_length [of N L s "take k es"] k(1,4) by simp
  ultimately have "length cs \<le> (if cf_keep_alive_enabled cf then cf_max_keepalive_requests cf else 1)"
    by simp
  then show ?thesis
    using k unfolding counted_def by (intro conjI exI [of _ k]) simp_all
qed

abbreviation demo_lib :: "(nat, nat) conn_lib" where
  "demo_lib \<equiv> \<lparr>cn_method = (\<lambda>c. 0), cn_target = (\<lambda>c. ''/''), cn_set_params = (\<lambda>ps c. c), cn_keep_alive = (\<lambda>c. True),
     cn_set_keep_alive = (\<lambda>k c. c), cn_prepare = (\<lambda>c. c), cn_request_size = (\<lambda>c. of_nat c), cn_response_size = (\<lambda>c. of_nat c)\<rparr>"

abbreviation demo_http :: "nat http_lib" where
  "demo_http \<equiv> \<lparr>lib_method = (\<lambda>c. ''GET''), lib_target = (\<lambda>c. ''/''), lib_status = (\<lambda>c. 200), lib_set_status = (\<lambda>st c. c + nat st),
     lib_set_field = (\<lambda>n v c. c), lib_set_body = (\<lambda>b c. c), lib_prepare = (\<lambda>c. c), lib_clock = (\<lambda>c. 0), lib_print = (\<lambda>t c. c),
     lib_serialize = (\<lambda>fs. [])\<rparr>"

text \<open>Two requests, one more than the limit: the second is not read.\<close>

theorem serve_bounded_witness:
  "\<exists>c m'. serve (server_config_default\<lparr>cf_max_keepalive_requests := 1\<rparr>) demo_lib demo_http setup_new 0 [Request 1 True, Request 2 True] metrics_new
     = ([c], m', True) \<and> total_requests m' = total_requests metrics_new + 1 \<and> total_errors m' = total_errors metrics_new"
proof -
  let ?cf = "server_config_default\<lparr>cf_max_keepalive_requests := 1\<rparr>"
  let ?es = "[Request 1 True, Request 2 True] :: nat event list"
  obtain cs m' cl where r: "serve ?cf demo_lib demo_http setup_new 0 ?es metrics_new = (cs, m', cl)"
    by (metis prod_cases3)
  have v: "validate_server_config ?cf = Inr ()"
    by (simp add: validate_server_config_exact server_config_default_def)
  have stop: "\<not> event_keeps ?cf demo_lib demo_http setup_new i e" for i e
    by (simp add: event_keeps_def server_config_default_def)
  have answered: "fst (respond demo_lib demo_http setup_new c) = None" for c
    by (simp add: respond_def router_match_def setup_new_def router_new_def ctx_json_def set_body_as_def)
  have on: "cf_enable_metrics ?cf"
    by (simp add: server_config_default_def)
  obtain k where k: "k \<le> length ?es" "\<forall>i. Suc i < k \<longrightarrow> event_keeps ?cf demo_lib demo_http setup_new i (?es ! i)"
    "if cl then 0 < k \<and> \<not> event_keeps ?cf demo_lib demo_http setup_new (k - 1) (?es ! (k - 1))
     else k = length ?es \<and> (0 < k \<longrightarrow> event_keeps ?cf demo_lib demo_http setup_new (k - 1) (?es ! (k - 1)))"
    "cs = concat (map (event_answers demo_lib demo_http setup_new) (take k ?es))"
    "m' = metrics_new\<lparr>total_requests := total_requests metrics_new + of_nat (length (filter is_request (take k ?es))),
       total_errors := total_errors metrics_new + of_nat (length (filter (event_failed demo_lib demo_http setup_new) (take k ?es))),
       bytes_read := bytes_read metrics_new + sum_list (map (event_bytes demo_lib) (take k ?es)),
       bytes_written := bytes_written metrics_new + sum_list (map (cn_response_size demo_lib) cs)\<rparr>"
    using serve_bounded [OF v r] on by blast
  have "k = 1 \<and> cl"
    using k(1,3) spec [OF k(2), of 0] stop by (auto split: if_splits)
  then show ?thesis
    using r k(4,5) answered by (auto simp: Let_def)
qed

section \<open>A server as it was set up\<close>

text \<open>
  The calls that set a server up, and the server after them.  A call that throws changes nothing,
  and the program may go on.
\<close>

datatype ('m, 'c) setup_call = CallRoute 'm string "'c handler option" | CallUse "'c middleware" | CallListen "16 word"

fun setup_do :: "('m, 'c) setup_call \<Rightarrow> ('m, 'c) server_setup \<Rightarrow> unit res \<times> ('m, 'c) server_setup" where
  "setup_do (CallRoute m p h) s = server_route m p h s"
| "setup_do (CallUse mw) s = server_use mw s"
| "setup_do (CallListen port) s = server_listen port s"

definition set_up :: "('m, 'c) setup_call list \<Rightarrow> ('m, 'c) server_setup \<Rightarrow> ('m, 'c) server_setup" where
  "set_up ks s = fold (\<lambda>k s. snd (setup_do k s)) ks s"

text \<open>
  The handlers registered for a method, by the tokens of their patterns: those of the calls that
  were accepted, the last one for the same tokens.
\<close>

fun route_table :: "'m \<Rightarrow> ('m, 'c) setup_call list \<Rightarrow> ('m, 'c) server_setup \<Rightarrow> (token list \<rightharpoonup> 'c handler)
    \<Rightarrow> token list \<rightharpoonup> 'c handler" where
  "route_table m [] s T = T"
| "route_table m (CallRoute m' p h # ks) s T =
     route_table m ks (snd (server_route m' p h s))
       (if m' = m \<and> fst (server_route m' p h s) = Inr () then T(tokens p := h) else T)"
| "route_table m (k # ks) s T = route_table m ks (snd (setup_do k s)) T"

fun used_middlewares :: "('m, 'c) setup_call list \<Rightarrow> 'c middleware list" where
  "used_middlewares [] = []"
| "used_middlewares (CallUse mw # ks) = mw # used_middlewares ks"
| "used_middlewares (k # ks) = used_middlewares ks"

lemma server_route_routes:
  fixes m' :: 'm and p :: string and h :: "'c handler option" and s :: "('m, 'c) server_setup"
  assumes "\<not> su_started s" and ok: "router_ok (su_router s)"
    and T: "\<forall>ts f. (ts, f) \<in> set (method_routes (su_router s) m) \<longleftrightarrow> T ts = Some f"
  defines "s' \<equiv> snd (server_route m' p h s)"
  shows "\<not> su_started s' \<and> su_chain s' = su_chain s \<and> router_ok (su_router s') \<and>
    (\<forall>ts f. (ts, f) \<in> set (method_routes (su_router s') m) \<longleftrightarrow>
      (if m' = m \<and> fst (server_route m' p h s) = Inr () then T(tokens p := h) else T) ts = Some f)"
proof -
  obtain r R where add: "add_route m' p h (su_router s) = (r, R)"
    by fastforce
  have run: "server_route m' p h s = (r, s\<lparr>su_router := R\<rparr>)"
    using assms(1) add by (simp add: server_route_def ensure_mutable_def)
  note rt = add_route_routes [OF ok, where m = m' and p = p and H = h, unfolded add prod.case]
  show ?thesis
  proof (cases r)
    case (Inl e)
    then show ?thesis
      using rt run assms by simp
  next
    case (Inr u)
    then show ?thesis
      using rt run assms by (simp add: s'_def)
  qed
qed

lemma set_up_routes:
  assumes "\<not> su_started s" and "router_ok (su_router s)"
    and "\<forall>ts f. (ts, f) \<in> set (method_routes (su_router s) m) \<longleftrightarrow> T ts = Some f"
  shows "su_chain (set_up ks s) = fold chain_use (used_middlewares ks) (su_chain s) \<and> router_ok (su_router (set_up ks s)) \<and>
    (\<forall>ts f. (ts, f) \<in> set (method_routes (su_router (set_up ks s)) m) \<longleftrightarrow> route_table m ks s T ts = Some f)"
  using assms
proof (induction ks arbitrary: s T)
  case (Cons k ks)
  show ?case
  proof (cases k)
    case (CallRoute m' p h)
    let ?s = "snd (server_route m' p h s)"
    let ?T = "if m' = m \<and> fst (server_route m' p h s) = Inr () then T(tokens p := h) else T"
    note r = server_route_routes [OF Cons.prems, of m' p h]
    have up: "set_up (k # ks) s = set_up ks ?s" "route_table m (k # ks) s T = route_table m ks ?s ?T"
      "used_middlewares (k # ks) = used_middlewares ks"
      by (simp_all add: CallRoute set_up_def)
    show ?thesis
      unfolding up using Cons.IH [of ?s ?T] r by metis
  next
    case (CallUse mw)
    then show ?thesis
      using Cons.IH [of "snd (setup_do k s)" T] Cons.prems
      by (simp add: set_up_def server_use_def ensure_mutable_def)
  next
    case (CallListen port)
    then show ?thesis
      using Cons.IH [of "snd (setup_do k s)" T] Cons.prems
      by (simp add: set_up_def server_listen_def ensure_mutable_def)
  qed
qed (simp add: set_up_def)

lemma respond_matched:
  assumes "\<forall>mw \<in> set (su_chain s). \<forall>c. calls_at_most (mw_fn mw c) 1"
    and "router_match (cn_method N c) (cn_target N c) (su_router s) = Some (Some f, ps)"
  shows "respond N L s c = onion (su_chain s) f (cn_set_params N ps c)"
proof -
  have "call_handler (Some f) = f"
    by (rule ext) simp
  then show ?thesis
    using chain_run_onion [OF assms(1)] assms(2) by (simp add: respond_def chain_empty_def Let_def)
qed

text \<open>
  C6: what a server that was set up by any sequence of calls answers, when its middlewares call
  \<open>Next\<close> at most once: a request is answered with status 404 and a JSON body exactly when no
  pattern whose registration for its method was accepted matches its path, the target up to the
  question mark.  Otherwise the handler last registered for a matching pattern runs, with exactly
  the captured parameters set, inside all the middlewares, wrapped around each other in the order
  of their priorities, and of their registration where these agree.
\<close>

theorem server_answers:
  fixes ks :: "('m, 'c) setup_call list" and N :: "('m, 'c) conn_lib" and c :: 'c
  assumes once: "\<forall>mw \<in> set (used_middlewares ks). \<forall>c. calls_at_most (mw_fn mw c) 1"
  defines "T \<equiv> route_table (cn_method N c) ks setup_new Map.empty"
    and "path \<equiv> takeWhile (\<lambda>x. x \<noteq> CHR ''?'') (cn_target N c)"
  shows "if \<forall>ts f. T ts = Some f \<longrightarrow> match_tokens ts path = None
    then respond N L (set_up ks setup_new) c = (None, ctx_json L not_found_body (ctx_status L 404 c))
    else \<exists>ts f caps mws. T ts = Some f \<and> match_tokens ts path = Some caps \<and>
      mset mws = mset (used_middlewares ks) \<and> sorted (map mw_priority mws) \<and>
      (\<forall>p. filter (\<lambda>x. mw_priority x = p) mws = filter (\<lambda>x. mw_priority x = p) (used_middlewares ks)) \<and>
      respond N L (set_up ks setup_new) c = onion mws f (cn_set_params N (map_of caps) c)"
proof -
  let ?s = "set_up ks setup_new"
  let ?rs = "method_routes (su_router ?s) (cn_method N c)"
  have start: "\<not> su_started setup_new" "router_ok (su_router setup_new)"
    "\<forall>ts f. (ts, f) \<in> set (method_routes (su_router setup_new) (cn_method N c)) \<longleftrightarrow> Map.empty ts = Some f"
    by (simp_all add: setup_new_def router_new_def router_ok_def method_routes_def)
  note u = set_up_routes [OF start, of ks, folded T_def]
  have new: "su_chain (setup_new :: ('m, 'c) server_setup) = []"
    by (simp add: setup_new_def)
  have up: "router_ok (su_router ?s)" and chain: "su_chain ?s = fold chain_use (used_middlewares ks) []"
    using u by (simp_all add: new)
  have table: "(ts, f) \<in> set ?rs \<longleftrightarrow> T ts = Some f" for ts f
    using u by simp
  note order = chain_order [of "used_middlewares ks", unfolded Let_def, folded chain]
  have "set (su_chain ?s) = set (used_middlewares ks)"
    using order by (metis mset_eq_setD)
  then have calls: "\<forall>mw \<in> set (su_chain ?s). \<forall>c. calls_at_most (mw_fn mw c) 1"
    using once by simp
  note found = router_match_routes [OF up, of "cn_method N c" "cn_target N c", folded path_def]
  show ?thesis
  proof (cases "first_match ?rs path")
    case None
    then have "\<forall>ts f. T ts = Some f \<longrightarrow> match_tokens ts path = None"
      using table by (fastforce simp: first_match_None)
    then show ?thesis
      using found None by (simp add: respond_def)
  next
    case (Some hc)
    obtain f caps where hc: "hc = (f, caps)"
      by fastforce
    obtain ts where ts: "(ts, f) \<in> set ?rs" "match_tokens ts path = Some caps"
      using first_match_in [of ?rs path f caps] Some hc by auto
    have "respond N L ?s c = onion (su_chain ?s) f (cn_set_params N (map_of caps) c)"
      using respond_matched [OF calls] found Some hc by simp
    then have "\<exists>ts f caps mws. T ts = Some f \<and> match_tokens ts path = Some caps \<and>
      mset mws = mset (used_middlewares ks) \<and> sorted (map mw_priority mws) \<and>
      (\<forall>p. filter (\<lambda>x. mw_priority x = p) mws = filter (\<lambda>x. mw_priority x = p) (used_middlewares ks)) \<and>
      respond N L ?s c = onion mws f (cn_set_params N (map_of caps) c)"
      using ts order table by blast
    moreover have "\<not> (\<forall>ts f. T ts = Some f \<longrightarrow> match_tokens ts path = None)"
      using ts table by auto
    ultimately show ?thesis
      by (simp only: if_False)
  qed
qed

text \<open>
  A parameter route behind the error handler: the context is a number, the target \<open>/u/42?x\<close>, and the
  captured parameters count; the handler throws.
\<close>

abbreviation user_lib :: "(nat, nat) conn_lib" where
  "user_lib \<equiv> demo_lib\<lparr>cn_target := (\<lambda>c. ''/u/42?x''), cn_set_params := (\<lambda>ps c. c + (if ps ''id'' = Some ''42'' then 100 else 0))\<rparr>"

theorem server_answers_witness:
  "respond user_lib demo_http (set_up [CallRoute 0 ''/u/<int:id>'' (Some (\<lambda>c. (Some (StdException ''x''), c))),
     CallUse (error_handler_middleware demo_http)] setup_new) 5 = (None, 605)"
proof -
  let ?mw = "error_handler_middleware demo_http"
  let ?h = "\<lambda>c :: nat. (Some (StdException ''x''), c)"
  let ?ks = "[CallRoute 0 ''/u/<int:id>'' (Some ?h), CallUse ?mw] :: (nat, nat) setup_call list"
  let ?ts = "tokens ''/u/<int:id>''"
  have acc: "fst (server_route (0 :: nat) ''/u/<int:id>'' (Some ?h) setup_new) = Inr ()"
    by (simp add: server_route_def ensure_mutable_def setup_new_def add_route_def router_new_def radix_insert_def split_spec_def
      spec_type_def is_alnum_def is_digit_def radix_empty_def)
  have T: "route_table 0 ?ks setup_new Map.empty = [?ts \<mapsto> ?h]"
    by (simp add: acc del: tokens.simps)
  have caps: "match_tokens ?ts ''/u/42'' = Some [(''id'', ''42'')]"
    by (simp add: split_spec_def spec_type_def is_digit_def)
  have path: "takeWhile (\<lambda>x. x \<noteq> CHR ''?'') (cn_target user_lib 5) = ''/u/42''"
    by simp
  have "\<forall>mw \<in> set (used_middlewares ?ks). \<forall>c. calls_at_most (mw_fn mw c) 1"
    by (simp add: error_handler_middleware_def builtins_call_once [simplified])
  from server_answers [OF this, of user_lib 5 demo_http]
  obtain ts f cps mws where r: "[?ts \<mapsto> ?h] ts = Some f" "match_tokens ts ''/u/42'' = Some cps"
    "mset mws = mset [?mw]" "respond user_lib demo_http (set_up ?ks setup_new) 5 = onion mws f (cn_set_params user_lib (map_of cps) 5)"
    using T caps path by (auto split: if_splits simp del: tokens.simps)
  have "mws = [?mw]" "cps = [(''id'', ''42'')]" "f = ?h"
    using r(1-3) caps by (auto split: if_splits simp del: tokens.simps)
  then show ?thesis
    using r(4) by (simp add: error_handler_middleware_def error_handler_fn_def ctx_json_def set_body_as_def ctx_status_def)
qed

end
