(* ===== verification/ServerRuns.thy ===== *)
theory ServerRuns
  imports Prelude
begin

text \<open>
  Start and shutdown of \<open>Server\<close> (\<open>Wan/Web/Server/Server.hpp\<close>) as interleaved tasks: the accept coroutine \<open>Run\<close>,
  one coroutine per connection, the drain timer, the handlers posted to the accept strand, and any
  number of threads that call \<open>Start\<close>, \<open>Wait\<close>, \<open>BeginGracefulStop\<close> and \<open>ForceStop\<close>.  A task is a stack
  of frames, a frame names the next critical section or suspension point, and the accesses to the
  atomic connection count are steps of their own.  Sockets, executor and timer are reduced to whether
  the acceptor listens, whether the executor runs or was stopped, and whether the timer is awaited;
  what the environment decides is the choice of a step.  \<open>Wait\<close> is called after \<open>Start\<close>.  The executor
  (\<open>Executors\<close> has its details) can refuse to run, fail while it creates its workers, or fail in a
  worker, and stops itself then.  The frames of the executor may go on after it was stopped: a handler that runs is
  not interrupted, and what is left is run by \<open>DrainStopped\<close>, which returns when none of them is left.
  Which sockets the registry closes does not matter here, since a connection may end at any time.
\<close>

section \<open>State\<close>

record server =
  sv_max :: "64 word"
  sv_started :: bool
  sv_start_complete :: bool
  sv_stopping :: bool
  sv_run_complete :: bool
  sv_force :: bool
  sv_drain_active :: bool
  sv_acceptor :: bool
  sv_listening :: bool
  sv_timer :: bool
  sv_start_failure :: "exn option"
  sv_run_failure :: "exn option"
  sv_active :: "64 word"
  sv_spawned :: bool
  sv_running :: bool
  sv_launching :: bool
  sv_exec_stopped :: bool
  sv_exec_failed :: bool
  sv_joined :: bool
  sv_wait_held :: bool

definition server_new :: "64 word \<Rightarrow> server" where
  "server_new m = \<lparr>sv_max = m, sv_started = False, sv_start_complete = False, sv_stopping = False, sv_run_complete = False,
     sv_force = False, sv_drain_active = False, sv_acceptor = False, sv_listening = False, sv_timer = False,
     sv_start_failure = None, sv_run_failure = None, sv_active = 0, sv_spawned = False, sv_running = False,
     sv_launching = False, sv_exec_stopped = False, sv_exec_failed = False, sv_joined = False, sv_wait_held = False\<rparr>"

datatype sv_frame =
    AcOpen | AcPublish | AcStartup | AcAccept | AcError bool | AcGot | AcOption | AcLoad | AcCas "64 word" | AcRecheck
  | AcLaunch | AcRelease exn | AcMark | AcCatch exn
  | CnRun | CnRelease
  | MfCheck | MfCancel | MfStop
  | DrStart | DrWait | DrWoken bool | DrComplete
  | PoCancel | PoClose
  | FsLock | Effects bool bool
  | BgGuard | BgLock | BgEffects bool bool | BgSpawn
  | StLock | StSpawn | StRun | StLaunch | StAwait
  | WtEnter bool | WtJoin bool | WtMark bool | WtDrain bool | WtReset

datatype call = CallForceStop | CallGracefulStop | CallWait

datatype choice = Go | Fails exn | Other | Calls call

text \<open>The flag of the frames of \<open>Wait\<close>: whether a worker of the executor calls it.\<close>

fun call_frame :: "bool \<Rightarrow> call \<Rightarrow> sv_frame" where
  "call_frame w CallForceStop = FsLock"
| "call_frame w CallGracefulStop = BgGuard"
| "call_frame w CallWait = WtEnter w"

abbreviation stopped_early :: exn where
  "stopped_early \<equiv> LogicError ''server stopped during startup''"

section \<open>Critical sections\<close>

definition publish_acceptor :: "server \<Rightarrow> server" where
  "publish_acceptor s =
     (if sv_stopping s then s\<lparr>sv_start_failure := Some stopped_early, sv_start_complete := True\<rparr>
      else s\<lparr>sv_acceptor := True, sv_start_complete := True\<rparr>)"

text \<open>The result of an attempt: \<open>None\<close> when the limit is reached.\<close>

definition cas_next :: "server \<Rightarrow> sv_frame" where
  "cas_next s = (if sv_active s < sv_max s then AcCas (sv_active s) else AcAccept)"

definition run_failed :: "exn \<Rightarrow> server \<Rightarrow> server \<times> sv_frame list" where
  "run_failed e s =
     ((if \<not> sv_start_complete s then s\<lparr>sv_start_failure := Some e, sv_start_complete := True\<rparr>
       else if \<not> sv_stopping s then s\<lparr>sv_run_failure := Some e\<rparr> else s)
      \<lparr>sv_stopping := True, sv_force := True, sv_acceptor := False, sv_run_complete := True\<rparr>,
      [Effects (sv_timer s) (sv_acceptor s)])"

definition force_stop :: "server \<Rightarrow> server \<times> sv_frame list" where
  "force_stop s =
     (if \<not> sv_started s then (s, [])
      else ((if \<not> sv_start_complete s then s\<lparr>sv_start_failure := Some stopped_early, sv_start_complete := True\<rparr> else s)
              \<lparr>sv_stopping := True, sv_force := True, sv_acceptor := False\<rparr>,
            [Effects (sv_timer s) (sv_acceptor s)]))"

definition begin_graceful_stop :: "server \<Rightarrow> server \<times> sv_frame list" where
  "begin_graceful_stop s =
     (if \<not> sv_started s \<or> sv_stopping s then (s, [])
      else let busy = sv_active s > 0;
               s1 = (if busy then s\<lparr>sv_timer := True, sv_drain_active := True\<rparr> else s);
               s2 = (if \<not> sv_start_complete s then s1\<lparr>sv_start_failure := Some stopped_early, sv_start_complete := True\<rparr> else s1)
           in (s2\<lparr>sv_stopping := True\<rparr>, [BgEffects (sv_acceptor s) busy]))"

definition maybe_finish :: "server \<Rightarrow> sv_frame list" where
  "maybe_finish s =
     (let drained = sv_stopping s \<and> sv_run_complete s \<and> sv_active s = 0 in
      if drained \<and> sv_drain_active s then (if sv_timer s then [MfCancel] else [])
      else if drained then [MfStop] else [])"

definition complete_drain_timer :: "server \<Rightarrow> server" where
  "complete_drain_timer s = s\<lparr>sv_timer := False, sv_drain_active := False\<rparr>"

text \<open>The executor after a failure to create its workers, and after the failure of one of them: it stops itself.\<close>

definition launch_failed :: "server \<Rightarrow> server" where
  "launch_failed s = s\<lparr>sv_launching := False, sv_exec_stopped := True, sv_exec_failed := True, sv_joined := True\<rparr>"

definition worker_failed :: "server \<Rightarrow> server" where
  "worker_failed s = s\<lparr>sv_exec_stopped := True, sv_exec_failed := True\<rparr>"

definition start_reset :: "server \<Rightarrow> server" where
  "start_reset s = s\<lparr>sv_started := True, sv_start_complete := False, sv_stopping := False, sv_run_complete := False,
     sv_force := False, sv_drain_active := False, sv_timer := False, sv_start_failure := None, sv_run_failure := None\<rparr>"

text \<open>In \<open>Wait\<close>, after joining: the acceptor is closed by the waiting thread itself.\<close>

definition wait_mark :: "server \<Rightarrow> server" where
  "wait_mark s = s\<lparr>sv_stopping := True, sv_force := True, sv_acceptor := False,
     sv_listening := sv_listening s \<and> \<not> sv_acceptor s\<rparr>"

text \<open>What is dispatched to the accept strand: the cancellation of the timer, the closing of the acceptor.\<close>

definition posted :: "bool \<Rightarrow> bool \<Rightarrow> sv_frame list list" where
  "posted t a = (if t then [[PoCancel]] else []) @ (if a then [[PoClose]] else [])"

section \<open>Steps\<close>

text \<open>
  What the top frame of a task does under a choice: the new state, the frames that replace it and
  the tasks it creates, or nothing when it cannot proceed.  \<open>hw\<close> says whether handlers may call \<open>Wait\<close>.
\<close>

fun sv_step :: "bool \<Rightarrow> choice \<Rightarrow> sv_frame \<Rightarrow> server \<Rightarrow> (server \<times> sv_frame list \<times> sv_frame list list) option" where
  "sv_step hw c AcOpen s =
     (case c of Go \<Rightarrow> Some (s\<lparr>sv_listening := True\<rparr>, [AcPublish], []) | Fails e \<Rightarrow> Some (s, [AcCatch e], []) | _ \<Rightarrow> None)"
| "sv_step hw c AcPublish s = (case c of Go \<Rightarrow> Some (publish_acceptor s, [AcStartup], []) | _ \<Rightarrow> None)"
| "sv_step hw c AcStartup s =
     (case c of Go \<Rightarrow> (if sv_stopping s then Some (s\<lparr>sv_listening := False\<rparr>, [AcMark], []) else Some (s, [AcAccept], [])) | _ \<Rightarrow> None)"
| "sv_step hw c AcAccept s =
     (case c of
        Go \<Rightarrow> (if sv_listening s then None else Some (s, [AcError True], []))
      | Fails e \<Rightarrow> Some (s, [AcError False], [])
      | Other \<Rightarrow> (if sv_listening s then Some (s, [AcGot], []) else None)
      | _ \<Rightarrow> None)"
| "sv_step hw c (AcError aborted) s =
     (case c of Go \<Rightarrow> Some (s, [if sv_stopping s \<or> aborted then AcMark else AcAccept], []) | _ \<Rightarrow> None)"
| "sv_step hw c AcGot s = (case c of Go \<Rightarrow> Some (s, [if sv_stopping s then AcMark else AcOption], []) | _ \<Rightarrow> None)"
| "sv_step hw c AcOption s =
     (case c of Go \<Rightarrow> Some (s, [AcLoad], []) | Fails e \<Rightarrow> Some (s, [AcAccept], []) | _ \<Rightarrow> None)"
| "sv_step hw c AcLoad s = (case c of Go \<Rightarrow> Some (s, [cas_next s], []) | _ \<Rightarrow> None)"
| "sv_step hw c (AcCas cur) s =
     (case c of
        Go \<Rightarrow> (if sv_active s = cur then Some (s\<lparr>sv_active := cur + 1\<rparr>, [AcRecheck], []) else Some (s, [cas_next s], []))
      | Other \<Rightarrow> Some (s, [cas_next s], [])
      | _ \<Rightarrow> None)"
| "sv_step hw c AcRecheck s =
     (case c of Go \<Rightarrow> (if sv_stopping s then Some (s\<lparr>sv_active := sv_active s - 1\<rparr>, [AcMark], []) else Some (s, [AcLaunch], [])) | _ \<Rightarrow> None)"
| "sv_step hw c AcLaunch s =
     (case c of
        Go \<Rightarrow> Some (s, [AcAccept], [[CnRun]])
      | Fails e \<Rightarrow> Some (s, [AcRelease e], [])
      | Other \<Rightarrow> Some (s\<lparr>sv_active := sv_active s - 1\<rparr>, [AcAccept], [])
      | _ \<Rightarrow> None)"
| "sv_step hw c (AcRelease e) s = (case c of Go \<Rightarrow> Some (s\<lparr>sv_active := sv_active s - 1\<rparr>, [AcCatch e], []) | _ \<Rightarrow> None)"
| "sv_step hw c AcMark s = (case c of Go \<Rightarrow> Some (s\<lparr>sv_run_complete := True\<rparr>, [MfCheck], []) | _ \<Rightarrow> None)"
| "sv_step hw c (AcCatch e) s = (case c of Go \<Rightarrow> (case run_failed e s of (s, fs) \<Rightarrow> Some (s, fs, [])) | _ \<Rightarrow> None)"
| "sv_step hw c CnRun s =
     (case c of
        Go \<Rightarrow> Some (s, [CnRelease], [])
      | Calls f \<Rightarrow> (if f = CallWait \<and> \<not> hw then None else Some (s, [call_frame True f, CnRun], []))
      | _ \<Rightarrow> None)"
| "sv_step hw c CnRelease s = (case c of Go \<Rightarrow> Some (s\<lparr>sv_active := sv_active s - 1\<rparr>, [MfCheck], []) | _ \<Rightarrow> None)"
| "sv_step hw c MfCheck s = (case c of Go \<Rightarrow> Some (s, maybe_finish s, []) | _ \<Rightarrow> None)"
| "sv_step hw c MfCancel s = (case c of Go \<Rightarrow> Some (s, [], [[PoCancel]]) | _ \<Rightarrow> None)"
| "sv_step hw c MfStop s = (case c of Go \<Rightarrow> Some (s\<lparr>sv_exec_stopped := True\<rparr>, [], []) | _ \<Rightarrow> None)"
| "sv_step hw c DrStart s =
     (case c of Go \<Rightarrow> Some (s, [if sv_force s then DrComplete else DrWait], []) | _ \<Rightarrow> None)"
| "sv_step hw c DrWait s = (case c of Go \<Rightarrow> Some (s, [DrWoken False], []) | _ \<Rightarrow> None)"
| "sv_step hw c (DrWoken cancelled) s =
     (case c of Go \<Rightarrow> Some (s, if \<not> cancelled \<and> \<not> sv_force s then [FsLock, DrComplete] else [DrComplete], []) | _ \<Rightarrow> None)"
| "sv_step hw c DrComplete s = (case c of Go \<Rightarrow> Some (complete_drain_timer s, [MfCheck], []) | _ \<Rightarrow> None)"
| "sv_step hw c PoCancel s = (case c of Go \<Rightarrow> Some (s, [], []) | _ \<Rightarrow> None)"
| "sv_step hw c PoClose s = (case c of Go \<Rightarrow> Some (s\<lparr>sv_listening := False\<rparr>, [], []) | _ \<Rightarrow> None)"
| "sv_step hw c FsLock s = (case c of Go \<Rightarrow> (case force_stop s of (s, fs) \<Rightarrow> Some (s, fs, [])) | _ \<Rightarrow> None)"
| "sv_step hw c (Effects t a) s = (case c of Go \<Rightarrow> Some (s, [MfCheck], posted t a) | _ \<Rightarrow> None)"
| "sv_step hw c BgGuard s =
     (case c of Go \<Rightarrow> Some (s, if \<not> sv_started s \<or> sv_stopping s then [] else [BgLock], []) | Fails e \<Rightarrow> Some (s, [], []) | _ \<Rightarrow> None)"
| "sv_step hw c BgLock s = (case c of Go \<Rightarrow> (case begin_graceful_stop s of (s, fs) \<Rightarrow> Some (s, fs, [])) | _ \<Rightarrow> None)"
| "sv_step hw c (BgEffects a schedule) s =
     (case c of Go \<Rightarrow> Some (s, [if schedule then BgSpawn else MfCheck], posted False a) | _ \<Rightarrow> None)"
| "sv_step hw c BgSpawn s =
     (case c of Go \<Rightarrow> Some (s, [], [[DrStart]]) | Fails e \<Rightarrow> Some (s, [DrComplete, FsLock], []) | _ \<Rightarrow> None)"
| "sv_step hw c StLock s =
     (if sv_started s then (case c of Go \<Rightarrow> Some (s, [], []) | _ \<Rightarrow> None)
      else (case c of Go \<Rightarrow> Some (start_reset s, [StSpawn], []) | Fails e \<Rightarrow> Some (s, [], []) | _ \<Rightarrow> None))"
| "sv_step hw c StSpawn s =
     (case c of
        Go \<Rightarrow> Some (s\<lparr>sv_spawned := True\<rparr>, [StRun], [[AcOpen]])
      | Fails e \<Rightarrow> Some (s, [FsLock, WtEnter False], [])
      | _ \<Rightarrow> None)"
| "sv_step hw c StRun s =
     (if sv_exec_stopped s \<or> sv_joined s then (case c of Go \<Rightarrow> Some (s, [FsLock, WtEnter False], []) | _ \<Rightarrow> None)
      else (case c of
        Go \<Rightarrow> Some (s\<lparr>sv_running := True, sv_launching := True\<rparr>, [StLaunch], [])
      | Fails e \<Rightarrow> Some (launch_failed s, [FsLock, WtEnter False], [])
      | _ \<Rightarrow> None))"
| "sv_step hw c StLaunch s =
     (case c of
        Go \<Rightarrow> Some (s\<lparr>sv_launching := False\<rparr>, [StAwait], [])
      | Fails e \<Rightarrow> Some (launch_failed s, [FsLock, WtEnter False], [])
      | _ \<Rightarrow> None)"
| "sv_step hw c StAwait s =
     (case c of
        Go \<Rightarrow> (if \<not> sv_start_complete s then None
               else Some (s, if sv_start_failure s = None then [] else [FsLock, WtEnter False], []))
      | _ \<Rightarrow> None)"
| "sv_step hw c (WtEnter w) s =
     (case c of
        Go \<Rightarrow> (if sv_wait_held s \<or> \<not> sv_started s \<or> \<not> sv_start_complete s then None
               else Some (s\<lparr>sv_wait_held := True\<rparr>, [WtJoin w], []))
      | _ \<Rightarrow> None)"
| "sv_step hw c (WtJoin w) s =
     (case c of
        Go \<Rightarrow> (if sv_launching s then None
               else if w then Some (s, [WtMark w], [])
               else if sv_exec_stopped s \<or> \<not> sv_running s then Some (s\<lparr>sv_joined := True\<rparr>, [WtMark w], [])
               else None)
      | _ \<Rightarrow> None)"
| "sv_step hw c (WtMark w) s =
     (case c of Go \<Rightarrow> Some (wait_mark s, [WtDrain w], posted (sv_timer s) False) | _ \<Rightarrow> None)"
| "sv_step hw c (WtDrain w) s = (case c of Go \<Rightarrow> Some (s, [WtReset], []) | _ \<Rightarrow> None)"
| "sv_step hw c WtReset s = (case c of Go \<Rightarrow> Some (s\<lparr>sv_active := 0, sv_wait_held := False\<rparr>, [], []) | _ \<Rightarrow> None)"

text \<open>The frames that run on the executor, and only while it runs or is drained.\<close>

fun on_executor :: "sv_frame \<Rightarrow> bool" where
  "on_executor f = (case f of
     AcOpen \<Rightarrow> True | AcPublish \<Rightarrow> True | AcStartup \<Rightarrow> True | AcAccept \<Rightarrow> True | AcError _ \<Rightarrow> True | AcGot \<Rightarrow> True
   | AcOption \<Rightarrow> True | AcLoad \<Rightarrow> True | AcCas _ \<Rightarrow> True | AcRecheck \<Rightarrow> True | AcLaunch \<Rightarrow> True | AcRelease _ \<Rightarrow> True
   | AcMark \<Rightarrow> True | AcCatch _ \<Rightarrow> True | CnRun \<Rightarrow> True | CnRelease \<Rightarrow> True | DrStart \<Rightarrow> True | DrWait \<Rightarrow> True
   | DrWoken _ \<Rightarrow> True | PoCancel \<Rightarrow> True | PoClose \<Rightarrow> True | _ \<Rightarrow> False)"

text \<open>Cancelling the timer wakes the task that awaits it, and is lost when none does.\<close>

fun wake :: "sv_frame list \<Rightarrow> sv_frame list" where
  "wake (DrWait # fs) = DrWoken True # fs"
| "wake fs = fs"

definition in_top :: "sv_frame \<Rightarrow> sv_frame list list \<Rightarrow> bool" where
  "in_top f ts \<longleftrightarrow> f \<in> set (concat ts)"

text \<open>
  The frames of the executor run while it runs or is drained, and \<open>DrainStopped\<close> returns when none is left.
  The \<open>DrainStopped\<close> of a worker throws, since the executor has not been joined.
\<close>

definition on_some_executor :: "sv_frame list list \<Rightarrow> bool" where
  "on_some_executor ts \<longleftrightarrow> list_ex (list_ex on_executor) ts"

definition held_back :: "sv_frame \<Rightarrow> server \<Rightarrow> sv_frame list list \<Rightarrow> bool" where
  "held_back f s ts \<longleftrightarrow> on_executor f \<and> \<not> sv_running s \<and> \<not> in_top (WtDrain False) ts
     \<or> f = WtDrain False \<and> on_some_executor ts"

definition task_step :: "bool \<Rightarrow> nat \<Rightarrow> choice \<Rightarrow> server \<times> sv_frame list list \<Rightarrow> (server \<times> sv_frame list list) option" where
  "task_step hw i c = (\<lambda>(s, ts).
     if length ts \<le> i then None
     else case ts ! i of
       [] \<Rightarrow> None
     | f # rest \<Rightarrow>
         if held_back f s ts then None
         else (case sv_step hw c f s of
             None \<Rightarrow> None
           | Some (s', fs, new) \<Rightarrow>
               (let ts' = ts[i := fs @ rest] @ new in Some (s', if f = PoCancel then map wake ts' else ts'))))"

text \<open>A new caller; \<open>Wait\<close> is called on a started server.\<close>

definition arrive :: "sv_frame \<Rightarrow> server \<times> sv_frame list list \<Rightarrow> (server \<times> sv_frame list list) option" where
  "arrive f = (\<lambda>(s, ts).
     if f \<in> {StLock, FsLock, BgGuard} \<or> f = WtEnter False \<and> sv_started s then Some (s, ts @ [[f]]) else None)"

text \<open>A worker fails, by an exception of something that runs on the executor.\<close>

definition worker_fails :: "server \<times> sv_frame list list \<Rightarrow> (server \<times> sv_frame list list) option" where
  "worker_fails = (\<lambda>(s, ts). if sv_running s \<and> on_some_executor ts then Some (worker_failed s, ts) else None)"

inductive sv_move :: "bool \<Rightarrow> server \<times> sv_frame list list \<Rightarrow> server \<times> sv_frame list list \<Rightarrow> bool" for hw where
  sv_task: "task_step hw i c st = Some st' \<Longrightarrow> sv_move hw st st'"
| sv_arrive: "arrive f st = Some st' \<Longrightarrow> sv_move hw st st'"
| sv_fails: "worker_fails st = Some st' \<Longrightarrow> sv_move hw st st'"

inductive sv_reach :: "bool \<Rightarrow> 64 word \<Rightarrow> server \<times> sv_frame list list \<Rightarrow> bool" for hw m where
  sv_init: "sv_reach hw m (server_new m, [])"
| sv_next: "sv_reach hw m st \<Longrightarrow> sv_move hw st st' \<Longrightarrow> sv_reach hw m st'"

end
