(* ===== verification/ServerRunLaws.thy ===== *)
theory ServerRunLaws
  imports ServerRuns
begin

text \<open>
  What starting and stopping a server promises, as long as no handler calls \<open>Wait\<close>: the connection
  count is exact and within its limit, also when the executor fails, and an executor that does not fail is stopped only
  when the accept loop has ended and no connection is left.  With such a call the count is lost, and the server hangs.
\<close>

section \<open>Weights of frames\<close>

text \<open>The sum of a weight over all frames of all tasks.\<close>

definition total :: "(sv_frame \<Rightarrow> nat) \<Rightarrow> sv_frame list list \<Rightarrow> nat" where
  "total w ts = sum_list (map w (concat ts))"

lemma total_simps [simp]:
  "total w [] = 0" "total w (t # ts) = sum_list (map w t) + total w ts" "total w (ts @ us) = total w ts + total w us"
  by (simp_all add: total_def)

lemma total_update:
  assumes "i < length ts" and "ts ! i = f # rest"
  shows "total w (ts[i := fs @ rest]) + w f = total w ts + sum_list (map w fs)"
proof -
  have ts: "ts = take i ts @ (f # rest) # drop (Suc i) ts"
    using id_take_nth_drop [OF assms(1)] assms(2) by simp
  have "ts[i := fs @ rest] = take i ts @ (fs @ rest) # drop (Suc i) ts"
    using assms(1) by (rule upd_conv_take_nth_drop)
  moreover have "total w ts = total w (take i ts) + (w f + sum_list (map w rest)) + total w (drop (Suc i) ts)"
    by (subst ts) simp
  ultimately show ?thesis
    by simp
qed

text \<open>Waking the timer's task does not change a weight that does not tell the two frames apart.\<close>

lemma total_wake: "w DrWait = w (DrWoken True) \<Longrightarrow> total w (map wake ts) = total w ts"
proof (induction ts)
  case (Cons t ts)
  have "sum_list (map w (wake t)) = sum_list (map w t)"
    using Cons.prems by (cases t rule: wake.cases) auto
  then show ?case
    using Cons by simp
qed simp

text \<open>The weight of the frames and tasks a step puts in place of a frame.\<close>

definition gain :: "(sv_frame \<Rightarrow> nat) \<Rightarrow> sv_frame list \<Rightarrow> sv_frame list list \<Rightarrow> nat" where
  "gain w fs new = sum_list (map w fs) + total w new"

definition steady :: "(sv_frame \<Rightarrow> nat) \<Rightarrow> bool" where
  "steady w \<longleftrightarrow> w DrWait = w (DrWoken True)"

text \<open>What a step of a frame \<open>f\<close>, replaced by \<open>fs\<close> with new tasks, does to every steady weight.\<close>

definition balanced :: "sv_frame \<Rightarrow> sv_frame list \<Rightarrow> sv_frame list list \<Rightarrow> sv_frame list list \<Rightarrow> sv_frame list list \<Rightarrow> bool" where
  "balanced f fs new ts ts' \<longleftrightarrow>
     (\<forall>w. steady w \<longrightarrow> total w ts' + w f = total w ts + gain w fs new \<and> w f \<le> total w ts)"

lemma balancedD:
  "balanced f fs new ts ts' \<Longrightarrow> steady w \<Longrightarrow>
     total w ts' + w f = total w ts + gain w fs new \<and> w f \<le> total w ts"
  by (simp add: balanced_def)

lemma task_step_cases:
  assumes "task_step hw i c (s, ts) = Some (s', ts')"
  obtains f rest fs new where "i < length ts" "ts ! i = f # rest" "sv_step hw c f s = Some (s', fs, new)"
    "\<not> held_back f s ts" "balanced f fs new ts ts'"
    "ts' = (if f = PoCancel then map wake (ts[i := fs @ rest] @ new) else ts[i := fs @ rest] @ new)"
proof -
  obtain f rest where i: "i < length ts" "ts ! i = f # rest" and g: "\<not> held_back f s ts"
    using assms(1) by (auto simp: task_step_def split: if_splits list.splits)
  then obtain fs new where st: "sv_step hw c f s = Some (s', fs, new)"
    and ts': "ts' = (if f = PoCancel then map wake (ts[i := fs @ rest] @ new) else ts[i := fs @ rest] @ new)"
    using assms(1) by (auto simp: task_step_def Let_def split: if_splits option.splits)
  have "balanced f fs new ts ts'"
    unfolding balanced_def
  proof (intro allI impI conjI)
    fix w :: "sv_frame \<Rightarrow> nat"
    assume w: "steady w"
    have "total w ts' = total w (ts[i := fs @ rest] @ new)"
      unfolding ts' using total_wake [of w] w by (simp add: steady_def)
    then show "total w ts' + w f = total w ts + gain w fs new"
      using total_update [OF i, of w fs] by (simp add: gain_def)
    show "w f \<le> total w ts"
      using total_update [OF i, of w "[]"] by simp
  qed
  then show thesis
    using that [OF i st g _ ts'] by blast
qed

section \<open>The weights used\<close>

text \<open>Units of the connection count a frame holds.\<close>

fun units :: "sv_frame \<Rightarrow> nat" where
  "units f = (case f of AcRecheck \<Rightarrow> 1 | AcLaunch \<Rightarrow> 1 | AcRelease _ \<Rightarrow> 1 | CnRun \<Rightarrow> 1 | CnRelease \<Rightarrow> 1 | _ \<Rightarrow> 0)"

text \<open>The accept coroutine, from its creation to the end of its loop.\<close>

fun accepting :: "sv_frame \<Rightarrow> nat" where
  "accepting f = (case f of StSpawn \<Rightarrow> 1 | AcOpen \<Rightarrow> 1 | AcPublish \<Rightarrow> 1 | AcStartup \<Rightarrow> 1 | AcAccept \<Rightarrow> 1 | AcError _ \<Rightarrow> 1
     | AcGot \<Rightarrow> 1 | AcOption \<Rightarrow> 1 | AcLoad \<Rightarrow> 1 | AcCas _ \<Rightarrow> 1 | AcRecheck \<Rightarrow> 1 | AcLaunch \<Rightarrow> 1 | AcRelease _ \<Rightarrow> 1
     | AcMark \<Rightarrow> 1 | AcCatch _ \<Rightarrow> 1 | _ \<Rightarrow> 0)"

text \<open>The accept loop proper.\<close>

fun looping :: "sv_frame \<Rightarrow> nat" where
  "looping f = (case f of AcAccept \<Rightarrow> 1 | AcError _ \<Rightarrow> 1 | AcGot \<Rightarrow> 1 | AcOption \<Rightarrow> 1 | AcLoad \<Rightarrow> 1 | AcCas _ \<Rightarrow> 1
     | AcRecheck \<Rightarrow> 1 | AcLaunch \<Rightarrow> 1 | AcRelease _ \<Rightarrow> 1 | _ \<Rightarrow> 0)"

text \<open>The end of \<open>Wait\<close>, after joining the executor.\<close>

fun waited :: "sv_frame \<Rightarrow> nat" where
  "waited f = (case f of WtMark _ \<Rightarrow> 1 | WtDrain _ \<Rightarrow> 1 | WtReset \<Rightarrow> 1 | _ \<Rightarrow> 0)"

text \<open>The part of it after the stop has been requested.\<close>

fun marked :: "sv_frame \<Rightarrow> nat" where
  "marked f = (case f of WtDrain _ \<Rightarrow> 1 | WtReset \<Rightarrow> 1 | _ \<Rightarrow> 0)"

definition only :: "sv_frame \<Rightarrow> sv_frame \<Rightarrow> nat" where
  "only f g = of_bool (f = g)"

lemma looping_accepting: "total looping ts \<le> total accepting ts"
  unfolding total_def by (rule sum_list_mono) (simp split: sv_frame.splits)

lemma in_top_total: "in_top f ts \<longleftrightarrow> 0 < total (only f) ts"
proof -
  have "0 < sum_list (map (only f) fs) \<longleftrightarrow> f \<in> set fs" for fs
    by (induction fs) (auto simp: only_def)
  then show ?thesis
    by (simp add: in_top_def total_def)
qed


text \<open>Frames of a handler inside \<open>Wait\<close>, and attempts above the limit.\<close>

fun waiting_inside :: "sv_frame \<Rightarrow> nat" where
  "waiting_inside f = (case f of WtEnter w \<Rightarrow> of_bool w | WtJoin w \<Rightarrow> of_bool w | WtMark w \<Rightarrow> of_bool w
     | WtDrain w \<Rightarrow> of_bool w | _ \<Rightarrow> 0)"

definition overbooking :: "64 word \<Rightarrow> sv_frame \<Rightarrow> nat" where
  "overbooking m f = (case f of AcCas cur \<Rightarrow> of_bool (\<not> cur < m) | _ \<Rightarrow> 0)"

lemma steady_weights [simp]:
  "steady units" "steady accepting" "steady looping" "steady waited" "steady marked" "steady (only WtReset)"
  "steady waiting_inside" "steady (overbooking m)" "steady (only MfStop)" "steady (only (WtJoin False))" "steady (only StSpawn)"
  "steady (only AcStartup)" "steady (only (WtDrain False))"
  by (simp_all add: steady_def only_def overbooking_def)

lemmas weights = units.simps accepting.simps looping.simps waited.simps marked.simps
  waiting_inside.simps

section \<open>The invariant\<close>

definition active_ok :: "64 word \<Rightarrow> server \<Rightarrow> sv_frame list list \<Rightarrow> bool" where
  "active_ok m s ts \<longleftrightarrow> sv_max s = m \<and> sv_active s = of_nat (total units ts) \<and> total units ts \<le> unat m \<and>
     total (overbooking m) ts = 0 \<and> total waiting_inside ts = 0"

definition phase_ok :: "server \<Rightarrow> sv_frame list list \<Rightarrow> bool" where
  "phase_ok s ts \<longleftrightarrow> total accepting ts \<le> 1 \<and> (sv_run_complete s \<longrightarrow> total accepting ts = 0 \<and> sv_started s) \<and>
     (0 < total accepting ts \<longrightarrow> sv_started s) \<and> (sv_stopping s \<longrightarrow> sv_started s) \<and> (sv_spawned s \<longrightarrow> sv_started s)"

definition stopped_ok :: "server \<Rightarrow> sv_frame list list \<Rightarrow> bool" where
  "stopped_ok s ts \<longleftrightarrow> 0 < total (only MfStop) ts \<or> sv_exec_stopped s \<and> \<not> sv_exec_failed s \<longrightarrow>
     sv_stopping s \<and> sv_run_complete s \<and> total units ts = 0"

definition wait_ok :: "server \<Rightarrow> sv_frame list list \<Rightarrow> bool" where
  "wait_ok s ts \<longleftrightarrow>
     (0 < total waited ts \<longrightarrow> sv_started s \<and> sv_joined s) \<and> (sv_joined s \<longrightarrow> sv_exec_stopped s \<or> sv_stopping s) \<and> (0 < total marked ts \<longrightarrow> sv_stopping s) \<and>
     (0 < total (only WtReset) ts \<longrightarrow> total units ts = 0 \<and> total looping ts = 0) \<and>
     (sv_start_complete s \<and> \<not> sv_running s \<longrightarrow> sv_stopping s) \<and>
     (\<not> sv_running s \<longrightarrow> total looping ts = 0 \<and> total units ts = 0) \<and>
     (0 < total (only (WtJoin False)) ts \<longrightarrow> sv_started s \<and> sv_start_complete s)"

definition server_ok :: "64 word \<Rightarrow> server \<Rightarrow> sv_frame list list \<Rightarrow> bool" where
  "server_ok m s ts \<longleftrightarrow> active_ok m s ts \<and> phase_ok s ts \<and> stopped_ok s ts \<and> wait_ok s ts"

lemmas step_defs = cas_next_def publish_acceptor_def run_failed_def force_stop_def begin_graceful_stop_def maybe_finish_def
  complete_drain_timer_def start_reset_def posted_def wait_mark_def launch_failed_def

lemmas weight_defs = only_def overbooking_def

lemma choice_induct [case_names Go Fails Other ForceStop GracefulStop Wait]:
  "P Go \<Longrightarrow> (\<And>e. P (Fails e)) \<Longrightarrow> P Other \<Longrightarrow> P (Calls CallForceStop) \<Longrightarrow> P (Calls CallGracefulStop) \<Longrightarrow> P (Calls CallWait) \<Longrightarrow> P c"
  by (cases c; (erule ssubst, rule call.induct)?; simp)

text \<open>What a step of a frame does to the flags, and the weights it adds.\<close>

lemma flags_step:
  assumes "sv_step hw c f s = Some (s', fs, new)"
  shows "sv_max s' = sv_max s" and "sv_started s \<Longrightarrow> sv_started s'" and "sv_started s \<Longrightarrow> sv_stopping s \<Longrightarrow> sv_stopping s'"
    and "sv_started s \<Longrightarrow> sv_run_complete s \<Longrightarrow> sv_run_complete s'"
    and "sv_started s \<Longrightarrow> sv_start_complete s \<Longrightarrow> sv_start_complete s'"
    and "sv_running s \<Longrightarrow> sv_running s'" and "sv_exec_stopped s' \<and> \<not> sv_exec_failed s' \<Longrightarrow> sv_exec_stopped s \<and> \<not> sv_exec_failed s \<or> f = MfStop"
    and "sv_start_complete s' \<Longrightarrow> sv_start_complete s \<or> sv_stopping s' \<or> f = AcPublish"
    and "sv_exec_stopped s \<or> f = MfStop \<Longrightarrow> sv_exec_stopped s'" and "sv_joined s \<Longrightarrow> sv_joined s'"
  using assms by (induct f; induct c rule: choice_induct; auto simp: step_defs Let_def split: if_splits)+

lemma units_gain:
  "sv_step hw c f s = Some (s', fs, new) \<Longrightarrow>
     gain units fs new = units f \<and> sv_active s' = sv_active s \<and> f \<noteq> WtReset \<or>
     f = AcCas (sv_active s) \<and> gain units fs new = 1 \<and> sv_active s' = sv_active s + 1 \<or>
     units f = 1 \<and> gain units fs new = 0 \<and> sv_active s' = sv_active s - 1 \<or>
     f = WtReset \<and> gain units fs new = 0 \<and> sv_active s' = 0"
  by (induct f; induct c rule: choice_induct; auto simp: gain_def step_defs Let_def split: if_splits)

text \<open>The accept coroutine starts once, and no longer exists when its end has been recorded.\<close>

lemma accepting_gain:
  "sv_step hw c f s = Some (s', fs, new) \<Longrightarrow>
     gain accepting fs new \<le> accepting f \<and> sv_run_complete s' = sv_run_complete s \<and> sv_started s' = sv_started s \<or>
     accepting f = 1 \<and> gain accepting fs new = 0 \<and> sv_started s' = sv_started s \<or>
     f = StLock \<and> \<not> sv_started s \<and> sv_started s' \<and> \<not> sv_run_complete s' \<and> gain accepting fs new = 1"
  by (induct f; induct c rule: choice_induct; auto simp: gain_def step_defs Let_def split: if_splits)

lemma stopping_begins:
  "sv_step hw c f s = Some (s', fs, new) \<Longrightarrow> sv_stopping s' \<Longrightarrow> sv_stopping s \<or> sv_started s' \<and> sv_started s \<or> (\<exists>w. f = WtMark w) \<or> accepting f = 1"
  by (induct f; induct c rule: choice_induct; auto simp: step_defs Let_def split: if_splits)

lemma spawned_begins:
  "sv_step hw c f s = Some (s', fs, new) \<Longrightarrow> sv_spawned s' \<Longrightarrow> sv_spawned s \<or> f = StSpawn"
  by (induct f; induct c rule: choice_induct; auto simp: step_defs Let_def split: if_splits)

lemma overbooking_gain:
  "sv_step hw c f s = Some (s', fs, new) \<Longrightarrow> gain (overbooking (sv_max s)) fs new = 0"
  by (induct f; induct c rule: choice_induct; auto simp: gain_def weight_defs step_defs Let_def split: if_splits)

lemma inside_gain:
  "sv_step False c f s = Some (s', fs, new) \<Longrightarrow> gain waiting_inside fs new \<le> waiting_inside f"
  by (induct f; induct c rule: choice_induct; auto simp: gain_def step_defs Let_def split: if_splits)

lemma mf_stop_gain:
  "sv_step hw c f s = Some (s', fs, new) \<Longrightarrow> 0 < gain (only MfStop) fs new \<Longrightarrow>
     f = MfCheck \<and> sv_stopping s \<and> sv_run_complete s \<and> sv_active s = 0"
  by (induct f; induct c rule: choice_induct; auto simp: gain_def weight_defs step_defs Let_def split: if_splits)

lemma waited_gain:
  "sv_step hw c f s = Some (s', fs, new) \<Longrightarrow> gain waited fs new \<le> waited f \<or>
     (\<exists>w. f = WtJoin w \<and> (w \<or> sv_joined s'))"
  by (induct f; induct c rule: choice_induct; auto simp: gain_def step_defs Let_def split: if_splits)

lemma marked_gain:
  "sv_step hw c f s = Some (s', fs, new) \<Longrightarrow> gain marked fs new \<le> marked f \<or> sv_stopping s'"
  by (induct f; induct c rule: choice_induct; auto simp: gain_def step_defs Let_def split: if_splits)

lemma joined_gain:
  "sv_step hw c f s = Some (s', fs, new) \<Longrightarrow> sv_joined s' \<Longrightarrow>
     sv_joined s \<or> sv_exec_stopped s' \<or> f = WtJoin False \<and> \<not> sv_running s"
  by (induct f; induct c rule: choice_induct; auto simp: step_defs Let_def split: if_splits)

lemma reset_gain:
  "sv_step hw c f s = Some (s', fs, new) \<Longrightarrow> gain (only WtReset) fs new = 0 \<or> (\<exists>w. f = WtDrain w)"
  by (induct f; induct c rule: choice_induct; auto simp: gain_def weight_defs step_defs Let_def split: if_splits)

lemma looping_gain:
  "sv_step hw c f s = Some (s', fs, new) \<Longrightarrow> gain looping fs new \<le> looping f \<or> f = AcStartup \<and> \<not> sv_stopping s"
  by (induct f; induct c rule: choice_induct; auto simp: gain_def step_defs Let_def split: if_splits)

lemma join_gain:
  "sv_step hw c f s = Some (s', fs, new) \<Longrightarrow> 0 < gain (only (WtJoin False)) fs new \<Longrightarrow> sv_started s \<and> sv_start_complete s"
  by (induct f; induct c rule: choice_induct; auto simp: gain_def weight_defs step_defs Let_def split: if_splits)

section \<open>Every step keeps the invariant\<close>

lemma active_count: "active_ok m s ts \<Longrightarrow> unat (sv_active s) = total units ts"
proof -
  assume ok: "active_ok m s ts"
  moreover have "unat m < 2 ^ LENGTH(64)"
    by (rule unsigned_less)
  ultimately have "total units ts < 2 ^ 64"
    by (simp add: active_ok_def)
  with ok show ?thesis
    by (simp add: active_ok_def unsigned_of_nat take_bit_nat_eq_self)
qed

lemma active_ok_step:
  assumes st: "sv_step False c f s = Some (s', fs, new)" and b: "balanced f fs new ts ts'" and ok: "active_ok m s ts"
    and drained: "f = WtReset \<Longrightarrow> total units ts = 0"
  shows "active_ok m s' ts'"
proof -
  have m: "sv_max s = m" "sv_max s' = m"
    using ok flags_step(1) [OF st] by (auto simp: active_ok_def)
  have over: "total (overbooking m) ts' = 0" "f = AcCas cur \<Longrightarrow> cur < m" for cur
    using balancedD [OF b, of "overbooking m"] overbooking_gain [OF st] ok m by (auto simp: active_ok_def overbooking_def)
  have inside: "total waiting_inside ts' = 0"
    using balancedD [OF b, of waiting_inside] inside_gain [OF st] ok by (auto simp: active_ok_def)
  have u: "total units ts' + units f = total units ts + gain units fs new" "units f \<le> total units ts"
    using balancedD [OF b, of units] by auto
  have a: "sv_active s = of_nat (total units ts)" and le: "total units ts \<le> unat m"
    using ok by (auto simp: active_ok_def)
  have "sv_active s' = of_nat (total units ts') \<and> total units ts' \<le> unat m"
    using units_gain [OF st]
  proof (elim disjE conjE)
    assume up: "f = AcCas (sv_active s)" "gain units fs new = 1" "sv_active s' = sv_active s + 1"
    then have "total units ts' = Suc (total units ts)"
      using u by simp
    moreover have "total units ts < unat m"
      using over(2) [OF up(1)] active_count [OF ok] by (simp add: word_less_nat_alt)
    ultimately show ?thesis
      using up(3) a by simp
  next
    assume down: "units f = 1" "gain units fs new = 0" "sv_active s' = sv_active s - 1"
    then have "total units ts = Suc (total units ts')"
      using u by simp
    then show ?thesis
      using down(3) a le by simp
  qed (use u a le drained in auto)
  then show ?thesis
    using over(1) inside m by (simp add: active_ok_def)
qed

lemma phase_ok_step:
  assumes st: "sv_step hw c f s = Some (s', fs, new)" and b: "balanced f fs new ts ts'" and ok: "phase_ok s ts"
    and mark: "\<And>w. f = WtMark w \<Longrightarrow> sv_started s"
  shows "phase_ok s' ts'"
proof -
  have "total accepting ts' + accepting f = total accepting ts + gain accepting fs new" "accepting f \<le> total accepting ts"
    using balancedD [OF b, of accepting] by auto
  moreover have "sv_stopping s' \<Longrightarrow> sv_started s'" "sv_spawned s' \<Longrightarrow> sv_started s'"
    using stopping_begins [OF st] spawned_begins [OF st] flags_step(2) [OF st] ok mark calculation(2)
    by (auto simp: phase_ok_def split: if_splits)
  ultimately show ?thesis
    using accepting_gain [OF st] ok by (auto simp: phase_ok_def)
qed

lemma stopped_ok_step:
  assumes st: "sv_step hw c f s = Some (s', fs, new)" and b: "balanced f fs new ts ts'"
    and ok: "stopped_ok s ts" "phase_ok s ts" "active_ok m s ts"
  shows "stopped_ok s' ts'"
  unfolding stopped_ok_def
proof
  assume stop: "0 < total (only MfStop) ts' \<or> sv_exec_stopped s' \<and> \<not> sv_exec_failed s'"
  have now: "sv_stopping s \<and> sv_run_complete s \<and> total units ts = 0"
  proof (cases "0 < gain (only MfStop) fs new")
    case True
    have "total units ts = 0"
      using mf_stop_gain [OF st True] active_count [OF ok(3)] by simp
    then show ?thesis
      using mf_stop_gain [OF st True] by simp
  next
    case False
    then have "0 < total (only MfStop) ts \<or> sv_exec_stopped s \<and> \<not> sv_exec_failed s"
      using stop balancedD [OF b, of "only MfStop"] flags_step(7) [OF st] by (auto simp: only_def)
    then show ?thesis
      using ok(1) by (simp add: stopped_ok_def)
  qed
  have acc: "total accepting ts = 0" and started: "sv_started s"
    using now ok(2) by (auto simp: phase_ok_def)
  have "accepting f = 0" and u: "total units ts' + units f = total units ts + gain units fs new" "units f \<le> total units ts"
    using balancedD [OF b, of accepting] balancedD [OF b, of units] acc by auto
  then have "total units ts' = 0"
    using units_gain [OF st] now by auto
  then show "sv_stopping s' \<and> sv_run_complete s' \<and> total units ts' = 0"
    using flags_step [OF st] now started by simp
qed

text \<open>When no frame of the executor is left there is no unit of the count and no accept loop.\<close>

lemma drained_total:
  assumes "\<not> on_some_executor ts"
  shows "total units ts = 0" and "total looping ts = 0"
proof -
  have "\<not> on_executor f" if "f \<in> set (concat ts)" for f
    using assms that by (auto simp: on_some_executor_def list_ex_iff)
  moreover have "units f = 0 \<and> looping f = 0" if "\<not> on_executor f" for f
    using that by (cases f) auto
  ultimately show "total units ts = 0" "total looping ts = 0"
    unfolding total_def by (auto simp: sum_list_eq_0_iff simp del: units.simps looping.simps)
qed

text \<open>A thread in \<open>Wait\<close> resets the count only when the executor was drained.\<close>

lemma wait_ok_step:
  assumes st: "sv_step False c f s = Some (s', fs, new)" and b: "balanced f fs new ts ts'" and ok: "server_ok m s ts"
    and ex: "on_executor f \<longrightarrow> sv_running s \<or> 0 < total marked ts" and dr: "f = WtDrain False \<Longrightarrow> \<not> on_some_executor ts"
  shows "wait_ok s' ts'"
proof -
  have w: "wait_ok s ts" and p: "phase_ok s ts" and co: "active_ok m s ts"
    using ok by (auto simp: server_ok_def)
  have u: "total units ts' + units f = total units ts + gain units fs new" "units f \<le> total units ts"
    and l: "total looping ts' + looping f = total looping ts + gain looping fs new" "looping f \<le> total looping ts"
    and wt: "total waited ts' + waited f = total waited ts + gain waited fs new"
    and mk: "total marked ts' + marked f = total marked ts + gain marked fs new"
    and rs: "total (only WtReset) ts' + only WtReset f = total (only WtReset) ts + gain (only WtReset) fs new"
    using balancedD [OF b, of units] balancedD [OF b, of looping] balancedD [OF b, of waited] balancedD [OF b, of marked]
      balancedD [OF b, of "only WtReset"] by auto
  have outside: "\<not> waiting_inside f > 0"
    using balancedD [OF b, of waiting_inside] co by (auto simp: active_ok_def)
  have no_units: "total units ts' = 0" if "total units ts = 0" "total looping ts = 0"
    using units_gain [OF st] u l that by auto
  have no_loop: "total looping ts' = 0" if "total looping ts = 0" "f = AcStartup \<Longrightarrow> sv_stopping s"
    using looping_gain [OF st] l that by auto
  have le: "total (only WtReset) ts \<le> total marked ts"
    unfolding total_def by (rule sum_list_mono) (simp add: only_def)
  have startup: "sv_stopping s" if "f = AcStartup" "\<not> sv_running s"
    using ex w that by (auto simp: wait_ok_def)
  have join: "sv_started s \<and> sv_start_complete s" if "f = WtJoin False"
    using balancedD [OF b, of "only (WtJoin False)"] w that by (auto simp: only_def wait_ok_def)
  have 0: "sv_started s' \<and> sv_joined s'" if "0 < total waited ts'"
  proof (cases "0 < total waited ts")
    case True
    then show ?thesis
      using w flags_step(2,10) [OF st] by (simp add: wait_ok_def)
  next
    case False
    then have "\<not> gain waited fs new \<le> waited f"
      using wt that by linarith
    then obtain j where j: "f = WtJoin j" "j \<or> sv_joined s'"
      using waited_gain [OF st] by blast
    then have "j = False"
      using outside by auto
    then show ?thesis
      using j join flags_step(2) [OF st] by simp
  qed
  have J: "sv_exec_stopped s' \<or> sv_stopping s'" if "sv_joined s'"
  proof -
    have "sv_stopping s \<Longrightarrow> sv_stopping s'"
      using flags_step(3) [OF st] p by (simp add: phase_ok_def)
    moreover have "sv_stopping s" if "f = WtJoin False" "\<not> sv_running s"
      using join that w by (simp add: wait_ok_def)
    ultimately show ?thesis
      using joined_gain [OF st that] w flags_step(9) [OF st] by (auto simp: wait_ok_def)
  qed
  have 1: "sv_stopping s'" if "0 < total marked ts'"
  proof (cases "0 < total marked ts")
    case True
    then show ?thesis
      using w p flags_step(3) [OF st] by (simp add: wait_ok_def phase_ok_def)
  next
    case False
    then show ?thesis
      using marked_gain [OF st] mk that by linarith
  qed
  have r: "total units ts' = 0 \<and> total looping ts' = 0" if "0 < total (only WtReset) ts'"
  proof (cases "0 < total (only WtReset) ts")
    case True
    then have "total units ts = 0" "total looping ts = 0" "sv_stopping s"
      using w le by (auto simp: wait_ok_def)
    then show ?thesis
      using no_units no_loop by blast
  next
    case False
    then have "0 < gain (only WtReset) fs new"
      using rs that by linarith
    then have "\<exists>w. f = WtDrain w"
      using reset_gain [OF st] by auto
    then have f: "f = WtDrain False"
      using outside by auto
    then show ?thesis
      using drained_total [OF dr [OF f]] no_units no_loop by blast
  qed
  have 2: "sv_stopping s'" if "sv_start_complete s'" "\<not> sv_running s'"
  proof -
    have r: "\<not> sv_running s"
      using that(2) flags_step(6) [OF st] by auto
    have "sv_stopping s" if "f = AcPublish"
      using ex w r that by (auto simp: wait_ok_def)
    moreover have "sv_stopping s" if "sv_start_complete s"
      using w r that by (simp add: wait_ok_def)
    moreover have "sv_stopping s'" if "sv_stopping s"
      using flags_step(3) [OF st] p that by (simp add: phase_ok_def)
    ultimately show ?thesis
      using flags_step(8) [OF st that(1)] by blast
  qed
  have 3: "total looping ts' = 0 \<and> total units ts' = 0" if "\<not> sv_running s'"
    using flags_step(6) [OF st] that w no_units no_loop startup by (auto simp: wait_ok_def)
  have 4: "sv_started s' \<and> sv_start_complete s'" if "0 < total (only (WtJoin False)) ts'"
  proof -
    have "sv_started s \<and> sv_start_complete s"
      using join_gain [OF st] balancedD [OF b, of "only (WtJoin False)"] w that by (fastforce simp: wait_ok_def)
    then show ?thesis
      using flags_step(2,5) [OF st] by simp
  qed
  from 0 J 1 r 2 3 4 show ?thesis
    by (simp add: wait_ok_def del: weights)
qed

section \<open>Every reachable state\<close>

lemma server_ok_init: "server_ok m (server_new m) []"
  by (simp add: server_ok_def active_ok_def phase_ok_def stopped_ok_def wait_ok_def server_new_def)

lemma server_ok_task:
  assumes "task_step False i c (s, ts) = Some (s', ts')" and ok: "server_ok m s ts"
  shows "server_ok m s' ts'"
proof -
  obtain f rest fs new where st: "sv_step False c f s = Some (s', fs, new)"
    and ex: "\<not> held_back f s ts" and b: "balanced f fs new ts ts'"
    using assms(1) by (rule task_step_cases)
  have "total (only (WtDrain False)) ts \<le> total marked ts" and reset: "total (only WtReset) ts \<le> total waited ts"
    unfolding total_def by (rule sum_list_mono, force simp: only_def)+
  then have run: "on_executor f \<longrightarrow> sv_running s \<or> 0 < total marked ts" and dr: "f = WtDrain False \<Longrightarrow> \<not> on_some_executor ts"
    using ex by (auto simp: held_back_def in_top_total)
  have w: "wait_ok s ts" and p: "phase_ok s ts" and ok': "active_ok m s ts" "stopped_ok s ts"
    using ok by (auto simp: server_ok_def)
  have "f = WtReset \<Longrightarrow> total units ts = 0" "\<And>w. f = WtMark w \<Longrightarrow> sv_started s"
    using balancedD [OF b, of "only WtReset"] balancedD [OF b, of waited] w by (auto simp: wait_ok_def only_def)
  then show ?thesis
    unfolding server_ok_def
    using active_ok_step [OF st b ok'(1)] phase_ok_step [OF st b p] stopped_ok_step [OF st b ok'(2) p ok'(1)]
      wait_ok_step [OF st b ok run dr]
    by blast
qed

lemma server_ok_fails:
  assumes "worker_fails (s, ts) = Some (s', ts')" and "server_ok m s ts"
  shows "server_ok m s' ts'"
proof -
  have "s' = worker_failed s" "ts' = ts"
    using assms(1) by (auto simp: worker_fails_def split: if_splits)
  then show ?thesis
    using assms(2) by (simp add: server_ok_def active_ok_def phase_ok_def stopped_ok_def wait_ok_def worker_failed_def del: weights)
qed

lemma server_ok_arrive:
  assumes "arrive f (s, ts) = Some (s', ts')" and "server_ok m s ts"
  shows "server_ok m s' ts'"
proof -
  have a: "s' = s" "ts' = ts @ [[f]]" and f: "f \<in> {StLock, FsLock, BgGuard, WtEnter False}"
    using assms(1) by (auto simp: arrive_def split: if_splits)
  have "units f = 0" "accepting f = 0" "looping f = 0" "waited f = 0" "marked f = 0" "only WtReset f = 0" "waiting_inside f = 0" "overbooking m f = 0"
    "only MfStop f = 0" "only (WtJoin False) f = 0"
    using f by (auto simp: weight_defs)
  then show ?thesis
    using assms(2) unfolding a by (simp add: server_ok_def active_ok_def phase_ok_def stopped_ok_def wait_ok_def del: weights)
qed

lemma server_ok_move: "sv_move False (s, ts) (s', ts') \<Longrightarrow> server_ok m s ts \<Longrightarrow> server_ok m s' ts'"
  by (auto elim!: sv_move.cases intro: server_ok_task server_ok_arrive server_ok_fails)

lemma reachable_ok: "sv_reach False m st \<Longrightarrow> case st of (s, ts) \<Rightarrow> server_ok m s ts"
proof (induction rule: sv_reach.induct)
  case sv_init
  show ?case by (simp add: server_ok_init)
next
  case (sv_next st st')
  then show ?case
    by (cases st; cases st') (simp add: server_ok_move)
qed

section \<open>Runs\<close>

fun follow :: "bool \<Rightarrow> (nat \<times> choice + sv_frame) list \<Rightarrow> server \<times> sv_frame list list \<Rightarrow> (server \<times> sv_frame list list) option" where
  "follow hw [] st = Some st"
| "follow hw (Inl (i, c) # as) st = (case task_step hw i c st of None \<Rightarrow> None | Some st \<Rightarrow> follow hw as st)"
| "follow hw (Inr f # as) st = (case arrive f st of None \<Rightarrow> None | Some st \<Rightarrow> follow hw as st)"

lemma follow_reach: "follow hw as st = Some st' \<Longrightarrow> sv_reach hw m st \<Longrightarrow> sv_reach hw m st'"
proof (induction hw as st rule: follow.induct)
  case (2 hw i c as st)
  then show ?case
    by (auto split: option.splits intro: sv_next sv_task)
next
  case (3 hw f as st)
  then show ?case
    by (auto split: option.splits intro: sv_next sv_arrive)
qed simp

definition go :: "nat \<Rightarrow> nat \<times> choice + sv_frame" where
  "go i = Inl (i, Go)"

text \<open>Start, and one connection whose handler runs: task 2.\<close>

definition first_connection :: "(nat \<times> choice + sv_frame) list" where
  "first_connection = [Inr StLock, go 0, go 0, go 0, go 0, go 1, go 1, go 1, go 0, Inl (1, Other), go 1, go 1, go 1, go 1, go 1, go 1]"

definition wait_in_handler :: "(nat \<times> choice + sv_frame) list" where
  "wait_in_handler = first_connection @ Inl (2, Calls CallWait) # map go [2, 2, 2, 2, 2, 2, 2, 2, 1, 1, 1, 1]"

definition slow_stop :: "(nat \<times> choice + sv_frame) list" where
  "slow_stop = first_connection @ Inr BgGuard # map go [3, 3, 3, 4, 1, 1, 1, 1, 2, 2, 2, 2, 5, 3, 6]"

text \<open>\<open>ForceStop\<close> by another thread, to the end of the connection.\<close>

definition clean_stop :: "(nat \<times> choice + sv_frame) list" where
  "clean_stop = first_connection @ Inr FsLock # map go [3, 3, 3, 4, 1, 1, 1, 1, 2, 2, 2, 2]"

lemma first_connection_runs:
  "map_option (\<lambda>(s, ts). (ts, sv_active s, sv_running s)) (follow False first_connection (server_new 10, [])) =
     Some ([[], [AcAccept], [CnRun]], 1, True)"
  by code_simp

lemma clean_stop_runs:
  "map_option (\<lambda>(s, ts). (ts, sv_exec_stopped s, sv_exec_failed s)) (follow False clean_stop (server_new 10, [])) =
     Some ([[], [], [], [], []], True, False)"
  by code_simp

lemma follow_new:
  assumes "map_option g (follow hw as (server_new m, [])) = Some r"
  obtains st where "sv_reach hw m st" and "g st = r"
proof -
  obtain st where f: "follow hw as (server_new m, []) = Some st" and g: "g st = r"
    using assms by (auto simp only: map_option_eq_Some)
  show thesis
    using that [OF follow_reach [OF f sv_init] g] .
qed

lemma slow_stop_runs:
  "map_option (\<lambda>(s, ts). (ts, sv_stopping s, sv_run_complete s, sv_force s, sv_exec_stopped s, sv_active s)) (follow False slow_stop (server_new 10, [])) =
     Some ([[], [], [], [], [], [], [DrWait]], True, True, False, False, 0)"
  by code_simp

section \<open>Safety\<close>

text \<open>
  C1: as long as no handler calls \<open>Wait\<close>, the atomic count is exactly the number of connections accepted
  and not yet released, in every interleaving, and never above the configured limit.
\<close>

theorem server_connections_bounded:
  assumes "sv_reach False m (s, ts)"
  shows "unat (sv_active s) = total units ts \<and> total units ts \<le> unat m"
proof -
  have "active_ok m s ts"
    using reachable_ok [OF assms] by (simp add: server_ok_def)
  then show ?thesis
    using active_count [of m s ts] by (simp add: active_ok_def)
qed

theorem server_connections_bounded_witness:
  "\<exists>s. sv_reach False 10 (s, [[], [AcAccept], [CnRun]]) \<and> unat (sv_active s) = total units [[], [AcAccept], [CnRun]]"
proof -
  obtain st where "sv_reach False 10 st" and "(\<lambda>(s, ts). (ts, sv_active s, sv_running s)) st = ([[], [AcAccept], [CnRun]], 1, True)"
    using first_connection_runs by (rule follow_new)
  then obtain s where r: "sv_reach False 10 (s, [[], [AcAccept], [CnRun]])"
    by (cases st) auto
  from server_connections_bounded [OF this] r show ?thesis
    by blast
qed

text \<open>
  C2: as long as no handler calls \<open>Wait\<close>, and unless the executor stops itself because it could not create its
  workers or one of them failed, it is stopped only when a shutdown was requested, the accept coroutine has ended
  and no connection is left.  In every case, such a failure included, \<open>Wait\<close> resets the count only to the
  value it already has.
\<close>

theorem server_stops_drained:
  assumes "sv_reach False m (s, ts)"
  shows "(sv_exec_stopped s \<and> \<not> sv_exec_failed s \<longrightarrow>
      sv_stopping s \<and> sv_run_complete s \<and> total accepting ts = 0 \<and> total units ts = 0) \<and>
    (in_top WtReset ts \<longrightarrow> sv_active s = 0)"
proof -
  have ok: "active_ok m s ts" "phase_ok s ts" "stopped_ok s ts" "wait_ok s ts"
    using reachable_ok [OF assms] by (auto simp: server_ok_def)
  then have "in_top WtReset ts \<Longrightarrow> total units ts = 0"
    by (auto simp: in_top_total wait_ok_def)
  then show ?thesis
    using ok by (auto simp: stopped_ok_def phase_ok_def active_ok_def)
qed

text \<open>A clean stop, and a worker that fails before any stop was requested: the executor stops all the same.\<close>

theorem server_stops_drained_witness:
  "(\<exists>s. sv_reach False 10 (s, [[], [], [], [], []]) \<and> sv_exec_stopped s \<and> sv_stopping s \<and> sv_run_complete s) \<and>
   (\<exists>s. sv_reach False 10 (s, [[], [AcAccept], [CnRun]]) \<and> sv_exec_stopped s \<and> sv_exec_failed s)"
proof
  obtain st where "sv_reach False 10 st" and "(\<lambda>(s, ts). (ts, sv_exec_stopped s, sv_exec_failed s)) st = ([[], [], [], [], []], True, False)"
    using clean_stop_runs by (rule follow_new)
  then obtain s where r: "sv_reach False 10 (s, [[], [], [], [], []])" "sv_exec_stopped s" "\<not> sv_exec_failed s"
    by (cases st) auto
  from server_stops_drained [OF r(1)] r
  show "\<exists>s. sv_reach False 10 (s, [[], [], [], [], []]) \<and> sv_exec_stopped s \<and> sv_stopping s \<and> sv_run_complete s"
    by blast
next
  obtain st where "sv_reach False 10 st" and "(\<lambda>(s, ts). (ts, sv_active s, sv_running s)) st = ([[], [AcAccept], [CnRun]], 1, True)"
    using first_connection_runs by (rule follow_new)
  then obtain s where r: "sv_reach False 10 (s, [[], [AcAccept], [CnRun]])" "sv_running s"
    by (cases st) auto
  then have "worker_fails (s, [[], [AcAccept], [CnRun]]) = Some (worker_failed s, [[], [AcAccept], [CnRun]])"
    by (simp add: worker_fails_def on_some_executor_def)
  from sv_next [OF r(1) sv_fails [OF this]]
  show "\<exists>s. sv_reach False 10 (s, [[], [AcAccept], [CnRun]]) \<and> sv_exec_stopped s \<and> sv_exec_failed s"
    by (intro exI [of _ "worker_failed s"]) (simp add: worker_failed_def)
qed

text \<open>
  The state a handler that calls \<open>Wait\<close> leaves behind: the count has wrapped around, the acceptor is closed, and only
  calls from outside are left, which cannot change anything.
\<close>

definition outside_calls :: "sv_frame set" where
  "outside_calls = {StLock, FsLock, Effects False False, MfCheck, BgGuard, WtEnter False, WtJoin False}"

definition hung :: "server \<Rightarrow> sv_frame list list \<Rightarrow> bool" where
  "hung s ts \<longleftrightarrow> sv_running s \<and> sv_started s \<and> sv_start_complete s \<and> sv_stopping s \<and> \<not> sv_exec_stopped s \<and>
     sv_active s = - 1 \<and> \<not> sv_acceptor s \<and> \<not> sv_timer s \<and>
     set (concat ts) \<subseteq> outside_calls"

lemma hung_task:
  assumes "task_step hw i c (s, ts) = Some (s', ts')" and ok: "hung s ts"
  shows "hung s' ts'"
proof -
  obtain f rest fs new where i: "i < length ts" "ts ! i = f # rest" and st: "sv_step hw c f s = Some (s', fs, new)"
    and ts': "ts' = (if f = PoCancel then map wake (ts[i := fs @ rest] @ new) else ts[i := fs @ rest] @ new)"
    using assms(1) by (rule task_step_cases)
  have "f # rest \<in> set ts"
    using i nth_mem [OF i(1)] by simp
  then have "set (f # rest) \<subseteq> set (concat ts)"
    unfolding set_concat by blast
  also have "\<dots> \<subseteq> outside_calls"
    using ok by (simp only: hung_def)
  finally have f: "f \<in> outside_calls" and rest: "set rest \<subseteq> outside_calls"
    by simp_all
  have step: "hung s' [] \<and> new = [] \<and> set fs \<subseteq> outside_calls \<and> f \<noteq> PoCancel"
    using f st ok by (auto simp: outside_calls_def hung_def step_defs Let_def split: choice.splits if_splits)
  have calls: "set (concat ts) \<subseteq> outside_calls"
    using ok by (simp only: hung_def)
  have "g \<in> outside_calls" if g: "g \<in> set (concat (ts[i := fs @ rest]))" for g
  proof -
    obtain t where "t \<in> set (ts[i := fs @ rest])" "g \<in> set t"
      using g by auto
    then have "t = fs @ rest \<or> t \<in> set ts"
      using set_update_subset_insert [of ts i "fs @ rest"] by blast
    then show ?thesis
      using \<open>g \<in> set t\<close> step rest calls by auto
  qed
  then have "set (concat ts') \<subseteq> outside_calls"
    using step ts' by (simp only: if_False append_Nil2 subsetI)
  then show ?thesis
    using step by (simp only: hung_def simp_thms)
qed

lemma hung_move: "sv_move hw (s, ts) (s', ts') \<Longrightarrow> hung s ts \<Longrightarrow> hung s' ts'"
proof (erule sv_move.cases)
  fix i c st st'
  assume "(s, ts) = st" "(s', ts') = st'" "task_step hw i c st = Some st'" "hung s ts"
  then show "hung s' ts'"
    using hung_task by blast
next
  fix f st st'
  assume "(s, ts) = st" "(s', ts') = st'" "arrive f st = Some st'" "hung s ts"
  then show "hung s' ts'"
    by (auto simp: arrive_def hung_def split: if_splits) (auto simp: outside_calls_def)
next
  fix st st'
  assume a: "(s, ts) = st" "(s', ts') = st'" "worker_fails st = Some st'" "hung s ts"
  then obtain t f where "t \<in> set ts" "f \<in> set t" "on_executor f"
    by (auto simp: worker_fails_def on_some_executor_def list_ex_iff split: if_splits)
  moreover from this a(4) have "f \<in> outside_calls"
    by (auto simp: hung_def)
  ultimately show "hung s' ts'"
    by (auto simp: outside_calls_def)
qed

lemma hung_later: "rtranclp (sv_move hw) st st' \<Longrightarrow> (case st of (s, ts) \<Rightarrow> hung s ts) \<Longrightarrow> case st' of (s, ts) \<Rightarrow> hung s ts"
proof (induction rule: rtranclp_induct)
  case (step st1 st2)
  then show ?case
    by (cases st1; cases st2) (simp add: hung_move)
qed

lemmas run_defs = go_def task_step_def arrive_def held_back_def in_top_def on_some_executor_def server_new_def

lemma wait_in_handler_runs:
  assumes "0 < m"
  shows "\<exists>s. follow True wait_in_handler (server_new m, []) = Some (s, [[], [], []]) \<and> hung s [[], [], []]"
  using assms
  by (simp add: wait_in_handler_def first_connection_def run_defs step_defs hung_def)

text \<open>
  C4: a handler that calls \<open>Wait\<close> breaks the shutdown for good, whatever the limit of connections is.  Joining fails,
  \<open>Wait\<close> carries on and resets the count, and the end of the connection wraps it around.  From the state this
  leads to, whatever is called later, in any interleaving, the server stays as it is: a stop has been requested, the
  executor runs and is never stopped, the count is the largest number, and no \<open>Wait\<close> ever gets past joining.
\<close>

theorem server_wait_in_handler_hangs:
  assumes "0 < m"
  shows "\<exists>st. sv_reach True m st \<and> (\<forall>s ts. rtranclp (sv_move True) st (s, ts) \<longrightarrow>
    sv_running s \<and> sv_stopping s \<and> \<not> sv_exec_stopped s \<and> sv_active s = - 1 \<and> (\<forall>w. \<not> in_top (WtMark w) ts))"
proof -
  obtain s where s: "follow True wait_in_handler (server_new m, []) = Some (s, [[], [], []])" "hung s [[], [], []]"
    using wait_in_handler_runs [OF assms] by blast
  have "sv_reach True m (s, [[], [], []])"
    using follow_reach [OF s(1) sv_init] .
  moreover have "hung s' ts'" if "rtranclp (sv_move True) (s, [[], [], []]) (s', ts')" for s' ts'
    using hung_later [OF that] s(2) by simp
  ultimately show ?thesis
    by (intro exI [of _ "(s, [[], [], []])"]) (fastforce simp: hung_def in_top_def outside_calls_def)
qed

theorem server_wait_in_handler_hangs_witness:
  "\<exists>st. sv_reach True 10 st \<and> (\<forall>s ts. rtranclp (sv_move True) st (s, ts) \<longrightarrow> \<not> sv_exec_stopped s)"
proof -
  have "(0 :: 64 word) < 10"
    by simp
  from server_wait_in_handler_hangs [OF this] show ?thesis
    by blast
qed

text \<open>
  A connection that ends between the decision for a graceful stop and the start of its timer cancels a timer nobody
  awaits yet.  Everything is drained, and still the executor runs until the whole drain time has passed.
\<close>

theorem server_drained_but_waiting:
  "\<exists>s. sv_reach False 10 (s, [[], [], [], [], [], [], [DrWait]]) \<and> sv_stopping s \<and> sv_run_complete s \<and> sv_active s = 0 \<and>
     \<not> sv_force s \<and> \<not> sv_exec_stopped s"
  by (rule follow_new [OF slow_stop_runs]) auto

end
