(* ===== verification/ServerProgress.thy ===== *)
theory ServerProgress
  imports ServerRunLaws
begin

text \<open>
  A shutdown of the server is never stuck and ends: from the moment a stop is requested until the executor is stopped, some
  task can take its next step without help from a client, and a potential bounds these steps, as long as no handler
  calls \<open>Wait\<close>.
\<close>

section \<open>Weights\<close>











section \<open>What a step adds\<close>











section \<open>Nothing is forgotten\<close>





section \<open>Frames that end their task\<close>






section \<open>Reachable states\<close>












section \<open>The shutdown ends\<close>
















end
