(* ===== verification/Spec2Isabelle.thy ===== *)
theory Spec2Isabelle
  imports Stacks PriorityQueues Blooms Sets RouterLaws Applications ContextLaws AvlLaws TreeCopies ProtocolLaws StringLaws ListLaws
    Executors Registries SessionLaws Middlewares CipherLaws PointerLaws ServerLaws ServerProgress
begin

text \<open>
  A verification development for the Wan library, a C++ header library under \<open>Wan/\<close>: containers and
  smart pointers, checksums, encrypted packets and a message protocol, and a web framework over Boost.

  \<^bold>\<open>How the program is put together.\<close>  The containers build on each other: the stack, the priority
  queue, the hash table and the bit set keep a vector, the queue keeps a list, the Bloom filter a bit
  set, and the maps and sets keep a red-black tree or a hash table.  The network part has the packet
  formats, which use the checksum and byte helpers, and the message protocol, which uses the checksum.
  In the web framework the application owns a server; the server owns the router, the middleware
  chain, the executor that runs all coroutines, and the registry of open connections.  Handlers get a
  context, through which they reach the session store.

  \<^bold>\<open>Theories and sources.\<close>  Where a component has two theories, the first holds the model and the
  second, named Laws, what is proved of it.

  \<^item> Prelude: exceptions as values (\<open>exn\<close>, the exception classes the sources throw), results
    \<open>exn + 'a\<close>, decimal texts, and the list, loop and map lemmas that several components use.
  \<^item> Vectors (\<open>Container/Vector.hpp\<close>): element sequence and capacity; the aliasing of a reference argument
    is the type \<open>vref\<close>.  Stacks (\<open>Stack.hpp\<close>) and PriorityQueues (\<open>Queue.hpp\<close>) are built on it.
  \<^item> Lists, ListLaws (\<open>List.hpp\<close>, and the queue of \<open>Queue.hpp\<close>): nodes and sentinels in a heap with address
    0 as null; every pointer write of the source is a write to that heap.
  \<^item> Strings, StringLaws (\<open>String.hpp\<close>): the cells of the buffer, uninitialised ones included, so that undefined
    behaviour is a value.
  \<^item> Comparators (\<open>Imitate.hpp\<close>), Hashing (\<open>Hash.hpp\<close>), BitSets and HashTables, HashTableLaws and RBTrees, RBTreeLaws
    (\<open>Base.hpp\<close>), Blooms (\<open>Bloom.hpp\<close>), Maps (\<open>Map.hpp\<close>) and Sets (\<open>Set.hpp\<close>).  Tree nodes are reached
    through a cursor, a subtree with the path above it; hash table nodes live at addresses.
  \<^item> BinaryTrees and AvlTrees, with TreeLaws and AvlLaws (\<open>Tree.hpp\<close>); TreeCopies has the copy
    constructors of the three trees, which build linked nodes at fresh addresses.
  \<^item> Pointers, PointerLaws (\<open>Pointer.hpp\<close>): pointer variables, control blocks and the log of deleter calls.
  \<^item> Checksums, Ciphers, CipherLaws (\<open>Network/Crypt/Encryption.hpp\<close>): CRC-32, the byte helpers and the packet
    formats of the symmetric and asymmetric wrappers.
  \<^item> Protocols, ProtocolLaws (\<open>Network/Agreement/Assist.hpp\<close>, \<open>Protocol.hpp\<close>): headers, their text and its parser, and
    messages with their cache and checksum.
  \<^item> Routers, RouterLaws (\<open>Web/Router/Router.hpp\<close>): the radix tree and the router of the verbs.
  \<^item> Contexts, ContextLaws (\<open>Web/Core/Context.hpp\<close>): query strings, cookies and the response setters.
  \<^item> Middlewares (\<open>Web/Middleware\<close>): the chain with its shared index and the built-in middlewares.
  \<^item> Sessions, SessionLaws (\<open>Web/Session/Session.hpp\<close>): the store with its limits, clock and identifiers.
  \<^item> Registries (\<open>Web/Server/ConnectionRegistry.hpp\<close>): open connections under 64-bit identifiers.
  \<^item> Executors (\<open>Web/Core/Executor.hpp\<close>) and Applications (\<open>Web/Application/Application.hpp\<close>): threads as interleaved steps, one
    for each critical section or call that may block.
  \<^item> Metrics (\<open>Web/Core/Metrics.hpp\<close>), Servers and ServerLaws (\<open>Web/Server/Server.hpp\<close>): configuration and the requests
    of a connection; ServerRuns, ServerRunLaws and ServerProgress: start, accept loop and shutdown as
    interleaved tasks, with an executor that may fail to start or lose a worker, what is safe in every interleaving,
    and that a shutdown ends.

  \<^bold>\<open>Interfaces.\<close>  What one component relies on in another is a locale, with the client's lemmas proved
  in it once.  \<open>strict_weak_order\<close> is the contract of every ordered container with its comparator,
  interpreted by the two functors of the library.  \<open>keyed_store\<close> (theory KeyedStores) is the contract of the maps and
  sets with their structure: for every strict weak order the red-black tree is a keyed store (a
  sublocale), and for every hash function the hash table is one (an interpretation).  \<open>bit_store\<close> is what the
  Bloom filter needs of the bit set, \<open>queue_store\<close> what users of a queue may rely on,
  provided by the list, and \<open>back_sequence\<close> what the stack needs of the vector.

  \<^bold>\<open>What the lemmas show.\<close>  For each container an invariant, that every operation keeps it, and that
  the operation is the expected function on the sequence, set or map the object stands for, errors
  included (\<open>vec_ok\<close>, \<open>list_rep\<close>, \<open>str_holds\<close>, \<open>ht_rep\<close>, \<open>rb\<close>, \<open>avl\<close>, \<open>bs_ok\<close>).  For the pointers, exact
  ownership in every run.  For the parsers and formats, round trips and exactly which inputs are
  refused.  For the router, that the backtracking search is the first match in a list of routes.  For
  the middleware chain, that the loop over the shared index is the nested composition.  For the
  session store, its limits and a refinement of the map of the sessions alive.  For the concurrent
  parts, safety in every interleaving, and progress where it holds: an executor is blocked only while it idles, and a
  requested shutdown of the server ends.  For the server as it was set up, which handler inside which
  middlewares answers a request, and what the counters show of a connection.  Some theorems exhibit faults of
  the code: a reachable deadlock of the executor, a server that never stops after a handler called
  \<open>Wait\<close>, a message parser that rejects every text, a cipher identifier outside the
  authentication code, and two string operations that read freed memory.

  \<^bold>\<open>Numbers, bounds and termination.\<close>  Sizes, capacities, counters and hashes that the code keeps in
  64 or 32 bits are words of that width and wrap; sizes of containers whose limit is a parameter
  (\<open>max_size\<close>) are naturals.  Heights of AVL trees are integers, since a tree that overflows one does not fit
  in memory; the indices of the priority queue are 32-bit ints as in the code, and one that overflows gives no value, which cannot
  happen up to two to the power of 30 elements.  Time points of the message headers count nanoseconds.  A read outside a packet is
  an outcome of its own, as are the accesses of a string outside its buffer.  Pointer
  loops that could run for ever on a corrupt structure are partial functions, whose value \<open>None\<close> is
  a loop that does not end; under the invariants the laws give a value.  The other loops are total functions with a
  termination proof.  The nesting of the middleware chain is bounded by fuel, one more than
  the number of middlewares, and the theorem on its termination shows that this is enough.  The shutdown of the server is
  bounded by a potential over the frames of all tasks (\<open>potential\<close>).

  \<^bold>\<open>Parameters.\<close>  Code outside the library is an argument of the definitions that use it: comparators
  and hash functors given by the user, element limits and relocatability of a vector's element
  type, the primitives of Crypto++ (a record of functions), digests, the random generator, the
  readings of the clock, the HTTP message types, and the outcomes of calls of Boost.Asio.  What a result needs of them is a
  hypothesis of the theorem, and its witness gives a concrete instance.

  \<^bold>\<open>Not modelled.\<close>  Exhausted memory, exceptions of element constructors and the clean-up after them; the
  suspension points of coroutines, except where they order steps; JSON conversions, which are calls
  of \<open>boost::json\<close> (\<open>Json/Json.hpp\<close>, \<open>Agreement/Json.hpp\<close>, \<open>Conversion.hpp\<close>); the HTTP message wrappers (\<open>Http.hpp\<close>), transports, thread
  pool, clients and TLS parts, whose members are calls of Boost.Beast, Boost.Asio and OpenSSL; the static
  file server, which works on the file system; the log, which formats and writes files;
  the error categories under \<open>Fault\<close>, which carry texts; diagnostics written to the console.  Of the server the sockets, the HTTP parser, the TLS streams
  and the time limits of reads and writes are left to Boost: a read or a write has an outcome, and the timer may expire.
\<close>

end
